(* ===== verification/Yamq_Prelude.thy ===== *)
theory Yamq_Prelude
  imports Main "HOL-Library.Word" "HOL-Library.Monad_Syntax"
begin

text \<open>
  Shared ground of the development.

  \<^item> The conventions of the model. A C++ operation that may have no defined result is an
    option-valued function: \<open>None\<close> stands for undefined behaviour (a read or write outside an
    array, a null or dangling pointer) or for a loop that never returns. The libraries are
    built with \<^verbatim>\<open>NDEBUG\<close>, so an \<^verbatim>\<open>assert\<close> is not a guard: what the code does when
    the asserted condition is false is part of the model, and that the condition holds is a
    lemma. A call of \<^verbatim>\<open>LOG(FATAL)\<close> ends in \<^verbatim>\<open>abort()\<close> and is the value \<open>Aborted\<close>.
  \<^item> The integer conversions the sources rely on (\<open>cint\<close>, \<open>cshort\<close>, \<open>culong\<close>).
  \<^item> Bounded reads and writes of a byte array (\<open>read_at\<close>, \<open>write_at\<close>), \<^verbatim>\<open>std::find\<close> on a
    character range and the resizing of a \<^verbatim>\<open>std::vector\<close>.
  \<^item> The lemma collections the component theories extend and use.
\<close>

named_theorems cpp_arith \<open>conversions between C++ integer types, in range\<close>

section \<open>Outcomes\<close>

datatype 'a or_abort = Aborted | Done 'a

text \<open>\<open>None\<close> is undefined behaviour and \<open>Aborted\<close> the end of the process; either ends the
  sequence.\<close>

definition and_then :: "'a or_abort option \<Rightarrow> ('a \<Rightarrow> 'b or_abort option) \<Rightarrow> 'b or_abort option" where
  "and_then m f = (case m of None \<Rightarrow> None | Some Aborted \<Rightarrow> Some Aborted | Some (Done x) \<Rightarrow> f x)"

lemma and_then_simps [simp]:
  "and_then None f = None" "and_then (Some Aborted) f = Some Aborted" "and_then (Some (Done x)) f = f x"
  by (simp_all add: and_then_def)

section \<open>Integer conversions\<close>

text \<open>\<open>cint\<close> converts to a 32-bit \<^verbatim>\<open>int\<close>, \<open>cshort\<close> to a 16-bit \<^verbatim>\<open>short\<close>,
  \<open>culong\<close> to a 64-bit unsigned integer (\<^verbatim>\<open>size_t\<close>, \<^verbatim>\<open>uint64_t\<close>).\<close>

definition cint :: "int \<Rightarrow> int" where
  "cint z = signed_take_bit 31 z"

definition cshort :: "int \<Rightarrow> int" where
  "cshort z = signed_take_bit 15 z"

definition culong :: "int \<Rightarrow> int" where
  "culong z = take_bit 64 z"

text \<open>\<open>clong\<close> converts to a 64-bit signed integer (\<^verbatim>\<open>long long\<close>, \<^verbatim>\<open>int64_t\<close>).\<close>

definition clong :: "int \<Rightarrow> int" where
  "clong z = signed_take_bit 63 z"

abbreviation int_max :: int where
  "int_max \<equiv> 2147483647"

section \<open>Byte arrays and ranges\<close>

type_synonym bytes = "char list"

abbreviation CR :: char where "CR \<equiv> CHR 0x0D"
abbreviation LF :: char where "LF \<equiv> CHR 0x0A"

definition read_at :: "'a list \<Rightarrow> int \<Rightarrow> int \<Rightarrow> 'a list option" where
  "read_at xs pos n =
     (if 0 \<le> pos \<and> 0 \<le> n \<and> pos + n \<le> int (length xs)
      then Some (take (nat n) (drop (nat pos) xs)) else None)"

definition write_at :: "'a list \<Rightarrow> int \<Rightarrow> 'a list \<Rightarrow> 'a list option" where
  "write_at xs pos d =
     (if 0 \<le> pos \<and> pos + int (length d) \<le> int (length xs)
      then Some (take (nat pos) xs @ d @ drop (nat pos + length d) xs) else None)"

text \<open>\<^verbatim>\<open>std::vector<char>::resize\<close>: cut, or extended with zero bytes.\<close>

definition vec_resize :: "nat \<Rightarrow> bytes \<Rightarrow> bytes" where
  "vec_resize n xs = take n xs @ replicate (n - length xs) (CHR 0x00)"

text \<open>\<^verbatim>\<open>std::find(first, last, c)\<close> splits a range into what precedes the first \<open>c\<close>
  and what starts with it; the second part is empty exactly if the result is \<open>last\<close>.\<close>

definition find_char :: "char \<Rightarrow> bytes \<Rightarrow> bytes \<times> bytes" where
  "find_char c xs = (takeWhile (\<lambda>x. x \<noteq> c) xs, dropWhile (\<lambda>x. x \<noteq> c) xs)"

section \<open>Lemmas\<close>

lemma cint_id [cpp_arith]: "- int_max - 1 \<le> z \<Longrightarrow> z \<le> int_max \<Longrightarrow> cint z = z"
  by (simp add: cint_def signed_take_bit_int_eq_self)

lemma clong_id [cpp_arith]: "- (2 ^ 63) \<le> z \<Longrightarrow> z < 2 ^ 63 \<Longrightarrow> clong z = z"
  by (simp add: clong_def signed_take_bit_int_eq_self)

lemma culong_id [cpp_arith]: "0 \<le> z \<Longrightarrow> z < 2 ^ 64 \<Longrightarrow> culong z = z"
  by (simp add: culong_def take_bit_int_eq_self)

lemma culong_nonneg [simp]: "0 \<le> culong z"
  by (simp add: culong_def)

lemma cint_wraps: "int_max < z \<Longrightarrow> z < 2 ^ 32 \<Longrightarrow> cint z = z - 2 ^ 32"
proof -
  assume z: "int_max < z" "z < 2 ^ 32"
  have "cint z = signed_take_bit 31 (z - 2 ^ 32)"
    unfolding cint_def by (simp add: signed_take_bit_eq_iff_take_bit_eq take_bit_eq_mod)
  also have "\<dots> = z - 2 ^ 32"
    using z by (intro signed_take_bit_int_eq_self) auto
  finally show ?thesis .
qed

lemma read_at_Some:
  "0 \<le> pos \<Longrightarrow> 0 \<le> n \<Longrightarrow> pos + n \<le> int (length xs) \<Longrightarrow>
     read_at xs pos n = Some (take (nat n) (drop (nat pos) xs))"
  by (simp add: read_at_def)

lemma write_at_Some:
  "0 \<le> pos \<Longrightarrow> pos + int (length d) \<le> int (length xs) \<Longrightarrow>
     write_at xs pos d = Some (take (nat pos) xs @ d @ drop (nat pos + length d) xs)"
  by (simp add: write_at_def)

lemma length_write_at: "write_at xs pos d = Some ys \<Longrightarrow> length ys = length xs"
  by (auto simp: write_at_def split: if_splits)

lemma length_vec_resize [simp]: "length (vec_resize n xs) = n"
  by (simp add: vec_resize_def)

lemma take_vec_resize: "k \<le> n \<Longrightarrow> k \<le> length xs \<Longrightarrow> take k (vec_resize n xs) = take k xs"
  by (simp add: vec_resize_def)

lemma find_char_append [simp]:
  "c \<notin> set xs \<Longrightarrow> find_char c (xs @ c # ys) = (xs, c # ys)"
  by (auto simp: find_char_def takeWhile_append dropWhile_append)

lemma find_char_none [simp]: "c \<notin> set xs \<Longrightarrow> find_char c xs = (xs, [])"
  by (auto simp: find_char_def takeWhile_eq_all_conv)

end
