(* ===== verification/Rbtree_Heap.thy ===== *)
theory Rbtree_Heap
  imports Yamq_Prelude
begin

text \<open>
  The red-black tree of the timer queue (\<^verbatim>\<open>src/base/rbtree/rbtree.h\<close>,
  \<^verbatim>\<open>src/base/rbtree/rbtree.cpp\<close>) as it is written: nodes with left, right and parent
  pointers in a heap, one shared sentinel \<open>nil\<close>, and operations that update the nodes in place.
  The heap is a partial function from addresses to nodes; reading or writing through the null
  pointer or through an address that is not allocated is undefined (\<open>None\<close>). \<^verbatim>\<open>malloc\<close> is a
  parameter: the address it returned and the bytes it found there.
\<close>

section \<open>State\<close>

type_synonym ptr = nat

abbreviation NULL :: ptr where "NULL \<equiv> 0"

definition RBTREE_COL_RED :: int where "RBTREE_COL_RED = 1"
definition RBTREE_COL_BLACK :: int where "RBTREE_COL_BLACK = 2"

record 'v rbtree_node_t =
  left :: ptr
  right :: ptr
  parent :: ptr
  col :: int
  key :: int
  val :: 'v

record 'v rbtree_t =
  mem :: "ptr \<rightharpoonup> 'v rbtree_node_t"
  root :: ptr
  nil :: ptr

section \<open>Reading and writing nodes\<close>

definition load :: "'v rbtree_t \<Rightarrow> ptr \<Rightarrow> 'v rbtree_node_t option" where
  "load s p = (if p = NULL then None else mem s p)"

definition fld :: "('v rbtree_node_t \<Rightarrow> 'a) \<Rightarrow> 'v rbtree_t \<Rightarrow> ptr \<Rightarrow> 'a option" where
  "fld f s p = map_option f (load s p)"

definition upd :: "'v rbtree_t \<Rightarrow> ptr \<Rightarrow> ('v rbtree_node_t \<Rightarrow> 'v rbtree_node_t) \<Rightarrow> 'v rbtree_t option" where
  "upd s p g = (case load s p of None \<Rightarrow> None | Some n \<Rightarrow> Some (s\<lparr>mem := (mem s)(p \<mapsto> g n)\<rparr>))"

definition set_left :: "'v rbtree_t \<Rightarrow> ptr \<Rightarrow> ptr \<Rightarrow> 'v rbtree_t option" where
  "set_left s p x = upd s p (\<lambda>n. n\<lparr>left := x\<rparr>)"

definition set_right :: "'v rbtree_t \<Rightarrow> ptr \<Rightarrow> ptr \<Rightarrow> 'v rbtree_t option" where
  "set_right s p x = upd s p (\<lambda>n. n\<lparr>right := x\<rparr>)"

definition set_parent :: "'v rbtree_t \<Rightarrow> ptr \<Rightarrow> ptr \<Rightarrow> 'v rbtree_t option" where
  "set_parent s p x = upd s p (\<lambda>n. n\<lparr>parent := x\<rparr>)"

definition set_col :: "'v rbtree_t \<Rightarrow> ptr \<Rightarrow> int \<Rightarrow> 'v rbtree_t option" where
  "set_col s p c = upd s p (\<lambda>n. n\<lparr>col := c\<rparr>)"

definition set_data :: "'v rbtree_t \<Rightarrow> ptr \<Rightarrow> int \<Rightarrow> 'v \<Rightarrow> 'v rbtree_t option" where
  "set_data s p k v = upd s p (\<lambda>n. n\<lparr>val := v, key := k\<rparr>)"

section \<open>Rotations\<close>

definition left_rotate :: "'v rbtree_t \<Rightarrow> ptr \<Rightarrow> 'v rbtree_t option" where
  "left_rotate s x =
     do {
       y \<leftarrow> fld right s x;
       (if y = nil s then Some s
        else do {
          yl \<leftarrow> fld left s y;
          s \<leftarrow> set_right s x yl;
          yl \<leftarrow> fld left s y;
          s \<leftarrow> (if yl \<noteq> nil s then set_parent s yl x else Some s);
          xp \<leftarrow> fld parent s x;
          s \<leftarrow> set_parent s y xp;
          yp \<leftarrow> fld parent s y;
          s \<leftarrow> (if yp = nil s then Some (s\<lparr>root := y\<rparr>)
                else do {
                  xp \<leftarrow> fld parent s x;
                  xpl \<leftarrow> fld left s xp;
                  (if x = xpl then set_left s yp y else set_right s yp y)
                });
          s \<leftarrow> set_parent s x y;
          set_left s y x
        })
     }"

definition right_rotate :: "'v rbtree_t \<Rightarrow> ptr \<Rightarrow> 'v rbtree_t option" where
  "right_rotate s x =
     do {
       y \<leftarrow> fld left s x;
       (if y = nil s then Some s
        else do {
          yr \<leftarrow> fld right s y;
          s \<leftarrow> set_left s x yr;
          yr \<leftarrow> fld right s y;
          s \<leftarrow> (if yr \<noteq> nil s then do { xl \<leftarrow> fld left s x; set_parent s xl x } else Some s);
          xp \<leftarrow> fld parent s x;
          s \<leftarrow> set_parent s y xp;
          yp \<leftarrow> fld parent s y;
          s \<leftarrow> (if yp = nil s then Some (s\<lparr>root := y\<rparr>)
                else do {
                  xp \<leftarrow> fld parent s x;
                  xpl \<leftarrow> fld left s xp;
                  (if xpl = x then set_left s yp y else set_right s yp y)
                });
          s \<leftarrow> set_parent s x y;
          set_right s y x
        })
     }"

section \<open>Insertion\<close>

text \<open>One turn of the loop of \<^verbatim>\<open>rbtree_insert_fixup\<close>: the new heap and the new \<open>n\<close>.\<close>

definition insert_fixup_step :: "'v rbtree_t \<Rightarrow> ptr \<Rightarrow> ('v rbtree_t \<times> ptr) option" where
  "insert_fixup_step s n =
     do {
       p \<leftarrow> fld parent s n;
       g \<leftarrow> fld parent s p;
       gl \<leftarrow> fld left s g;
       (if p = gl then do {
          uncle \<leftarrow> fld right s g;
          uc \<leftarrow> fld col s uncle;
          (if uc = RBTREE_COL_RED then do {
             s \<leftarrow> set_col s p RBTREE_COL_BLACK;
             s \<leftarrow> set_col s uncle RBTREE_COL_BLACK;
             s \<leftarrow> set_col s g RBTREE_COL_RED;
             Some (s, g)
           } else do {
             pr \<leftarrow> fld right s p;
             (s, n) \<leftarrow> (if n = pr then do { s \<leftarrow> left_rotate s p; Some (s, p) } else Some (s, n));
             p \<leftarrow> fld parent s n;
             s \<leftarrow> set_col s p RBTREE_COL_BLACK;
             g \<leftarrow> fld parent s p;
             s \<leftarrow> set_col s g RBTREE_COL_RED;
             s \<leftarrow> right_rotate s g;
             Some (s, n)
           })
        } else do {
          uncle \<leftarrow> fld left s g;
          uc \<leftarrow> fld col s uncle;
          (if uc = RBTREE_COL_RED then do {
             s \<leftarrow> set_col s p RBTREE_COL_BLACK;
             s \<leftarrow> set_col s uncle RBTREE_COL_BLACK;
             s \<leftarrow> set_col s g RBTREE_COL_RED;
             Some (s, g)
           } else do {
             pl \<leftarrow> fld left s p;
             (s, n) \<leftarrow> (if n = pl then do { s \<leftarrow> right_rotate s p; Some (s, p) } else Some (s, n));
             p \<leftarrow> fld parent s n;
             s \<leftarrow> set_col s p RBTREE_COL_BLACK;
             g \<leftarrow> fld parent s p;
             s \<leftarrow> set_col s g RBTREE_COL_RED;
             s \<leftarrow> left_rotate s g;
             Some (s, n)
           })
        })
     }"

partial_function (option) insert_fixup_loop :: "'v rbtree_t \<Rightarrow> ptr \<Rightarrow> 'v rbtree_t option" where
  "insert_fixup_loop s n =
     do {
       p \<leftarrow> fld parent s n;
       pc \<leftarrow> fld col s p;
       (if pc = RBTREE_COL_RED
        then do { (s, n) \<leftarrow> insert_fixup_step s n; insert_fixup_loop s n }
        else Some s)
     }"

definition rbtree_insert_fixup :: "'v rbtree_t \<Rightarrow> ptr \<Rightarrow> 'v rbtree_t option" where
  "rbtree_insert_fixup s n =
     do { s \<leftarrow> insert_fixup_loop s n; set_col s (root s) RBTREE_COL_BLACK }"

text \<open>The search of \<^verbatim>\<open>_rbtree_insert_node\<close>: \<open>None\<close> inside the result is "key is exist",
  otherwise the last node visited.\<close>

partial_function (option) insert_search ::
    "'v rbtree_t \<Rightarrow> int \<Rightarrow> ptr \<Rightarrow> ptr \<Rightarrow> ptr option option" where
  "insert_search s k x p =
     (if x = nil s then Some (Some p)
      else do {
        xk \<leftarrow> fld key s x;
        (if k < xk then do { l \<leftarrow> fld left s x; insert_search s k l x }
         else if xk < k then do { r \<leftarrow> fld right s x; insert_search s k r x }
         else Some None)
      })"

definition rbtree_insert_node :: "'v rbtree_t \<Rightarrow> ptr \<Rightarrow> 'v rbtree_t option" where
  "rbtree_insert_node s n =
     do {
       k \<leftarrow> fld key s n;
       found \<leftarrow> insert_search s k (root s) (root s);
       (case found of
          None \<Rightarrow> Some s
        | Some p \<Rightarrow> do {
            s \<leftarrow> set_parent s n p;
            s \<leftarrow> (if p = nil s then Some (s\<lparr>root := n\<rparr>)
                  else do {
                    pk \<leftarrow> fld key s p;
                    (if k < pk then set_left s p n else set_right s p n)
                  });
            s \<leftarrow> set_right s n (nil s);
            s \<leftarrow> set_left s n (nil s);
            s \<leftarrow> set_col s n RBTREE_COL_RED;
            rbtree_insert_fixup s n
          })
     }"

text \<open>\<open>a\<close> is the address \<^verbatim>\<open>malloc\<close> returned and \<open>junk\<close> what the fresh node holds; a null result
  is dereferenced by the code.\<close>

definition rbtree_insert ::
    "'v rbtree_t \<Rightarrow> ptr \<Rightarrow> 'v rbtree_node_t \<Rightarrow> int \<Rightarrow> 'v \<Rightarrow> (ptr \<times> 'v rbtree_t) option" where
  "rbtree_insert s a junk k data =
     (if a = NULL then None
      else do {
        s \<leftarrow> rbtree_insert_node (s\<lparr>mem := (mem s)(a \<mapsto> junk\<lparr>key := k, val := data\<rparr>)\<rparr>) a;
        Some (a, s)
      })"

definition rbtree_create :: "ptr \<Rightarrow> 'v rbtree_node_t \<Rightarrow> 'v rbtree_t" where
  "rbtree_create a junk =
     \<lparr>mem = [a \<mapsto> junk\<lparr>left := NULL, right := NULL, parent := NULL, col := RBTREE_COL_BLACK\<rparr>],
      root = a, nil = a\<rparr>"

section \<open>Minimum, maximum, successor\<close>

partial_function (option) min_loop :: "'v rbtree_t \<Rightarrow> ptr \<Rightarrow> ptr \<Rightarrow> ptr option" where
  "min_loop s x m = (if x = nil s then Some m else do { l \<leftarrow> fld left s x; min_loop s l x })"

definition rbtree_min :: "'v rbtree_t \<Rightarrow> ptr option" where
  "rbtree_min s = min_loop s (root s) (root s)"

partial_function (option) max_loop :: "'v rbtree_t \<Rightarrow> ptr \<Rightarrow> ptr \<Rightarrow> ptr option" where
  "max_loop s x m = (if x = nil s then Some m else do { r \<leftarrow> fld right s x; max_loop s r x })"

definition rbtree_max :: "'v rbtree_t \<Rightarrow> ptr option" where
  "rbtree_max s = max_loop s (root s) (root s)"

partial_function (option) climb_loop :: "'v rbtree_t \<Rightarrow> ptr \<Rightarrow> ptr \<Rightarrow> ptr option" where
  "climb_loop s p x =
     (if p = root s then Some p
      else do {
        pr \<leftarrow> fld right s p;
        (if pr = x then do { pp \<leftarrow> fld parent s p; climb_loop s pp p } else Some p)
      })"

definition rbtree_successor :: "'v rbtree_t \<Rightarrow> ptr \<Rightarrow> ptr option" where
  "rbtree_successor s n =
     (if n = nil s then Some NULL
      else do {
        r \<leftarrow> fld right s n;
        (if r \<noteq> nil s then min_loop s r r
         else do { p \<leftarrow> fld parent s n; climb_loop s p n })
      })"

section \<open>Deletion\<close>

text \<open>One turn of the loop of \<^verbatim>\<open>rbtree_del_fixup\<close>: the new heap and the new \<open>x\<close>. The second
  half is not the mirror image of the first: its last recolouring writes \<^verbatim>\<open>w->right\<close> again.
  The functions ending in \<open>black\<close> are what follows once the sibling \<open>w\<close> is black.\<close>

definition del_fixup_left_black :: "'v rbtree_t \<Rightarrow> ptr \<Rightarrow> ptr \<Rightarrow> ('v rbtree_t \<times> ptr) option" where
  "del_fixup_left_black s x w =
     do {
       wl \<leftarrow> fld left s w;
       wlc \<leftarrow> fld col s wl;
       wr \<leftarrow> fld right s w;
       wrc \<leftarrow> fld col s wr;
       (if wlc = RBTREE_COL_BLACK \<and> wrc = RBTREE_COL_BLACK then do {
          s \<leftarrow> set_col s w RBTREE_COL_RED;
          xp \<leftarrow> fld parent s x;
          Some (s, xp)
        } else do {
          (s, w) \<leftarrow> (if wrc = RBTREE_COL_BLACK then do {
              s \<leftarrow> set_col s wl RBTREE_COL_BLACK;
              s \<leftarrow> set_col s w RBTREE_COL_RED;
              s \<leftarrow> right_rotate s w;
              xp \<leftarrow> fld parent s x;
              w \<leftarrow> fld right s xp;
              Some (s, w)
            } else Some (s, w));
          xp \<leftarrow> fld parent s x;
          xpc \<leftarrow> fld col s xp;
          s \<leftarrow> set_col s w xpc;
          s \<leftarrow> set_col s xp RBTREE_COL_BLACK;
          wr \<leftarrow> fld right s w;
          s \<leftarrow> set_col s wr RBTREE_COL_BLACK;
          s \<leftarrow> left_rotate s xp;
          Some (s, root s)
        })
     }"

definition del_fixup_left :: "'v rbtree_t \<Rightarrow> ptr \<Rightarrow> ptr \<Rightarrow> ('v rbtree_t \<times> ptr) option" where
  "del_fixup_left s x p =
     do {
       w \<leftarrow> fld right s p;
       wc \<leftarrow> fld col s w;
       (s, w) \<leftarrow> (if wc = RBTREE_COL_RED then do {
           s \<leftarrow> set_col s w RBTREE_COL_BLACK;
           s \<leftarrow> set_col s p RBTREE_COL_RED;
           s \<leftarrow> left_rotate s p;
           xp \<leftarrow> fld parent s x;
           w \<leftarrow> fld right s xp;
           Some (s, w)
         } else Some (s, w));
       del_fixup_left_black s x w
     }"

definition del_fixup_right_black :: "'v rbtree_t \<Rightarrow> ptr \<Rightarrow> ptr \<Rightarrow> ('v rbtree_t \<times> ptr) option" where
  "del_fixup_right_black s x w =
     do {
       wl \<leftarrow> fld left s w;
       wlc \<leftarrow> fld col s wl;
       wr \<leftarrow> fld right s w;
       wrc \<leftarrow> fld col s wr;
       (if wlc = RBTREE_COL_BLACK \<and> wrc = RBTREE_COL_BLACK then do {
          s \<leftarrow> set_col s w RBTREE_COL_RED;
          xp \<leftarrow> fld parent s x;
          Some (s, xp)
        } else do {
          (s, w) \<leftarrow> (if wlc = RBTREE_COL_BLACK then do {
              s \<leftarrow> set_col s wr RBTREE_COL_BLACK;
              s \<leftarrow> set_col s w RBTREE_COL_RED;
              s \<leftarrow> left_rotate s w;
              xp \<leftarrow> fld parent s x;
              w \<leftarrow> fld left s xp;
              Some (s, w)
            } else Some (s, w));
          xp \<leftarrow> fld parent s x;
          xpc \<leftarrow> fld col s xp;
          s \<leftarrow> set_col s w xpc;
          s \<leftarrow> set_col s xp RBTREE_COL_BLACK;
          wr \<leftarrow> fld right s w;
          s \<leftarrow> set_col s wr RBTREE_COL_BLACK;
          s \<leftarrow> right_rotate s xp;
          Some (s, root s)
        })
     }"

definition del_fixup_right :: "'v rbtree_t \<Rightarrow> ptr \<Rightarrow> ptr \<Rightarrow> ('v rbtree_t \<times> ptr) option" where
  "del_fixup_right s x p =
     do {
       w \<leftarrow> fld left s p;
       wc \<leftarrow> fld col s w;
       (s, w) \<leftarrow> (if wc = RBTREE_COL_RED then do {
           s \<leftarrow> set_col s w RBTREE_COL_BLACK;
           s \<leftarrow> set_col s p RBTREE_COL_RED;
           s \<leftarrow> right_rotate s p;
           xp \<leftarrow> fld parent s x;
           w \<leftarrow> fld left s xp;
           Some (s, w)
         } else Some (s, w));
       del_fixup_right_black s x w
     }"

partial_function (option) del_fixup_loop :: "'v rbtree_t \<Rightarrow> ptr \<Rightarrow> ('v rbtree_t \<times> ptr) option" where
  "del_fixup_loop s x =
     (if x = root s then Some (s, x)
      else do {
        xc \<leftarrow> fld col s x;
        (if xc \<noteq> RBTREE_COL_BLACK then Some (s, x)
         else do {
           p \<leftarrow> fld parent s x;
           pl \<leftarrow> fld left s p;
           (s, x) \<leftarrow> (if x = pl then del_fixup_left s x p else del_fixup_right s x p);
           del_fixup_loop s x
         })
      })"

definition rbtree_del_fixup :: "'v rbtree_t \<Rightarrow> ptr \<Rightarrow> 'v rbtree_t option" where
  "rbtree_del_fixup s x =
     do { (s, x) \<leftarrow> del_fixup_loop s x; set_col s x RBTREE_COL_BLACK }"

text \<open>The leftmost node below \<open>y\<close>.\<close>

partial_function (option) leftmost_loop :: "'v rbtree_t \<Rightarrow> ptr \<Rightarrow> ptr option" where
  "leftmost_loop s y =
     do { l \<leftarrow> fld left s y; (if l = nil s then Some y else leftmost_loop s l) }"

definition free_node :: "'v rbtree_t \<Rightarrow> ptr \<Rightarrow> 'v rbtree_t" where
  "free_node s y = s\<lparr>mem := (mem s)(y := None)\<rparr>"

text \<open>Unlinking \<open>y\<close>, which has at most one child, and repairing the colours.\<close>

definition splice_out :: "'v rbtree_t \<Rightarrow> ptr \<Rightarrow> 'v rbtree_t option" where
  "splice_out s y =
     do {
       yl \<leftarrow> fld left s y;
       x \<leftarrow> (if yl \<noteq> nil s then Some yl else fld right s y);
       yp \<leftarrow> fld parent s y;
       s \<leftarrow> set_parent s x yp;
       s \<leftarrow> (if yp = nil s then Some (s\<lparr>root := x\<rparr>)
             else do {
               ypl \<leftarrow> fld left s yp;
               (if y = ypl then set_left s yp x else set_right s yp x)
             });
       yc \<leftarrow> fld col s y;
       s \<leftarrow> (if yc = RBTREE_COL_BLACK then rbtree_del_fixup s x else Some s);
       Some (free_node s y)
     }"

definition rbtree_delete :: "'v rbtree_t \<Rightarrow> ptr \<Rightarrow> 'v rbtree_t option" where
  "rbtree_delete s z =
     do {
       zl \<leftarrow> fld left s z;
       zr \<leftarrow> fld right s z;
       (if zl \<noteq> nil s \<and> zr \<noteq> nil s then do {
          y \<leftarrow> leftmost_loop s zr;
          yv \<leftarrow> fld val s y;
          yk \<leftarrow> fld key s y;
          s \<leftarrow> set_data s z yk yv;
          splice_out s y
        } else splice_out s z)
     }"

declare insert_fixup_loop.simps [code] insert_search.simps [code] min_loop.simps [code]
  max_loop.simps [code] climb_loop.simps [code] del_fixup_loop.simps [code] leftmost_loop.simps [code]

end
