(* ===== verification/Rbtree_Rep.thy ===== *)
theory Rbtree_Rep
  imports Rbtree_Heap
begin

text \<open>
  What a heap of the red-black tree represents: a tree of nodes (with their addresses), seen
  through a zipper. \<open>zrep s t cs\<close> says that the heap \<open>s\<close> holds the tree \<open>plug t cs\<close>, with every
  parent pointer in place and all addresses distinct. Moving the focus does not change
  what is represented, so a local update is described at the focus and holds anywhere. The lemmas
  give the effect of every primitive write and of the two rotations.
\<close>

section \<open>Trees, frames and zippers\<close>

datatype color = Red | Black

datatype 'v rbt = Lf | Nd "'v rbt" ptr color int 'v "'v rbt"

text \<open>A frame is a node without the child in focus: the left child of the node for \<open>FL\<close>, the
  right one for \<open>FR\<close>.\<close>

datatype 'v frame = FL ptr color int 'v "'v rbt" | FR "'v rbt" ptr color int 'v

fun fill :: "'v rbt \<Rightarrow> 'v frame \<Rightarrow> 'v rbt" where
  "fill t (FL a c k v r) = Nd t a c k v r"
| "fill t (FR l a c k v) = Nd l a c k v t"

fun plug :: "'v rbt \<Rightarrow> 'v frame list \<Rightarrow> 'v rbt" where
  "plug t [] = t"
| "plug t (f # cs) = plug (fill t f) cs"

fun color_of :: "'v rbt \<Rightarrow> color" where
  "color_of Lf = Black"
| "color_of (Nd l a c k v r) = c"

fun paint :: "color \<Rightarrow> 'v rbt \<Rightarrow> 'v rbt" where
  "paint c Lf = Lf"
| "paint c (Nd l a _ k v r) = Nd l a c k v r"

text \<open>The entries in order: key, address and value of every node.\<close>

fun entries :: "'v rbt \<Rightarrow> (int \<times> ptr \<times> 'v) list" where
  "entries Lf = []"
| "entries (Nd l a c k v r) = entries l @ (k, a, v) # entries r"

abbreviation keys :: "'v rbt \<Rightarrow> int list" where
  "keys t \<equiv> map fst (entries t)"

fun addrs :: "'v rbt \<Rightarrow> ptr list" where
  "addrs Lf = []"
| "addrs (Nd l a c k v r) = addrs l @ a # addrs r"

fun frame_addr :: "'v frame \<Rightarrow> ptr" where
  "frame_addr (FL a c k v r) = a"
| "frame_addr (FR l a c k v) = a"

fun frame_color :: "'v frame \<Rightarrow> color" where
  "frame_color (FL a c k v r) = c"
| "frame_color (FR l a c k v) = c"

fun sibling :: "'v frame \<Rightarrow> 'v rbt" where
  "sibling (FL a c k v r) = r"
| "sibling (FR l a c k v) = l"

section \<open>Representation\<close>

definition col_num :: "color \<Rightarrow> int" where
  "col_num c = (case c of Red \<Rightarrow> RBTREE_COL_RED | Black \<Rightarrow> RBTREE_COL_BLACK)"

fun rp :: "ptr \<Rightarrow> 'v rbt \<Rightarrow> ptr" where
  "rp nl Lf = nl"
| "rp nl (Nd l a c k v r) = a"

fun cp :: "ptr \<Rightarrow> 'v frame list \<Rightarrow> ptr" where
  "cp nl [] = nl"
| "cp nl (f # cs) = frame_addr f"

definition node :: "ptr \<Rightarrow> ptr \<Rightarrow> ptr \<Rightarrow> color \<Rightarrow> int \<Rightarrow> 'v \<Rightarrow> 'v rbtree_node_t" where
  "node l r p c k v = \<lparr>left = l, right = r, parent = p, col = col_num c, key = k, val = v\<rparr>"

fun tree_in :: "(ptr \<rightharpoonup> 'v rbtree_node_t) \<Rightarrow> ptr \<Rightarrow> ptr \<Rightarrow> 'v rbt \<Rightarrow> bool" where
  "tree_in m nl par Lf = True"
| "tree_in m nl par (Nd l a c k v r) =
     (m a = Some (node (rp nl l) (rp nl r) par c k v) \<and> tree_in m nl a l \<and> tree_in m nl a r)"

fun ctx_in :: "(ptr \<rightharpoonup> 'v rbtree_node_t) \<Rightarrow> ptr \<Rightarrow> ptr \<Rightarrow> 'v frame list \<Rightarrow> bool" where
  "ctx_in m nl ch [] = True"
| "ctx_in m nl ch (FL a c k v r # cs) =
     (m a = Some (node ch (rp nl r) (cp nl cs) c k v) \<and> tree_in m nl a r \<and> ctx_in m nl a cs)"
| "ctx_in m nl ch (FR l a c k v # cs) =
     (m a = Some (node (rp nl l) ch (cp nl cs) c k v) \<and> tree_in m nl a l \<and> ctx_in m nl a cs)"

fun top_ptr :: "ptr \<Rightarrow> 'v frame list \<Rightarrow> ptr" where
  "top_ptr p [] = p"
| "top_ptr p (f # cs) = top_ptr (frame_addr f) cs"

definition sentinel :: "'v rbtree_t \<Rightarrow> bool" where
  "sentinel s \<longleftrightarrow> nil s \<noteq> NULL \<and> (\<exists>n. mem s (nil s) = Some n \<and> col n = RBTREE_COL_BLACK)"

fun ctx_addrs :: "'v frame list \<Rightarrow> ptr list" where
  "ctx_addrs [] = []"
| "ctx_addrs (f # cs) = frame_addr f # addrs (sibling f) @ ctx_addrs cs"

definition zrep :: "'v rbtree_t \<Rightarrow> 'v rbt \<Rightarrow> 'v frame list \<Rightarrow> bool" where
  "zrep s t cs \<longleftrightarrow> sentinel s \<and> distinct (NULL # nil s # addrs t @ ctx_addrs cs) \<and>
     tree_in (mem s) (nil s) (cp (nil s) cs) t \<and> ctx_in (mem s) (nil s) (rp (nil s) t) cs \<and>
     root s = top_ptr (rp (nil s) t) cs"

text \<open>What an operation that does not touch the sentinel keeps.\<close>

definition keeps :: "'v rbtree_t \<Rightarrow> 'v rbtree_t \<Rightarrow> bool" where
  "keeps s s' \<longleftrightarrow> nil s' = nil s \<and> mem s' (nil s) = mem s (nil s)"

section \<open>Basic facts\<close>

lemma col_num_eq [simp]:
  "col_num c = RBTREE_COL_RED \<longleftrightarrow> c = Red" "col_num c = RBTREE_COL_BLACK \<longleftrightarrow> c = Black"
  "col_num Red = RBTREE_COL_RED" "col_num Black = RBTREE_COL_BLACK"
  "RBTREE_COL_RED \<noteq> RBTREE_COL_BLACK" "RBTREE_COL_BLACK \<noteq> RBTREE_COL_RED"
  by (cases c; simp add: col_num_def RBTREE_COL_RED_def RBTREE_COL_BLACK_def)+

lemma node_sel [simp]:
  "left (node l r p c k v) = l" "right (node l r p c k v) = r" "parent (node l r p c k v) = p"
  "col (node l r p c k v) = col_num c" "key (node l r p c k v) = k" "val (node l r p c k v) = v"
  by (simp_all add: node_def)

lemma node_upd [simp]:
  "(node l r p c k v)\<lparr>left := x\<rparr> = node x r p c k v"
  "(node l r p c k v)\<lparr>right := x\<rparr> = node l x p c k v"
  "(node l r p c k v)\<lparr>parent := x\<rparr> = node l r x c k v"
  "(node l r p c k v)\<lparr>col := col_num c'\<rparr> = node l r p c' k v"
  "(node l r p c k v)\<lparr>col := RBTREE_COL_RED\<rparr> = node l r p Red k v"
  "(node l r p c k v)\<lparr>col := RBTREE_COL_BLACK\<rparr> = node l r p Black k v"
  "(node l r p c k v)\<lparr>val := v', key := k'\<rparr> = node l r p c k' v'"
  by (simp_all add: node_def)

lemma addrs_entries: "addrs t = map (\<lambda>e. fst (snd e)) (entries t)"
  by (induction t) auto

lemma keeps_refl [simp]: "keeps s s"
  by (simp add: keeps_def)

lemma keeps_trans [trans]: "keeps s s' \<Longrightarrow> keeps s' s'' \<Longrightarrow> keeps s s''"
  by (simp add: keeps_def)

lemma keeps_nil: "keeps s s' \<Longrightarrow> nil s' = nil s"
  by (simp add: keeps_def)

lemma rp_notin: "nl \<notin> set (addrs t) \<Longrightarrow> rp nl t = nl \<longleftrightarrow> t = Lf"
  by (cases t) auto

lemma rp_in: "t \<noteq> Lf \<Longrightarrow> rp nl t \<in> set (addrs t)"
  by (cases t) auto

lemma tree_in_upd [simp]: "a \<notin> set (addrs t) \<Longrightarrow> tree_in (m(a := x)) nl par t = tree_in m nl par t"
  by (induction t arbitrary: par) auto

lemma ctx_in_upd [simp]: "a \<notin> set (ctx_addrs cs) \<Longrightarrow> ctx_in (m(a := x)) nl ch cs = ctx_in m nl ch cs"
  by (induction m nl ch cs rule: ctx_in.induct) auto

text \<open>Moving the focus up.\<close>

lemma zrep_FL: "zrep s t (FL a c k v r # cs) = zrep s (Nd t a c k v r) cs"
  by (auto simp: zrep_def)

lemma zrep_FR: "zrep s t (FR l a c k v # cs) = zrep s (Nd l a c k v t) cs"
  by (auto simp: zrep_def)

lemmas refocus = zrep_FL zrep_FR

lemma zrep_plug: "zrep s t cs \<longleftrightarrow> zrep s (plug t cs) []"
  by (induction t cs rule: plug.induct) (simp, metis fill.simps frame.exhaust plug.simps(2) refocus)

text \<open>What is stored at the node in focus, at the sentinel, and at the root of any subtree.\<close>

lemma zrep_load: "zrep s (Nd l a c k v r) cs \<Longrightarrow>
    load s a = Some (node (rp (nil s) l) (rp (nil s) r) (cp (nil s) cs) c k v)"
  by (auto simp: zrep_def load_def)

lemma zrep_color: "zrep s t cs \<Longrightarrow> fld col s (rp (nil s) t) = Some (col_num (color_of t))"
  by (cases t) (auto simp: zrep_def sentinel_def load_def fld_def)

lemma zrep_root: "zrep s t cs \<Longrightarrow> root s = top_ptr (rp (nil s) t) cs"
  by (simp add: zrep_def)

lemmas heap_ops = fld_def upd_def load_def set_left_def set_right_def set_parent_def set_col_def set_data_def

lemma bind_weak_cong: "m = m' \<Longrightarrow> Option.bind m f = Option.bind m' f"
  by simp

lemma rp_neq [simp]:
  "x \<noteq> nl \<Longrightarrow> x \<notin> set (addrs t) \<Longrightarrow> x \<noteq> rp nl t"
  "x \<noteq> nl \<Longrightarrow> x \<notin> set (addrs t) \<Longrightarrow> rp nl t \<noteq> x"
  by (cases t; auto)+

lemma ctx_cases:
  obtains "cs = []" | a c k v r cs' where "cs = FL a c k v r # cs'"
    | a c k v l cs' where "cs = FR l a c k v # cs'"
  by (metis frame.exhaust list.exhaust)

text \<open>Looking a field up, writing a colour, writing key and value.\<close>

lemma zrep_fld:
  assumes "zrep s (Nd l a c k v r) cs"
  shows "fld left s a = Some (rp (nil s) l)" "fld right s a = Some (rp (nil s) r)"
    "fld parent s a = Some (cp (nil s) cs)" "fld col s a = Some (col_num c)"
    "fld key s a = Some k" "fld val s a = Some v"
  using assms by (simp_all add: fld_def zrep_load)

lemma zrep_set_col:
  assumes "zrep s (Nd l a c k v r) cs"
  shows "\<exists>s'. set_col s a (col_num c') = Some s' \<and> keeps s s' \<and> zrep s' (Nd l a c' k v r) cs"
  using assms by (auto simp: heap_ops zrep_def keeps_def sentinel_def)

lemma zrep_set_data:
  assumes "zrep s (Nd l a c k v r) cs"
  shows "\<exists>s'. set_data s a k' v' = Some s' \<and> keeps s s' \<and> zrep s' (Nd l a c k' v' r) cs"
  using assms by (auto simp: heap_ops zrep_def keeps_def sentinel_def)

section \<open>Rotations\<close>

text \<open>The memory after the parent pointer of a subtree, or the child pointer of the node above
  the focus, has been redirected.\<close>

definition reparent :: "(ptr \<rightharpoonup> 'v rbtree_node_t) \<Rightarrow> ptr \<Rightarrow> ptr \<Rightarrow> 'v rbt \<Rightarrow> (ptr \<rightharpoonup> 'v rbtree_node_t)" where
  "reparent m nl p t = (case t of Lf \<Rightarrow> m | Nd l a c k v r \<Rightarrow> m(a \<mapsto> node (rp nl l) (rp nl r) p c k v))"

definition relink :: "(ptr \<rightharpoonup> 'v rbtree_node_t) \<Rightarrow> ptr \<Rightarrow> ptr \<Rightarrow> 'v frame list \<Rightarrow> (ptr \<rightharpoonup> 'v rbtree_node_t)" where
  "relink m nl ch cs = (case cs of [] \<Rightarrow> m
     | FL a c k v r # cs' \<Rightarrow> m(a \<mapsto> node ch (rp nl r) (cp nl cs') c k v)
     | FR l a c k v # cs' \<Rightarrow> m(a \<mapsto> node (rp nl l) ch (cp nl cs') c k v))"

lemma reparent_other [simp]: "x \<notin> set (addrs t) \<Longrightarrow> reparent m nl p t x = m x"
  by (cases t) (auto simp: reparent_def)

lemma relink_other [simp]: "x \<notin> set (ctx_addrs cs) \<Longrightarrow> relink m nl ch cs x = m x"
  by (cases cs rule: ctx_cases) (auto simp: relink_def)

lemma tree_in_cong: "(\<And>a. a \<in> set (addrs t) \<Longrightarrow> m' a = m a) \<Longrightarrow> tree_in m' nl p t = tree_in m nl p t"
  by (induction t arbitrary: p) auto

lemma ctx_in_cong: "(\<And>a. a \<in> set (ctx_addrs cs) \<Longrightarrow> m' a = m a) \<Longrightarrow> ctx_in m' nl p cs = ctx_in m nl p cs"
  by (induction m nl p cs rule: ctx_in.induct) (auto intro!: arg_cong2[where f=conj] tree_in_cong)

lemma tree_in_reparent [simp]: "distinct (addrs t) \<Longrightarrow> tree_in m nl q t \<Longrightarrow> tree_in (reparent m nl p t) nl p t"
  by (cases t) (auto simp: reparent_def)

lemma ctx_in_relink [simp]: "distinct (ctx_addrs cs) \<Longrightarrow> ctx_in m nl q cs \<Longrightarrow> ctx_in (relink m nl p cs) nl p cs"
  by (cases cs rule: ctx_cases) (auto simp: relink_def)

lemma ctx_in_reparent [simp]: "set (addrs t) \<inter> set (ctx_addrs cs) = {} \<Longrightarrow> ctx_in (reparent m nl p t) nl q cs = ctx_in m nl q cs"
  by (rule ctx_in_cong) (metis disjoint_iff reparent_other)

lemma tree_in_reparent' [simp]: "set (addrs t) \<inter> set (addrs t') = {} \<Longrightarrow> tree_in (reparent m nl p t) nl q t' = tree_in m nl q t'"
  by (rule tree_in_cong) (metis disjoint_iff reparent_other)

lemma tree_in_relink [simp]: "set (addrs t) \<inter> set (ctx_addrs cs) = {} \<Longrightarrow> tree_in (relink m nl p cs) nl q t = tree_in m nl q t"
  by (rule tree_in_cong) (metis disjoint_iff relink_other)

lemma left_rotate_ok:
  assumes "zrep s (Nd l x c k v (Nd rl y c' k' v' rr)) cs"
  shows "\<exists>s'. left_rotate s x = Some s' \<and> keeps s s' \<and> zrep s' (Nd (Nd l x c k v rl) y c' k' v' rr) cs"
proof -
  let ?nl = "nil s" and ?up = "cp (nil s) cs"
  let ?m1 = "(mem s)(x \<mapsto> node (rp ?nl l) (rp ?nl rl) ?up c k v)"
  let ?m2 = "(reparent ?m1 ?nl x rl)(y \<mapsto> node (rp ?nl rl) (rp ?nl rr) ?up c' k' v')"
  let ?s = "s\<lparr>root := top_ptr y cs, mem := (relink ?m2 ?nl y cs)
    (x \<mapsto> node (rp ?nl l) (rp ?nl rl) y c k v, y \<mapsto> node x (rp ?nl rr) ?up c' k' v')\<rparr>"
  have "left_rotate s x = Some ?s"
    using assms by (cases cs rule: ctx_cases; cases rl)
     (clarsimp simp: zrep_def sentinel_def, simp add: left_rotate_def heap_ops relink_def reparent_def cong: bind_weak_cong)+
  moreover have "keeps s ?s" "zrep ?s (Nd (Nd l x c k v rl) y c' k' v' rr) cs" using assms
    by (clarsimp simp: zrep_def keeps_def sentinel_def; auto simp: Int_Un_distrib Int_Un_distrib2 Int_commute)+
  ultimately show ?thesis by blast
qed

lemma right_rotate_ok:
  assumes "zrep s (Nd (Nd ll y c' k' v' lr) x c k v r) cs"
  shows "\<exists>s'. right_rotate s x = Some s' \<and> keeps s s' \<and> zrep s' (Nd ll y c' k' v' (Nd lr x c k v r)) cs"
proof -
  let ?nl = "nil s" and ?up = "cp (nil s) cs"
  let ?m1 = "(mem s)(x \<mapsto> node (rp ?nl lr) (rp ?nl r) ?up c k v)"
  let ?m2 = "(reparent ?m1 ?nl x lr)(y \<mapsto> node (rp ?nl ll) (rp ?nl lr) ?up c' k' v')"
  let ?s = "s\<lparr>root := top_ptr y cs, mem := (relink ?m2 ?nl y cs)
    (x \<mapsto> node (rp ?nl lr) (rp ?nl r) y c k v, y \<mapsto> node (rp ?nl ll) x ?up c' k' v')\<rparr>"
  have "right_rotate s x = Some ?s"
    using assms by (cases cs rule: ctx_cases; cases lr)
     (clarsimp simp: zrep_def sentinel_def, simp add: right_rotate_def heap_ops relink_def reparent_def cong: bind_weak_cong)+
  moreover have "keeps s ?s" "zrep ?s (Nd ll y c' k' v' (Nd lr x c k v r)) cs" using assms
    by (clarsimp simp: zrep_def keeps_def sentinel_def; auto simp: Int_Un_distrib Int_Un_distrib2 Int_commute)+
  ultimately show ?thesis by blast
qed
end
