(* ===== verification/Rbtree_Insert.thy ===== *)
theory Rbtree_Insert
  imports Rbtree_Rep
begin

text \<open>
  Insertion into the red-black tree. The repair loop of \<^verbatim>\<open>rbtree_insert_fixup\<close> and the search
  of \<^verbatim>\<open>_rbtree_insert_node\<close> are related to functions on zippers (\<open>ins_fix\<close>, \<open>locate\<close>), and the
  red-black invariants are proved of those. The result is the contract of \<^verbatim>\<open>rbtree_insert\<close>
  on the heap.
\<close>

section \<open>Invariants\<close>

fun bh :: "'v rbt \<Rightarrow> nat" where
  "bh Lf = 0"
| "bh (Nd l a c k v r) = bh l + (if c = Black then 1 else 0)"

fun invh :: "'v rbt \<Rightarrow> bool" where
  "invh Lf = True"
| "invh (Nd l a c k v r) = (bh l = bh r \<and> invh l \<and> invh r)"

fun invc :: "'v rbt \<Rightarrow> bool" where
  "invc Lf = True"
| "invc (Nd l a c k v r) =
     ((c = Red \<longrightarrow> color_of l = Black \<and> color_of r = Black) \<and> invc l \<and> invc r)"

text \<open>No red node has a red child, every path has the same number of black nodes, the root is
  black and the keys ascend.\<close>

definition rb_ok :: "'v rbt \<Rightarrow> bool" where
  "rb_ok t \<longleftrightarrow> invc t \<and> invh t \<and> color_of t = Black \<and> sorted_wrt (<) (keys t)"

text \<open>The same for a context whose hole takes a tree of black height \<open>h\<close>.\<close>

fun ctx_invh :: "nat \<Rightarrow> 'v frame list \<Rightarrow> bool" where
  "ctx_invh h [] = True"
| "ctx_invh h (f # cs) =
     (bh (sibling f) = h \<and> invh (sibling f) \<and>
      ctx_invh (h + (if frame_color f = Black then 1 else 0)) cs)"

fun ctx_color :: "'v frame list \<Rightarrow> color" where
  "ctx_color [] = Red"
| "ctx_color (f # cs) = frame_color f"

text \<open>The color above the hole counts as red at the top, so that a red root is excluded there.\<close>

fun ctx_invc :: "'v frame list \<Rightarrow> bool" where
  "ctx_invc [] = True"
| "ctx_invc (f # cs) =
     (invc (sibling f) \<and>
      (frame_color f = Red \<longrightarrow> color_of (sibling f) = Black \<and> ctx_color cs = Black) \<and>
      ctx_invc cs)"

fun before :: "'v frame list \<Rightarrow> (int \<times> ptr \<times> 'v) list" where
  "before [] = []"
| "before (FL a c k v r # cs) = before cs"
| "before (FR l a c k v # cs) = before cs @ entries l @ [(k, a, v)]"

fun after :: "'v frame list \<Rightarrow> (int \<times> ptr \<times> 'v) list" where
  "after [] = []"
| "after (FL a c k v r # cs) = (k, a, v) # entries r @ after cs"
| "after (FR l a c k v # cs) = after cs"

lemma not_Black [simp]: "c \<noteq> Black \<longleftrightarrow> c = Red" "c \<noteq> Red \<longleftrightarrow> c = Black"
  by (cases c; simp)+

lemma entries_plug [simp]: "entries (plug t cs) = before cs @ entries t @ after cs"
proof (induction t cs rule: plug.induct)
  case (2 t f cs) then show ?case by (cases f) auto
qed simp

lemma invh_plug [simp]: "invh (plug t cs) \<longleftrightarrow> invh t \<and> ctx_invh (bh t) cs"
proof (induction t cs rule: plug.induct)
  case (2 t f cs) then show ?case by (cases f) auto
qed simp

lemma invc_plug:
  "invc (plug t cs) \<and> color_of (plug t cs) = Black \<longleftrightarrow>
     invc t \<and> ctx_invc cs \<and> (color_of t = Red \<longrightarrow> ctx_color cs = Black)"
proof (induction t cs rule: plug.induct)
  case (1 t) then show ?case by simp
next
  case (2 t f cs) then show ?case by (cases f; cases "color_of t") auto
qed

lemma rb_ok_plug:
  "rb_ok (plug t cs) \<longleftrightarrow> invc t \<and> invh t \<and> ctx_invc cs \<and> ctx_invh (bh t) cs \<and>
     (color_of t = Red \<longrightarrow> ctx_color cs = Black) \<and>
     sorted_wrt (<) (map fst (before cs @ entries t @ after cs))"
  unfolding rb_ok_def using invc_plug [of t cs] by auto

lemma paint_simps [simp]:
  "entries (paint c t) = entries t" "invh (paint c t) = invh t"
  by (cases t; simp)+

section \<open>The repair loop on zippers\<close>

fun paint_frame :: "color \<Rightarrow> 'v frame \<Rightarrow> 'v frame" where
  "paint_frame c (FL a _ k v r) = FL a c k v r"
| "paint_frame c (FR l a _ k v) = FR l a c k v"

fun paint_sibling :: "color \<Rightarrow> 'v frame \<Rightarrow> 'v frame" where
  "paint_sibling c (FL a c' k v r) = FL a c' k v (paint c r)"
| "paint_sibling c (FR l a c' k v) = FR (paint c l) a c' k v"

text \<open>The rotations at a black uncle.\<close>

fun rot_up :: "'v rbt \<Rightarrow> 'v frame \<Rightarrow> 'v frame \<Rightarrow> 'v rbt" where
  "rot_up t (FL p _ kp vp ps) (FL g _ kg vg u) = Nd t p Black kp vp (Nd ps g Red kg vg u)"
| "rot_up t (FR ps p _ kp vp) (FR u g _ kg vg) = Nd (Nd u g Red kg vg ps) p Black kp vp t"
| "rot_up (Nd l n _ k v r) (FR ps p _ kp vp) (FL g _ kg vg u) =
     Nd (Nd ps p Red kp vp l) n Black k v (Nd r g Red kg vg u)"
| "rot_up (Nd l n _ k v r) (FL p _ kp vp ps) (FR u g _ kg vg) =
     Nd (Nd u g Red kg vg l) n Black k v (Nd r p Red kp vp ps)"
| "rot_up Lf f g = fill (fill Lf f) g"

fun ins_fix :: "'v rbt \<Rightarrow> 'v frame list \<Rightarrow> 'v rbt" where
  "ins_fix t (f # g # cs) =
     (if frame_color f = Black then plug t (f # g # cs)
      else if color_of (sibling g) = Red
      then ins_fix (fill (fill t (paint_frame Black f)) (paint_frame Red (paint_sibling Black g))) cs
      else plug (rot_up t f g) cs)"
| "ins_fix t [] = t"
| "ins_fix t [f] = fill t f"

lemma entries_rot_up: "t \<noteq> Lf \<Longrightarrow> entries (rot_up t f g) = entries (fill (fill t f) g)"
  by (cases "(t, f, g)" rule: rot_up.cases) auto

lemma entries_ins_fix: "t \<noteq> Lf \<Longrightarrow> entries (ins_fix t cs) = before cs @ entries t @ after cs"
proof (induction t cs rule: ins_fix.induct)
  case (1 t f g cs)
  then show ?case by (cases f; cases g; simp add: entries_rot_up)
next
  case (3 t f)
  then show ?case by (cases f) auto
qed simp

text \<open>The repair restores the invariants: it starts from a red node below a context that is
  in order, and the only possible defect is the colour above the node.\<close>

definition red_node :: "'v rbt \<Rightarrow> bool" where
  "red_node t \<longleftrightarrow> t \<noteq> Lf \<and> color_of t = Red \<and> invc t \<and> invh t"

lemma red_nodeE:
  assumes "red_node t"
  obtains l a k v r where "t = Nd l a Red k v r" "color_of l = Black" "color_of r = Black"
    "invc l" "invc r" "invh l" "invh r" "bh l = bh r" "bh t = bh r"
  using assms by (cases t) (auto simp: red_node_def)

lemma paint_Black: "invc t \<Longrightarrow> invc (paint Black t)"
  by (cases t) auto

lemma bh_paint: "color_of t = Red \<Longrightarrow> bh (paint Black t) = bh t + 1"
  by (cases t) auto

lemma red_tree: "color_of t = Red \<Longrightarrow> \<exists>l a k v r. t = Nd l a Red k v r"
  by (cases t) auto

lemma ins_fix_ok:
  assumes "red_node t" "ctx_invc cs" "ctx_invh (bh t) cs"
  shows "let u = paint Black (ins_fix t cs) in invc u \<and> invh u \<and> color_of u = Black"
  using assms
proof (induction t cs rule: ins_fix.induct)
  case (1 t f g cs)
  show ?case
  proof (cases "frame_color f = Black")
    case True
    have "invc (plug t (f # g # cs)) \<and> color_of (plug t (f # g # cs)) = Black"
      using 1(2-) True unfolding invc_plug by (auto simp: red_node_def)
    moreover have "invh (plug t (f # g # cs))"
      using 1(2-) unfolding invh_plug by (auto simp: red_node_def)
    ultimately show ?thesis using True
      by (cases "plug t (f # g # cs)") (auto simp del: plug.simps)
  next
    case fr: False
    show ?thesis
    proof (cases "color_of (sibling g) = Red")
      case True
      then obtain ul u ku vu ur where u: "sibling g = Nd ul u Red ku vu ur" using red_tree by blast
      from 1(2) obtain l a k v r where t: "t = Nd l a Red k v r" "color_of l = Black" "color_of r = Black"
        "invc l" "invc r" "invh l" "invh r" "bh l = bh r" "bh t = bh r" by (rule red_nodeE)
      show ?thesis using 1 fr True u t
        by (cases f; cases g) (auto simp: red_node_def)
    next
      case False
      from 1(2) obtain l a k v r where t: "t = Nd l a Red k v r" "color_of l = Black" "color_of r = Black"
        "invc l" "invc r" "invh l" "invh r" "bh l = bh r" "bh t = bh r" by (rule red_nodeE)
      have "invc (plug (rot_up t f g) cs) \<and> color_of (plug (rot_up t f g) cs) = Black"
        "invh (plug (rot_up t f g) cs)"
        unfolding invc_plug invh_plug using 1(2-) fr False t
        by (cases f; cases g; auto simp: red_node_def)+
      then show ?thesis using False fr
        by (cases "plug (rot_up t f g) cs") auto
    qed
  qed
next
  case (2 t)
  then show ?case by (cases t) (auto simp: red_node_def)
next
  case (3 t f)
  then show ?case by (cases f) (auto simp: red_node_def)
qed


section \<open>The repair loop on the heap\<close>

lemma zrep_fill: "zrep s t (f # cs) \<longleftrightarrow> zrep s (fill t f) cs"
  by (cases f) (simp_all add: refocus)

lemma zrep_children:
  assumes "zrep s (Nd l a c k v r) cs"
  shows "fld col s (rp (nil s) l) = Some (col_num (color_of l))"
    "fld col s (rp (nil s) r) = Some (col_num (color_of r))"
  using assms zrep_color [of s l "FL a c k v r # cs"] zrep_color [of s r "FR l a c k v # cs"]
  by (simp_all add: refocus)

lemma zrep_set_left:
  assumes "zrep s (Nd l a c k v r) cs" "l \<noteq> Lf"
  shows "\<exists>s'. set_col s (rp (nil s) l) (col_num c') = Some s' \<and> keeps s s' \<and>
    zrep s' (Nd (paint c' l) a c k v r) cs"
proof -
  have "zrep s l (FL a c k v r # cs)" using assms(1) by (simp add: refocus)
  then show ?thesis using assms(2) zrep_set_col [where c' = c'] by (cases l) (fastforce simp: zrep_FL)+
qed

lemma zrep_set_right:
  assumes "zrep s (Nd l a c k v r) cs" "r \<noteq> Lf"
  shows "\<exists>s'. set_col s (rp (nil s) r) (col_num c') = Some s' \<and> keeps s s' \<and>
    zrep s' (Nd l a c k v (paint c' r)) cs"
proof -
  have "zrep s r (FR l a c k v # cs)" using assms(1) by (simp add: refocus)
  then show ?thesis using assms(2) zrep_set_col [where c' = c'] by (cases r) (fastforce simp: zrep_FR)+
qed

lemma zrep_up:
  assumes "zrep s t (f # cs)"
  shows "fld parent s (frame_addr f) = Some (cp (nil s) cs)"
    "fld col s (frame_addr f) = Some (col_num (frame_color f))"
    "t \<noteq> Lf \<Longrightarrow> fld parent s (rp (nil s) t) = Some (frame_addr f)"
    "fld col s (rp (nil s) (sibling f)) = Some (col_num (color_of (sibling f)))"
proof -
  have t: "fld parent s (rp (nil s) u) = Some (cp (nil s) xs)" if "zrep s u xs" "u \<noteq> Lf" for u xs
    using that by (cases u) (simp_all add: zrep_fld)
  show "fld parent s (frame_addr f) = Some (cp (nil s) cs)"
    "fld col s (frame_addr f) = Some (col_num (frame_color f))"
    using assms by (cases f; simp add: refocus zrep_fld)+
  show "fld parent s (rp (nil s) t) = Some (frame_addr f)" if "t \<noteq> Lf" using t [OF assms that] by simp
  show "fld col s (rp (nil s) (sibling f)) = Some (col_num (color_of (sibling f)))"
    using assms by (cases f) (auto simp: refocus intro: zrep_children)
qed

lemma zrep_FL_fld:
  assumes "zrep s t (FL a c k v r # cs)"
  shows "fld left s a = Some (rp (nil s) t)" "fld right s a = Some (rp (nil s) r)"
  using assms by (auto simp: zrep_FL zrep_fld)

lemma zrep_FR_fld:
  assumes "zrep s t (FR l a c k v # cs)"
  shows "fld left s a = Some (rp (nil s) l)" "fld right s a = Some (rp (nil s) t)"
  using assms by (auto simp: zrep_FR zrep_fld)

lemma zrep_set_up:
  assumes "zrep s t (f # cs)"
  shows "\<exists>s'. set_col s (frame_addr f) (col_num c) = Some s' \<and> keeps s s' \<and>
    zrep s' t (paint_frame c f # cs)"
  using assms by (cases f) (auto simp: refocus dest: zrep_set_col)

lemma zrep_set_sibling:
  assumes "zrep s t (f # cs)" "sibling f \<noteq> Lf"
  shows "\<exists>s'. set_col s (rp (nil s) (sibling f)) (col_num c) = Some s' \<and> keeps s s' \<and>
    zrep s' t (paint_sibling c f # cs)"
  using assms zrep_set_left [of s _ _ _ _ _ t cs] zrep_set_right [of s t _ _ _ _ _ cs]
  by (cases f) (auto simp: refocus)

lemma zrep_neq:
  assumes "zrep s t (f # cs)" "t \<noteq> Lf"
  shows "rp (nil s) t \<noteq> rp (nil s) (sibling f)"
  using assms by (cases f; cases t; cases "sibling f") (auto simp: zrep_def)

lemma step_recolour:
  assumes z: "zrep s t (f # g # cs)" and t: "t \<noteq> Lf" and red: "color_of (sibling g) = Red"
  shows "\<exists>s'. insert_fixup_step s (rp (nil s) t) = Some (s', frame_addr g) \<and> keeps s s' \<and>
    zrep s' (fill (fill t (paint_frame Black f)) (paint_frame Red (paint_sibling Black g))) cs"
proof -
  obtain s1 where s1: "set_col s (frame_addr f) RBTREE_COL_BLACK = Some s1" "keeps s s1"
    "zrep s1 t (paint_frame Black f # g # cs)"
    using zrep_set_up [OF z, of Black] by auto
  have "zrep s1 (fill t (paint_frame Black f)) (g # cs)" using s1(3) by (simp add: zrep_fill)
  moreover have "sibling g \<noteq> Lf" using red by auto
  ultimately obtain s2 where s2: "set_col s1 (rp (nil s1) (sibling g)) RBTREE_COL_BLACK = Some s2"
    "keeps s1 s2" "zrep s2 (fill t (paint_frame Black f)) (paint_sibling Black g # cs)"
    using zrep_set_sibling [of s1 _ g cs Black] by auto
  have g: "frame_addr (paint_sibling Black g) = frame_addr g" by (cases g) auto
  obtain s3 where s3: "set_col s2 (frame_addr g) RBTREE_COL_RED = Some s3" "keeps s2 s3"
    "zrep s3 (fill t (paint_frame Black f)) (paint_frame Red (paint_sibling Black g) # cs)"
    using zrep_set_up [OF s2(3), of Red] g by auto
  have zf: "zrep s (fill t f) (g # cs)" using z by (simp add: zrep_fill)
  have f: "rp (nil s) (fill t f) = frame_addr f" "fill t f \<noteq> Lf" by (cases f; simp)+
  have "insert_fixup_step s (rp (nil s) t) = Some (s3, frame_addr g)"
  proof (cases g)
    case (FL a c k v r)
    then show ?thesis
      using zrep_up [OF z] zrep_up [OF zf] zrep_FL_fld [of s _ a c k v r cs] zf f s1 s2 s3 t red
      by (simp add: insert_fixup_step_def keeps_def cong: bind_weak_cong)
  next
    case (FR l a c k v)
    then show ?thesis
      using zrep_up [OF z] zrep_up [OF zf] zrep_FR_fld [of s _ l a c k v cs] zf f s1 s2 s3 t red
        zrep_neq [OF zf f(2)]
      by (simp add: insert_fixup_step_def keeps_def cong: bind_weak_cong)
  qed
  then show ?thesis using s1(2) s2(2) s3(2,3) by (auto simp: zrep_fill intro: keeps_trans)
qed

text \<open>The two recolourings and the rotation that end the loop.\<close>

lemma finish_right:
  assumes z: "zrep s (Nd (Nd t p c k v b) g c' k' v' u) cs" and t: "t \<noteq> Lf"
  shows "\<exists>s1 s2 s3. fld parent s (rp (nil s) t) = Some p \<and> set_col s p RBTREE_COL_BLACK = Some s1 \<and>
    fld parent s1 p = Some g \<and> set_col s1 g RBTREE_COL_RED = Some s2 \<and>
    right_rotate s2 g = Some s3 \<and> keeps s s3 \<and>
    zrep s3 (Nd t p Black k v (Nd b g Red k' v' u)) cs"
proof -
  have z0: "zrep s t (FL p c k v b # FL g c' k' v' u # cs)" using z by (simp add: refocus)
  obtain s1 where s1: "set_col s p RBTREE_COL_BLACK = Some s1" "keeps s s1"
    "zrep s1 t (FL p Black k v b # FL g c' k' v' u # cs)"
    using zrep_set_up [OF z0, of Black] by auto
  have z1: "zrep s1 (Nd t p Black k v b) (FL g c' k' v' u # cs)" using s1(3) by (simp add: refocus)
  obtain s2 where s2: "set_col s1 g RBTREE_COL_RED = Some s2" "keeps s1 s2"
    "zrep s2 (Nd t p Black k v b) (FL g Red k' v' u # cs)"
    using zrep_set_up [OF z1, of Red] by auto
  have "zrep s2 (Nd (Nd t p Black k v b) g Red k' v' u) cs" using s2(3) by (simp add: refocus)
  from right_rotate_ok [OF this] obtain s3 where "right_rotate s2 g = Some s3" "keeps s2 s3"
    "zrep s3 (Nd t p Black k v (Nd b g Red k' v' u)) cs"
    by blast
  then show ?thesis
    using s1 s2 zrep_up [OF z0] zrep_up [OF z1] t by (fastforce simp: keeps_def)
qed

lemma finish_left:
  assumes z: "zrep s (Nd u g c' k' v' (Nd b p c k v t)) cs" and t: "t \<noteq> Lf"
  shows "\<exists>s1 s2 s3. fld parent s (rp (nil s) t) = Some p \<and> set_col s p RBTREE_COL_BLACK = Some s1 \<and>
    fld parent s1 p = Some g \<and> set_col s1 g RBTREE_COL_RED = Some s2 \<and>
    left_rotate s2 g = Some s3 \<and> keeps s s3 \<and>
    zrep s3 (Nd (Nd u g Red k' v' b) p Black k v t) cs"
proof -
  have z0: "zrep s t (FR b p c k v # FR u g c' k' v' # cs)" using z by (simp add: refocus)
  obtain s1 where s1: "set_col s p RBTREE_COL_BLACK = Some s1" "keeps s s1"
    "zrep s1 t (FR b p Black k v # FR u g c' k' v' # cs)"
    using zrep_set_up [OF z0, of Black] by auto
  have z1: "zrep s1 (Nd b p Black k v t) (FR u g c' k' v' # cs)" using s1(3) by (simp add: refocus)
  obtain s2 where s2: "set_col s1 g RBTREE_COL_RED = Some s2" "keeps s1 s2"
    "zrep s2 (Nd b p Black k v t) (FR u g Red k' v' # cs)"
    using zrep_set_up [OF z1, of Red] by auto
  have "zrep s2 (Nd u g Red k' v' (Nd b p Black k v t)) cs" using s2(3) by (simp add: refocus)
  from left_rotate_ok [OF this] obtain s3 where "left_rotate s2 g = Some s3" "keeps s2 s3"
    "zrep s3 (Nd (Nd u g Red k' v' b) p Black k v t) cs"
    by blast
  then show ?thesis
    using s1 s2 zrep_up [OF z0] zrep_up [OF z1] t by (fastforce simp: keeps_def)
qed

text \<open>The loop condition is false after a rotation.\<close>

definition settled :: "'v rbtree_t \<Rightarrow> ptr \<Rightarrow> bool" where
  "settled s n \<longleftrightarrow> (\<exists>p. fld parent s n = Some p \<and> fld col s p = Some RBTREE_COL_BLACK)"

lemma settled_child:
  assumes "zrep s (Nd l p Black k v r) cs"
  shows "l \<noteq> Lf \<Longrightarrow> settled s (rp (nil s) l)" "r \<noteq> Lf \<Longrightarrow> settled s (rp (nil s) r)"
  using assms zrep_up [of s l "FL p Black k v r" cs] zrep_up [of s r "FR l p Black k v" cs]
  by (auto simp: settled_def refocus)

lemma step_outer_left:
  assumes z: "zrep s t (FL p c k v b # FL g c' k' v' u # cs)" and t: "t \<noteq> Lf" and u: "color_of u = Black"
  shows "\<exists>s' n. insert_fixup_step s (rp (nil s) t) = Some (s', n) \<and> keeps s s' \<and> settled s' n \<and>
    zrep s' (rot_up t (FL p c k v b) (FL g c' k' v' u)) cs"
proof -
  have z1: "zrep s (Nd t p c k v b) (FL g c' k' v' u # cs)" using z by (simp add: refocus)
  obtain s1 s2 s3 where s: "fld parent s (rp (nil s) t) = Some p" "set_col s p RBTREE_COL_BLACK = Some s1"
    "fld parent s1 p = Some g" "set_col s1 g RBTREE_COL_RED = Some s2"
    "right_rotate s2 g = Some s3" "keeps s s3" "zrep s3 (Nd t p Black k v (Nd b g Red k' v' u)) cs"
    using finish_right [of s t p c k v b g c' k' v' u cs] z t by (auto simp: refocus)
  have "insert_fixup_step s (rp (nil s) t) = Some (s3, rp (nil s) t)"
    using zrep_up [OF z] zrep_up [OF z1] zrep_FL_fld [OF z] zrep_FL_fld [OF z1] zrep_neq [OF z t] s t u
    by (simp add: insert_fixup_step_def cong: bind_weak_cong)
  moreover have "settled s3 (rp (nil s) t)" using settled_child [OF s(7)] t s(6) by (simp add: keeps_nil)
  ultimately show ?thesis using s(6,7) by auto
qed

lemma step_inner_left:
  assumes z: "zrep s (Nd l n c0 k0 v0 r) (FR b p Red k v # FL g c' k' v' u # cs)" and u: "color_of u = Black"
  shows "\<exists>s' m. insert_fixup_step s n = Some (s', m) \<and> keeps s s' \<and> settled s' m \<and>
    zrep s' (rot_up (Nd l n c0 k0 v0 r) (FR b p Red k v) (FL g c' k' v' u)) cs"
proof -
  have z1: "zrep s (Nd b p Red k v (Nd l n c0 k0 v0 r)) (FL g c' k' v' u # cs)" using z by (simp add: refocus)
  from left_rotate_ok [OF this] obtain s0 where s0: "left_rotate s p = Some s0" "keeps s s0"
    "zrep s0 (Nd (Nd b p Red k v l) n c0 k0 v0 r) (FL g c' k' v' u # cs)"
    by blast
  obtain s1 s2 s3 where s: "fld parent s0 p = Some n" "set_col s0 n RBTREE_COL_BLACK = Some s1"
    "fld parent s1 n = Some g" "set_col s1 g RBTREE_COL_RED = Some s2"
    "right_rotate s2 g = Some s3" "keeps s0 s3"
    "zrep s3 (Nd (Nd b p Red k v l) n Black k0 v0 (Nd r g Red k' v' u)) cs"
    using finish_right [of s0 "Nd b p Red k v l" n c0 k0 v0 r g c' k' v' u cs] s0(3)
    by (auto simp: refocus)
  have "insert_fixup_step s n = Some (s3, p)"
    using zrep_up [OF z] zrep_up [OF z1] zrep_FR_fld [OF z] zrep_FL_fld [OF z1] s0(1) s u
    by (simp add: insert_fixup_step_def cong: bind_weak_cong)
  moreover have "settled s3 p" using settled_child(1) [OF s(7)] by simp
  ultimately show ?thesis using s(6,7) s0(2) by (auto intro: keeps_trans)
qed

lemma step_outer_right:
  assumes z: "zrep s t (FR b p c k v # FR u g c' k' v' # cs)" and t: "t \<noteq> Lf" and u: "color_of u = Black"
  shows "\<exists>s' n. insert_fixup_step s (rp (nil s) t) = Some (s', n) \<and> keeps s s' \<and> settled s' n \<and>
    zrep s' (rot_up t (FR b p c k v) (FR u g c' k' v')) cs"
proof -
  have z1: "zrep s (Nd b p c k v t) (FR u g c' k' v' # cs)" using z by (simp add: refocus)
  obtain s1 s2 s3 where s: "fld parent s (rp (nil s) t) = Some p" "set_col s p RBTREE_COL_BLACK = Some s1"
    "fld parent s1 p = Some g" "set_col s1 g RBTREE_COL_RED = Some s2"
    "left_rotate s2 g = Some s3" "keeps s s3" "zrep s3 (Nd (Nd u g Red k' v' b) p Black k v t) cs"
    using finish_left [of s u g c' k' v' b p c k v t cs] z t by (auto simp: refocus)
  have "insert_fixup_step s (rp (nil s) t) = Some (s3, rp (nil s) t)"
    using zrep_up [OF z] zrep_up [OF z1] zrep_FR_fld [OF z] zrep_FR_fld [OF z1] zrep_neq [OF z t]
      zrep_neq [OF z1] s t u
    by (simp add: insert_fixup_step_def cong: bind_weak_cong)
  moreover have "settled s3 (rp (nil s) t)" using settled_child [OF s(7)] t s(6) by (simp add: keeps_nil)
  ultimately show ?thesis using s(6,7) by auto
qed

lemma step_inner_right:
  assumes z: "zrep s (Nd l n c0 k0 v0 r) (FL p Red k v b # FR u g c' k' v' # cs)" and u: "color_of u = Black"
  shows "\<exists>s' m. insert_fixup_step s n = Some (s', m) \<and> keeps s s' \<and> settled s' m \<and>
    zrep s' (rot_up (Nd l n c0 k0 v0 r) (FL p Red k v b) (FR u g c' k' v')) cs"
proof -
  have z1: "zrep s (Nd (Nd l n c0 k0 v0 r) p Red k v b) (FR u g c' k' v' # cs)" using z by (simp add: refocus)
  from right_rotate_ok [OF this] obtain s0 where s0: "right_rotate s p = Some s0" "keeps s s0"
    "zrep s0 (Nd l n c0 k0 v0 (Nd r p Red k v b)) (FR u g c' k' v' # cs)"
    by blast
  obtain s1 s2 s3 where s: "fld parent s0 p = Some n" "set_col s0 n RBTREE_COL_BLACK = Some s1"
    "fld parent s1 n = Some g" "set_col s1 g RBTREE_COL_RED = Some s2"
    "left_rotate s2 g = Some s3" "keeps s0 s3"
    "zrep s3 (Nd (Nd u g Red k' v' l) n Black k0 v0 (Nd r p Red k v b)) cs"
    using finish_left [of s0 u g c' k' v' l n c0 k0 v0 "Nd r p Red k v b" cs] s0(3)
    by (auto simp: refocus)
  have "insert_fixup_step s n = Some (s3, p)"
    using zrep_up [OF z] zrep_up [OF z1] zrep_FL_fld [OF z] zrep_FR_fld [OF z1] zrep_neq [OF z1] s0(1) s u
    by (simp add: insert_fixup_step_def cong: bind_weak_cong)
  moreover have "settled s3 p" using settled_child(2) [OF s(7)] by simp
  ultimately show ?thesis using s(6,7) s0(2) by (auto intro: keeps_trans)
qed

lemma step_rotate:
  assumes z: "zrep s t (f # g # cs)" and t: "t \<noteq> Lf"
    and f: "frame_color f = Red" and u: "color_of (sibling g) = Black"
  shows "\<exists>s' n. insert_fixup_step s (rp (nil s) t) = Some (s', n) \<and> keeps s s' \<and> settled s' n \<and>
    zrep s' (rot_up t f g) cs"
proof -
  obtain l n c k v r where tt: "t = Nd l n c k v r" using t by (cases t) auto
  show ?thesis
    using z f u step_outer_left [of s t _ _ _ _ _ _ _ _ _ _ cs] step_outer_right [of s t _ _ _ _ _ _ _ _ _ _ cs]
      step_inner_left [of s l n c k v r _ _ _ _ _ _ _ _ _ cs]
      step_inner_right [of s l n c k v r _ _ _ _ _ _ _ _ _ cs] tt
    by (cases f; cases g) (simp_all del: rot_up.simps)
qed

lemma insert_fixup_loop_settled: "settled s n \<Longrightarrow> insert_fixup_loop s n = Some s"
  by (subst insert_fixup_loop.simps) (auto simp: settled_def)

lemma insert_fixup_loop_ok:
  assumes "zrep s t cs" "t \<noteq> Lf" "ctx_invc cs"
  shows "\<exists>s'. insert_fixup_loop s (rp (nil s) t) = Some s' \<and> keeps s s' \<and> zrep s' (ins_fix t cs) []"
  using assms
proof (induction t cs arbitrary: s rule: ins_fix.induct)
  case (1 t f g cs)
  note z = 1(2) and t = 1(3) and fs = zrep_up [OF 1(2)]
  consider "frame_color f = Black" | "frame_color f = Red" "color_of (sibling g) = Red"
    | "frame_color f = Red" "color_of (sibling g) = Black" using not_Black by blast
  then show ?case
  proof cases
    case 1
    then have "settled s (rp (nil s) t)" using fs t by (auto simp: settled_def)
    then show ?thesis using 1 z by (auto simp: insert_fixup_loop_settled zrep_plug [symmetric] simp del: plug.simps)
  next
    case 2
    let ?u = "fill (fill t (paint_frame Black f)) (paint_frame Red (paint_sibling Black g))"
    obtain s1 where s1: "insert_fixup_step s (rp (nil s) t) = Some (s1, frame_addr g)" "keeps s s1" "zrep s1 ?u cs"
      using step_recolour [OF z t 2(2)] by blast
    have u: "?u \<noteq> Lf" "rp (nil s1) ?u = frame_addr g" by (cases g; simp)+
    obtain s' where "insert_fixup_loop s1 (frame_addr g) = Some s'" "keeps s1 s'" "zrep s' (ins_fix ?u cs) []"
      using "1.IH" [of s1] 2 s1(3) u "1.prems"(3) by auto
    then show ?thesis using fs t 2 s1 keeps_trans by (subst insert_fixup_loop.simps) auto
  next
    case 3
    obtain s1 n where s1: "insert_fixup_step s (rp (nil s) t) = Some (s1, n)" "keeps s s1" "settled s1 n"
      "zrep s1 (rot_up t f g) cs" using step_rotate [OF z t 3] by blast
    then show ?thesis using fs t 3
      by (subst insert_fixup_loop.simps) (auto simp: insert_fixup_loop_settled zrep_plug [symmetric])
  qed
next
  case (2 t)
  then obtain l a c k v r where t: "t = Nd l a c k v r" by (cases t) auto
  have "settled s a" using zrep_fld [of s l a c k v r "[]"] zrep_color [of s Lf "[FL a c k v r]"] 2(1) t
    by (auto simp: settled_def zrep_def sentinel_def fld_def load_def)
  then show ?case using 2 t by (auto simp: insert_fixup_loop_settled)
next
  case (3 t f)
  then have "settled s (rp (nil s) t)" using zrep_up [OF 3(1)] by (auto simp: settled_def)
  then show ?case using 3 by (auto simp: insert_fixup_loop_settled zrep_fill)
qed

section \<open>Search and linking\<close>

fun locate :: "int \<Rightarrow> 'v rbt \<Rightarrow> 'v frame list \<Rightarrow> 'v frame list option" where
  "locate k Lf cs = Some cs"
| "locate k (Nd l a c k' v r) cs =
     (if k < k' then locate k l (FL a c k' v r # cs)
      else if k' < k then locate k r (FR l a c k' v # cs) else None)"

definition around :: "int \<Rightarrow> 'v frame list \<Rightarrow> bool" where
  "around k cs \<longleftrightarrow> (\<forall>e\<in>set (before cs). fst e < k) \<and> (\<forall>e\<in>set (after cs). k < fst e)"

lemma around_Nil [simp]: "around k []"
  by (simp add: around_def)

lemma locate_plug: "locate k t cs = Some cs' \<Longrightarrow> plug Lf cs' = plug t cs"
  by (induction k t cs rule: locate.induct) (auto split: if_splits)

lemma sorted_Nd:
  "sorted_wrt (<) (keys (Nd l a c k v r)) \<longleftrightarrow> sorted_wrt (<) (keys l) \<and> sorted_wrt (<) (keys r) \<and>
     (\<forall>e\<in>set (entries l). fst e < k) \<and> (\<forall>e\<in>set (entries r). k < fst e)"
  by (simp add: sorted_wrt_append) (meson dual_order.strict_trans)

lemma around_FL: "around k (FL a c k' v r # cs) \<longleftrightarrow>
    around k cs \<and> k < k' \<and> (\<forall>e\<in>set (entries r). k < fst e)"
  by (auto simp: around_def)

lemma around_FR: "around k (FR l a c k' v # cs) \<longleftrightarrow>
    around k cs \<and> k' < k \<and> (\<forall>e\<in>set (entries l). fst e < k)"
  by (auto simp: around_def)

lemma locate_around:
  "locate k t cs = Some cs' \<Longrightarrow> around k cs \<Longrightarrow> sorted_wrt (<) (keys t) \<Longrightarrow> around k cs'"
proof (induction k t cs rule: locate.induct)
  case (2 k l a c k' v r cs)
  have s: "sorted_wrt (<) (keys l)" "sorted_wrt (<) (keys r)"
    "\<And>e. e \<in> set (entries l) \<Longrightarrow> fst e < k'" "\<And>e. e \<in> set (entries r) \<Longrightarrow> k' < fst e"
    using 2(5) unfolding sorted_Nd by auto
  consider "k < k'" | "k' < k" using 2(3) by fastforce
  then show ?case
  proof cases
    case 1
    then have "around k (FL a c k' v r # cs)" using 2(4) s(4) by (force simp: around_FL)
    then show ?thesis using 2(1,3) 1 s(1) by simp
  next
    case c2: 2
    then have "around k (FR l a c k' v # cs)" using 2(4) s(3) by (force simp: around_FR)
    then show ?thesis using 2(2,3) c2 s(2) by simp
  qed
qed simp

lemma locate_None: "sorted_wrt (<) (keys t) \<Longrightarrow> locate k t cs = None \<longleftrightarrow> k \<in> set (keys t)"
proof (induction k t cs rule: locate.induct)
  case (2 k l a c k' v r cs)
  have s: "sorted_wrt (<) (keys l)" "sorted_wrt (<) (keys r)"
    "\<And>x. x \<in> set (keys l) \<Longrightarrow> x < k'" "\<And>x. x \<in> set (keys r) \<Longrightarrow> k' < x"
    using 2(3) unfolding sorted_Nd by auto
  have "k \<in> set (keys (Nd l a c k' v r)) \<longleftrightarrow> k \<in> set (keys l) \<or> k = k' \<or> k \<in> set (keys r)" by auto
  moreover have "k < k' \<Longrightarrow> k \<notin> set (keys r)" "k' < k \<Longrightarrow> k \<notin> set (keys l)"
    using s(3,4) by (meson order_less_asym)+
  ultimately show ?case using 2(1,2) s(1,2) by (simp del: set_map) 
qed simp

lemma insert_search_ok:
  assumes "zrep s t cs" "t = Lf \<Longrightarrow> q = cp (nil s) cs"
  shows "insert_search s k (rp (nil s) t) q = Some (map_option (cp (nil s)) (locate k t cs))"
  using assms
proof (induction k t cs arbitrary: q rule: locate.induct)
  case (1 k cs)
  then show ?case by (subst insert_search.simps) simp
next
  case (2 k l a c k' v r cs)
  have "a \<noteq> nil s" using 2(3) by (auto simp: zrep_def)
  then show ?case using 2 zrep_fld [OF 2(3)] by (subst insert_search.simps) (simp add: refocus)
qed

lemma zrep_mem_upd: "zrep s t cs \<Longrightarrow> a \<noteq> nil s \<Longrightarrow> a \<notin> set (addrs t @ ctx_addrs cs) \<Longrightarrow>
    zrep (s\<lparr>mem := (mem s)(a := x)\<rparr>) t cs"
  by (auto simp: zrep_def sentinel_def)

lemma node_built: "n\<lparr>parent := p, right := x, left := x, col := RBTREE_COL_RED\<rparr> = node x x p Red (key n) (val n)"
  by (cases n) (simp add: node_def)

lemma link_node:
  assumes z: "zrep s Lf cs" and a: "a \<noteq> NULL" "a \<noteq> nil s" "a \<notin> set (ctx_addrs cs)"
    and n: "mem s a = Some n" and k: "around (key n) cs"
    and search: "insert_search s (key n) (root s) (root s) = Some (Some (cp (nil s) cs))"
  shows "\<exists>s'. rbtree_insert_node s a = rbtree_insert_fixup s' a \<and> keeps s s' \<and>
    zrep s' (Nd Lf a Red (key n) (val n) Lf) cs"
proof -
  let ?n = "node (nil s) (nil s) (cp (nil s) cs) Red (key n) (val n)"
  let ?s = "(if cs = [] then s\<lparr>root := a\<rparr> else s)\<lparr>mem := (relink (mem s) (nil s) a cs)(a \<mapsto> ?n)\<rparr>"
  have top: "cs \<noteq> [] \<Longrightarrow> root s = top_ptr a cs" using z by (cases cs) (auto simp: zrep_def)
  have "rbtree_insert_node s a = rbtree_insert_fixup ?s a"
  proof (cases cs rule: ctx_cases)
    case 1
    then show ?thesis using z a n search
      by (clarsimp simp: zrep_def sentinel_def)
       (simp add: rbtree_insert_node_def heap_ops relink_def node_built cong: bind_weak_cong)
  next
    case (2 b c k' v r cs')
    then show ?thesis using z a n search k
      by (clarsimp simp: zrep_def sentinel_def)
       (simp add: rbtree_insert_node_def heap_ops relink_def around_def node_built fun_upd_twist [of b a] cong: bind_weak_cong)
  next
    case (3 b c k' v l cs')
    then show ?thesis using z a n search k
      by (clarsimp simp: zrep_def sentinel_def)
       (simp add: rbtree_insert_node_def heap_ops relink_def around_def node_built fun_upd_twist [of b a] cong: bind_weak_cong)
  qed
  moreover have "keeps s ?s" "zrep ?s (Nd Lf a Red (key n) (val n) Lf) cs" using z a top
    by (clarsimp simp: zrep_def keeps_def sentinel_def; auto)+
  ultimately show ?thesis by blast
qed

section \<open>The contract of insertion\<close>

definition rb_tree :: "'v rbtree_t \<Rightarrow> 'v rbt \<Rightarrow> bool" where
  "rb_tree s t \<longleftrightarrow> zrep s t [] \<and> rb_ok t"

text \<open>An address \<^verbatim>\<open>malloc\<close> may return: not null and none of the nodes in use.\<close>

definition fresh :: "'v rbtree_t \<Rightarrow> 'v rbt \<Rightarrow> ptr \<Rightarrow> bool" where
  "fresh s t a \<longleftrightarrow> a \<notin> set (NULL # nil s # addrs t)"

lemma insert_fixup_ok:
  assumes z: "zrep s t cs" and t: "red_node t" and c: "ctx_invc cs" "ctx_invh (bh t) cs"
  shows "\<exists>s' u. rbtree_insert_fixup s (rp (nil s) t) = Some s' \<and> keeps s s' \<and> zrep s' u [] \<and>
    invc u \<and> invh u \<and> color_of u = Black \<and> entries u = before cs @ entries t @ after cs"
proof -
  have tl: "t \<noteq> Lf" using t by (simp add: red_node_def)
  obtain s1 where s1: "insert_fixup_loop s (rp (nil s) t) = Some s1" "keeps s s1" "zrep s1 (ins_fix t cs) []"
    using insert_fixup_loop_ok [OF z tl c(1)] by blast
  have e: "entries (ins_fix t cs) = before cs @ entries t @ after cs" using tl by (rule entries_ins_fix)
  then obtain l a c k v r where u: "ins_fix t cs = Nd l a c k v r" using tl by (cases "ins_fix t cs"; cases t) auto
  then have "root s1 = a" using s1(3) by (simp add: zrep_def)
  then obtain s2 where "set_col s1 (root s1) RBTREE_COL_BLACK = Some s2" "keeps s1 s2" "zrep s2 (Nd l a Black k v r) []"
    using zrep_set_col [of s1 l a c k v r "[]" Black] s1(3) u by auto
  then show ?thesis using s1 u e ins_fix_ok [OF t c]
    by (auto simp: rbtree_insert_fixup_def intro: keeps_trans intro!: exI [of _ "Nd l a Black k v r"])
qed

lemma mid_split:
  assumes "sorted_wrt (<) (map fst (xs @ ys))" "\<forall>e\<in>set xs. fst e < (k::int)" "\<forall>e\<in>set ys. k < fst e"
  shows "xs = filter (\<lambda>e. fst e < k) (xs @ ys)" "ys = filter (\<lambda>e. k < fst e) (xs @ ys)"
  using assms by (auto simp: filter_id_conv filter_empty_conv not_less_iff_gr_or_eq)

lemma insert_new_ok:
  assumes rb: "rb_tree s t" and new: "k \<notin> set (keys t)" and a: "fresh s t a"
  shows "\<exists>s' t'. rbtree_insert s a junk k v = Some (a, s') \<and> nil s' = nil s \<and> rb_tree s' t' \<and>
    entries t' = filter (\<lambda>e. fst e < k) (entries t) @ (k, a, v) # filter (\<lambda>e. k < fst e) (entries t)"
proof -
  let ?n = "junk\<lparr>key := k, val := v\<rparr>" let ?s = "s\<lparr>mem := (mem s)(a \<mapsto> ?n)\<rparr>" let ?t = "Nd Lf a Red k v Lf"
  have rb': "zrep s t []" "rb_ok t" "sorted_wrt (<) (keys t)" using rb by (auto simp: rb_tree_def rb_ok_def)
  then obtain cs where cs: "locate k t [] = Some cs" using locate_None [of t k "[]"] new by auto
  have plug: "plug Lf cs = t" using locate_plug [OF cs] by simp
  have ar: "around k cs" using locate_around [OF cs] rb'(3) by simp
  have z: "zrep ?s t []" using zrep_mem_upd [OF rb'(1)] a by (auto simp: fresh_def)
  then have zl: "zrep ?s Lf cs" using plug zrep_plug [of ?s Lf cs] by simp
  have "addrs t = map (\<lambda>e. fst (snd e)) (before cs @ after cs)" using plug by (auto simp: addrs_entries)
  moreover have "set (ctx_addrs cs) = set (map (\<lambda>e. fst (snd e)) (before cs @ after cs))"
    by (induction cs rule: before.induct) (auto simp: addrs_entries)
  ultimately have a': "a \<noteq> NULL" "a \<noteq> nil ?s" "a \<notin> set (ctx_addrs cs)" using a by (auto simp: fresh_def)
  have "root ?s = rp (nil ?s) t" using z by (simp add: zrep_def)
  then have "insert_search ?s k (root ?s) (root ?s) = Some (Some (cp (nil ?s) cs))"
    using insert_search_ok [OF z, of "root ?s" k] cs by auto
  then obtain s1 where s1: "rbtree_insert_node ?s a = rbtree_insert_fixup s1 a" "keeps ?s s1" "zrep s1 ?t cs"
    using link_node [OF zl a', of ?n] ar by auto
  have ok: "ctx_invc cs" "ctx_invh (bh ?t) cs" using rb'(2) plug rb_ok_plug [of Lf cs] by auto
  obtain s2 u where s2: "rbtree_insert_fixup s1 a = Some s2" "keeps s1 s2" "zrep s2 u []"
    "invc u" "invh u" "color_of u = Black" "entries u = before cs @ (k, a, v) # after cs"
    using insert_fixup_ok [OF s1(3) _ ok] by (auto simp: red_node_def)
  have e: "entries t = before cs @ after cs" using plug by auto
  have "rb_ok u" using s2 rb'(3) ar e by (auto simp: rb_ok_def around_def sorted_wrt_append)
  then show ?thesis
    using s1 s2 mid_split [of "before cs" "after cs" k] rb'(3) ar a'(1) e
    by (auto simp: rbtree_insert_def rb_tree_def around_def keeps_def simp del: filter_append
        intro!: exI [of _ s2] exI [of _ u])
qed

lemma insert_dup_ok:
  assumes rb: "rb_tree s t" and dup: "k \<in> set (keys t)" and a: "fresh s t a"
  shows "\<exists>s'. rbtree_insert s a junk k v = Some (a, s') \<and> nil s' = nil s \<and> rb_tree s' t \<and>
    mem s' a = Some (junk\<lparr>key := k, val := v\<rparr>)"
proof -
  let ?n = "junk\<lparr>key := k, val := v\<rparr>" let ?s = "s\<lparr>mem := (mem s)(a \<mapsto> ?n)\<rparr>"
  have rb': "zrep s t []" "sorted_wrt (<) (keys t)" using rb by (auto simp: rb_tree_def rb_ok_def)
  have z: "zrep ?s t []" using zrep_mem_upd [OF rb'(1)] a by (auto simp: fresh_def)
  have "root ?s = rp (nil ?s) t" using z by (simp add: zrep_def)
  then have "insert_search ?s k (root ?s) (root ?s) = Some None"
    using insert_search_ok [OF z, of "root ?s" k] locate_None [OF rb'(2), of k "[]"] dup by auto
  then have "rbtree_insert s a junk k v = Some (a, ?s)"
    using a by (auto simp: rbtree_insert_def rbtree_insert_node_def fresh_def fld_def load_def)
  then show ?thesis using z rb by (auto simp: rb_tree_def)
qed

end
