(* ===== verification/Rbtree_Query.thy ===== *)
theory Rbtree_Query
  imports Rbtree_Insert
begin

text \<open>
  The queries of the red-black tree (\<^verbatim>\<open>rbtree_min\<close>, \<^verbatim>\<open>rbtree_max\<close>, \<^verbatim>\<open>rbtree_successor\<close>),
  \<^verbatim>\<open>rbtree_create\<close>, and the properties of insertion.
\<close>

section \<open>Finding a node\<close>

lemma focus_at:
  "entries t = xs @ (k, a, v) # ys \<Longrightarrow>
   \<exists>l c r cs. plug t ds = plug (Nd l a c k v r) cs \<and> before cs @ entries l = before ds @ xs \<and>
     entries r @ after cs = ys @ after ds"
proof (induction t arbitrary: xs ys ds)
  case (Nd l b c k' v' r)
  from Nd.prems consider us where "entries l = xs @ (k, a, v) # us" "ys = us @ (k', b, v') # entries r"
    | "xs = entries l" "(k, a, v) = (k', b, v')" "ys = entries r"
    | us where "xs = entries l @ (k', b, v') # us" "entries r = us @ (k, a, v) # ys"
    by (auto simp: append_eq_append_conv2 append_eq_Cons_conv Cons_eq_append_conv)
  then show ?case
  proof cases
    case 1
    from Nd.IH(1) [OF 1(1), of "FL b c k' v' r # ds"] show ?thesis using 1 by auto
  next
    case 2
    then show ?thesis by (intro exI [of _ l] exI [of _ c] exI [of _ r] exI [of _ ds]) auto
  next
    case 3
    from Nd.IH(2) [OF 3(2), of "FR l b c k' v' # ds"] show ?thesis using 3 by auto
  qed
qed simp

lemma focusE:
  assumes "zrep s t []" "entries t = xs @ (k, a, v) # ys"
  obtains l c r cs where "zrep s (Nd l a c k v r) cs" "t = plug (Nd l a c k v r) cs"
    "xs = before cs @ entries l" "ys = entries r @ after cs"
  using assms focus_at [OF assms(2), of "[]"] zrep_plug [of s _] by fastforce

section \<open>Minimum and maximum\<close>

abbreviation addr_of :: "int \<times> ptr \<times> 'v \<Rightarrow> ptr" where
  "addr_of e \<equiv> fst (snd e)"

lemma min_loop_ok:
  "zrep s t cs \<Longrightarrow> min_loop s (rp (nil s) t) m = Some (case entries t of [] \<Rightarrow> m | e # _ \<Rightarrow> addr_of e)"
proof (induction t arbitrary: cs m)
  case (Nd l a c k v r)
  have "a \<noteq> nil s" using Nd.prems by (auto simp: zrep_def)
  moreover have "zrep s l (FL a c k v r # cs)" using Nd.prems by (simp add: refocus)
  ultimately show ?case using Nd.IH(1) zrep_fld [OF Nd.prems]
    by (subst min_loop.simps) (auto split: list.split)
qed (simp add: min_loop.simps)

lemma max_loop_ok:
  "zrep s t cs \<Longrightarrow> max_loop s (rp (nil s) t) m = Some (if t = Lf then m else addr_of (last (entries t)))"
proof (induction t arbitrary: cs m)
  case (Nd l a c k v r)
  have "a \<noteq> nil s" using Nd.prems by (auto simp: zrep_def)
  moreover have "zrep s r (FR l a c k v # cs)" using Nd.prems by (simp add: refocus)
  moreover have "r \<noteq> Lf \<Longrightarrow> entries r \<noteq> []" by (cases r) auto
  ultimately show ?case using Nd.IH(2) zrep_fld [OF Nd.prems]
    by (subst max_loop.simps) auto
qed (simp add: max_loop.simps)

lemma entries_Nil [simp]: "entries t = [] \<longleftrightarrow> t = Lf"
  by (cases t) auto

section \<open>Successor\<close>

lemma top_ptr_in: "cs \<noteq> [] \<Longrightarrow> top_ptr p cs \<in> set (ctx_addrs cs)"
  by (induction p cs rule: top_ptr.induct) (auto, metis top_ptr.simps(1))

lemma climb_loop_ok:
  assumes "zrep s t cs" "t \<noteq> Lf" "cs \<noteq> []"
  shows "climb_loop s (cp (nil s) cs) (rp (nil s) t) =
    Some (case after cs of [] \<Rightarrow> root s | e # _ \<Rightarrow> addr_of e)"
  using assms
proof (induction cs arbitrary: t)
  case (Cons f cs)
  note fs = zrep_up [OF Cons.prems(1)]
  show ?case
  proof (cases cs)
    case Nil
    then have "root s = frame_addr f" using Cons.prems(1) by (simp add: zrep_def)
    then show ?thesis using Nil by (subst climb_loop.simps) (cases f; simp)
  next
    case (Cons g ds)
    then have "root s \<in> set (ctx_addrs cs)"
      using Cons.prems(1) top_ptr_in [of cs] by (auto simp: zrep_def simp del: ctx_addrs.simps)
    then have ne: "frame_addr f \<noteq> root s" using Cons.prems(1) by (auto simp: zrep_def)
    show ?thesis
    proof (cases f)
      case (FL a c k v r)
      then show ?thesis using ne zrep_FL_fld [of s t a c k v r cs] zrep_neq [OF Cons.prems(1,2)] Cons.prems(1)
        by (subst climb_loop.simps) auto
    next
      case (FR l a c k v)
      have "climb_loop s (cp (nil s) cs) a = Some (case after cs of [] \<Rightarrow> root s | e # _ \<Rightarrow> addr_of e)"
        using Cons.IH [of "Nd l a c k v t"] Cons.prems(1) FR Cons by (simp add: refocus)
      then show ?thesis using ne FR fs zrep_FR_fld [of s t l a c k v cs] Cons.prems(1)
        by (subst climb_loop.simps) auto
    qed
  qed
qed simp

lemma successor_ok:
  assumes z: "zrep s (Nd l a c k v r) cs" and ne: "r \<noteq> Lf \<or> cs \<noteq> []"
  shows "rbtree_successor s a = Some (case entries r @ after cs of [] \<Rightarrow> root s | e # _ \<Rightarrow> addr_of e)"
proof -
  have a: "a \<noteq> nil s" using z by (auto simp: zrep_def)
  show ?thesis
  proof (cases r)
    case Lf
    then show ?thesis using a ne zrep_fld [OF z] climb_loop_ok [OF z]
      by (auto simp: rbtree_successor_def)
  next
    case (Nd l' a' c' k' v' r')
    have zr: "zrep s r (FR l a c k v # cs)" using z by (simp add: refocus)
    then have "a' \<noteq> nil s" using Nd by (auto simp: zrep_def)
    then show ?thesis using a zrep_fld [OF z] min_loop_ok [OF zr, of a'] Nd
      by (cases "entries l'") (auto simp: rbtree_successor_def)
  qed
qed

section \<open>Properties\<close>

lemma rbtree_create_ok: "a \<noteq> NULL \<Longrightarrow> rb_tree (rbtree_create a junk) Lf"
  by (simp add: rb_tree_def zrep_def sentinel_def rbtree_create_def rb_ok_def)

text \<open>A one-node tree, for the examples.\<close>

definition tree1 :: "int rbtree_t" where
  "tree1 = \<lparr>mem = [1 \<mapsto> \<lparr>left = NULL, right = NULL, parent = NULL, col = RBTREE_COL_BLACK, key = 0, val = 0\<rparr>,
     2 \<mapsto> node 1 1 1 Black 7 70], root = 2, nil = 1\<rparr>"

definition view1 :: "int rbt" where
  "view1 = Nd Lf 2 Black 7 70 Lf"

lemma tree1_ok: "rb_tree tree1 view1"
  by (simp add: rb_tree_def zrep_def sentinel_def tree1_def view1_def rb_ok_def)

text \<open>C5: \<^verbatim>\<open>rbtree_insert\<close> of a key that is not in the tree is defined (the search and the repair
  loop end, no null pointer is followed), returns the new node, and the heap then holds a
  red-black tree again: no red node has a red child, all paths have the same number of black nodes,
  the root is black, and the entries in order are the old ones with the new one in its place.
  Every older node keeps its address, key and value.\<close>

theorem rbtree_insert_new:
  assumes "rb_tree s t" and "k \<notin> set (keys t)" and "fresh s t a"
  shows "\<exists>s' t'. rbtree_insert s a junk k v = Some (a, s') \<and> nil s' = nil s \<and> rb_tree s' t' \<and>
    entries t' = filter (\<lambda>e. fst e < k) (entries t) @ (k, a, v) # filter (\<lambda>e. k < fst e) (entries t)"
  using insert_new_ok [OF assms] .

theorem rbtree_insert_new_witness:
  "\<exists>s' t'. rbtree_insert tree1 3 (node 0 0 0 Red 0 0) 5 50 = Some (3, s') \<and> nil s' = 1 \<and>
     rb_tree s' t' \<and> entries t' = [(5, 3, 50), (7, 2, 70)]"
  using rbtree_insert_new [of tree1 view1 5 3 "node 0 0 0 Red 0 0" 50] tree1_ok
  by (simp add: fresh_def view1_def tree1_def)

text \<open>\<^verbatim>\<open>rbtree_insert\<close> of a key that is already there leaves the tree as it was, but still
  returns the node it allocated. That node is not linked into the tree and its pointer and colour
  fields hold whatever was in the allocated memory. \<^verbatim>\<open>TimerQueueRBtree::addTimer\<close> stores
  the returned node in \<^verbatim>\<open>timer->attach\<close> without noticing.\<close>

theorem rbtree_insert_duplicate:
  assumes "rb_tree s t" and "k \<in> set (keys t)" and "fresh s t a"
  shows "\<exists>s'. rbtree_insert s a junk k v = Some (a, s') \<and> nil s' = nil s \<and> rb_tree s' t \<and>
    a \<notin> set (addrs t) \<and> mem s' a = Some (junk\<lparr>key := k, val := v\<rparr>)"
  using insert_dup_ok [OF assms] assms(3) by (auto simp: fresh_def)

theorem rbtree_insert_duplicate_witness:
  "\<exists>s'. rbtree_insert tree1 3 (node 0 0 0 Red 0 0) 7 50 = Some (3, s') \<and> rb_tree s' view1 \<and>
     mem s' 3 = Some (node 0 0 0 Red 7 50)"
  using rbtree_insert_duplicate [of tree1 view1 7 3 "node 0 0 0 Red 0 0" 50] tree1_ok
  by (auto simp: fresh_def view1_def tree1_def node_def)

text \<open>\<^verbatim>\<open>rbtree_min\<close> returns the node with the least key and \<^verbatim>\<open>rbtree_max\<close> the node with the
  greatest, and both return the sentinel on an empty tree.\<close>

theorem rbtree_min_max:
  assumes "rb_tree s t"
  shows "rbtree_min s = Some (if t = Lf then nil s else addr_of (hd (entries t))) \<and>
    rbtree_max s = Some (if t = Lf then nil s else addr_of (last (entries t)))"
proof
  have z: "zrep s t []" and r: "root s = rp (nil s) t" using assms by (auto simp: rb_tree_def zrep_def)
  then show "rbtree_min s = Some (if t = Lf then nil s else addr_of (hd (entries t)))"
    using min_loop_ok [OF z, of "root s"] r by (auto simp: rbtree_min_def split: list.splits)
  show "rbtree_max s = Some (if t = Lf then nil s else addr_of (last (entries t)))"
    using max_loop_ok [OF z, of "root s"] r by (auto simp: rbtree_max_def)
qed

theorem rbtree_min_max_witness: "rbtree_min tree1 = Some 2 \<and> rbtree_max tree1 = Some 2"
  using rbtree_min_max [OF tree1_ok] by (simp add: view1_def)

text \<open>\<^verbatim>\<open>rbtree_successor\<close> returns the next node in key order; but for the node with the
  greatest key, unless it is the root, it returns the root instead of reporting that there is
  none, so that a traversal by successor calls never ends.\<close>

theorem rbtree_successor_next:
  assumes "rb_tree s t" and "entries t = xs @ (k, a, v) # ys" and "ys \<noteq> [] \<or> a \<noteq> root s"
  shows "rbtree_successor s a = Some (if ys = [] then root s else addr_of (hd ys))"
proof -
  have z: "zrep s t []" using assms(1) by (simp add: rb_tree_def)
  from z assms(2) obtain l c r cs where f: "zrep s (Nd l a c k v r) cs" "ys = entries r @ after cs"
    by (rule focusE)
  have "cs = [] \<Longrightarrow> root s = a" using f(1) by (simp add: zrep_def)
  then have "r \<noteq> Lf \<or> cs \<noteq> []" using assms(3) f(2) by auto
  then show ?thesis using successor_ok [OF f(1)] f(2) by (auto split: list.splits)
qed

definition tree2 :: "int rbtree_t" where
  "tree2 = tree1\<lparr>mem := (mem tree1)(2 \<mapsto> node 1 3 1 Black 7 70, 3 \<mapsto> node 1 1 2 Red 9 90)\<rparr>"

theorem rbtree_successor_next_witness:
  "rbtree_successor tree2 2 = Some 3 \<and> rbtree_successor tree2 3 = Some 2"
proof -
  let ?t = "Nd Lf 2 Black 7 70 (Nd Lf 3 Red 9 90 Lf)"
  have "rb_tree tree2 ?t" by (simp add: rb_tree_def zrep_def sentinel_def tree1_def tree2_def rb_ok_def)
  then show ?thesis
    using rbtree_successor_next [of tree2 ?t "[]" 7 2 70 "[(9, 3, 90)]"]
      rbtree_successor_next [of tree2 ?t "[(7, 2, 70)]" 9 3 90 "[]"]
    by (simp add: tree1_def tree2_def)
qed

end
