(* ===== verification/Rbtree_Del_Fixup.thy ===== *)
theory Rbtree_Del_Fixup
  imports Rbtree_Query
begin

text \<open>
  The repair after a deletion from the red-black tree. \<open>del_fix\<close> is the loop of
  \<^verbatim>\<open>rbtree_del_fixup\<close> on zippers, with the code's second half as it is written, which is not the
  mirror image of the first. On a tree in order the loop on the heap ends and computes \<open>del_fix\<close>
  (\<open>del_fixup_ok\<close>), the entries are kept, and below left children only, where the first half
  alone runs, the red-black invariants are restored (\<open>del_fix_left_inv\<close>).
\<close>

section \<open>The repair on zippers\<close>

text \<open>The focus \<open>t\<close> lacks one black node and its sibling is black. The flag says whether the
  result still lacks one.\<close>

fun bal_left :: "'v rbt \<Rightarrow> ptr \<Rightarrow> color \<Rightarrow> int \<Rightarrow> 'v \<Rightarrow> 'v rbt \<Rightarrow> 'v rbt \<times> bool" where
  "bal_left t p c k v (Nd wl w wc wk wv wr) =
     (if color_of wl = Black \<and> color_of wr = Black
      then (Nd t p c k v (Nd wl w Red wk wv wr), True)
      else if color_of wr = Black
      then (case wl of Nd a x _ xk xv b \<Rightarrow>
              (Nd (Nd t p Black k v a) x c xk xv (Nd b w Black wk wv wr), False))
      else (Nd (Nd t p Black k v wl) w c wk wv (paint Black wr), False))"
| "bal_left t p c k v Lf = (Nd t p c k v Lf, True)"

fun bal_right :: "'v rbt \<Rightarrow> ptr \<Rightarrow> color \<Rightarrow> int \<Rightarrow> 'v \<Rightarrow> 'v rbt \<Rightarrow> 'v rbt \<times> bool" where
  "bal_right (Nd wl w wc wk wv wr) p c k v t =
     (if color_of wl = Black \<and> color_of wr = Black
      then (Nd (Nd wl w Red wk wv wr) p c k v t, True)
      else if color_of wl = Black
      then (case wr of Nd a x _ xk xv b \<Rightarrow>
              (Nd (Nd wl w Red wk wv a) x c xk xv (Nd (paint Black b) p Black k v t), False))
      else (Nd wl w c wk wv (Nd (paint Black wr) p Black k v t), False))"
| "bal_right Lf p c k v t = (Nd Lf p c k v t, True)"

fun del_fix :: "'v rbt \<Rightarrow> 'v frame list \<Rightarrow> 'v rbt" where
  "del_fix t [] = paint Black t"
| "del_fix t (FL p c k v w # cs) =
     (if color_of t = Red then plug (paint Black t) (FL p c k v w # cs)
      else (case w of
          Nd wl wa Red wk wv wr \<Rightarrow>
            (let (u, short) = bal_left t p Red k v wl; cs' = FL wa Black wk wv wr # cs
             in if short then plug (paint Black u) cs' else paint Black (plug u cs'))
        | _ \<Rightarrow> (let (u, short) = bal_left t p c k v w
                in if short then del_fix u cs else paint Black (plug u cs))))"
| "del_fix t (FR w p c k v # cs) =
     (if color_of t = Red then plug (paint Black t) (FR w p c k v # cs)
      else (case w of
          Nd wl wa Red wk wv wr \<Rightarrow>
            (let (u, short) = bal_right wr p Red k v t; cs' = FR wl wa Black wk wv # cs
             in if short then plug (paint Black u) cs' else paint Black (plug u cs'))
        | _ \<Rightarrow> (let (u, short) = bal_right w p c k v t
                in if short then del_fix u cs else paint Black (plug u cs))))"

lemma entries_bal_left: "entries (fst (bal_left t p c k v w)) = entries t @ (k, p, v) # entries w"
  by (cases w) (auto split: rbt.splits)

lemma entries_bal_right: "entries (fst (bal_right w p c k v t)) = entries w @ (k, p, v) # entries t"
  by (cases w) (auto split: rbt.splits)

lemma entries_del_fix: "entries (del_fix t cs) = before cs @ entries t @ after cs"
proof (induction t cs rule: del_fix.induct)
  case (2 t p c k v w cs)
  then show ?case
    using entries_bal_left [of t p c k v w] entries_bal_left [of t p Red k v]
    by (auto split: rbt.splits color.splits prod.splits)
next
  case (3 t w p c k v cs)
  then show ?case
    using entries_bal_right [of w p c k v t] entries_bal_right [of _ p Red k v t]
    by (auto split: rbt.splits color.splits prod.splits)
qed simp

text \<open>The first half of the repair restores the invariants.\<close>

lemma color_paint [simp]: "color_of (paint Black t) = Black"
  by (cases t) auto

lemma bal_left_inv:
  assumes "bal_left t p c k v w = (u, short)" "color_of w = Black" "invc w" "invh w"
    "invc t" "color_of t = Black" "invh t" "bh w = bh t + 1"
  shows "invh u \<and> invc (paint Black u) \<and> color_of u = c \<and>
    (if short then bh u = bh t + (if c = Black then 1 else 0)
     else invc u \<and> bh u = bh t + 1 + (if c = Black then 1 else 0))"
  using assms by (cases w) (auto split: rbt.splits if_splits simp: paint_Black bh_paint)


fun is_FL :: "'v frame \<Rightarrow> bool" where
  "is_FL (FL a c k v r) = True"
| "is_FL (FR l a c k v) = False"

definition rb_col :: "'v rbt \<Rightarrow> bool" where
  "rb_col t \<longleftrightarrow> invc t \<and> invh t \<and> color_of t = Black"

lemma rb_col_plug: "rb_col (plug t cs) \<longleftrightarrow> invc t \<and> invh t \<and> ctx_invc cs \<and> ctx_invh (bh t) cs \<and>
     (color_of t = Red \<longrightarrow> ctx_color cs = Black)"
  unfolding rb_col_def using invc_plug [of t cs] by auto

lemma paint_id: "color_of t = c \<Longrightarrow> paint c t = t"
  by (cases t) auto

lemma rb_col_paint: "rb_col t \<Longrightarrow> paint Black t = t"
  by (simp add: rb_col_def paint_id)

lemma del_fix_left_inv:
  assumes "list_all is_FL cs" "invc (paint Black t)" "invh t" "ctx_invc cs" "ctx_invh (bh t + 1) cs"
  shows "rb_col (del_fix t cs)"
  using assms
proof (induction t cs rule: del_fix.induct)
  case (1 t)
  then show ?case by (simp add: rb_col_def)
next
  case (2 t p c k v w cs)
  show ?case
  proof (cases "color_of t = Red")
    case True
    then have "rb_col (plug (paint Black t) (FL p c k v w # cs))"
      using 2(3-) unfolding rb_col_plug by (simp add: bh_paint)
    then show ?thesis using True by simp
  next
    case False
    then have t: "color_of t = Black" "invc t" using 2(4) by (simp_all add: paint_id)
    have w: "invc w" "invh w" "bh w = bh t + 1" using 2(6,7) by auto
    show ?thesis
    proof (cases "color_of w = Red")
      case True
      then obtain wl wa wk wv wr where w': "w = Nd wl wa Red wk wv wr" using red_tree by blast
      obtain u short where b: "bal_left t p Red k v wl = (u, short)" by fastforce
      note i = bal_left_inv [OF b _ _ _ t(2,1) 2(5)]
      have "rb_col (plug (if short then paint Black u else u) (FL wa Black wk wv wr # cs))"
        using i w w' 2(6,7) True unfolding rb_col_plug by (auto simp: bh_paint)
      then show ?thesis using b w' t(1) by (auto simp: Let_def rb_col_paint split: if_splits)
    next
      case wB: False
      obtain u short where b: "bal_left t p c k v w = (u, short)" by fastforce
      note i = bal_left_inv [OF b _ w(1,2) t(2,1) 2(5) w(3)]
      have e: "del_fix t (FL p c k v w # cs) = (if short then del_fix u cs else paint Black (plug u cs))"
        using b t(1) wB by (auto split: rbt.split color.split)
      show ?thesis
      proof (cases short)
        case True
        then show ?thesis using 2 b t(1) wB i e by (auto split: rbt.splits color.splits)
      next
        case F: False
        have "rb_col (plug u cs)" unfolding rb_col_plug using i F wB 2(6,7) by auto
        then show ?thesis using e F by (simp add: rb_col_paint del: del_fix.simps)
      qed
    qed
  qed
qed simp


section \<open>The repair on the heap\<close>

text \<open>The parent pointer of the node in focus is right even if that node is the sentinel.\<close>

definition up_ok :: "'v rbtree_t \<Rightarrow> 'v rbt \<Rightarrow> 'v frame list \<Rightarrow> bool" where
  "up_ok s t cs \<longleftrightarrow> fld parent s (rp (nil s) t) = Some (cp (nil s) cs)"

lemma up_ok_node: "zrep s t cs \<Longrightarrow> t \<noteq> Lf \<Longrightarrow> up_ok s t cs"
  by (cases t) (auto simp: up_ok_def zrep_fld)

lemma up_ok_keeps:
  assumes "up_ok s t cs" "keeps s s'" "zrep s' t cs'" "cp (nil s) cs' = cp (nil s) cs"
  shows "up_ok s' t cs'"
proof (cases t)
  case Lf
  then show ?thesis using assms by (auto simp: up_ok_def keeps_def fld_def load_def split: if_splits)
next
  case (Nd l a c k v r)
  then show ?thesis using up_ok_node [OF assms(3)] by simp
qed

lemma zrep_blacken_right:
  assumes "zrep s (Nd l a c k v r) cs"
  shows "\<exists>s'. set_col s (rp (nil s) r) RBTREE_COL_BLACK = Some s' \<and> keeps s s' \<and>
    zrep s' (Nd l a c k v (paint Black r)) cs"
proof (cases r)
  case Lf
  obtain n where n: "mem s (nil s) = Some n" "col n = RBTREE_COL_BLACK" "nil s \<noteq> NULL"
    using assms by (auto simp: zrep_def sentinel_def)
  moreover have "n\<lparr>col := RBTREE_COL_BLACK\<rparr> = n" using n(2) by (cases n) simp
  ultimately have "set_col s (nil s) RBTREE_COL_BLACK = Some s"
    by (simp add: set_col_def upd_def load_def fun_upd_idem)
  then show ?thesis using assms Lf by simp
next
  case (Nd l' a' c' k' v' r')
  then show ?thesis using zrep_set_right [OF assms, of Black] by simp
qed

lemma up_ok_fld: "up_ok s t (f # cs) \<Longrightarrow> fld parent s (rp (nil s) t) = Some (frame_addr f)"
  by (simp add: up_ok_def)

text \<open>Case 4 on the left: \<open>w\<close> takes the colour of \<open>p\<close>, \<open>p\<close> and the right child of \<open>w\<close> turn black,
  \<open>p\<close> is rotated down.\<close>

lemma case4_left:
  assumes z: "zrep s (Nd t p c k v (Nd wl w wc wk wv wr)) cs"
  shows "\<exists>s1 s2 s3 s4. fld col s p = Some (col_num c) \<and> set_col s w (col_num c) = Some s1 \<and>
    set_col s1 p RBTREE_COL_BLACK = Some s2 \<and> fld right s2 w = Some (rp (nil s) wr) \<and>
    set_col s2 (rp (nil s) wr) RBTREE_COL_BLACK = Some s3 \<and> left_rotate s3 p = Some s4 \<and>
    keeps s s4 \<and> zrep s4 (Nd (Nd t p Black k v wl) w c wk wv (paint Black wr)) cs"
proof -
  have "zrep s (Nd wl w wc wk wv wr) (FR t p c k v # cs)" using z by (simp add: refocus)
  from zrep_set_col [OF this, of c] obtain s1 where s1: "set_col s w (col_num c) = Some s1" "keeps s s1"
    "zrep s1 (Nd wl w c wk wv wr) (FR t p c k v # cs)" by blast
  from zrep_set_up [OF s1(3), of Black] obtain s2 where s2: "set_col s1 p RBTREE_COL_BLACK = Some s2"
    "keeps s1 s2" "zrep s2 (Nd wl w c wk wv wr) (FR t p Black k v # cs)" by auto
  from zrep_blacken_right [OF s2(3)] obtain s3 where
    s3: "set_col s2 (rp (nil s2) wr) RBTREE_COL_BLACK = Some s3" "keeps s2 s3"
      "zrep s3 (Nd wl w c wk wv (paint Black wr)) (FR t p Black k v # cs)" by blast
  have "zrep s3 (Nd t p Black k v (Nd wl w c wk wv (paint Black wr))) cs" using s3(3) by (simp add: refocus)
  from left_rotate_ok [OF this] obtain s4 where "left_rotate s3 p = Some s4" "keeps s3 s4"
    "zrep s4 (Nd (Nd t p Black k v wl) w c wk wv (paint Black wr)) cs" by blast
  then show ?thesis using s1 s2 s3 zrep_fld [OF z] zrep_fld [OF s2(3)] by (fastforce simp: keeps_def)
qed

lemma case4_right:
  assumes z: "zrep s (Nd (Nd wl w wc wk wv wr) p c k v t) cs"
  shows "\<exists>s1 s2 s3 s4. fld col s p = Some (col_num c) \<and> set_col s w (col_num c) = Some s1 \<and>
    set_col s1 p RBTREE_COL_BLACK = Some s2 \<and> fld right s2 w = Some (rp (nil s) wr) \<and>
    set_col s2 (rp (nil s) wr) RBTREE_COL_BLACK = Some s3 \<and> right_rotate s3 p = Some s4 \<and>
    keeps s s4 \<and> zrep s4 (Nd wl w c wk wv (Nd (paint Black wr) p Black k v t)) cs"
proof -
  have "zrep s (Nd wl w wc wk wv wr) (FL p c k v t # cs)" using z by (simp add: refocus)
  from zrep_set_col [OF this, of c] obtain s1 where s1: "set_col s w (col_num c) = Some s1" "keeps s s1"
    "zrep s1 (Nd wl w c wk wv wr) (FL p c k v t # cs)" by blast
  from zrep_set_up [OF s1(3), of Black] obtain s2 where s2: "set_col s1 p RBTREE_COL_BLACK = Some s2"
    "keeps s1 s2" "zrep s2 (Nd wl w c wk wv wr) (FL p Black k v t # cs)" by auto
  from zrep_blacken_right [OF s2(3)] obtain s3 where
    s3: "set_col s2 (rp (nil s2) wr) RBTREE_COL_BLACK = Some s3" "keeps s2 s3"
      "zrep s3 (Nd wl w c wk wv (paint Black wr)) (FL p Black k v t # cs)" by blast
  have "zrep s3 (Nd (Nd wl w c wk wv (paint Black wr)) p Black k v t) cs" using s3(3) by (simp add: refocus)
  from right_rotate_ok [OF this] obtain s4 where "right_rotate s3 p = Some s4" "keeps s3 s4"
    "zrep s4 (Nd wl w c wk wv (Nd (paint Black wr) p Black k v t)) cs" by blast
  then show ?thesis using s1 s2 s3 zrep_fld [OF z] zrep_fld [OF s2(3)] by (fastforce simp: keeps_def)
qed

text \<open>Case 3: the inner child of \<open>w\<close> is red and is rotated up.\<close>

lemma case3_left:
  assumes z: "zrep s (Nd (Nd a x c xk xv b) w Black wk wv wr) cs"
  shows "\<exists>s1 s2 s3. set_col s x RBTREE_COL_BLACK = Some s1 \<and> set_col s1 w RBTREE_COL_RED = Some s2 \<and>
    right_rotate s2 w = Some s3 \<and> keeps s s3 \<and> zrep s3 (Nd a x Black xk xv (Nd b w Red wk wv wr)) cs"
proof -
  have "zrep s (Nd a x c xk xv b) (FL w Black wk wv wr # cs)" using z by (simp add: refocus)
  from zrep_set_col [OF this, of Black] obtain s1 where s1: "set_col s x RBTREE_COL_BLACK = Some s1"
    "keeps s s1" "zrep s1 (Nd a x Black xk xv b) (FL w Black wk wv wr # cs)" by auto
  from zrep_set_up [OF s1(3), of Red] obtain s2 where s2: "set_col s1 w RBTREE_COL_RED = Some s2"
    "keeps s1 s2" "zrep s2 (Nd a x Black xk xv b) (FL w Red wk wv wr # cs)" by auto
  have "zrep s2 (Nd (Nd a x Black xk xv b) w Red wk wv wr) cs" using s2(3) by (simp add: refocus)
  from right_rotate_ok [OF this] show ?thesis using s1 s2 keeps_trans by blast
qed

lemma case3_right:
  assumes z: "zrep s (Nd wl w Black wk wv (Nd a x c xk xv b)) cs"
  shows "\<exists>s1 s2 s3. set_col s x RBTREE_COL_BLACK = Some s1 \<and> set_col s1 w RBTREE_COL_RED = Some s2 \<and>
    left_rotate s2 w = Some s3 \<and> keeps s s3 \<and> zrep s3 (Nd (Nd wl w Red wk wv a) x Black xk xv b) cs"
proof -
  have "zrep s (Nd a x c xk xv b) (FR wl w Black wk wv # cs)" using z by (simp add: refocus)
  from zrep_set_col [OF this, of Black] obtain s1 where s1: "set_col s x RBTREE_COL_BLACK = Some s1"
    "keeps s s1" "zrep s1 (Nd a x Black xk xv b) (FR wl w Black wk wv # cs)" by auto
  from zrep_set_up [OF s1(3), of Red] obtain s2 where s2: "set_col s1 w RBTREE_COL_RED = Some s2"
    "keeps s1 s2" "zrep s2 (Nd a x Black xk xv b) (FR wl w Red wk wv # cs)" by auto
  have "zrep s2 (Nd wl w Red wk wv (Nd a x Black xk xv b)) cs" using s2(3) by (simp add: refocus)
  from left_rotate_ok [OF this] show ?thesis using s1 s2 keeps_trans by blast
qed


lemma left_black:
  assumes z: "zrep s t (FL p c k v (Nd wl w Black wk wv wr) # cs)"
    and up: "up_ok s t (FL p c k v (Nd wl w Black wk wv wr) # cs)"
    and b: "bal_left t p c k v (Nd wl w Black wk wv wr) = (u, short)"
  shows "\<exists>s' x. del_fixup_left_black s (rp (nil s) t) w = Some (s', x) \<and> keeps s s' \<and> zrep s' u cs \<and>
    x = (if short then p else root s')"
proof -
  let ?x = "rp (nil s) t"
  have zw: "zrep s (Nd wl w Black wk wv wr) (FR t p c k v # cs)" using z by (simp add: refocus)
  note f = zrep_fld [OF zw] zrep_children [OF zw]
  have px: "fld parent s' ?x = Some p" if "keeps s s'" "zrep s' t (FL p c' k v y # cs)" for s' c' y
    using up_ok_fld [OF up_ok_keeps [OF up that]] that(1) by (simp add: keeps_nil)
  consider (bb) "color_of wl = Black" "color_of wr = Black" | (c3) "color_of wl = Red" "color_of wr = Black"
    | (c4) "color_of wr = Red" by (meson color.exhaust)
  then show ?thesis
  proof cases
    case bb
    from zrep_set_col [OF zw, of Red] obtain s1 where s1: "set_col s w RBTREE_COL_RED = Some s1" "keeps s s1"
      "zrep s1 (Nd wl w Red wk wv wr) (FR t p c k v # cs)" by auto
    then have "zrep s1 t (FL p c k v (Nd wl w Red wk wv wr) # cs)" by (simp add: refocus)
    then show ?thesis using f bb s1 px [OF s1(2)] b
      by (auto simp: del_fixup_left_black_def refocus cong: bind_weak_cong)
  next
    case c3
    then obtain a x xk xv d where wl: "wl = Nd a x Red xk xv d" using red_tree by blast
    from case3_left [of s a x Red xk xv d w wk wv wr "FR t p c k v # cs"] zw wl obtain s1 s2 s3 where
      s3: "set_col s x RBTREE_COL_BLACK = Some s1" "set_col s1 w RBTREE_COL_RED = Some s2"
        "right_rotate s2 w = Some s3" "keeps s s3"
        "zrep s3 (Nd a x Black xk xv (Nd d w Red wk wv wr)) (FR t p c k v # cs)" by auto
    have z3: "zrep s3 (Nd t p c k v (Nd a x Black xk xv (Nd d w Red wk wv wr))) cs"
      "zrep s3 t (FL p c k v (Nd a x Black xk xv (Nd d w Red wk wv wr)) # cs)"
      using s3(5) by (simp_all add: refocus)
    from case4_left [OF z3(1)] obtain s4 s5 s6 s7 where
      s7: "fld col s3 p = Some (col_num c)" "set_col s3 x (col_num c) = Some s4"
        "set_col s4 p RBTREE_COL_BLACK = Some s5" "fld right s5 x = Some w"
        "set_col s5 w RBTREE_COL_BLACK = Some s6" "left_rotate s6 p = Some s7" "keeps s3 s7"
        "zrep s7 (Nd (Nd t p Black k v a) x c xk xv (Nd d w Black wk wv wr)) cs" by auto
    show ?thesis using f c3 wl s3(1-4) s7 px [OF s3(4) z3(2)] zrep_fld [OF z3(1)] b keeps_trans
      by (auto simp: del_fixup_left_black_def cong: bind_weak_cong)
  next
    case c4
    have z4: "zrep s (Nd t p c k v (Nd wl w Black wk wv wr)) cs" using z by (simp add: refocus)
    from case4_left [OF z4] obtain s1 s2 s3 s4 where
      s4: "fld col s p = Some (col_num c)" "set_col s w (col_num c) = Some s1"
        "set_col s1 p RBTREE_COL_BLACK = Some s2" "fld right s2 w = Some (rp (nil s) wr)"
        "set_col s2 (rp (nil s) wr) RBTREE_COL_BLACK = Some s3" "left_rotate s3 p = Some s4"
        "keeps s s4" "zrep s4 (Nd (Nd t p Black k v wl) w c wk wv (paint Black wr)) cs" by blast
    show ?thesis using f c4 s4 px [OF _ z] b
      by (auto simp: del_fixup_left_black_def cong: bind_weak_cong)
  qed
qed

lemma right_black:
  assumes z: "zrep s t (FR (Nd wl w Black wk wv wr) p c k v # cs)"
    and up: "up_ok s t (FR (Nd wl w Black wk wv wr) p c k v # cs)"
    and b: "bal_right (Nd wl w Black wk wv wr) p c k v t = (u, short)"
  shows "\<exists>s' x. del_fixup_right_black s (rp (nil s) t) w = Some (s', x) \<and> keeps s s' \<and> zrep s' u cs \<and>
    x = (if short then p else root s')"
proof -
  let ?x = "rp (nil s) t"
  have zw: "zrep s (Nd wl w Black wk wv wr) (FL p c k v t # cs)" using z by (simp add: refocus)
  note f = zrep_fld [OF zw] zrep_children [OF zw]
  have px: "fld parent s' ?x = Some p" if "keeps s s'" "zrep s' t (FR y p c' k v # cs)" for s' c' y
    using up_ok_fld [OF up_ok_keeps [OF up that]] that(1) by (simp add: keeps_nil)
  consider (bb) "color_of wl = Black" "color_of wr = Black" | (c3) "color_of wl = Black" "color_of wr = Red"
    | (c4) "color_of wl = Red" by (meson color.exhaust)
  then show ?thesis
  proof cases
    case bb
    from zrep_set_col [OF zw, of Red] obtain s1 where s1: "set_col s w RBTREE_COL_RED = Some s1" "keeps s s1"
      "zrep s1 (Nd wl w Red wk wv wr) (FL p c k v t # cs)" by auto
    then have "zrep s1 t (FR (Nd wl w Red wk wv wr) p c k v # cs)" by (simp add: refocus)
    then show ?thesis using f bb s1 px [OF s1(2)] b
      by (auto simp: del_fixup_right_black_def refocus cong: bind_weak_cong)
  next
    case c3
    then obtain a x xk xv d where wr: "wr = Nd a x Red xk xv d" using red_tree by blast
    from case3_right [of s wl w wk wv a x Red xk xv d "FL p c k v t # cs"] zw wr obtain s1 s2 s3 where
      s3: "set_col s x RBTREE_COL_BLACK = Some s1" "set_col s1 w RBTREE_COL_RED = Some s2"
        "left_rotate s2 w = Some s3" "keeps s s3"
        "zrep s3 (Nd (Nd wl w Red wk wv a) x Black xk xv d) (FL p c k v t # cs)" by auto
    have z3: "zrep s3 (Nd (Nd (Nd wl w Red wk wv a) x Black xk xv d) p c k v t) cs"
      "zrep s3 t (FR (Nd (Nd wl w Red wk wv a) x Black xk xv d) p c k v # cs)"
      using s3(5) by (simp_all add: refocus)
    from case4_right [OF z3(1)] obtain s4 s5 s6 s7 where
      s7: "fld col s3 p = Some (col_num c)" "set_col s3 x (col_num c) = Some s4"
        "set_col s4 p RBTREE_COL_BLACK = Some s5" "fld right s5 x = Some (rp (nil s3) d)"
        "set_col s5 (rp (nil s3) d) RBTREE_COL_BLACK = Some s6" "right_rotate s6 p = Some s7" "keeps s3 s7"
        "zrep s7 (Nd (Nd wl w Red wk wv a) x c xk xv (Nd (paint Black d) p Black k v t)) cs" by auto
    show ?thesis using f c3 wr s3(1-4) s7 px [OF s3(4) z3(2)] zrep_fld [OF z3(1)] b keeps_trans
      by (auto simp: del_fixup_right_black_def cong: bind_weak_cong)
  next
    case c4
    have z4: "zrep s (Nd (Nd wl w Black wk wv wr) p c k v t) cs" using z by (simp add: refocus)
    from case4_right [OF z4] obtain s1 s2 s3 s4 where
      s4: "fld col s p = Some (col_num c)" "set_col s w (col_num c) = Some s1"
        "set_col s1 p RBTREE_COL_BLACK = Some s2" "fld right s2 w = Some (rp (nil s) wr)"
        "set_col s2 (rp (nil s) wr) RBTREE_COL_BLACK = Some s3" "right_rotate s3 p = Some s4"
        "keeps s s4" "zrep s4 (Nd wl w c wk wv (Nd (paint Black wr) p Black k v t)) cs" by blast
    show ?thesis using f c4 s4 px [OF _ z] b
      by (auto simp: del_fixup_right_black_def cong: bind_weak_cong)
  qed
qed


text \<open>Case 1: a red sibling is rotated above \<open>p\<close>.\<close>

lemma case1_left:
  assumes z: "zrep s t (FL p c k v (Nd wl w Red wk wv wr) # cs)"
  shows "\<exists>s1 s2 s3. set_col s w RBTREE_COL_BLACK = Some s1 \<and> set_col s1 p RBTREE_COL_RED = Some s2 \<and>
    left_rotate s2 p = Some s3 \<and> keeps s s3 \<and> zrep s3 t (FL p Red k v wl # FL w Black wk wv wr # cs)"
proof -
  have "zrep s (Nd wl w Red wk wv wr) (FR t p c k v # cs)" using z by (simp add: refocus)
  from zrep_set_col [OF this, of Black] obtain s1 where s1: "set_col s w RBTREE_COL_BLACK = Some s1"
    "keeps s s1" "zrep s1 (Nd wl w Black wk wv wr) (FR t p c k v # cs)" by auto
  from zrep_set_up [OF s1(3), of Red] obtain s2 where s2: "set_col s1 p RBTREE_COL_RED = Some s2"
    "keeps s1 s2" "zrep s2 (Nd wl w Black wk wv wr) (FR t p Red k v # cs)" by auto
  have "zrep s2 (Nd t p Red k v (Nd wl w Black wk wv wr)) cs" using s2(3) by (simp add: refocus)
  from left_rotate_ok [OF this] obtain s3 where
    s3: "left_rotate s2 p = Some s3" "keeps s2 s3" "zrep s3 (Nd (Nd t p Red k v wl) w Black wk wv wr) cs" by blast
  have "zrep s3 t (FL p Red k v wl # FL w Black wk wv wr # cs)" using s3(3) by (simp add: refocus)
  then show ?thesis using s1(1) s2(1) s3(1) keeps_trans [OF keeps_trans [OF s1(2) s2(2)] s3(2)] by blast
qed

lemma case1_right:
  assumes z: "zrep s t (FR (Nd wl w Red wk wv wr) p c k v # cs)"
  shows "\<exists>s1 s2 s3. set_col s w RBTREE_COL_BLACK = Some s1 \<and> set_col s1 p RBTREE_COL_RED = Some s2 \<and>
    right_rotate s2 p = Some s3 \<and> keeps s s3 \<and> zrep s3 t (FR wr p Red k v # FR wl w Black wk wv # cs)"
proof -
  have "zrep s (Nd wl w Red wk wv wr) (FL p c k v t # cs)" using z by (simp add: refocus)
  from zrep_set_col [OF this, of Black] obtain s1 where s1: "set_col s w RBTREE_COL_BLACK = Some s1"
    "keeps s s1" "zrep s1 (Nd wl w Black wk wv wr) (FL p c k v t # cs)" by auto
  from zrep_set_up [OF s1(3), of Red] obtain s2 where s2: "set_col s1 p RBTREE_COL_RED = Some s2"
    "keeps s1 s2" "zrep s2 (Nd wl w Black wk wv wr) (FL p Red k v t # cs)" by auto
  have "zrep s2 (Nd (Nd wl w Black wk wv wr) p Red k v t) cs" using s2(3) by (simp add: refocus)
  from right_rotate_ok [OF this] obtain s3 where
    s3: "right_rotate s2 p = Some s3" "keeps s2 s3" "zrep s3 (Nd wl w Black wk wv (Nd wr p Red k v t)) cs" by blast
  have "zrep s3 t (FR wr p Red k v # FR wl w Black wk wv # cs)" using s3(3) by (simp add: refocus)
  then show ?thesis using s1(1) s2(1) s3(1) keeps_trans [OF keeps_trans [OF s1(2) s2(2)] s3(2)] by blast
qed

text \<open>The exits of the loop, and the whole repair.\<close>

lemma root_neq: "zrep s t (f # cs) \<Longrightarrow> rp (nil s) t \<noteq> root s"
  using top_ptr_in [of "f # cs" "rp (nil s) t"] by (cases t) (auto simp: zrep_def)

lemma del_exit_root:
  assumes "zrep s t []"
  shows "\<exists>s'. rbtree_del_fixup s (root s) = Some s' \<and> keeps s s' \<and> zrep s' (paint Black t) []"
proof -
  have r: "root s = rp (nil s) t" using assms by (simp add: zrep_def)
  have l: "del_fixup_loop s (root s) = Some (s, root s)" by (simp add: del_fixup_loop.simps)
  show ?thesis
  proof (cases t)
    case Lf
    then obtain n where n: "mem s (nil s) = Some n" "col n = RBTREE_COL_BLACK" "nil s \<noteq> NULL"
      using assms by (auto simp: zrep_def sentinel_def)
    moreover have "n\<lparr>col := RBTREE_COL_BLACK\<rparr> = n" using n(2) by (cases n) simp
    ultimately have "set_col s (nil s) RBTREE_COL_BLACK = Some s"
      by (simp add: set_col_def upd_def load_def fun_upd_idem)
    then show ?thesis using assms Lf l r by (auto simp: rbtree_del_fixup_def)
  next
    case (Nd l' a c k v r')
    then show ?thesis using zrep_set_col [of s l' a c k v r' "[]" Black] assms l r
      by (auto simp: rbtree_del_fixup_def)
  qed
qed

lemma del_exit_red:
  assumes z: "zrep s t cs" and t: "color_of t = Red"
  shows "\<exists>s'. rbtree_del_fixup s (rp (nil s) t) = Some s' \<and> keeps s s' \<and> zrep s' (plug (paint Black t) cs) []"
proof -
  obtain l a k v r where tt: "t = Nd l a Red k v r" using red_tree [OF t] by blast
  have "del_fixup_loop s a = Some (s, a)" using zrep_fld(4) [of s l a Red k v r cs] z tt
    by (subst del_fixup_loop.simps) simp
  moreover obtain s1 where "set_col s a RBTREE_COL_BLACK = Some s1" "keeps s s1" "zrep s1 (paint Black t) cs"
    using zrep_set_col [of s l a Red k v r cs Black] z tt by auto
  ultimately show ?thesis using tt by (auto simp: rbtree_del_fixup_def zrep_plug [symmetric])
qed

lemma loop_step_left:
  assumes z: "zrep s t (FL p c k v w # cs)" and t: "color_of t = Black" and up: "up_ok s t (FL p c k v w # cs)"
    and e: "del_fixup_left s (rp (nil s) t) p = Some (s', x)"
  shows "rbtree_del_fixup s (rp (nil s) t) = rbtree_del_fixup s' x"
  using root_neq [OF z] zrep_color [OF z] zrep_FL_fld [OF z] up_ok_fld [OF up] t e
  unfolding rbtree_del_fixup_def by (subst del_fixup_loop.simps) simp

lemma loop_step_right:
  assumes z: "zrep s t (FR w p c k v # cs)" and t: "color_of t = Black" and up: "up_ok s t (FR w p c k v # cs)"
    and w: "w \<noteq> Lf" and e: "del_fixup_right s (rp (nil s) t) p = Some (s', x)"
  shows "rbtree_del_fixup s (rp (nil s) t) = rbtree_del_fixup s' x"
proof -
  have "rp (nil s) t \<noteq> rp (nil s) w"
    using z w zrep_neq [of s w "FL p c k v t" cs] by (auto simp: refocus)
  then show ?thesis
    using root_neq [OF z] zrep_color [OF z] zrep_FR_fld [OF z] up_ok_fld [OF up] t e
    unfolding rbtree_del_fixup_def by (subst del_fixup_loop.simps) simp
qed


text \<open>One turn of the loop, with the sibling in the tree.\<close>

lemma left_turn_black:
  assumes z: "zrep s t (FL p c k v w # cs)" and up: "up_ok s t (FL p c k v w # cs)" and t: "color_of t = Black"
    and w: "w \<noteq> Lf" "color_of w = Black" and b: "bal_left t p c k v w = (u, short)"
  shows "\<exists>s'. rbtree_del_fixup s (rp (nil s) t) = rbtree_del_fixup s' (if short then p else root s') \<and>
    keeps s s' \<and> zrep s' u cs"
proof -
  obtain wl wa wk wv wr where w': "w = Nd wl wa Black wk wv wr" using w by (cases w) auto
  obtain s' where s': "del_fixup_left_black s (rp (nil s) t) wa = Some (s', if short then p else root s')"
    "keeps s s'" "zrep s' u cs" using left_black [of s t p c k v wl wa wk wv wr cs u short] z up b w' by auto
  have "del_fixup_left s (rp (nil s) t) p = Some (s', if short then p else root s')"
    using zrep_FL_fld(2) [OF z] zrep_up(4) [OF z] w' s'(1)
    by (simp add: del_fixup_left_def cong: bind_weak_cong)
  from loop_step_left [OF z t up this] show ?thesis using s' by auto
qed

lemma left_turn_red:
  assumes z: "zrep s t (FL p c k v (Nd wl w Red wk wv wr) # cs)"
    and up: "up_ok s t (FL p c k v (Nd wl w Red wk wv wr) # cs)" and t: "color_of t = Black"
    and w: "wl \<noteq> Lf" "color_of wl = Black" and b: "bal_left t p Red k v wl = (u, short)"
  shows "\<exists>s'. rbtree_del_fixup s (rp (nil s) t) = rbtree_del_fixup s' (if short then p else root s') \<and>
    keeps s s' \<and> zrep s' u (FL w Black wk wv wr # cs)"
proof -
  from case1_left [OF z] obtain s1 s2 s3 where s3: "set_col s w RBTREE_COL_BLACK = Some s1"
    "set_col s1 p RBTREE_COL_RED = Some s2" "left_rotate s2 p = Some s3" "keeps s s3"
    "zrep s3 t (FL p Red k v wl # FL w Black wk wv wr # cs)" by blast
  have up3: "up_ok s3 t (FL p Red k v wl # FL w Black wk wv wr # cs)" using up_ok_keeps [OF up s3(4,5)] by simp
  have nil: "nil s3 = nil s" using s3(4) by (rule keeps_nil)
  obtain a x ak av d where wl: "wl = Nd a x Black ak av d" using w by (cases wl) auto
  obtain s' where s': "del_fixup_left_black s3 (rp (nil s) t) x = Some (s', if short then p else root s')"
    "keeps s3 s'" "zrep s' u (FL w Black wk wv wr # cs)"
    using left_black [of s3 t p Red k v a x ak av d "FL w Black wk wv wr # cs" u short] s3(5) up3 b wl nil by auto
  have "del_fixup_left s (rp (nil s) t) p = Some (s', if short then p else root s')"
    using zrep_FL_fld(2) [OF z] zrep_up(4) [OF z] s3 s'(1) up_ok_fld [OF up3] zrep_FL_fld(2) [OF s3(5)] wl nil
    by (simp add: del_fixup_left_def cong: bind_weak_cong)
  from loop_step_left [OF z t up this] show ?thesis using s' s3(4) keeps_trans by auto
qed

lemma right_turn_black:
  assumes z: "zrep s t (FR w p c k v # cs)" and up: "up_ok s t (FR w p c k v # cs)" and t: "color_of t = Black"
    and w: "w \<noteq> Lf" "color_of w = Black" and b: "bal_right w p c k v t = (u, short)"
  shows "\<exists>s'. rbtree_del_fixup s (rp (nil s) t) = rbtree_del_fixup s' (if short then p else root s') \<and>
    keeps s s' \<and> zrep s' u cs"
proof -
  obtain wl wa wk wv wr where w': "w = Nd wl wa Black wk wv wr" using w by (cases w) auto
  obtain s' where s': "del_fixup_right_black s (rp (nil s) t) wa = Some (s', if short then p else root s')"
    "keeps s s'" "zrep s' u cs" using right_black [of s t wl wa wk wv wr p c k v cs u short] z up b w' by auto
  have "del_fixup_right s (rp (nil s) t) p = Some (s', if short then p else root s')"
    using zrep_FR_fld(1) [OF z] zrep_up(4) [OF z] w' s'(1)
    by (simp add: del_fixup_right_def cong: bind_weak_cong)
  from loop_step_right [OF z t up w(1) this] show ?thesis using s' by auto
qed

lemma right_turn_red:
  assumes z: "zrep s t (FR (Nd wl w Red wk wv wr) p c k v # cs)"
    and up: "up_ok s t (FR (Nd wl w Red wk wv wr) p c k v # cs)" and t: "color_of t = Black"
    and w: "wr \<noteq> Lf" "color_of wr = Black" and b: "bal_right wr p Red k v t = (u, short)"
  shows "\<exists>s'. rbtree_del_fixup s (rp (nil s) t) = rbtree_del_fixup s' (if short then p else root s') \<and>
    keeps s s' \<and> zrep s' u (FR wl w Black wk wv # cs)"
proof -
  from case1_right [OF z] obtain s1 s2 s3 where s3: "set_col s w RBTREE_COL_BLACK = Some s1"
    "set_col s1 p RBTREE_COL_RED = Some s2" "right_rotate s2 p = Some s3" "keeps s s3"
    "zrep s3 t (FR wr p Red k v # FR wl w Black wk wv # cs)" by blast
  have up3: "up_ok s3 t (FR wr p Red k v # FR wl w Black wk wv # cs)" using up_ok_keeps [OF up s3(4,5)] by simp
  have nil: "nil s3 = nil s" using s3(4) by (rule keeps_nil)
  obtain a x ak av d where wr: "wr = Nd a x Black ak av d" using w by (cases wr) auto
  obtain s' where s': "del_fixup_right_black s3 (rp (nil s) t) x = Some (s', if short then p else root s')"
    "keeps s3 s'" "zrep s' u (FR wl w Black wk wv # cs)"
    using right_black [of s3 t a x ak av d p Red k v "FR wl w Black wk wv # cs" u short] s3(5) up3 b wr nil by auto
  have "del_fixup_right s (rp (nil s) t) p = Some (s', if short then p else root s')"
    using zrep_FR_fld(1) [OF z] zrep_up(4) [OF z] s3 s'(1) up_ok_fld [OF up3] zrep_FR_fld(1) [OF s3(5)] wr nil
    by (simp add: del_fixup_right_def cong: bind_weak_cong)
  from loop_step_right [OF z t up _ this] show ?thesis using s' s3(4) keeps_trans by auto
qed


lemma bal_left_short: "bal_left t p c k v w = (u, True) \<Longrightarrow> \<exists>w'. u = Nd t p c k v w'"
  by (cases w) (auto split: if_splits rbt.splits)

lemma bal_right_short:
  "bal_right w p c k v t = (u, True) \<Longrightarrow> color_of w = Black \<Longrightarrow> bh w = bh t + 1 \<Longrightarrow>
     \<exists>w'. u = Nd w' p c k v t \<and> bh w' = bh t"
  by (cases w) (auto split: if_splits rbt.splits)

definition repair_ok :: "'v frame list \<Rightarrow> bool" where
  "repair_ok cs \<longleftrightarrow> (\<forall>s t. zrep s t cs \<longrightarrow> up_ok s t cs \<longrightarrow> ctx_invc cs \<longrightarrow> ctx_invh (bh t + 1) cs \<longrightarrow>
     (\<exists>s'. rbtree_del_fixup s (rp (nil s) t) = Some s' \<and> keeps s s' \<and> zrep s' (del_fix t cs) []))"

lemma repair_left:
  assumes IH: "repair_ok cs" and z: "zrep s t (FL p c k v w # cs)" and up: "up_ok s t (FL p c k v w # cs)"
    and c: "ctx_invc (FL p c k v w # cs)" and h: "ctx_invh (bh t + 1) (FL p c k v w # cs)"
  shows "\<exists>s'. rbtree_del_fixup s (rp (nil s) t) = Some s' \<and> keeps s s' \<and> zrep s' (del_fix t (FL p c k v w # cs)) []"
proof -
  have w: "bh w = bh t + 1" "w \<noteq> Lf" using h by auto
  consider (r) "color_of t = Red" | (wr) "color_of t = Black" "color_of w = Red"
    | (wb) "color_of t = Black" "color_of w = Black" by (meson color.exhaust)
  then show ?thesis
  proof cases
    case r
    then show ?thesis using del_exit_red [OF z] by simp
  next
    case wr
    then obtain wl wa wk wv wr where w': "w = Nd wl wa Red wk wv wr" using red_tree by blast
    obtain u short where b: "bal_left t p Red k v wl = (u, short)" by fastforce
    have ch: "wl \<noteq> Lf" "color_of wl = Black" "bh wl = bh t + 1" using c h w' by auto
    from left_turn_red [OF z [unfolded w'] up [unfolded w'] wr(1) ch(1,2) b] obtain s1 where
      s1: "rbtree_del_fixup s (rp (nil s) t) = rbtree_del_fixup s1 (if short then p else root s1)"
      "keeps s s1" "zrep s1 u (FL wa Black wk wv wr # cs)" by blast
    then have z1: "zrep s1 (plug u (FL wa Black wk wv wr # cs)) []" using zrep_plug by blast
    show ?thesis using del_exit_red [OF s1(3)] del_exit_root [OF z1] bal_left_short [of t p Red k v wl u]
        b s1(1,2) keeps_trans w' wr(1) ch by (cases short) auto
  next
    case wb
    obtain u short where b: "bal_left t p c k v w = (u, short)" by fastforce
    from left_turn_black [OF z up wb(1) w(2) wb(2) b] obtain s1 where
      s1: "rbtree_del_fixup s (rp (nil s) t) = rbtree_del_fixup s1 (if short then p else root s1)"
      "keeps s s1" "zrep s1 u cs" by blast
    then have z1: "zrep s1 (plug u cs) []" using zrep_plug by blast
    have d: "del_fix t (FL p c k v w # cs) = (if short then del_fix u cs else paint Black (plug u cs))"
      using b wb by (auto split: rbt.split color.split)
    have "\<exists>s'. rbtree_del_fixup s1 p = Some s' \<and> keeps s1 s' \<and> zrep s' (del_fix u cs) []" if short
    proof -
      have u: "u \<noteq> Lf" "rp (nil s1) u = p" "bh u = bh t + (if c = Black then 1 else 0)"
        using bal_left_short [of t p c k v w u] b that wb(2) w(1) by auto
      then show ?thesis using IH s1(3) up_ok_node [OF s1(3)] c h unfolding repair_ok_def by fastforce
    qed
    then show ?thesis using del_exit_root [OF z1] s1(1,2) d keeps_trans
      by (cases short) (auto simp del: del_fix.simps)
  qed
qed

lemma repair_right:
  assumes IH: "repair_ok cs" and z: "zrep s t (FR w p c k v # cs)" and up: "up_ok s t (FR w p c k v # cs)"
    and c: "ctx_invc (FR w p c k v # cs)" and h: "ctx_invh (bh t + 1) (FR w p c k v # cs)"
  shows "\<exists>s'. rbtree_del_fixup s (rp (nil s) t) = Some s' \<and> keeps s s' \<and> zrep s' (del_fix t (FR w p c k v # cs)) []"
proof -
  have w: "bh w = bh t + 1" "w \<noteq> Lf" using h by auto
  consider (r) "color_of t = Red" | (wr) "color_of t = Black" "color_of w = Red"
    | (wb) "color_of t = Black" "color_of w = Black" by (meson color.exhaust)
  then show ?thesis
  proof cases
    case r
    then show ?thesis using del_exit_red [OF z] by simp
  next
    case wr
    then obtain wl wa wk wv wr where w': "w = Nd wl wa Red wk wv wr" using red_tree by blast
    obtain u short where b: "bal_right wr p Red k v t = (u, short)" by fastforce
    have ch: "wr \<noteq> Lf" "color_of wr = Black" "bh wr = bh t + 1" using c h w' by auto
    from right_turn_red [OF z [unfolded w'] up [unfolded w'] wr(1) ch(1,2) b] obtain s1 where
      s1: "rbtree_del_fixup s (rp (nil s) t) = rbtree_del_fixup s1 (if short then p else root s1)"
      "keeps s s1" "zrep s1 u (FR wl wa Black wk wv # cs)" by blast
    then have z1: "zrep s1 (plug u (FR wl wa Black wk wv # cs)) []" using zrep_plug by blast
    show ?thesis using del_exit_red [OF s1(3)] del_exit_root [OF z1] bal_right_short [of wr p Red k v t u]
        b s1(1,2) keeps_trans w' wr(1) ch by (cases short) auto
  next
    case wb
    obtain u short where b: "bal_right w p c k v t = (u, short)" by fastforce
    from right_turn_black [OF z up wb(1) w(2) wb(2) b] obtain s1 where
      s1: "rbtree_del_fixup s (rp (nil s) t) = rbtree_del_fixup s1 (if short then p else root s1)"
      "keeps s s1" "zrep s1 u cs" by blast
    then have z1: "zrep s1 (plug u cs) []" using zrep_plug by blast
    have d: "del_fix t (FR w p c k v # cs) = (if short then del_fix u cs else paint Black (plug u cs))"
      using b wb by (auto split: rbt.split color.split)
    have "\<exists>s'. rbtree_del_fixup s1 p = Some s' \<and> keeps s1 s' \<and> zrep s' (del_fix u cs) []" if short
    proof -
      have u: "u \<noteq> Lf" "rp (nil s1) u = p" "bh u = bh t + (if c = Black then 1 else 0)"
        using bal_right_short [of w p c k v t u] b that wb(2) w(1) by auto
      then show ?thesis using IH s1(3) up_ok_node [OF s1(3)] c h unfolding repair_ok_def by fastforce
    qed
    then show ?thesis using del_exit_root [OF z1] s1(1,2) d keeps_trans
      by (cases short) (auto simp del: del_fix.simps)
  qed
qed

lemma del_fixup_ok: "repair_ok cs"
proof (induction cs)
  case Nil
  show ?case using del_exit_root zrep_root [where cs = "[]"] by (fastforce simp: repair_ok_def)
next
  case (Cons f cs)
  show ?case
    by (cases f) (auto simp only: repair_ok_def intro!: repair_left [OF Cons.IH] repair_right [OF Cons.IH])
qed


end
