(* ===== verification/Rbtree_Delete.thy ===== *)
theory Rbtree_Delete
  imports Rbtree_Del_Fixup
begin

text \<open>
  Deletion from the red-black tree. On a red-black tree one deletion is always defined and
  removes exactly the entry; the deletion of the least key, which is how the timer queue pops
  timers, keeps the red-black invariants. Other deletions may break them, and then a later
  deletion may follow a null pointer.
\<close>

section \<open>Unlinking a node\<close>

lemma ctx_addrs_entries: "set (ctx_addrs cs) = (\<lambda>e. fst (snd e)) ` set (before cs @ after cs)"
  by (induction cs rule: before.induct) (auto simp: addrs_entries)
lemma zrep_addr_notin:
  assumes "zrep s (Nd l y c k v r) cs" "x = l \<or> x = r"
  shows "y \<noteq> nil s" "y \<notin> set (addrs x)" "y \<notin> set (ctx_addrs cs)"
  using assms by (auto simp: zrep_def)

text \<open>The pointer writes of \<^verbatim>\<open>rbtree_delete\<close> before the repair: \<open>x\<close> takes the place of \<open>y\<close>.\<close>

definition unlink :: "'v rbtree_t \<Rightarrow> ptr \<Rightarrow> ptr \<Rightarrow> 'v rbtree_t option" where
  "unlink s y x =
     do {
       yp \<leftarrow> fld parent s y;
       s \<leftarrow> set_parent s x yp;
       (if yp = nil s then Some (s\<lparr>root := x\<rparr>)
        else do {
          ypl \<leftarrow> fld left s yp;
          (if y = ypl then set_left s yp x else set_right s yp x)
        })
     }"

lemma splice_out_unlink:
  "splice_out s y =
     do {
       yl \<leftarrow> fld left s y;
       x \<leftarrow> (if yl \<noteq> nil s then Some yl else fld right s y);
       s \<leftarrow> unlink s y x;
       yc \<leftarrow> fld col s y;
       s \<leftarrow> (if yc = RBTREE_COL_BLACK then rbtree_del_fixup s x else Some s);
       Some (free_node s y)
     }"
  by (simp add: splice_out_def unlink_def)

lemma unlink_ok:
  assumes z: "zrep s (Nd l y c k v r) cs" and x: "x = l \<or> x = r"
  shows "\<exists>s'. unlink s y (rp (nil s) x) = Some s' \<and> nil s' = nil s \<and> zrep s' x cs \<and> up_ok s' x cs \<and>
    fld col s' y = Some (col_num c)"
proof -
  let ?nl = "nil s"
  obtain n where n: "mem s ?nl = Some n" "col n = RBTREE_COL_BLACK" using z by (auto simp: zrep_def sentinel_def)
  let ?m = "case x of Lf \<Rightarrow> (mem s)(?nl \<mapsto> n\<lparr>parent := cp ?nl cs\<rparr>) | _ \<Rightarrow> reparent (mem s) ?nl (cp ?nl cs) x"
  let ?s = "(if cs = [] then s\<lparr>root := rp ?nl x\<rparr> else s)\<lparr>mem := relink ?m ?nl (rp ?nl x) cs\<rparr>"
  have a: "y \<noteq> ?nl" "y \<notin> set (addrs x)" "y \<notin> set (ctx_addrs cs)" "y \<noteq> NULL" using z x by (auto simp: zrep_def)
  have "unlink s y (rp ?nl x) = Some ?s"
    using z n x by (cases cs rule: ctx_cases; cases x; clarsimp simp: zrep_def sentinel_def)
     (auto simp: unlink_def heap_ops relink_def reparent_def cong: bind_weak_cong)
  moreover have "nil ?s = nil s" by simp
  moreover have zx: "zrep ?s x cs"
  proof -
    have f: "tree_in (mem s) ?nl y x" "ctx_in (mem s) ?nl y cs" "?nl \<notin> set (ctx_addrs cs)" "?nl \<notin> set (addrs x)"
      "set (addrs x) \<inter> set (ctx_addrs cs) = {}" "distinct (addrs x)" "distinct (ctx_addrs cs)" "?nl \<noteq> NULL"
      "NULL \<notin> set (addrs x @ ctx_addrs cs)" "cs \<noteq> [] \<Longrightarrow> root s = top_ptr (rp ?nl x) cs"
      using z x by (cases cs; auto simp: zrep_def)+
    have m: "tree_in ?m ?nl (cp ?nl cs) x" "ctx_in ?m ?nl y cs" "\<exists>n. ?m ?nl = Some n \<and> col n = RBTREE_COL_BLACK"
    proof -
      have "?m = (if x = Lf then (mem s)(?nl \<mapsto> n\<lparr>parent := cp ?nl cs\<rparr>) else reparent (mem s) ?nl (cp ?nl cs) x)"
        by (cases x) auto
      then show "tree_in ?m ?nl (cp ?nl cs) x" "ctx_in ?m ?nl y cs" "\<exists>n. ?m ?nl = Some n \<and> col n = RBTREE_COL_BLACK"
        using f(1-6) n tree_in_reparent [OF f(6,1)] by simp_all
    qed
    have "ctx_in (relink ?m ?nl (rp ?nl x) cs) ?nl (rp ?nl x) cs" using m(2) f(7) by (rule ctx_in_relink [rotated])
    moreover have "tree_in (relink ?m ?nl (rp ?nl x) cs) ?nl (cp ?nl cs) x" using m(1) f(5) by simp
    ultimately show ?thesis using f m(3) by (auto simp: zrep_def sentinel_def simp del: top_ptr.simps(2))
  qed
  moreover have "up_ok ?s x cs"
  proof (cases x)
    case Lf
    have "?nl \<notin> set (ctx_addrs cs)" "?nl \<noteq> NULL" using z by (auto simp: zrep_def)
    then show ?thesis using Lf by (simp add: up_ok_def fld_def load_def)
  next
    case (Nd l' a c' k' v' r')
    then show ?thesis using zx up_ok_node by blast
  qed
  moreover have "fld col ?s y = Some (col_num c)"
    using z a by (cases x) (auto simp: fld_def load_def zrep_def)
  ultimately show ?thesis by blast
qed

section \<open>Deletion\<close>

lemma zrep_free:
  assumes "zrep s t cs" "y \<noteq> nil s" "y \<notin> set (addrs t @ ctx_addrs cs)"
  shows "zrep (free_node s y) t cs"
  using zrep_mem_upd [OF assms, of None] by (simp add: free_node_def)

text \<open>What \<open>splice_out\<close> leaves of the tree around \<open>y\<close>.\<close>

definition spliced :: "'v rbt \<Rightarrow> color \<Rightarrow> 'v frame list \<Rightarrow> 'v rbt" where
  "spliced x c cs = (if c = Black then del_fix x cs else plug x cs)"

lemma splice_out_ok:
  assumes z: "zrep s (Nd l y c k v r) cs" and one: "l = Lf \<or> r = Lf"
    and c: "ctx_invc cs" and h: "ctx_invh (bh (Nd l y c k v r)) cs" "bh l = bh r"
  shows "\<exists>s'. splice_out s y = Some s' \<and> nil s' = nil s \<and> mem s' y = None \<and>
    zrep s' (spliced (if l = Lf then r else l) c cs) []"
proof -
  let ?x = "if l = Lf then r else l"
  have x: "?x = l \<or> ?x = r" by simp
  note y = zrep_addr_notin [OF z x]
  obtain s1 where s1: "unlink s y (rp (nil s) ?x) = Some s1" "nil s1 = nil s" "zrep s1 ?x cs" "up_ok s1 ?x cs"
    "fld col s1 y = Some (col_num c)" using unlink_ok [OF z x] by blast
  have "ctx_invh (bh ?x + 1) cs" if "c = Black" using h that by auto
  then obtain s2 where s2: "(if c = Black then rbtree_del_fixup s1 (rp (nil s) ?x) else Some s1) = Some s2"
    "nil s2 = nil s" "zrep s2 (spliced ?x c cs) []"
    using del_fixup_ok [of cs] s1(2-4) c unfolding repair_ok_def spliced_def
    by (cases "c = Black") (fastforce simp: keeps_def zrep_plug [symmetric] simp del: if_split)+
  have "set (addrs (spliced ?x c cs)) = set (addrs ?x) \<union> set (ctx_addrs cs)"
    by (auto simp: spliced_def addrs_entries entries_del_fix ctx_addrs_entries)
  then have "zrep (free_node s2 y) (spliced ?x c cs) []" using zrep_free [OF s2(3)] y s2(2) by auto
  moreover have "splice_out s y = Some (free_node s2 y)"
    using zrep_fld [OF z] s1 s2(1) rp_notin [of "nil s" l] z
    by (auto simp: splice_out_unlink zrep_def simp del: not_Black split: if_splits)
  moreover have "nil (free_node s2 y) = nil s" "mem (free_node s2 y) y = None"
    using s2(2) by (simp_all add: free_node_def)
  ultimately show ?thesis by blast
qed


lemma plug_append: "plug t (fs @ cs) = plug (plug t fs) cs"
  by (induction t fs rule: plug.induct) auto

lemma zrep_append: "zrep s t (fs @ cs) \<longleftrightarrow> zrep s (plug t fs) cs"
  using zrep_plug [of s t "fs @ cs"] zrep_plug [of s "plug t fs" cs] by (simp add: plug_append)

lemma leftmost_loop_ok:
  assumes "zrep s (Nd l a c k v r) cs"
  shows "\<exists>y yc yk yv yr fs. leftmost_loop s a = Some y \<and> plug (Nd Lf y yc yk yv yr) fs = Nd l a c k v r \<and>
    list_all is_FL fs"
  using assms
proof (induction l arbitrary: a c k v r cs)
  case Lf
  then show ?case using zrep_fld [OF Lf]
    by (intro exI [of _ a] exI [of _ c] exI [of _ k] exI [of _ v] exI [of _ r] exI [of _ "[]"])
      (simp add: leftmost_loop.simps)
next
  case (Nd l' a' c' k' v' r')
  have "zrep s (Nd l' a' c' k' v' r') (FL a c k v r # cs)" using Nd.prems by (simp add: refocus)
  from Nd.IH(1) [OF this] obtain y yc yk yv yr fs where
    y: "leftmost_loop s a' = Some y" "plug (Nd Lf y yc yk yv yr) fs = Nd l' a' c' k' v' r'" "list_all is_FL fs"
    by blast
  have "a' \<noteq> nil s" using Nd.prems by (auto simp: zrep_def)
  then have "leftmost_loop s a = Some y" using zrep_fld [OF Nd.prems] y(1) by (subst leftmost_loop.simps) simp
  moreover have "plug (Nd Lf y yc yk yv yr) (fs @ [FL a c k v r]) = Nd (Nd l' a' c' k' v' r') a c k v r"
    using y(2) by (simp add: plug_append)
  ultimately show ?case using y(3)
    by (intro exI [of _ y] exI [of _ yc] exI [of _ yk] exI [of _ yv] exI [of _ yr] exI [of _ "fs @ [FL a c k v r]"]) simp
qed

lemma before_FLs: "list_all is_FL fs \<Longrightarrow> before (fs @ cs) = before cs"
  by (induction fs rule: before.induct) auto

lemma entries_spliced: "entries (spliced x c cs) = before cs @ entries x @ after cs"
  by (simp add: spliced_def entries_del_fix)

lemma rb_ok_focus:
  assumes "rb_ok (plug (Nd l y c k v r) cs)"
  shows "ctx_invc cs" "ctx_invh (bh (Nd l y c k v r)) cs" "bh l = bh r"
  using assms unfolding rb_ok_plug by auto

text \<open>A node with at most one child.\<close>

lemma delete_one:
  assumes z: "zrep s (Nd l a c k v r) cs" and ok: "rb_ok (plug (Nd l a c k v r) cs)" and one: "l = Lf \<or> r = Lf"
  shows "\<exists>s'. rbtree_delete s a = Some s' \<and> nil s' = nil s \<and> mem s' a = None \<and>
    zrep s' (spliced (if l = Lf then r else l) c cs) []"
  using splice_out_ok [OF z one rb_ok_focus [OF ok]] zrep_fld [OF z] one
  by (auto simp: rbtree_delete_def)

text \<open>A node with two children: its successor is unlinked and freed, and its key and value move
  into the node that was to be deleted.\<close>

lemma delete_two:
  assumes z: "zrep s (Nd l a c k v r) cs" and ok: "rb_ok (plug (Nd l a c k v r) cs)" and two: "l \<noteq> Lf" "r \<noteq> Lf"
  shows "\<exists>s' t' y yk yv ys. rbtree_delete s a = Some s' \<and> nil s' = nil s \<and> mem s' y = None \<and> zrep s' t' [] \<and>
    entries r = (yk, y, yv) # ys \<and> entries t' = before cs @ entries l @ (yk, a, yv) # ys @ after cs"
proof -
  obtain rl b bc bk bv rr where r: "r = Nd rl b bc bk bv rr" using two(2) by (cases r) auto
  have "zrep s (Nd rl b bc bk bv rr) (FR l a c k v # cs)" using z r by (simp add: refocus)
  from leftmost_loop_ok [OF this] obtain y yc yk yv yr fs where
    y: "leftmost_loop s b = Some y" "plug (Nd Lf y yc yk yv yr) fs = r" "list_all is_FL fs" using r by blast
  have zy: "zrep s (Nd Lf y yc yk yv yr) (fs @ FR l a c k v # cs)"
    using z y(2) by (simp add: zrep_append refocus)
  from zrep_set_data [OF z, of yk yv] obtain s1 where
    s1: "set_data s a yk yv = Some s1" "keeps s s1" "zrep s1 (Nd l a c yk yv r) cs" by blast
  let ?cs = "fs @ FR l a c yk yv # cs"
  have z1: "zrep s1 (Nd Lf y yc yk yv yr) ?cs" using s1(3) y(2) by (simp add: zrep_append refocus)
  have inv: "ctx_invc (fs @ FR l a c k v # cs) \<longleftrightarrow> ctx_invc ?cs"
    "ctx_invh h (fs @ FR l a c k v # cs) \<longleftrightarrow> ctx_invh h ?cs" for h
    by (induction fs arbitrary: h) (auto split: if_splits, (metis ctx_color.simps(2) frame_color.simps(2) list.exhaust append_Cons append_Nil)+)
  have "plug (Nd Lf y yc yk yv yr) (fs @ FR l a c k v # cs) = plug (Nd l a c k v r) cs"
    using y(2) by (simp add: plug_append)
  then have ok': "ctx_invc ?cs" "ctx_invh (bh (Nd Lf y yc yk yv yr)) ?cs" "bh (Lf :: 'a rbt) = bh yr"
    using rb_ok_focus [of Lf y yc yk yv yr "fs @ FR l a c k v # cs"] ok inv by auto
  from splice_out_ok [OF z1 _ ok'] obtain s2 where
    s2: "splice_out s1 y = Some s2" "nil s2 = nil s1" "mem s2 y = None" "zrep s2 (spliced yr yc ?cs) []" by auto
  have e: "entries r = (yk, y, yv) # entries yr @ after fs" using y(2,3) before_FLs [of fs "[]"] by (auto simp flip: y(2))
  have af: "after ?cs = after fs @ after cs" by (induction fs rule: after.induct) auto
  have "rp (nil s) l \<noteq> nil s" "b \<noteq> nil s" using z two(1) r rp_notin [of "nil s" l] by (auto simp: zrep_def)
  then have "rbtree_delete s a = Some s2"
    using zrep_fld [OF z] zrep_fld [OF zy] y(1) s1(1) s2(1) r
    by (simp add: rbtree_delete_def cong: bind_weak_cong)
  then show ?thesis using s2 s1(2) e af before_FLs [OF y(3), of "FR l a c yk yv # cs"]
    by (auto simp: keeps_def entries_spliced intro!: exI [of _ s2] exI [of _ "spliced yr yc ?cs"])
qed


lemma before_Nil: "before cs = [] \<Longrightarrow> \<forall>f\<in>set cs. is_FL f"
  by (induction cs rule: before.induct) auto

lemma delete_min_ok:
  assumes "rb_tree s t" and "entries t = (k, a, v) # ys"
  shows "\<exists>s' t'. rbtree_delete s a = Some s' \<and> nil s' = nil s \<and> rb_tree s' t' \<and> entries t' = ys \<and> mem s' a = None"
proof -
  have z: "zrep s t []" and rb: "rb_ok t" using assms(1) by (auto simp: rb_tree_def)
  have "entries t = [] @ (k, a, v) # ys" using assms(2) by simp
  from z this obtain l c r cs where f: "zrep s (Nd l a c k v r) cs" "t = plug (Nd l a c k v r) cs"
    "[] = before cs @ entries l" "ys = entries r @ after cs" by (rule focusE)
  have l: "l = Lf" and fl: "list_all is_FL cs"
    using f(3) by (auto simp: list_all_iff) (metis before_Nil)
  have inv: "ctx_invc cs" "ctx_invh (bh (Nd l a c k v r)) cs" "bh l = bh r" "invc r" "invh r"
    "c = Red \<Longrightarrow> color_of r = Black" using rb f(2) by (auto simp: rb_ok_plug)
  have "rb_col (spliced r c cs)"
    using del_fix_left_inv [OF fl, of r] rb_col_plug [of r cs] inv l
    by (cases c) (auto simp: spliced_def paint_Black)
  moreover have "entries (spliced r c cs) = ys" using f l by (simp add: entries_spliced)
  moreover have "sorted_wrt (<) (map fst ys)" using rb assms(2) by (simp add: rb_ok_def)
  ultimately show ?thesis using delete_one [OF f(1)] rb f(2) l
    by (auto simp: rb_tree_def rb_ok_def rb_col_def)
qed

section \<open>Properties\<close>

text \<open>The entries without their addresses.\<close>

abbreviation pairs :: "(int \<times> ptr \<times> 'v) list \<Rightarrow> (int \<times> 'v) list" where
  "pairs es \<equiv> map (\<lambda>e. (fst e, snd (snd e))) es"

text \<open>C7: deleting a node of a red-black tree is defined (the successor search and the repair loop
  end and follow no null pointer) and removes exactly its entry: the remaining keys and values
  are those of the other nodes, in the same order, so the tree is still ordered. One node is
  freed: either the deleted one, or its successor, whose key and value then live at the address
  of the node that was deleted. In the second case a pointer to the successor's node that
  is kept elsewhere, as \<^verbatim>\<open>Timer::attach\<close> is, dangles.\<close>

theorem rbtree_delete_removes:
  assumes "rb_tree s t" and "entries t = xs @ (k, a, v) # ys"
  shows "\<exists>s' t'. rbtree_delete s a = Some s' \<and> nil s' = nil s \<and> zrep s' t' [] \<and>
    pairs (entries t') = pairs (xs @ ys) \<and>
    (entries t' = xs @ ys \<and> mem s' a = None \<or>
     (\<exists>yk y yv zs. ys = (yk, y, yv) # zs \<and> entries t' = xs @ (yk, a, yv) # zs \<and> mem s' y = None))"
proof -
  have z: "zrep s t []" and rb: "rb_ok t" using assms(1) by (auto simp: rb_tree_def)
  from z assms(2) obtain l c r cs where f: "zrep s (Nd l a c k v r) cs" "t = plug (Nd l a c k v r) cs"
    "xs = before cs @ entries l" "ys = entries r @ after cs" by (rule focusE)
  show ?thesis
  proof (cases "l = Lf \<or> r = Lf")
    case True
    let ?u = "spliced (if l = Lf then r else l) c cs"
    have "entries ?u = xs @ ys" using True f(3,4) by (auto simp: entries_spliced)
    moreover obtain s' where "rbtree_delete s a = Some s'" "nil s' = nil s" "mem s' a = None" "zrep s' ?u []"
      using delete_one [OF f(1) _ True] f(2) rb by blast
    ultimately show ?thesis by (intro exI [of _ s'] exI [of _ ?u]) simp
  next
    case False
    then obtain s' t' y yk yv zs where d: "rbtree_delete s a = Some s'" "nil s' = nil s" "mem s' y = None"
      "zrep s' t' []" "entries r = (yk, y, yv) # zs" "entries t' = before cs @ entries l @ (yk, a, yv) # zs @ after cs"
      using delete_two [OF f(1)] f(2) rb by blast
    have "ys = (yk, y, yv) # zs @ after cs" "entries t' = xs @ (yk, a, yv) # zs @ after cs"
      using d(5,6) f(3,4) by auto
    then show ?thesis using d(1-4) by (intro exI [of _ s'] exI [of _ t']) auto
  qed
qed

theorem rbtree_delete_removes_witness:
  "\<exists>s' t'. rbtree_delete tree1 2 = Some s' \<and> zrep s' t' [] \<and> entries t' = [] \<and> mem s' 2 = None"
  using rbtree_delete_removes [of tree1 view1 "[]" 7 2 70 "[]"] tree1_ok by (auto simp: view1_def)

text \<open>C6: deleting the node with the least key, which is the only deletion the timer tick performs,
  keeps all invariants of the red-black tree, frees exactly that node and leaves every other
  node where it was.\<close>

theorem rbtree_delete_min:
  assumes "rb_tree s t" and "entries t = (k, a, v) # ys"
  shows "\<exists>s' t'. rbtree_delete s a = Some s' \<and> nil s' = nil s \<and> rb_tree s' t' \<and> entries t' = ys \<and> mem s' a = None"
  using delete_min_ok [OF assms] .

theorem rbtree_delete_min_witness:
  "\<exists>s' t'. rbtree_delete tree2 2 = Some s' \<and> rb_tree s' t' \<and> entries t' = [(9, 3, 90)]"
proof -
  let ?t = "Nd Lf 2 Black 7 70 (Nd Lf 3 Red 9 90 Lf)"
  have "rb_tree tree2 ?t" by (simp add: rb_tree_def zrep_def sentinel_def tree1_def tree2_def rb_ok_def)
  then show ?thesis using rbtree_delete_min [of tree2 ?t 7 2 70 "[(9, 3, 90)]"] by auto
qed


text \<open>A concrete run, for the next property.\<close>

definition blank :: "int rbtree_node_t" where
  "blank = \<lparr>left = NULL, right = NULL, parent = NULL, col = 0, key = 0, val = 0\<rparr>"

definition ins_key :: "ptr \<Rightarrow> int \<Rightarrow> int rbtree_t \<Rightarrow> int rbtree_t option" where
  "ins_key a k s = map_option snd (rbtree_insert s a blank k k)"

definition crash_setup :: "int rbtree_t option" where
  "crash_setup = do {
     s \<leftarrow> ins_key 11 1 (rbtree_create 10 blank);
     s \<leftarrow> ins_key 13 3 s;
     s \<leftarrow> ins_key 14 4 s;
     s \<leftarrow> ins_key 12 2 s;
     rbtree_delete s 13
   }"

text \<open>Deletions that are not of the least key can break the tree for good: the repair of a
  right-hand deletion leaves the tree without the red-black invariants, and a later deletion
  follows a null pointer. Inserting 1, 3, 4 and 2 into a new tree and deleting 3 is still
  defined, but then the deletion of 2 is not.\<close>

theorem rbtree_second_delete_crashes:
  "map_option rbtree_min crash_setup = Some (Some 11) \<and>
   crash_setup \<bind> (\<lambda>s. rbtree_delete s 12) = None"
  by code_simp

end
