(* ===== verification/Timer_Queue.thy ===== *)
theory Timer_Queue
  imports Rbtree_Delete
begin

text \<open>
  The timer queue (\<^verbatim>\<open>src/rpc/timer/\<close>): timers in a heap of their own, indexed by id in \<open>ref\<close> and
  ordered by expiry in the red-black tree; a timerfd that is armed for the earliest one.

  What the code gets from outside is part of the state and consumed in order: \<open>nows\<close> are the
  results of the coming calls of \<^verbatim>\<open>Clock::GetNowTicks\<close>, \<open>nodes\<close> the addresses (and contents) the
  coming \<^verbatim>\<open>malloc\<close> calls of \<^verbatim>\<open>rbtree_insert\<close> return. \<open>settime\<close> is the result of the system
  call \<^verbatim>\<open>timerfd_settime\<close>. \<open>fired\<close> records the callbacks run, in order. The value \<open>None\<close> of an
  operation means that it does not return: undefined behaviour, or \<^verbatim>\<open>LOG(FATAL)\<close>, which aborts.

  The queue relies on the tree through the laws of the locale \<open>min_store\<close>, which the red-black
  tree satisfies.
\<close>

section \<open>The interface of the ordered store\<close>

locale min_store =
  fixes repr :: "'s \<Rightarrow> (int \<times> ptr \<times> 'v) list \<Rightarrow> bool"
    and sentry :: "'s \<Rightarrow> ptr"
    and least :: "'s \<Rightarrow> ptr option"
    and key_at :: "'s \<Rightarrow> ptr \<Rightarrow> int option"
    and val_at :: "'s \<Rightarrow> ptr \<Rightarrow> 'v option"
    and del :: "'s \<Rightarrow> ptr \<Rightarrow> 's option"
    and put :: "'s \<Rightarrow> ptr \<Rightarrow> 'j \<Rightarrow> int \<Rightarrow> 'v \<Rightarrow> (ptr \<times> 's) option"
  assumes repr_sorted: "repr s es \<Longrightarrow> sorted_wrt (<) (map fst es)"
    and least_Nil: "repr s [] \<Longrightarrow> least s = Some (sentry s)"
    and least_Cons: "repr s ((k, a, v) # es) \<Longrightarrow>
      least s = Some a \<and> a \<noteq> sentry s \<and> key_at s a = Some k \<and> val_at s a = Some v"
    and del_least: "repr s ((k, a, v) # es) \<Longrightarrow> \<exists>s'. del s a = Some s' \<and> repr s' es \<and> sentry s' = sentry s"
    and put_new: "repr s es \<Longrightarrow> a \<notin> insert NULL (insert (sentry s) (fst ` snd ` set es)) \<Longrightarrow> k \<notin> fst ` set es \<Longrightarrow>
      \<exists>s'. put s a j k v = Some (a, s') \<and> sentry s' = sentry s \<and>
        repr s' (filter (\<lambda>e. fst e < k) es @ (k, a, v) # filter (\<lambda>e. k < fst e) es)"
    and put_old: "repr s es \<Longrightarrow> a \<notin> insert NULL (insert (sentry s) (fst ` snd ` set es)) \<Longrightarrow> k \<in> fst ` set es \<Longrightarrow>
      \<exists>s'. put s a j k v = Some (a, s') \<and> sentry s' = sentry s \<and> repr s' es"
begin

text \<open>What both outcomes of an insertion share: the store is in order, holds the key, and its
  nodes are the old ones and possibly the new one.\<close>

lemma put_any:
  assumes "repr s es" "a \<notin> insert NULL (insert (sentry s) (fst ` snd ` set es))"
  shows "\<exists>s' es'. put s a j k v = Some (a, s') \<and> sentry s' = sentry s \<and> repr s' es' \<and> k \<in> fst ` set es' \<and>
    set es \<subseteq> set es' \<and> set es' \<subseteq> insert (k, a, v) (set es) \<and> (k \<in> fst ` set es \<longrightarrow> es' = es) \<and>
    (k \<notin> fst ` set es \<longrightarrow> es' = filter (\<lambda>e. fst e < k) es @ (k, a, v) # filter (\<lambda>e. k < fst e) es)"
proof (cases "k \<in> fst ` set es")
  case True
  then show ?thesis using put_old [OF assms True] by blast
next
  case False
  let ?es = "filter (\<lambda>e. fst e < k) es @ (k, a, v) # filter (\<lambda>e. k < fst e) es"
  have "set es \<subseteq> set ?es" using False by force
  moreover have "set ?es \<subseteq> insert (k, a, v) (set es)" "k \<in> fst ` set ?es" by force+
  ultimately show ?thesis using put_new [OF assms False] False by blast
qed

end

definition tree_repr :: "'v rbtree_t \<Rightarrow> (int \<times> ptr \<times> 'v) list \<Rightarrow> bool" where
  "tree_repr s es \<longleftrightarrow> (\<exists>t. rb_tree s t \<and> entries t = es)"

lemma tree_fld:
  assumes "zrep s t []" "(k, a, v) \<in> set (entries t)"
  shows "fld key s a = Some k" "fld val s a = Some v" "a \<noteq> nil s"
proof -
  from assms(2) obtain xs ys where "entries t = xs @ (k, a, v) # ys" by (auto simp: in_set_conv_decomp)
  from assms(1) this obtain l c r cs where z: "zrep s (Nd l a c k v r) cs" by (rule focusE)
  then show "fld key s a = Some k" "fld val s a = Some v" "a \<noteq> nil s"
    using zrep_fld [OF z] by (auto simp: zrep_def)
qed

lemma tree_min:
  assumes "rb_tree s t"
  shows "rbtree_min s = Some (if t = Lf then nil s else addr_of (hd (entries t)))"
proof -
  have z: "zrep s t []" and r: "root s = rp (nil s) t" using assms by (auto simp: rb_tree_def zrep_def)
  then show ?thesis using min_loop_ok [OF z, of "root s"] by (auto simp: rbtree_min_def split: list.splits)
qed

lemma tree_del_min:
  assumes "rb_tree s t" "entries t = (k, a, v) # ys"
  shows "\<exists>s' t'. rbtree_delete s a = Some s' \<and> nil s' = nil s \<and> rb_tree s' t' \<and> entries t' = ys"
  using delete_min_ok [OF assms] by blast

interpretation rb: min_store tree_repr nil rbtree_min "fld key" "fld val" rbtree_delete rbtree_insert
proof (unfold_locales, goal_cases)
  case (1 s es) then show ?case by (auto simp: tree_repr_def rb_tree_def rb_ok_def)
next
  case (2 s) then show ?case using tree_min [of s Lf] by (auto simp: tree_repr_def)
next
  case (3 s k a v es)
  then obtain t where t: "rb_tree s t" "entries t = (k, a, v) # es" by (auto simp: tree_repr_def)
  then have z: "zrep s t []" by (simp add: rb_tree_def)
  from tree_fld [OF z, of k a v] t tree_min [OF t(1)] show ?case by auto
next
  case (4 s k a v es) then show ?case using tree_del_min by (fastforce simp: tree_repr_def)
next
  case (5 s es a k j v)
  then obtain t where "rb_tree s t" "entries t = es" "fresh s t a"
    by (auto simp: tree_repr_def fresh_def addrs_entries image_image)
  then show ?case using insert_new_ok [of s t k a j v] 5(3) by (fastforce simp: tree_repr_def)
next
  case (6 s es a k j v)
  then obtain t where "rb_tree s t" "entries t = es" "fresh s t a"
    by (auto simp: tree_repr_def fresh_def addrs_entries image_image)
  then show ?case using insert_dup_ok [of s t k a j v] 6(3) by (auto simp: tree_repr_def)
qed

section \<open>Clock\<close>

abbreviation nsec_per_sec :: int where "nsec_per_sec \<equiv> 1000000000"

text \<open>\<open>ret\<close> and \<open>ts\<close> are what \<^verbatim>\<open>clock_gettime\<close> returned.\<close>

definition GetNowTicks :: "int \<Rightarrow> int \<times> int \<Rightarrow> int or_abort" where
  "GetNowTicks ret ts =
     (if ret < 0 then Aborted else Done (culong (culong (fst ts * nsec_per_sec) + snd ts)))"

definition TransTicks :: "int \<Rightarrow> int \<times> int" where
  "TransTicks ticks = (ticks div nsec_per_sec, ticks mod nsec_per_sec)"

section \<open>State\<close>

record 'c Timer =
  index :: int
  tm_id :: int
  expire :: int
  time :: int
  interval :: int
  elapse :: int
  cb :: 'c
  attach :: ptr

record 'c TimerQueue =
  slot :: int
  ref :: "int \<rightharpoonup> ptr"
  timers :: "ptr \<rightharpoonup> 'c Timer"
  tree :: "ptr rbtree_t"
  own_epoch :: int
  armed :: "(int \<times> int) option"
  nows :: "int list"
  nodes :: "(ptr \<times> ptr rbtree_node_t) list"
  fired :: "'c list"

definition new_TimerQueue :: "ptr \<Rightarrow> ptr rbtree_node_t \<Rightarrow> int \<Rightarrow> int list \<Rightarrow> (ptr \<times> ptr rbtree_node_t) list \<Rightarrow> 'c TimerQueue" where
  "new_TimerQueue a junk epoch clock mallocs =
     \<lparr>slot = 0, ref = Map.empty, timers = Map.empty, tree = rbtree_create a junk, own_epoch = epoch,
      armed = None, nows = clock, nodes = mallocs, fired = []\<rparr>"

section \<open>Operations\<close>

text \<open>The loop of \<^verbatim>\<open>TimerQueueBase::nextId\<close>; incrementing \<^verbatim>\<open>INT_MAX\<close> is undefined.\<close>

function next_free :: "(int \<rightharpoonup> ptr) \<Rightarrow> int \<Rightarrow> int option" where
  "next_free rf next =
     (if int_max < next then None
      else let next = (if next < 0 then 0 else next)
           in if rf next \<noteq> None then next_free rf (next + 1) else Some next)"
  by pat_completeness auto
termination
  by (relation "measure (\<lambda>(rf, next). nat (int_max + 1 - next))") (auto split: if_splits)

declare next_free.simps [simp del]

definition nextId :: "'c TimerQueue \<Rightarrow> (int \<times> 'c TimerQueue) option" where
  "nextId q = do { next \<leftarrow> next_free (ref q) (slot q + 1); Some (next, q\<lparr>slot := next\<rparr>) }"

fun now_ticks :: "'c TimerQueue \<Rightarrow> (int \<times> 'c TimerQueue) option" where
  "now_ticks q = (case nows q of [] \<Rightarrow> None | n # ns \<Rightarrow> Some (n, q\<lparr>nows := ns\<rparr>))"

definition resetTimerfd :: "(int \<times> int \<Rightarrow> int) \<Rightarrow> 'c TimerQueue \<Rightarrow> int \<Rightarrow> 'c TimerQueue option" where
  "resetTimerfd settime q ticks =
     (if settime (TransTicks ticks) \<noteq> 0 then None else Some (q\<lparr>armed := Some (TransTicks ticks)\<rparr>))"

text \<open>\<open>n\<close> is the number of bytes \<^verbatim>\<open>read\<close> returned. A successful read ends an alarm that has gone off.\<close>

definition readTimerfd :: "int \<Rightarrow> 'c TimerQueue \<Rightarrow> 'c TimerQueue option" where
  "readTimerfd n q = (if n \<noteq> 8 then None else Some (q\<lparr>armed := None\<rparr>))"

definition addTimer :: "(int \<times> int \<Rightarrow> int) \<Rightarrow> 'c TimerQueue \<Rightarrow> ptr \<Rightarrow> 'c TimerQueue option" where
  "addTimer settime q ta =
     do {
       (now, q) \<leftarrow> now_ticks q;
       tm \<leftarrow> timers q ta;
       let now = culong (now - own_epoch q);
       let e = culong (now + time tm);
       (na, q) \<leftarrow> (case nodes q of [] \<Rightarrow> None | na # ns \<Rightarrow> Some (na, q\<lparr>nodes := ns\<rparr>));
       (n, tr) \<leftarrow> rbtree_insert (tree q) (fst na) (snd na) (clong e) ta;
       let q = q\<lparr>tree := tr, timers := (timers q)(ta \<mapsto> tm\<lparr>expire := e, attach := n\<rparr>)\<rparr>;
       m \<leftarrow> rbtree_min tr;
       mk \<leftarrow> fld key tr m;
       (if mk \<ge> clong e then resetTimerfd settime q (culong (own_epoch q + e)) else Some q)
     }"

text \<open>\<^verbatim>\<open>AddTimer\<close> up to the hand-over to the loop thread: \<open>ta\<close> is the address of the new timer.
  The caller then runs \<open>addTimer\<close>, at once or as a pending functor.\<close>

definition AddTimer_register :: "'c TimerQueue \<Rightarrow> ptr \<Rightarrow> int \<Rightarrow> int \<Rightarrow> 'c \<Rightarrow> (int \<times> 'c TimerQueue) option" where
  "AddTimer_register q ta tm iv c =
     do {
       (i, q) \<leftarrow> nextId q;
       let t = \<lparr>index = - 1, tm_id = i, expire = 0, time = tm, interval = clong iv, elapse = clong iv,
                cb = c, attach = NULL\<rparr>;
       Some (i, q\<lparr>ref := (ref q)(i \<mapsto> ta), timers := (timers q)(ta \<mapsto> t)\<rparr>)
     }"

definition AddTimer :: "(int \<times> int \<Rightarrow> int) \<Rightarrow> 'c TimerQueue \<Rightarrow> ptr \<Rightarrow> int \<Rightarrow> int \<Rightarrow> 'c \<Rightarrow> (int \<times> 'c TimerQueue) option" where
  "AddTimer settime q ta tm iv c =
     do { (i, q) \<leftarrow> AddTimer_register q ta tm iv c; q \<leftarrow> addTimer settime q ta; Some (i, q) }"

text \<open>\<^verbatim>\<open>_ref[id]\<close> inserts a null pointer for an unknown id. The entry is not erased when the timer is
  deleted.\<close>

definition cancelTimer :: "'c TimerQueue \<Rightarrow> int \<Rightarrow> (bool \<times> 'c TimerQueue) option" where
  "cancelTimer q i =
     (let ta = (case ref q i of None \<Rightarrow> NULL | Some ta \<Rightarrow> ta);
          q = q\<lparr>ref := (ref q)(i \<mapsto> ta)\<rparr>
      in if ta = NULL then Some (False, q)
         else do {
           tm \<leftarrow> timers q ta;
           tr \<leftarrow> (if attach tm \<noteq> NULL then rbtree_delete (tree q) (attach tm) else Some (tree q));
           Some (True, q\<lparr>tree := tr, timers := (timers q)(ta := None)\<rparr>)
         })"

text \<open>The first loop of \<^verbatim>\<open>PerTick\<close>.\<close>

partial_function (option) pop_expired :: "int \<Rightarrow> 'c TimerQueue \<Rightarrow> ptr list \<Rightarrow> ('c TimerQueue \<times> ptr list) option" where
  "pop_expired now q acc =
     do {
       n \<leftarrow> rbtree_min (tree q);
       (if n = nil (tree q) then Some (q, acc)
        else do {
          ta \<leftarrow> fld val (tree q) n;
          tm \<leftarrow> timers q ta;
          (if expire tm < now then do {
             tr \<leftarrow> rbtree_delete (tree q) n;
             pop_expired now (q\<lparr>tree := tr, timers := (timers q)(ta \<mapsto> tm\<lparr>attach := NULL\<rparr>)\<rparr>) (acc @ [ta])
           } else Some (q, acc))
        })
     }"

definition delete_timer :: "'c TimerQueue \<Rightarrow> ptr \<Rightarrow> 'c TimerQueue" where
  "delete_timer q ta = q\<lparr>timers := (timers q)(ta := None)\<rparr>"

text \<open>The second loop; \<open>call\<close> is what a callback does to the queue.\<close>

fun fire :: "(int \<times> int \<Rightarrow> int) \<Rightarrow> ('c \<Rightarrow> 'c TimerQueue \<Rightarrow> 'c TimerQueue option) \<Rightarrow> ptr list \<Rightarrow>
    'c TimerQueue \<Rightarrow> 'c TimerQueue option" where
  "fire settime call [] q = Some q"
| "fire settime call (ta # tas) q =
     do {
       tm \<leftarrow> timers q ta;
       q \<leftarrow> (if 0 < elapse tm then do {
           let q = q\<lparr>timers := (timers q)(ta \<mapsto> tm\<lparr>elapse := elapse tm - 1\<rparr>), fired := fired q @ [cb tm]\<rparr>;
           q \<leftarrow> call (cb tm) q;
           tm \<leftarrow> timers q ta;
           (if 0 < elapse tm then addTimer settime q ta else Some (delete_timer q ta))
         } else Some (delete_timer q ta));
       fire settime call tas q
     }"

definition PerTick :: "(int \<times> int \<Rightarrow> int) \<Rightarrow> ('c \<Rightarrow> 'c TimerQueue \<Rightarrow> 'c TimerQueue option) \<Rightarrow>
    'c TimerQueue \<Rightarrow> 'c TimerQueue option" where
  "PerTick settime call q =
     do {
       (now, q) \<leftarrow> now_ticks q;
       (q, tas) \<leftarrow> pop_expired (culong (now - own_epoch q)) q [];
       fire settime call tas q
     }"

definition WaitTimeUsec :: "'c TimerQueue \<Rightarrow> int option" where
  "WaitTimeUsec q =
     do {
       n \<leftarrow> rbtree_min (tree q);
       (if n = nil (tree q) then Some (- 1)
        else do { ta \<leftarrow> fld val (tree q) n; tm \<leftarrow> timers q ta; Some (clong (expire tm)) })
     }"

definition HandleRead :: "(int \<times> int \<Rightarrow> int) \<Rightarrow> ('c \<Rightarrow> 'c TimerQueue \<Rightarrow> 'c TimerQueue option) \<Rightarrow> int \<Rightarrow>
    'c TimerQueue \<Rightarrow> 'c TimerQueue option" where
  "HandleRead settime call n q =
     do {
       (now, q) \<leftarrow> now_ticks q;
       q \<leftarrow> readTimerfd n q;
       q \<leftarrow> PerTick settime call q;
       e \<leftarrow> WaitTimeUsec q;
       (if 0 < e then resetTimerfd settime q (culong (own_epoch q + e)) else Some q)
     }"

declare pop_expired.simps [code]


section \<open>Ids and ticks\<close>

lemma next_free_Some:
  "next_free rf n = Some i \<Longrightarrow> rf i = None \<and> max 0 n \<le> i \<and> i \<le> int_max"
  by (induction rf n rule: next_free.induct)
    (subst (asm) (2) next_free.simps, auto simp: Let_def split: if_splits)

lemma next_free_exists:
  "rf i = None \<Longrightarrow> max 0 n \<le> i \<Longrightarrow> i \<le> int_max \<Longrightarrow> next_free rf n \<noteq> None"
proof (induction rf n rule: next_free.induct)
  case (1 rf n)
  have "max 0 n + 1 \<le> i" if "rf (max 0 n) \<noteq> None" using 1(2,3) that by (cases "i = max 0 n") auto
  then show ?case using 1 by (subst next_free.simps) (auto simp: Let_def max_def split: if_splits)
qed

section \<open>Adding a timer\<close>

text \<open>\<^verbatim>\<open>timerfd_settime\<close> accepts every time whose nanoseconds are below one second.\<close>

definition settime_ok :: "(int \<times> int \<Rightarrow> int) \<Rightarrow> bool" where
  "settime_ok settime \<longleftrightarrow> (\<forall>s n. 0 \<le> s \<and> 0 \<le> n \<and> n < nsec_per_sec \<longrightarrow> settime (s, n) = 0)"

text \<open>Enough clock readings and allocations for \<open>n\<close> insertions.\<close>

definition env_ok :: "nat \<Rightarrow> 'c TimerQueue \<Rightarrow> (int \<times> ptr \<times> ptr) list \<Rightarrow> bool" where
  "env_ok n q es \<longleftrightarrow> n \<le> length (nows q) \<and> n \<le> length (nodes q) \<and> distinct (map fst (nodes q)) \<and>
     fst ` set (nodes q) \<inter> insert NULL (insert (nil (tree q)) (fst ` snd ` set es)) = {}"

definition due :: "'c TimerQueue \<Rightarrow> 'c Timer \<Rightarrow> int" where
  "due q tm = culong (culong (hd (nows q) - own_epoch q) + time tm)"

lemma resetTimerfd_ok:
  "settime_ok settime \<Longrightarrow> 0 \<le> ticks \<Longrightarrow> resetTimerfd settime q ticks = Some (q\<lparr>armed := Some (TransTicks ticks)\<rparr>)"
  by (simp add: resetTimerfd_def settime_ok_def TransTicks_def pos_imp_zdiv_nonneg_iff)

lemma disjoint_mono:
  "A \<subseteq> insert a B \<Longrightarrow> a \<notin> S \<Longrightarrow> S \<inter> insert x (insert y B) = {} \<Longrightarrow> S \<inter> insert x (insert y A) = {}"
  by blast

lemma disjoint_sub:
  "A \<subseteq> B \<Longrightarrow> S \<inter> insert x (insert y B) = {} \<Longrightarrow> S \<inter> insert x (insert y A) = {}"
  by blast

lemma addTimer_ok:
  assumes r: "tree_repr (tree q) es" and tm: "timers q ta = Some tm" and env: "env_ok (Suc n) q es"
    and st: "settime_ok settime"
  shows "\<exists>q' es' na. addTimer settime q ta = Some q' \<and> tree_repr (tree q') es' \<and> env_ok n q' es' \<and>
    timers q' = (timers q)(ta \<mapsto> tm\<lparr>expire := due q tm, attach := na\<rparr>) \<and> na = fst (hd (nodes q)) \<and>
    own_epoch q' = own_epoch q \<and> fired q' = fired q \<and> ref q' = ref q \<and> slot q' = slot q \<and> nows q' = tl (nows q) \<and> nodes q' = tl (nodes q) \<and>
    (if clong (due q tm) \<in> fst ` set es then es' = es
     else es' = filter (\<lambda>e. fst e < clong (due q tm)) es @ (clong (due q tm), na, ta) # filter (\<lambda>e. clong (due q tm) < fst e) es) \<and>
    armed q' = (if clong (due q tm) \<le> fst (hd es') then Some (TransTicks (culong (own_epoch q + due q tm))) else armed q)"
proof -
  obtain now ns a j as where e: "nows q = now # ns" "nodes q = (a, j) # as"
    using env by (cases "nows q"; cases "nodes q") (auto simp: env_ok_def)
  let ?k = "clong (due q tm)"
  have "a \<notin> insert NULL (insert (nil (tree q)) (fst ` snd ` set es))" using env e by (auto simp: env_ok_def)
  from rb.put_any [OF r this, of j ?k ta] obtain tr es' where
    p: "rbtree_insert (tree q) a j ?k ta = Some (a, tr)" "nil tr = nil (tree q)" "tree_repr tr es'"
      "?k \<in> fst ` set es'" "set es' \<subseteq> insert (?k, a, ta) (set es)" "?k \<in> fst ` set es \<longrightarrow> es' = es"
      "?k \<notin> fst ` set es \<longrightarrow> es' = filter (\<lambda>e. fst e < ?k) es @ (?k, a, ta) # filter (\<lambda>e. ?k < fst e) es" by blast
  obtain mk ma mv es'' where h: "es' = (mk, ma, mv) # es''" using p(4) by (cases es') auto
  have m: "rbtree_min tr = Some ma" "fld key tr ma = Some mk" using rb.least_Cons [of tr mk ma mv es''] p(3) h by auto
  let ?q = "q\<lparr>nows := ns, nodes := as, tree := tr, timers := (timers q)(ta \<mapsto> tm\<lparr>expire := due q tm, attach := a\<rparr>)\<rparr>"
  let ?q' = "if ?k \<le> mk then ?q\<lparr>armed := Some (TransTicks (culong (own_epoch q + due q tm)))\<rparr> else ?q"
  have "addTimer settime q ta = Some ?q'"
    using e tm p(1) m
    by (simp add: addTimer_def due_def Let_def resetTimerfd_ok [OF st] del: fun_upd_apply)
  moreover have "fst ` snd ` set es' \<subseteq> insert a (fst ` snd ` set es)" using p(5) by force
  then have "env_ok n ?q' es'" using env e p(2)
      disjoint_mono [of "fst ` snd ` set es'" a "fst ` snd ` set es" "fst ` set as" NULL "nil tr"]
    by (simp add: env_ok_def)
  ultimately show ?thesis using p(3,6,7) h e by (intro exI [of _ ?q'] exI [of _ es'] exI [of _ a]) auto
qed

section \<open>Popping\<close>

text \<open>The tree and the timers agree: every entry is a live timer that knows its node, under its
  expiry, and no timer is there twice.\<close>

definition queue_ok :: "'c TimerQueue \<Rightarrow> (int \<times> ptr \<times> ptr) list \<Rightarrow> bool" where
  "queue_ok q es \<longleftrightarrow> tree_repr (tree q) es \<and> distinct (map (snd \<circ> snd) es) \<and>
     (\<forall>(k, n, ta)\<in>set es. \<exists>tm. timers q ta = Some tm \<and> expire tm = k \<and> attach tm = n)"

abbreviation timer_of :: "int \<times> ptr \<times> ptr \<Rightarrow> ptr" where
  "timer_of e \<equiv> snd (snd e)"

abbreviation expired :: "int \<Rightarrow> (int \<times> ptr \<times> ptr) list \<Rightarrow> (int \<times> ptr \<times> ptr) list" where
  "expired now es \<equiv> takeWhile (\<lambda>e. fst e < now) es"

abbreviation pending :: "int \<Rightarrow> (int \<times> ptr \<times> ptr) list \<Rightarrow> (int \<times> ptr \<times> ptr) list" where
  "pending now es \<equiv> dropWhile (\<lambda>e. fst e < now) es"

definition detach :: "ptr list \<Rightarrow> (ptr \<rightharpoonup> 'c Timer) \<Rightarrow> (ptr \<rightharpoonup> 'c Timer)" where
  "detach tas ts = (\<lambda>ta. if ta \<in> set tas then map_option (\<lambda>tm. tm\<lparr>attach := NULL\<rparr>) (ts ta) else ts ta)"

lemma queue_ok_Cons:
  assumes "queue_ok q ((k, n, ta) # es)"
  shows "\<exists>tm tr. timers q ta = Some tm \<and> expire tm = k \<and> rbtree_min (tree q) = Some n \<and> n \<noteq> nil (tree q) \<and>
    fld val (tree q) n = Some ta \<and> rbtree_delete (tree q) n = Some tr \<and> nil tr = nil (tree q) \<and>
    queue_ok (q\<lparr>tree := tr, timers := (timers q)(ta \<mapsto> tm\<lparr>attach := NULL\<rparr>)\<rparr>) es"
proof -
  have r: "tree_repr (tree q) ((k, n, ta) # es)" using assms by (simp add: queue_ok_def)
  obtain tm where tm: "timers q ta = Some tm" "expire tm = k" using assms by (auto simp: queue_ok_def)
  obtain tr where tr: "rbtree_delete (tree q) n = Some tr" "tree_repr tr es" "nil tr = nil (tree q)"
    using rb.del_least [OF r] by blast
  have "ta \<notin> set (map (snd \<circ> snd) es)" using assms by (simp add: queue_ok_def)
  then have "queue_ok (q\<lparr>tree := tr, timers := (timers q)(ta \<mapsto> tm\<lparr>attach := NULL\<rparr>)\<rparr>) es"
    using assms tr(2) by (force simp: queue_ok_def)
  then show ?thesis using tm tr rb.least_Cons [OF r] by blast
qed

lemma pop_expired_ok:
  assumes "queue_ok q es"
  shows "\<exists>tr. pop_expired now q acc =
      Some (q\<lparr>tree := tr, timers := detach (map timer_of (expired now es)) (timers q)\<rparr>, acc @ map timer_of (expired now es)) \<and>
    nil tr = nil (tree q) \<and>
    queue_ok (q\<lparr>tree := tr, timers := detach (map timer_of (expired now es)) (timers q)\<rparr>) (pending now es)"
  using assms
proof (induction es arbitrary: q acc)
  case Nil
  then have "rbtree_min (tree q) = Some (nil (tree q))" using rb.least_Nil by (simp add: queue_ok_def)
  then show ?case using Nil by (intro exI [of _ "tree q"], subst pop_expired.simps) (simp add: detach_def)
next
  case (Cons e es)
  obtain k n ta where e: "e = (k, n, ta)" by (cases e) auto
  obtain tm tr where c: "timers q ta = Some tm" "expire tm = k" "rbtree_min (tree q) = Some n" "n \<noteq> nil (tree q)"
    "fld val (tree q) n = Some ta" "rbtree_delete (tree q) n = Some tr" "nil tr = nil (tree q)"
    "queue_ok (q\<lparr>tree := tr, timers := (timers q)(ta \<mapsto> tm\<lparr>attach := NULL\<rparr>)\<rparr>) es"
    using queue_ok_Cons Cons.prems e by blast
  show ?case
  proof (cases "k < now")
    case True
    have "ta \<notin> set (map timer_of (expired now es))"
      using Cons.prems e by (auto simp: queue_ok_def dest: set_takeWhileD)
    then have "detach (map timer_of (expired now es)) ((timers q)(ta \<mapsto> tm\<lparr>attach := NULL\<rparr>)) =
        detach (ta # map timer_of (expired now es)) (timers q)"
      using c(1) by (auto simp: detach_def fun_eq_iff)
    then show ?thesis using Cons.IH [OF c(8), of "acc @ [ta]"] c True e
      by (subst pop_expired.simps) (simp del: fun_upd_apply)
  next
    case False
    then show ?thesis using c e Cons.prems
      by (intro exI [of _ "tree q"], subst pop_expired.simps) (simp add: detach_def)
  qed
qed


abbreviation entered :: "int \<Rightarrow> ptr \<Rightarrow> ptr \<Rightarrow> (int \<times> ptr \<times> ptr) list \<Rightarrow> (int \<times> ptr \<times> ptr) list" where
  "entered k n ta es \<equiv> filter (\<lambda>e. fst e < k) es @ (k, n, ta) # filter (\<lambda>e. k < fst e) es"

lemma distinct_around:
  fixes k :: int
  assumes d: "distinct (map f es)" and x: "f (k, n, ta) \<notin> f ` set es"
  shows "distinct (map f (entered k n ta es))"
proof -
  have inj: "a = b" if "a \<in> set es" "b \<in> set es" "f a = f b" for a b
    using d that by (auto simp: distinct_map inj_on_def)
  have "f a \<noteq> f b" if "a \<in> set es" "fst a < k" "b \<in> set es" "k < fst b" for a b
    using inj [of a b] that by auto
  then have "f ` {e \<in> set es. fst e < k} \<inter> f ` {e \<in> set es. k < fst e} = {}" by blast
  then show ?thesis using d x by (simp add: distinct_map_filter) blast
qed

text \<open>A timer that is not in the tree, with an expiry that is not there, is entered under it.\<close>

lemma addTimer_queue:
  assumes "queue_ok q es" and "timers q ta = Some tm" and "env_ok (Suc n) q es" and "settime_ok settime"
    and "due q tm = k" and "k < 2 ^ 63" and "k \<notin> fst ` set es" and "ta \<notin> timer_of ` set es"
  shows "\<exists>q' na. addTimer settime q ta = Some q' \<and> queue_ok q' (entered k na ta es) \<and> env_ok n q' (entered k na ta es) \<and>
    timers q' = (timers q)(ta \<mapsto> tm\<lparr>expire := k, attach := na\<rparr>) \<and> own_epoch q' = own_epoch q \<and> fired q' = fired q \<and>
    ref q' = ref q \<and> slot q' = slot q \<and> nows q' = tl (nows q) \<and> nodes q' = tl (nodes q) \<and>
    armed q' = (if k \<le> fst (hd (entered k na ta es)) then Some (TransTicks (culong (own_epoch q + k))) else armed q)"
proof -
  have r: "tree_repr (tree q) es" using assms(1) by (simp add: queue_ok_def)
  have "0 \<le> k" using assms(5) by (auto simp: due_def)
  then have k: "clong k = k" using assms(6) by (simp add: clong_id)
  obtain q' na where q': "addTimer settime q ta = Some q'" "tree_repr (tree q') (entered k na ta es)" "env_ok n q' (entered k na ta es)"
    "timers q' = (timers q)(ta \<mapsto> tm\<lparr>expire := k, attach := na\<rparr>)" "own_epoch q' = own_epoch q" "fired q' = fired q"
    "ref q' = ref q" "slot q' = slot q" "nows q' = tl (nows q)" "nodes q' = tl (nodes q)"
    "armed q' = (if k \<le> fst (hd (entered k na ta es)) then Some (TransTicks (culong (own_epoch q + k))) else armed q)"
    using addTimer_ok [OF r assms(2-4)] assms(7) unfolding assms(5) k by (auto simp del: fun_upd_apply)
  have old: "timers q' (timer_of e) = timers q (timer_of e)" if "e \<in> set es" for e
    using q'(4) assms(8) that by (auto simp: image_iff)
  have "\<exists>m. timers q' y = Some m \<and> expire m = i \<and> attach m = x" if "(i, x, y) \<in> set (entered k na ta es)" for i x y
  proof (cases "(i, x, y) \<in> set es")
    case True
    then show ?thesis using assms(1) old [OF True] by (auto simp: queue_ok_def)
  next
    case False
    then show ?thesis using that q'(4) by auto
  qed
  moreover have "distinct (map (snd \<circ> snd) (entered k na ta es))"
    using assms(1,8) by (intro distinct_around) (auto simp: queue_ok_def image_image)
  ultimately have "queue_ok q' (entered k na ta es)" using q'(2) unfolding queue_ok_def by blast
  then show ?thesis using q' by blast
qed

section \<open>Firing\<close>

text \<open>The callbacks run for a list of timers, and what remains of a timer.\<close>

definition ready :: "(ptr \<rightharpoonup> 'c Timer) \<Rightarrow> ptr list \<Rightarrow> 'c list" where
  "ready ts tas = map (\<lambda>ta. cb (the (ts ta))) (filter (\<lambda>ta. 0 < elapse (the (ts ta))) tas)"

definition rounds :: "(ptr \<rightharpoonup> 'c Timer) \<Rightarrow> ptr \<Rightarrow> int option" where
  "rounds ts ta = map_option elapse (ts ta)"

fun spent :: "int option \<Rightarrow> int option" where
  "spent (Some e) = (if 1 < e then Some (e - 1) else None)"
| "spent None = None"

text \<open>Callbacks that leave the queue alone.\<close>

definition quiet :: "('c \<Rightarrow> 'c TimerQueue \<Rightarrow> 'c TimerQueue option) \<Rightarrow> bool" where
  "quiet call \<longleftrightarrow> (\<forall>c q. call c q = Some q)"

lemma ready_cong: "(\<And>x. x \<in> set tas \<Longrightarrow> ts x = ts' x) \<Longrightarrow> ready ts tas = ready ts' tas"
  by (induction tas) (auto simp: ready_def)

lemma fire_ok:
  assumes "tree_repr (tree q) es" "env_ok (length tas) q es" "distinct tas" "set tas \<subseteq> dom (timers q)"
    and st: "settime_ok settime" and quiet: "quiet call"
  shows "\<exists>q' es'. fire settime call tas q = Some q' \<and> tree_repr (tree q') es' \<and>
    fired q' = fired q @ ready (timers q) tas \<and> own_epoch q' = own_epoch q \<and>
    (\<forall>ta. rounds (timers q') ta =
       (if ta \<in> set tas then (spent (rounds (timers q) ta))
        else rounds (timers q) ta))"
  using assms(1-4)
proof (induction tas arbitrary: q es)
  case Nil
  then show ?case by (auto simp: ready_def)
next
  case (Cons ta tas)
  obtain tm where tm: "timers q ta = Some tm" using Cons.prems(4) by auto
  let ?q1 = "q\<lparr>timers := (timers q)(ta \<mapsto> tm\<lparr>elapse := elapse tm - 1\<rparr>), fired := fired q @ [cb tm]\<rparr>"
  have env: "env_ok (Suc (length tas)) ?q1 es" "env_ok (length tas) (delete_timer q ta) es"
    "env_ok (length tas) (delete_timer ?q1 ta) es" "tree_repr (tree ?q1) es"
    using Cons.prems(1,2) by (auto simp: env_ok_def delete_timer_def)
  obtain q2 es2 where q2: "(if 0 < elapse tm then if 1 < elapse tm then addTimer settime ?q1 ta else Some (delete_timer ?q1 ta)
      else Some (delete_timer q ta)) = Some q2" "tree_repr (tree q2) es2" "env_ok (length tas) q2 es2"
    "fired q2 = fired q @ (if 0 < elapse tm then [cb tm] else [])" "own_epoch q2 = own_epoch q"
    "\<And>x. x \<noteq> ta \<Longrightarrow> timers q2 x = timers q x"
    "rounds (timers q2) ta = (if 1 < elapse tm then Some (elapse tm - 1) else None)"
  proof (cases "1 < elapse tm")
    case True
    have "timers ?q1 ta = Some (tm\<lparr>elapse := elapse tm - 1\<rparr>)" by simp
    from addTimer_ok [OF env(4) this env(1) st] True show ?thesis
      by (auto intro!: that simp: rounds_def)
  next
    case False
    show ?thesis
    proof (cases "0 < elapse tm")
      case True
      then show ?thesis using False Cons.prems(1) env(3) by (intro that [of "delete_timer ?q1 ta" es]) (simp_all add: delete_timer_def rounds_def)
    next
      case F: False
      then show ?thesis using Cons.prems(1) env(2) by (intro that [of "delete_timer q ta" es]) (simp_all add: delete_timer_def rounds_def)
    qed
  qed
  have d: "set tas \<subseteq> dom (timers q2)"
  proof
    fix x assume x: "x \<in> set tas"
    then have "x \<noteq> ta" using Cons.prems(3) by auto
    then show "x \<in> dom (timers q2)" using q2(6) [of x] Cons.prems(4) x by auto
  qed
  have step: "fire settime call (ta # tas) q = fire settime call tas q2"
    using q2(1) tm quiet by (auto simp: Let_def quiet_def split: if_splits)
  have rd: "ready (timers q2) tas = ready (timers q) tas"
    using Cons.prems(3) by (intro ready_cong q2(6)) auto
  obtain q' es' where q': "fire settime call tas q2 = Some q'" "tree_repr (tree q') es'"
    "fired q' = fired q2 @ ready (timers q2) tas" "own_epoch q' = own_epoch q2"
    "\<And>x. rounds (timers q') x = (if x \<in> set tas then spent (rounds (timers q2) x) else rounds (timers q2) x)"
    using Cons.IH [OF q2(2,3) _ d] Cons.prems(3) by auto
  have "fired q' = fired q @ ready (timers q) (ta # tas)" using q'(3) q2(4) tm rd by (auto simp: ready_def)
  moreover have "rounds (timers q') x = (if x \<in> set (ta # tas) then spent (rounds (timers q) x) else rounds (timers q) x)" for x
    using q'(5) [of x] q2(6) [of x] q2(7) tm Cons.prems(3) by (cases "x = ta") (auto simp: rounds_def)
  ultimately show ?case using step q' q2(5) by auto
qed


lemma expired_timers:
  assumes "queue_ok q es"
  shows "distinct (map timer_of (expired now es))" "set (map timer_of (expired now es)) \<subseteq> dom (timers q)"
    "set (map timer_of (expired now es)) \<inter> timer_of ` set (pending now es) = {}"
proof -
  have d: "distinct (map timer_of (expired now es @ pending now es))" "timer_of ` set es \<subseteq> dom (timers q)"
    using assms by (force simp: queue_ok_def comp_def)+
  then show "distinct (map timer_of (expired now es))"
    "set (map timer_of (expired now es)) \<inter> timer_of ` set (pending now es) = {}"
    unfolding map_append distinct_append by auto
  show "set (map timer_of (expired now es)) \<subseteq> dom (timers q)" using d(2) by (auto dest: set_takeWhileD)
qed

lemma dom_detach: "dom (detach xs ts) = dom ts"
  by (auto simp: detach_def dom_def)

lemma ready_detach: "ready (detach xs ts) tas = ready ts tas"
proof -
  have e: "elapse (the (detach xs ts ta)) = elapse (the (ts ta)) \<and> cb (the (detach xs ts ta)) = cb (the (ts ta))"
    if "ts ta \<noteq> None" for ta using that by (auto simp: detach_def)
  have "detach xs ts ta = None" if "ts ta = None" for ta using that by (simp add: detach_def)
  then have "elapse (the (detach xs ts ta)) = elapse (the (ts ta)) \<and> cb (the (detach xs ts ta)) = cb (the (ts ta))" for ta
    using e by (cases "ts ta") auto
  then show ?thesis by (simp add: ready_def)
qed

lemma rounds_detach [simp]: "rounds (detach xs ts) ta = rounds ts ta"
  by (cases "ts ta") (auto simp: rounds_def detach_def)

text \<open>Timers that fire for the last time are deleted and do not touch the tree.\<close>

lemma fire_once:
  assumes "distinct tas" "\<forall>ta\<in>set tas. \<exists>tm. timers q ta = Some tm \<and> elapse tm \<le> 1"
    and quiet: "quiet call"
  shows "fire settime call tas q =
    Some (q\<lparr>timers := timers q |` (- set tas), fired := fired q @ ready (timers q) tas\<rparr>)"
  using assms(1,2)
proof (induction tas arbitrary: q)
  case (Cons ta tas)
  then obtain tm where tm: "timers q ta = Some tm" "elapse tm \<le> 1" by auto
  let ?f = "if 0 < elapse tm then [cb tm] else []"
  let ?q = "q\<lparr>timers := (timers q)(ta := None), fired := fired q @ ?f\<rparr>"
  have "fire settime call (ta # tas) q = fire settime call tas ?q"
    using tm quiet by (auto simp: Let_def quiet_def delete_timer_def intro!: arg_cong [where f = "fire settime call tas"])
  moreover have "\<forall>x\<in>set tas. \<exists>tm. timers ?q x = Some tm \<and> elapse tm \<le> 1" using Cons.prems by auto
  moreover have "ready ((timers q)(ta := None)) tas = ready (timers q) tas"
    using Cons.prems(1) by (intro ready_cong) auto
  moreover have "((timers q)(ta := None)) |` (- set tas) = timers q |` (- set (ta # tas))"
    by (auto simp: restrict_map_def fun_eq_iff)
  moreover have "ready (timers q) (ta # tas) = ?f @ ready (timers q) tas" using tm(1) by (simp add: ready_def)
  ultimately show ?case using Cons.IH [of ?q] Cons.prems(1) by (simp del: fun_upd_apply fire.simps)
qed (simp add: ready_def restrict_map_def)

section \<open>Properties\<close>

text \<open>\<^verbatim>\<open>TimerQueueBase::nextId\<close> returns an id that is not in use, in the range of a
  non-negative \<^verbatim>\<open>int\<close>, whenever there is one above the last; otherwise it runs into the overflow of
  \<^verbatim>\<open>INT_MAX + 1\<close>, although the test for a negative \<open>next\<close> was meant to wrap around.\<close>

theorem nextId_unique:
  "(\<exists>i. slot q < i \<and> 0 \<le> i \<and> i \<le> int_max \<and> ref q i = None) \<longleftrightarrow>
   (\<exists>i. nextId q = Some (i, q\<lparr>slot := i\<rparr>) \<and> slot q < i \<and> 0 \<le> i \<and> i \<le> int_max \<and> ref q i = None)"
proof
  assume "\<exists>i. slot q < i \<and> 0 \<le> i \<and> i \<le> int_max \<and> ref q i = None"
  then obtain n where n: "next_free (ref q) (slot q + 1) = Some n"
    using next_free_exists [of "ref q" _ "slot q + 1"] by fastforce
  from next_free_Some [OF n] n show "\<exists>i. nextId q = Some (i, q\<lparr>slot := i\<rparr>) \<and> slot q < i \<and> 0 \<le> i \<and> i \<le> int_max \<and> ref q i = None"
    by (auto simp: nextId_def)
qed blast

text \<open>\<^verbatim>\<open>Clock::TransTicks\<close> splits a tick count into seconds and nanoseconds without loss, and the
  nanoseconds are always in the range \<^verbatim>\<open>timerfd_settime\<close> accepts.\<close>

theorem TransTicks_exact:
  "fst (TransTicks t) * 1000000000 + snd (TransTicks t) = t \<and> 0 \<le> snd (TransTicks t) \<and> snd (TransTicks t) < 1000000000"
  by (simp add: TransTicks_def)

text \<open>The timerfd is armed for the earliest timer.\<close>

definition armed_ok :: "'c TimerQueue \<Rightarrow> (int \<times> ptr \<times> ptr) list \<Rightarrow> bool" where
  "armed_ok q es \<longleftrightarrow> (es \<noteq> [] \<longrightarrow> armed q = Some (TransTicks (culong (own_epoch q + fst (hd es)))))"

lemma hd_around:
  fixes k :: int
  assumes "sorted_wrt (<) (map fst es)"
  shows "hd (filter (\<lambda>e. fst e < k) es @ (k, n, ta) # filter (\<lambda>e. k < fst e) es) =
    (if es \<noteq> [] \<and> fst (hd es) < k then hd es else (k, n, ta))"
proof (cases es)
  case (Cons e es')
  then have "\<not> fst e < k \<Longrightarrow> filter (\<lambda>e. fst e < k) es = []" using assms by (force simp: filter_empty_conv)
  then show ?thesis using Cons by auto
qed simp

text \<open>The end of the handler: the timerfd is armed for the earliest timer, if there is one.\<close>

lemma HandleRead_rearm:
  assumes "nows q = t0 # ts" and "PerTick settime call (q\<lparr>nows := ts, armed := None\<rparr>) = Some q2" and "queue_ok q2 es" and "settime_ok settime"
    and "\<forall>e\<in>set es. 0 < fst e \<and> fst e < 2 ^ 63"
  shows "\<exists>a. HandleRead settime call 8 q = Some (q2\<lparr>armed := a\<rparr>) \<and> queue_ok (q2\<lparr>armed := a\<rparr>) es \<and> armed_ok (q2\<lparr>armed := a\<rparr>) es \<and>
    (es = [] \<longrightarrow> a = armed q2)"
proof (cases es)
  case Nil
  then have "WaitTimeUsec q2 = Some (- 1)" using assms(3) rb.least_Nil [of "tree q2"] by (simp add: WaitTimeUsec_def queue_ok_def)
  then show ?thesis using Nil assms(1-3) by (intro exI [of _ "armed q2"]) (simp add: armed_ok_def HandleRead_def readTimerfd_def)
next
  case (Cons e es')
  obtain k n ta where e: "e = (k, n, ta)" by (cases e) auto
  have k: "0 < k" "k < 2 ^ 63" using assms(5) Cons e by auto
  obtain tm where "timers q2 ta = Some tm" "expire tm = k" using assms(3) Cons e by (auto simp: queue_ok_def)
  moreover have "tree_repr (tree q2) ((k, n, ta) # es')" using assms(3) Cons e by (simp add: queue_ok_def)
  from rb.least_Cons [OF this] have "WaitTimeUsec q2 = Some k"
    using calculation k by (simp add: WaitTimeUsec_def clong_id)
  then show ?thesis using Cons e k(1) assms(1-3)
    by (simp add: armed_ok_def HandleRead_def readTimerfd_def resetTimerfd_ok [OF assms(4)]) (simp add: queue_ok_def)
qed

text \<open>A queue with one scheduled timer (id 1, expiry 150) and one timer not yet scheduled, for
  the examples.\<close>

definition demo_timer :: "int \<Rightarrow> int \<Rightarrow> ptr \<Rightarrow> string Timer" where
  "demo_timer i e n = \<lparr>index = - 1, tm_id = i, expire = e, time = 50, interval = 1, elapse = 1, cb = ''tick'', attach = n\<rparr>"

definition blank_node :: "ptr rbtree_node_t" where
  "blank_node = \<lparr>left = NULL, right = NULL, parent = NULL, col = 0, key = 0, val = 0\<rparr>"

definition demo :: "int list \<Rightarrow> string TimerQueue" where
  "demo clock =
     \<lparr>slot = 1, ref = [1 \<mapsto> 100], timers = [100 \<mapsto> demo_timer 1 150 2, 101 \<mapsto> demo_timer 2 0 0],
      tree = \<lparr>mem = [1 \<mapsto> blank_node\<lparr>col := RBTREE_COL_BLACK\<rparr>, 2 \<mapsto> node 1 1 1 Black 150 100], root = 2, nil = 1\<rparr>,
      own_epoch = 1000, armed = Some (0, 1150), nows = clock, nodes = [(3, blank_node), (4, blank_node)], fired = []\<rparr>"

lemma demo_ok: "queue_ok (demo clock) [(150, 2, 100)]"
proof -
  have "rb_tree (tree (demo clock)) (Nd Lf 2 Black 150 100 Lf)"
    by (simp add: demo_def rb_tree_def zrep_def sentinel_def rb_ok_def)
  then have "tree_repr (tree (demo clock)) [(150, 2, 100)]" unfolding tree_repr_def by force
  then show ?thesis by (simp add: queue_ok_def demo_def demo_timer_def)
qed

lemma demo_env: "n \<le> length clock \<Longrightarrow> n \<le> 2 \<Longrightarrow> env_ok n (demo clock) [(150, 2, 100)]"
  by (simp add: env_ok_def demo_def)

lemma settime_always: "settime_ok (\<lambda>_. 0)"
  by (simp add: settime_ok_def)

lemma quiet_Some: "quiet (\<lambda>c. Some)"
  by (simp add: quiet_def)

text \<open>C14: adding a timer whose expiry no other timer has is defined, returns a fresh id under
  which the timer can be found, enters it into the tree in the order of expiry, leaves every other
  timer alone and keeps the timerfd armed for the earliest timer.\<close>

theorem AddTimer_contract:
  assumes "queue_ok q es" and "armed_ok q es" and "env_ok 1 q es" and "settime_ok settime"
    and "slot q < int_max" and "\<forall>i > slot q. ref q i = None" and "0 \<le> slot q"
    and "ta \<notin> dom (timers q)"
    and "due_at = culong (hd (nows q) - own_epoch q) + tm" and "0 \<le> tm" and "due_at < 2 ^ 63" and "due_at \<notin> fst ` set es"
  shows "\<exists>i q' n. AddTimer settime q ta tm iv c = Some (i, q') \<and> ref q i = None \<and> ref q' i = Some ta \<and>
    queue_ok q' (filter (\<lambda>e. fst e < due_at) es @ (due_at, n, ta) # filter (\<lambda>e. due_at < fst e) es) \<and>
    armed_ok q' (filter (\<lambda>e. fst e < due_at) es @ (due_at, n, ta) # filter (\<lambda>e. due_at < fst e) es) \<and>
    (\<forall>x. x \<noteq> ta \<longrightarrow> timers q' x = timers q x)"
proof -
  have nin: "ta \<notin> timer_of ` set es" using assms(1,8) by (force simp: queue_ok_def)
  have "next_free (ref q) (slot q + 1) = Some (slot q + 1)"
    using assms(5-7) by (subst next_free.simps) (simp add: Let_def)
  let ?i = "slot q + 1"
  let ?t = "\<lparr>index = - 1, tm_id = ?i, expire = 0, time = tm, interval = clong iv, elapse = clong iv, cb = c, attach = NULL\<rparr>"
  let ?q = "q\<lparr>slot := ?i, ref := (ref q)(?i \<mapsto> ta), timers := (timers q)(ta \<mapsto> ?t)\<rparr>"
  have reg: "AddTimer_register q ta tm iv c = Some (?i, ?q)"
    using \<open>next_free (ref q) (slot q + 1) = Some (slot q + 1)\<close>
    by (simp add: AddTimer_register_def nextId_def Let_def)
  have "queue_ok ?q es" using assms(1) nin by (force simp: queue_ok_def)
  moreover have "env_ok (Suc 0) ?q es" "timers ?q ta = Some ?t" using assms(3) by (simp_all add: env_ok_def)
  moreover have "0 \<le> culong (hd (nows q) - own_epoch q)" by simp
  then have "due ?q ?t = due_at" using assms(9-11) by (auto simp: due_def intro!: culong_id)
  ultimately obtain q' n where q': "addTimer settime ?q ta = Some q'" "queue_ok q' (entered due_at n ta es)"
    "timers q' = (timers ?q)(ta \<mapsto> ?t\<lparr>expire := due_at, attach := n\<rparr>)" "own_epoch q' = own_epoch q" "ref q' = ref ?q"
    "armed q' = (if due_at \<le> fst (hd (entered due_at n ta es)) then Some (TransTicks (culong (own_epoch q + due_at))) else armed q)"
    using addTimer_queue [of ?q es ta ?t 0 settime due_at] assms(4,11,12) nin by auto
  have "sorted_wrt (<) (map fst es)" using assms(1) rb.repr_sorted by (auto simp: queue_ok_def)
  then have "armed_ok q' (entered due_at n ta es)" using assms(2) q'(4,6) hd_around [of es due_at n ta]
    by (auto simp: armed_ok_def split: if_splits)
  then show ?thesis using reg q' assms(6) by (auto simp: AddTimer_def)
qed

theorem AddTimer_contract_witness:
  "\<exists>i q' n. AddTimer (\<lambda>_. 0) (demo [1100]) 102 20 1 ''tock'' = Some (i, q') \<and> ref q' i = Some 102 \<and>
     queue_ok q' [(120, n, 102), (150, 2, 100)] \<and> armed_ok q' [(120, n, 102), (150, 2, 100)]"
proof -
  have "armed_ok (demo [1100]) [(150, 2, 100)]" by (simp add: armed_ok_def demo_def TransTicks_def culong_id)
  then show ?thesis
    using AddTimer_contract [OF demo_ok _ demo_env settime_always, of "[1100]" 102 120 20 1 "''tock''"]
    by (auto simp: demo_def culong_id)
qed

text \<open>A timer with the same expiry as one that is already scheduled is never scheduled: the
  tree stays as it was, so the tick that pops the other one does not see it, and its
  \<^verbatim>\<open>attach\<close> points to a node that is not in the tree.\<close>

theorem same_expiry_is_lost:
  assumes "queue_ok q es" and "env_ok 1 q es" and "settime_ok settime" and "timers q ta = Some tm"
    and "clong (due q tm) \<in> fst ` set es"
  shows "\<exists>q' n. addTimer settime q ta = Some q' \<and> tree_repr (tree q') es \<and>
    timers q' ta = Some (tm\<lparr>expire := due q tm, attach := n\<rparr>) \<and> n \<notin> fst ` snd ` set es"
proof -
  have r: "tree_repr (tree q) es" using assms(1) by (simp add: queue_ok_def)
  have n: "fst (hd (nodes q)) \<notin> fst ` snd ` set es"
    using assms(2) by (cases "nodes q") (auto simp: env_ok_def)
  show ?thesis using addTimer_ok [OF r assms(4) _ assms(3), of 0] assms(2,5) n by auto
qed

theorem same_expiry_is_lost_witness:
  "\<exists>q'. addTimer (\<lambda>_. 0) (demo [1100]) 101 = Some q' \<and> tree_repr (tree q') [(150, 2, 100)]"
proof -
  have "due (demo [1100]) (demo_timer 2 0 0) = 150" by (simp add: due_def demo_def demo_timer_def culong_id)
  then show ?thesis
    using same_expiry_is_lost [OF demo_ok demo_env settime_always, of "[1100]" 101 "demo_timer 2 0 0"]
    by (auto simp: demo_def clong_id)
qed

text \<open>A tick runs the callbacks of the expired timers with rounds left.\<close>

lemma PerTick_ready:
  assumes "queue_ok q es" and "nows q = t # ts" and "env_ok (length es) (q\<lparr>nows := ts\<rparr>) es"
    and "settime_ok settime" and "quiet call" and "now = culong (t - own_epoch q)"
  shows "\<exists>q' es'. PerTick settime call q = Some q' \<and> tree_repr (tree q') es' \<and>
    fired q' = fired q @ ready (timers q) (map timer_of (expired now es)) \<and>
    (\<forall>ta. rounds (timers q') ta =
       (if ta \<in> timer_of ` set (expired now es)
        then spent (rounds (timers q) ta)
        else rounds (timers q) ta))"
proof -
  let ?tas = "map timer_of (expired now es)" let ?q0 = "q\<lparr>nows := ts\<rparr>"
  have q0: "queue_ok ?q0 es" using assms(1) by (simp add: queue_ok_def)
  from pop_expired_ok [OF q0, of now "[]"] obtain tr where
    p: "pop_expired now ?q0 [] = Some (?q0\<lparr>tree := tr, timers := detach ?tas (timers q)\<rparr>, ?tas)" "nil tr = nil (tree q)"
      "queue_ok (?q0\<lparr>tree := tr, timers := detach ?tas (timers q)\<rparr>) (pending now es)" by auto
  let ?q1 = "?q0\<lparr>tree := tr, timers := detach ?tas (timers q)\<rparr>"
  have r: "tree_repr (tree ?q1) (pending now es)" using p(3) by (simp add: queue_ok_def)
  have len: "length ?tas \<le> length es" by (simp add: length_takeWhile_le)
  have "fst ` snd ` set (pending now es) \<subseteq> fst ` snd ` set es" by (intro image_mono) (auto dest: set_dropWhileD)
  from disjoint_sub [OF this, of "fst ` set (nodes q)" NULL "nil tr"] have env: "env_ok (length ?tas) ?q1 (pending now es)"
    using assms(3) len p(2) by (simp add: env_ok_def)
  have d: "distinct ?tas" using expired_timers(1) [OF q0] .
  have dom: "set ?tas \<subseteq> dom (timers ?q1)" using expired_timers(2) [OF q0, of now] by (simp add: dom_detach)
  obtain q' es' where q': "fire settime call ?tas ?q1 = Some q'" "tree_repr (tree q') es'"
    "fired q' = fired q @ ready (timers q) ?tas"
    "\<And>ta. rounds (timers q') ta = (if ta \<in> set ?tas then spent (rounds (timers q) ta)
        else rounds (timers q) ta)"
    using fire_ok [OF r env d dom assms(4,5)] by (auto simp: ready_detach)
  then show ?thesis using p(1) assms(2,6) by (auto simp: PerTick_def)
qed

text \<open>C10: \<^verbatim>\<open>PerTick\<close> at time \<open>now\<close>, with timers that have rounds left and callbacks that leave the timer queue alone, is
  defined; it runs the callbacks of exactly the timers whose expiry lies before \<open>now\<close>, once each, in the order of expiry; a
  timer with more rounds stays alive with one round less and every other expired timer is deleted.\<close>

theorem PerTick_fires_expired:
  assumes "queue_ok q es" and "nows q = t # ts" and "env_ok (length es) (q\<lparr>nows := ts\<rparr>) es"
    and "settime_ok settime" and "quiet call" and "now = culong (t - own_epoch q)"
    and "\<forall>e \<in> set es. \<forall>tm. timers q (timer_of e) = Some tm \<longrightarrow> 0 < elapse tm"
  shows "\<exists>q' es'. PerTick settime call q = Some q' \<and> tree_repr (tree q') es' \<and>
    fired q' = fired q @ map (\<lambda>e. cb (the (timers q (timer_of e)))) (expired now es) \<and>
    (\<forall>ta. rounds (timers q') ta =
       (if ta \<in> timer_of ` set (expired now es)
        then spent (rounds (timers q) ta)
        else rounds (timers q) ta))"
proof -
  have "0 < elapse (the (timers q (timer_of e)))" if "e \<in> set (expired now es)" for e
    using that assms(1,7) by (fastforce simp: queue_ok_def dest: set_takeWhileD)
  then have "ready (timers q) (map timer_of (expired now es)) = map (\<lambda>e. cb (the (timers q (timer_of e)))) (expired now es)"
    by (simp add: ready_def filter_map comp_def)
  then show ?thesis using PerTick_ready [OF assms(1-6)] by simp
qed

theorem PerTick_fires_expired_witness:
  "\<exists>q'. PerTick (\<lambda>_. 0) (\<lambda>c. Some) (demo [1200, 1201]) = Some q' \<and> fired q' = [''tick'']"
proof -
  have "env_ok 1 ((demo [1200, 1201])\<lparr>nows := [1201]\<rparr>) [(150, 2, 100)]" by (simp add: env_ok_def demo_def)
  then show ?thesis
    using PerTick_fires_expired [OF demo_ok _ _ settime_always quiet_Some, of "[1200, 1201]" 1200 "[1201]" 200]
    by (auto simp: demo_def demo_timer_def culong_id)
qed

text \<open>The comment at \<^verbatim>\<open>Timer::interval\<close> says that an interval of \<^verbatim>\<open>-1\<close> repeats a timer and 0 does not. The code takes the
  number for the rounds left: a timer added with either never runs its callback, and is deleted when it expires.\<close>

theorem interval_zero_never_fires:
  assumes "queue_ok q es" and "nows q = t # ts" and "env_ok (length es) (q\<lparr>nows := ts\<rparr>) es"
    and "settime_ok settime" and "quiet call" and "(k, n, ta) \<in> set es" and "timers q ta = Some tm" and "elapse tm \<le> 0"
    and "k < culong (t - own_epoch q)" and "\<forall>e \<in> set es. e \<noteq> (k, n, ta) \<longrightarrow> culong (t - own_epoch q) \<le> fst e"
  shows "\<exists>q'. PerTick settime call q = Some q' \<and> fired q' = fired q \<and> timers q' ta = None"
proof -
  let ?now = "culong (t - own_epoch q)"
  have "sorted_wrt (<) (map fst es)" using assms(1) rb.repr_sorted by (auto simp: queue_ok_def)
  then obtain es' where es: "es = (k, n, ta) # es'"
  proof (cases es)
    case (Cons e es')
    then have "e = (k, n, ta)" using assms(6,9,10) \<open>sorted_wrt (<) (map fst es)\<close> by fastforce
    then show ?thesis using that Cons by blast
  qed (use assms(6) in simp)
  then have "expired ?now es' = []" using assms(10) \<open>sorted_wrt (<) (map fst es)\<close> by (cases es') auto
  then have x: "expired ?now es = [(k, n, ta)]" using es assms(9) by simp
  have r: "ready (timers q) [ta] = []" "spent (rounds (timers q) ta) = None" using assms(7,8) by (auto simp: ready_def rounds_def)
  from PerTick_ready [OF assms(1-5) refl] obtain q' where "PerTick settime call q = Some q'" "fired q' = fired q" "rounds (timers q') ta = None"
    using x r by auto
  then show ?thesis by (auto simp: rounds_def)
qed

text \<open>The timerfd handler with one-shot timers: after \<^verbatim>\<open>HandleRead\<close> the queue holds exactly the
  timers that are not yet due, the callbacks of the others have run in the order of expiry,
  and the timerfd is armed for the earliest remaining timer.\<close>

theorem HandleRead_rearms:
  assumes "queue_ok q es" and "nows q = t0 # t # ts" and "settime_ok settime"
    and "quiet call" and "now = culong (t - own_epoch q)"
    and "\<forall>e\<in>set (expired now es). \<forall>tm. timers q (timer_of e) = Some tm \<longrightarrow> elapse tm \<le> 1"
    and "\<forall>e\<in>set es. 0 < fst e \<and> fst e < 2 ^ 63"
  shows "\<exists>q'. HandleRead settime call 8 q = Some q' \<and> queue_ok q' (pending now es) \<and>
    armed_ok q' (pending now es) \<and> own_epoch q' = own_epoch q \<and> fired q' = fired q @ ready (timers q) (map timer_of (expired now es))"
proof -
  let ?tas = "map timer_of (expired now es)" let ?q0 = "q\<lparr>armed := None, nows := ts\<rparr>"
  have q0: "queue_ok ?q0 es" using assms(1) by (simp add: queue_ok_def)
  from pop_expired_ok [OF q0, of now "[]"] obtain tr where
    p: "pop_expired now ?q0 [] = Some (?q0\<lparr>tree := tr, timers := detach ?tas (timers q)\<rparr>, ?tas)"
      "queue_ok (?q0\<lparr>tree := tr, timers := detach ?tas (timers q)\<rparr>) (pending now es)" by auto
  let ?q1 = "?q0\<lparr>tree := tr, timers := detach ?tas (timers q)\<rparr>"
  let ?q2 = "?q1\<lparr>timers := detach ?tas (timers q) |` (- set ?tas), fired := fired q @ ready (timers q) ?tas\<rparr>"
  have "\<exists>tm. timers ?q1 ta = Some tm \<and> elapse tm \<le> 1" if "ta \<in> set ?tas" for ta
    using expired_timers(2) [OF q0, of now] that assms(6) by (fastforce simp: detach_def)
  then have f: "fire settime call ?tas ?q1 = Some ?q2"
    using fire_once [of ?tas ?q1 call settime] expired_timers(1) [OF q0] assms(4) by (simp add: ready_detach)
  have tick: "PerTick settime call (q\<lparr>nows := t # ts, armed := None\<rparr>) = Some ?q2" using p(1) f assms(5) by (simp add: PerTick_def)
  have q2: "queue_ok ?q2 (pending now es)"
  proof -
    have "timers ?q2 y = timers ?q1 y" if "(k, n, y) \<in> set (pending now es)" for k n y
    proof -
      have "y \<in> timer_of ` set (pending now es)" using that by force
      then have "y \<notin> set ?tas" using expired_timers(3) [OF q0, of now] by blast
      then show ?thesis by simp
    qed
    then have "\<exists>tm. timers ?q2 y = Some tm \<and> expire tm = k \<and> attach tm = n" if "(k, n, y) \<in> set (pending now es)" for k n y
      using p(2) that unfolding queue_ok_def by fastforce
    then show ?thesis using p(2) unfolding queue_ok_def by auto
  qed
  have "\<forall>e \<in> set (pending now es). 0 < fst e \<and> fst e < 2 ^ 63" using assms(7) by (auto dest: set_dropWhileD)
  from HandleRead_rearm [OF assms(2) tick q2 assms(3) this] show ?thesis by auto
qed

theorem HandleRead_rearms_witness:
  "\<exists>q'. HandleRead (\<lambda>_. 0) (\<lambda>c. Some) 8 (demo [1100, 1100]) = Some q' \<and> armed q' = Some (0, 1150)"
  using HandleRead_rearms [OF demo_ok _ settime_always quiet_Some, of "[1100, 1100]" 1100 1100 "[]" 100]
  by (auto simp: demo_def demo_timer_def culong_id armed_ok_def TransTicks_def)

text \<open>Cancelling a timer that has already been cancelled is undefined: \<^verbatim>\<open>cancelTimer\<close> deletes the
  timer but leaves its entry in \<^verbatim>\<open>_ref\<close>, and the second call reads the deleted timer.\<close>

theorem cancel_twice_undefined:
  assumes "cancelTimer q i = Some (True, q')"
  shows "cancelTimer q' i = None"
  using assms by (auto simp: cancelTimer_def Let_def split: option.splits if_splits Option.bind_splits)

theorem cancel_twice_undefined_witness:
  "(\<exists>q'. cancelTimer (demo []) 1 = Some (True, q') \<and> cancelTimer q' 1 = None)"
proof -
  have "map_option fst (cancelTimer (demo []) 1) = Some True" by code_simp
  then obtain q' where "cancelTimer (demo []) 1 = Some (True, q')" by auto
  then show ?thesis using cancel_twice_undefined by blast
qed

definition three_timers :: "string TimerQueue option" where
  "three_timers = do {
     (i1, q) \<leftarrow> AddTimer (\<lambda>_. 0) (new_TimerQueue 1 blank_node 0 [0, 0, 0] [(2, blank_node), (3, blank_node), (4, blank_node)])
       100 20 1 ''a'';
     (i2, q) \<leftarrow> AddTimer (\<lambda>_. 0) q 101 10 1 ''b'';
     (i3, q) \<leftarrow> AddTimer (\<lambda>_. 0) q 102 30 1 ''c'';
     Some q
   }"

text \<open>Cancelling one timer can make another one uncancellable: when the tree node of a cancelled timer has
  two children, the deletion moves the entry of its successor into that node and frees the
  successor's node, but the \<^verbatim>\<open>attach\<close> pointer of the successor's timer still names the freed node.
  With timers due at 20, 10 and 30, cancelling the first leaves both others scheduled,
  and then cancelling the third is undefined.\<close>

theorem cancel_leaves_dangling_node:
  "three_timers \<bind> (\<lambda>q. map_option fst (cancelTimer q 3)) = Some True \<and>
   three_timers \<bind> (\<lambda>q. map_option fst (cancelTimer q 1)) = Some True \<and>
   three_timers \<bind> (\<lambda>q. cancelTimer q 1 \<bind> (\<lambda>r. cancelTimer (snd r) 3)) = None"
  by code_simp

end
