(* ===== verification/C_Strings.thy ===== *)
theory C_Strings
  imports Yamq_Prelude
begin

text \<open>
  What the sources use of the C library's formatted output: the decimal conversions \<^verbatim>\<open>%d\<close>,
  \<^verbatim>\<open>%u\<close>, \<^verbatim>\<open>%zd\<close> (\<open>show_int\<close>), the zero-padded \<^verbatim>\<open>%0wd\<close> (\<open>show_padded\<close>) and
  \<^verbatim>\<open>snprintf\<close> into an array (\<open>snprintf_at\<close>), with a reader for decimal numerals
  (\<open>read_int\<close>) and the lemmas on numerals the logging and HTTP theories share.
\<close>

section \<open>Decimal numerals\<close>

definition digit_char :: "nat \<Rightarrow> char" where
  "digit_char d = ''0123456789'' ! d"

fun show_nat :: "nat \<Rightarrow> string" where
  "show_nat n = (if n < 10 then [digit_char n] else show_nat (n div 10) @ [digit_char (n mod 10)])"

declare show_nat.simps [simp del]

definition show_int :: "int \<Rightarrow> string" where
  "show_int z = (if z < 0 then CHR ''-'' # show_nat (nat (- z)) else show_nat (nat z))"

text \<open>\<^verbatim>\<open>%0wd\<close>: zeros between the sign and the digits up to the field width.\<close>

definition show_padded :: "nat \<Rightarrow> int \<Rightarrow> string" where
  "show_padded w z =
     (let sign = (if z < 0 then ''-'' else ''''); ds = show_nat (nat \<bar>z\<bar>)
      in sign @ replicate (w - length sign - length ds) (CHR ''0'') @ ds)"

definition digit_value :: "char \<Rightarrow> nat" where
  "digit_value c = of_char c - 48"

definition is_digit :: "char \<Rightarrow> bool" where
  "is_digit c \<longleftrightarrow> 48 \<le> (of_char c :: nat) \<and> (of_char c :: nat) \<le> 57"

definition read_nat :: "string \<Rightarrow> nat" where
  "read_nat s = fold (\<lambda>c n. 10 * n + digit_value c) s 0"

definition read_int :: "string \<Rightarrow> int" where
  "read_int s = (case s of [] \<Rightarrow> 0
     | c # cs \<Rightarrow> if c = CHR ''-'' then - int (read_nat cs) else int (read_nat s))"

section \<open>Formatted output\<close>

text \<open>\<^verbatim>\<open>snprintf(arr + pos, n, ...)\<close> for the formatted text \<open>txt\<close>: at most \<open>n - 1\<close> characters
  and a null character are stored, and the length of the whole text is returned.\<close>

definition snprintf_at :: "bytes \<Rightarrow> int \<Rightarrow> nat \<Rightarrow> string \<Rightarrow> (int \<times> bytes) option" where
  "snprintf_at arr pos n txt =
     (if n = 0 then Some (int (length txt), arr)
      else do {
        v \<leftarrow> write_at arr pos (take (n - 1) txt @ [CHR 0x00]);
        Some (int (length txt), v)
      })"

section \<open>Lemmas\<close>

lemma digit_char_inj: "d < 10 \<Longrightarrow> digit_value (digit_char d) = d" "d < 10 \<Longrightarrow> is_digit (digit_char d)"
  by (auto simp: digit_value_def digit_char_def is_digit_def eval_nat_numeral less_Suc_eq)

lemma not_digit_minus: "\<not> is_digit (CHR ''-'')"
  by (simp add: is_digit_def)

lemma show_nat_not_Nil [simp]: "show_nat n \<noteq> []"
  by (subst show_nat.simps) simp

lemma show_nat_digits: "c \<in> set (show_nat n) \<Longrightarrow> is_digit c"
  by (induction n rule: show_nat.induct) (subst (asm) (2) show_nat.simps, auto simp: digit_char_inj split: if_splits)

lemma show_nat_no_leading_zero: "0 < n \<Longrightarrow> digit_value (hd (show_nat n)) \<noteq> 0"
proof (induction n rule: show_nat.induct)
  case (1 n)
  then show ?case by (subst show_nat.simps) (auto simp: digit_char_inj)
qed

lemma read_nat_snoc [simp]: "read_nat (s @ [c]) = 10 * read_nat s + digit_value c"
  by (simp add: read_nat_def)

lemma read_show_nat [simp]: "read_nat (show_nat n) = n"
proof (induction n rule: show_nat.induct)
  case (1 n)
  then show ?case by (subst show_nat.simps) (auto simp: digit_char_inj, simp add: read_nat_def digit_char_inj)
qed

lemma read_int_nat: "s \<noteq> [] \<Longrightarrow> hd s \<noteq> CHR ''-'' \<Longrightarrow> read_int s = int (read_nat s)"
  by (cases s) (auto simp: read_int_def)

lemma hd_show_nat: "is_digit (hd (show_nat n))"
  by (rule show_nat_digits) (rule hd_in_set [OF show_nat_not_Nil])

lemma read_show_int [simp]: "read_int (show_int z) = z"
proof (cases "z < 0")
  case True
  then show ?thesis by (simp add: show_int_def read_int_def)
next
  case False
  have "hd (show_nat (nat z)) \<noteq> CHR ''-''" using hd_show_nat not_digit_minus by metis
  then show ?thesis using False by (simp add: show_int_def read_int_nat)
qed

lemma show_int_inj [simp]: "show_int a = show_int b \<longleftrightarrow> a = b"
  by (metis read_show_int)

lemma length_show_nat: "n < 10 ^ k \<Longrightarrow> 0 < k \<Longrightarrow> length (show_nat n) \<le> k"
proof (induction n arbitrary: k rule: show_nat.induct)
  case (1 n)
  show ?case
  proof (cases "n < 10")
    case True
    then show ?thesis using 1(3) by (subst show_nat.simps) simp
  next
    case False
    then have k: "1 < k" using 1(2,3) by (cases "k = 1") auto
    have "n div 10 < 10 ^ (k - 1)" using 1(2) k by (cases k) (simp_all add: div_less_iff_less_mult mult.commute)
    from 1(1) [OF False this] k have "length (show_nat (n div 10)) \<le> k - 1" by simp
    then show ?thesis using False k by (subst show_nat.simps) simp
  qed
qed

lemma length_show_int: "\<bar>z\<bar> < 10 ^ k \<Longrightarrow> 0 < k \<Longrightarrow> length (show_int z) \<le> Suc k"
proof -
  assume z: "\<bar>z\<bar> < 10 ^ k" "0 < k"
  then have "nat \<bar>z\<bar> < 10 ^ k" by (simp add: nat_less_iff)
  from length_show_nat [OF this z(2)] show ?thesis by (auto simp: show_int_def)
qed

lemma length_show_padded: "length (show_nat (nat \<bar>z\<bar>)) \<le> w \<Longrightarrow> 0 \<le> z \<Longrightarrow> length (show_padded w z) = w"
  by (simp add: show_padded_def Let_def)

lemma read_nat_zeros [simp]: "read_nat (replicate k (CHR ''0'') @ s) = read_nat s"
  by (induction k) (simp_all add: read_nat_def digit_value_def)

lemma snprintf_at_Some:
  "0 < n \<Longrightarrow> 0 \<le> pos \<Longrightarrow> pos + int (length (take (n - 1) txt)) < int (length arr) \<Longrightarrow>
   snprintf_at arr pos n txt = Some (int (length txt),
     take (nat pos) arr @ take (n - 1) txt @ [CHR 0x00] @ drop (nat pos + length (take (n - 1) txt) + 1) arr)"
  by (simp add: snprintf_at_def write_at_Some)

end
