(* ===== verification/Evd_Timers.thy ===== *)
theory Evd_Timers
  imports Timer_Queue C_Strings
begin

text \<open>
  The timer interface of the event dispatcher (\<^verbatim>\<open>EventDispatcher::AddTimer\<close>, \<^verbatim>\<open>CancelTimer\<close>) on top of the timer queue,
  called on the thread of the loop, and the clock functions for people (\<^verbatim>\<open>Clock::CurrentTimeMillis\<close>, \<^verbatim>\<open>CurrentTimeString\<close> in
  \<^verbatim>\<open>src/rpc/timer/timer_utilties.cpp\<close>). The theory shows what the conversion from milliseconds does to a delay,
  with the case of a negative one, and that a time is always printed completely.
\<close>

section \<open>Operations\<close>

text \<open>The product of a signed and an unsigned 64-bit number is unsigned; the repetitions are converted likewise.\<close>

definition evd_AddTimer :: "(int \<times> int \<Rightarrow> int) \<Rightarrow> 'c TimerQueue \<Rightarrow> ptr \<Rightarrow> int \<Rightarrow> int \<Rightarrow> 'c \<Rightarrow> (int \<times> 'c TimerQueue) option" where
  "evd_AddTimer settime q ta time_ms iv c = AddTimer settime q ta (culong (time_ms * 1000000)) (culong iv) c"

definition evd_CancelTimer :: "'c TimerQueue \<Rightarrow> int \<Rightarrow> 'c TimerQueue option" where
  "evd_CancelTimer q i = map_option snd (cancelTimer q i)"

text \<open>Division of C++ rounds toward zero; \<open>now\<close> is the system clock in nanoseconds.\<close>

definition cdiv :: "int \<Rightarrow> int \<Rightarrow> int" where
  "cdiv a b = sgn a * sgn b * (\<bar>a\<bar> div \<bar>b\<bar>)"

definition cmod :: "int \<Rightarrow> int \<Rightarrow> int" where
  "cmod a b = a - cdiv a b * b"

definition CurrentTimeMillis :: "int \<Rightarrow> int" where
  "CurrentTimeMillis now = cdiv now 1000000"

record tm =
  tm_year :: int
  tm_mon :: int
  tm_mday :: int
  tm_hour :: int
  tm_min :: int
  tm_sec :: int

definition time_fields :: "tm \<Rightarrow> int \<Rightarrow> string" where
  "time_fields t ms =
     show_int (1900 + tm_year t) @ ''-'' @ show_padded 2 (tm_mon t + 1) @ ''-'' @ show_padded 2 (tm_mday t) @ '' '' @
     show_padded 2 (tm_hour t) @ '':'' @ show_padded 2 (tm_min t) @ '':'' @ show_padded 2 (tm_sec t) @ ''.'' @ show_padded 3 ms"

definition CurrentTimeString :: "(int \<Rightarrow> tm) \<Rightarrow> int \<Rightarrow> string option" where
  "CurrentTimeString localtime timepoint =
     (case snprintf_at (replicate 100 (CHR 0x00)) 0 100 (time_fields (localtime (cdiv timepoint 1000)) (cint (cmod timepoint 1000))) of
        None \<Rightarrow> None | Some (n, buffer) \<Rightarrow> read_at buffer 0 n)"

section \<open>Lemmas\<close>

definition int32 :: "int \<Rightarrow> bool" where
  "int32 z \<longleftrightarrow> - (2 ^ 31) \<le> z \<and> z < 2 ^ 31"

definition tm_ok :: "tm \<Rightarrow> bool" where
  "tm_ok t \<longleftrightarrow> int32 (1900 + tm_year t) \<and> int32 (tm_mon t + 1) \<and> int32 (tm_mday t) \<and> int32 (tm_hour t) \<and> int32 (tm_min t) \<and> int32 (tm_sec t)"

lemma length_show_int32: "int32 z \<Longrightarrow> length (show_int z) \<le> 11"
  using length_show_int [of z 10] by (auto simp: int32_def abs_if split: if_splits)

lemma length_show_padded32: "int32 z \<Longrightarrow> w \<le> 11 \<Longrightarrow> length (show_padded w z) \<le> 11"
proof -
  assume z: "int32 z" and w: "w \<le> 11"
  then have "nat \<bar>z\<bar> < 10 ^ 10" by (auto simp: int32_def)
  from length_show_nat [OF this] have "length (show_nat (nat \<bar>z\<bar>)) \<le> 10" by simp
  then show ?thesis using w by (auto simp: show_padded_def Let_def)
qed

lemma time_fields_fit:
  assumes "tm_ok t" and "int32 ms"
  shows "length (time_fields t ms) \<le> 83"
proof -
  note t = assms(1) [unfolded tm_ok_def]
  have "length (show_int (1900 + tm_year t)) \<le> 11" using t length_show_int32 by blast
  moreover have "length (show_padded 2 (tm_mon t + 1)) \<le> 11" "length (show_padded 2 (tm_mday t)) \<le> 11" "length (show_padded 2 (tm_hour t)) \<le> 11"
    "length (show_padded 2 (tm_min t)) \<le> 11" "length (show_padded 2 (tm_sec t)) \<le> 11" "length (show_padded 3 ms) \<le> 11"
    using t assms(2) by (simp_all add: length_show_padded32)
  ultimately show ?thesis by (simp add: time_fields_def)
qed

lemma cint_int32: "int32 (cint z)"
  using signed_take_bit_int_greater_eq_minus_exp [of 31 z] signed_take_bit_int_less_exp [of 31 z] by (simp add: cint_def int32_def)

lemma culong_negative: "- (2 ^ 63) \<le> x \<Longrightarrow> x < 0 \<Longrightarrow> culong x = x + 2 ^ 64"
proof -
  assume x: "- (2 ^ 63) \<le> x" "x < 0"
  then have "(x + 2 ^ 64) mod 2 ^ 64 = x + 2 ^ 64" by (intro mod_pos_pos_trivial) auto
  then show ?thesis by (simp add: culong_def take_bit_eq_mod)
qed

text \<open>The earliest timer of the tree, when it is not due, keeps the others from being looked at.\<close>

lemma PerTick_stuck:
  assumes "tree_repr (tree q) ((k, n, ta) # es)" and "timers q ta = Some tm" and "nows q = t # ts" and "\<not> expire tm < culong (t - own_epoch q)"
  shows "PerTick settime call q = Some (q\<lparr>nows := ts\<rparr>)"
proof -
  from rb.least_Cons [OF assms(1)] have m: "rbtree_min (tree q) = Some n" "n \<noteq> nil (tree q)" "fld val (tree q) n = Some ta" by auto
  have "pop_expired (culong (t - own_epoch q)) (q\<lparr>nows := ts\<rparr>) [] = Some (q\<lparr>nows := ts\<rparr>, [])"
    by (subst pop_expired.simps) (use m assms(2,4) in simp)
  then show ?thesis using assms(3) by (simp add: PerTick_def)
qed

section \<open>Properties\<close>

text \<open>A time is printed completely: whatever \<^verbatim>\<open>localtime\<close> puts into its fields of type \<^verbatim>\<open>int\<close>, the text
  fits into the buffer of 100 characters, and the result is exactly the fields.\<close>

theorem CurrentTimeString_exact:
  assumes "tm_ok (localtime (cdiv timepoint 1000))"
  shows "CurrentTimeString localtime timepoint =
    Some (time_fields (localtime (cdiv timepoint 1000)) (cint (cmod timepoint 1000)))"
proof -
  let ?t = "time_fields (localtime (cdiv timepoint 1000)) (cint (cmod timepoint 1000))"
  have l: "length ?t \<le> 83" by (rule time_fields_fit [OF assms cint_int32])
  then have "take 99 ?t = ?t" by simp
  then show ?thesis using l by (simp add: CurrentTimeString_def snprintf_at_Some read_at_def)
qed

theorem CurrentTimeString_exact_witness:
  "CurrentTimeString (\<lambda>s. if s = 1500000000 then \<lparr>tm_year = 117, tm_mon = 6, tm_mday = 14, tm_hour = 2, tm_min = 40, tm_sec = 0\<rparr>
     else \<lparr>tm_year = 0, tm_mon = 0, tm_mday = 1, tm_hour = 0, tm_min = 0, tm_sec = 0\<rparr>) 1500000000007 = Some ''2017-07-14 02:40:00.007''"
proof -
  let ?lt = "\<lambda>s :: int. if s = 1500000000 then \<lparr>tm_year = 117, tm_mon = 6, tm_mday = 14, tm_hour = 2, tm_min = 40, tm_sec = 0\<rparr>
     else \<lparr>tm_year = 0, tm_mon = 0, tm_mday = 1, tm_hour = 0, tm_min = 0, tm_sec = 0\<rparr>"
  have c: "cdiv 1500000000007 1000 = 1500000000" "cint (cmod 1500000000007 1000) = 7"
    by (simp_all add: cdiv_def cmod_def cint_def signed_take_bit_int_eq_self)
  have "time_fields (?lt 1500000000) 7 = ''2017-07-14 02:40:00.007''"
    by code_simp
  moreover have "tm_ok (?lt (cdiv 1500000000007 1000))" by (simp add: c tm_ok_def int32_def)
  note CurrentTimeString_exact [of ?lt 1500000000007, OF this]
  ultimately show ?thesis by (simp only: c)
qed

text \<open>A negative delay stops the clock. A timer added with a delay that reaches back before the start of the queue gets an
  expiry beyond the range of a signed 64-bit number, so that it is the first entry of the tree and never due: no later tick
  runs any timer's callback, however many are due behind it.\<close>

theorem negative_delay_blocks_timers:
  assumes "tree_repr (tree q) es" and "\<forall>e \<in> set es. 0 \<le> fst e" and "env_ok 1 q es" and "settime_ok settime"
    and "slot q < int_max" and "\<forall>i > slot q. ref q i = None" and "0 \<le> slot q" and "ta \<notin> dom (timers q)"
    and "- (2 ^ 63) \<le> culong (hd (nows q) - own_epoch q) + time_ms * 1000000" and "culong (hd (nows q) - own_epoch q) + time_ms * 1000000 < 0"
  shows "\<exists>i q'. evd_AddTimer settime q ta time_ms iv c = Some (i, q') \<and> fired q' = fired q \<and>
    (\<forall>call t ts. culong (t - own_epoch q) < 2 ^ 63 \<longrightarrow>
       PerTick settime call (q'\<lparr>nows := t # ts\<rparr>) = Some (q'\<lparr>nows := ts\<rparr>))"
proof -
  let ?now = "culong (hd (nows q) - own_epoch q)" and ?d = "culong (time_ms * 1000000)" and ?i = "slot q + 1"
  let ?t = "\<lparr>index = - 1, tm_id = ?i, expire = 0, time = ?d, interval = clong (culong iv), elapse = clong (culong iv), cb = c, attach = NULL\<rparr>"
  let ?q = "q\<lparr>slot := ?i, ref := (ref q)(?i \<mapsto> ta), timers := (timers q)(ta \<mapsto> ?t)\<rparr>"
  have "next_free (ref q) ?i = Some ?i" using assms(5-7) by (subst next_free.simps) (simp add: Let_def)
  then have reg: "AddTimer_register q ta ?d (culong iv) c = Some (?i, ?q)"
    by (simp add: AddTimer_register_def nextId_def Let_def)
  let ?x = "?now + time_ms * 1000000"
  have due: "due ?q ?t = culong ?x" by (simp add: due_def culong_def take_bit_eq_mod mod_simps)
  have k: "clong (culong ?x) = ?x"
    unfolding clong_def culong_def signed_take_bit_take_bit using assms(9,10) by (simp add: culong_def signed_take_bit_int_eq_self)
  have e: "2 ^ 63 \<le> culong ?x"
  proof -
    have "culong ?x = ?x + 2 ^ 64" using assms(9,10) by (rule culong_negative)
    then show ?thesis using assms(9) by simp
  qed
  have r: "tree_repr (tree ?q) es" "env_ok (Suc 0) ?q es" "timers ?q ta = Some ?t" using assms(1,3) by (simp_all add: env_ok_def)
  have new: "clong (due ?q ?t) \<notin> fst ` set es" using assms(2,10) by (force simp: due k)
  have "filter (\<lambda>e. fst e < ?x) es = []" using assms(2,10) by (force simp: filter_empty_conv)
  with addTimer_ok [OF r(1,3,2) assms(4)] new obtain q' n es' where
    q': "addTimer settime ?q ta = Some q'" "tree_repr (tree q') ((?x, n, ta) # es')"
    "timers q' ta = Some (?t\<lparr>expire := culong ?x, attach := n\<rparr>)" "own_epoch q' = own_epoch q" "fired q' = fired q"
    by (fastforce simp: due k)
  have "PerTick settime call (q'\<lparr>nows := t # ts\<rparr>) = Some (q'\<lparr>nows := ts\<rparr>)" if "culong (t - own_epoch q) < 2 ^ 63" for call t ts
    using PerTick_stuck [of "q'\<lparr>nows := t # ts\<rparr>" ?x n ta es' _ t ts settime call] q' e that by simp
  then show ?thesis using reg q' by (simp add: evd_AddTimer_def AddTimer_def)
qed

theorem negative_delay_blocks_timers_witness:
  "\<exists>i q'. evd_AddTimer (\<lambda>_. 0) (demo [1100]) 102 (- 5) 1 ''late'' = Some (i, q') \<and>
     PerTick (\<lambda>_. 0) (\<lambda>c. Some) (q'\<lparr>nows := [5000]\<rparr>) = Some (q'\<lparr>nows := []\<rparr>)"
proof -
  have "tree_repr (tree (demo [1100])) [(150, 2, 100)]" using demo_ok by (simp add: queue_ok_def)
  moreover have c: "culong (hd (nows (demo [1100])) - own_epoch (demo [1100])) = 100" "own_epoch (demo [1100]) = 1000"
    by (simp_all add: demo_def culong_id)
  moreover have "culong (5000 - 1000) = 4000" by (simp add: culong_id)
  ultimately show ?thesis
    using negative_delay_blocks_timers [OF _ _ demo_env settime_always, of "[1100]" 102 "- 5" 1 "''late''"]
    by (fastforce simp: demo_def)
qed

end
