(* ===== verification/Io_Buffer.thy ===== *)
theory Io_Buffer
  imports Yamq_Prelude
begin

text \<open>
  The application-level I/O buffer (\<^verbatim>\<open>src/rpc/io_buffer.h\<close>, \<^verbatim>\<open>src/rpc/io_buffer.cpp\<close>):
  a byte vector with a reader and a writer index, the readable bytes between them, and
  eight bytes of head room in front. The state is the record \<open>IoBuffer\<close>; its operations
  follow the order of the source. The theory proves the type invariant \<open>buf_ok\<close>, the
  behaviour of every operation as a byte queue (\<open>content\<close>), the locale \<open>byte_queue\<close> that
  states this contract and its interpretation on the buffer.
\<close>

section \<open>State\<close>

record IoBuffer =
  buf :: bytes
  reader_index :: int
  writer_index :: int

definition kInitialSize :: nat where "kInitialSize = 1024"
definition kCheapPrepend :: int where "kCheapPrepend = 8"
definition kCRLF :: bytes where "kCRLF = [CR, LF]"

definition new_IoBuffer :: "nat \<Rightarrow> IoBuffer" where
  "new_IoBuffer initial_size =
     \<lparr>buf = replicate (initial_size + nat kCheapPrepend) (CHR 0x00),
      reader_index = kCheapPrepend, writer_index = kCheapPrepend\<rparr>"

section \<open>Operations\<close>

text \<open>The size is a \<^verbatim>\<open>size_t\<close> and the result an \<^verbatim>\<open>int\<close>: the difference is taken modulo
  \<open>2\<close> to the power \<open>64\<close> and then converted, which is the conversion of the exact difference.\<close>

definition WritableBytes :: "IoBuffer \<Rightarrow> int" where
  "WritableBytes b = cint (int (length (buf b)) - writer_index b)"

definition PrependBytes :: "IoBuffer \<Rightarrow> int" where
  "PrependBytes b = reader_index b"

definition ReadableBytes :: "IoBuffer \<Rightarrow> int" where
  "ReadableBytes b = writer_index b - reader_index b"

definition wseek :: "IoBuffer \<Rightarrow> int \<Rightarrow> IoBuffer" where
  "wseek b offset = b\<lparr>writer_index := writer_index b + offset\<rparr>"

text \<open>\<^verbatim>\<open>std::copy\<close> is undefined when the destination lies inside the source range, which is
  what the assertion in \<^verbatim>\<open>compact\<close> is there to exclude.\<close>

definition compact :: "IoBuffer \<Rightarrow> IoBuffer option" where
  "compact b =
     (if reader_index b \<le> kCheapPrepend \<and> kCheapPrepend < writer_index b then None
      else do {
        d \<leftarrow> read_at (buf b) (reader_index b) (ReadableBytes b);
        v \<leftarrow> write_at (buf b) kCheapPrepend d;
        Some \<lparr>buf = v, reader_index = kCheapPrepend,
              writer_index = kCheapPrepend + ReadableBytes b\<rparr>
      })"

definition makeSpace :: "IoBuffer \<Rightarrow> nat \<Rightarrow> IoBuffer option" where
  "makeSpace b n =
     (if WritableBytes b + PrependBytes b < cint (int n) + kCheapPrepend
      then Some (b\<lparr>buf := vec_resize (nat (writer_index b + int n)) (buf b)\<rparr>)
      else compact b)"

definition Put :: "IoBuffer \<Rightarrow> bytes \<Rightarrow> IoBuffer option" where
  "Put b data =
     do {
       b1 \<leftarrow> (if WritableBytes b < cint (int (length data))
               then makeSpace b (length data) else Some b);
       v \<leftarrow> write_at (buf b1) (writer_index b1) data;
       Some (wseek (b1\<lparr>buf := v\<rparr>) (cint (int (length data))))
     }"

definition Append :: "IoBuffer \<Rightarrow> bytes \<Rightarrow> IoBuffer option" where
  "Append b data = Put b data"

definition Prepend :: "IoBuffer \<Rightarrow> bytes \<Rightarrow> IoBuffer option" where
  "Prepend b data =
     (let r = reader_index b - int (length data) in
      do {
        v \<leftarrow> write_at (buf b) r data;
        Some (b\<lparr>buf := v, reader_index := r\<rparr>)
      })"

definition Seek :: "IoBuffer \<Rightarrow> int \<Rightarrow> IoBuffer" where
  "Seek b offset =
     (if offset < ReadableBytes b then b\<lparr>reader_index := reader_index b + offset\<rparr>
      else b\<lparr>reader_index := kCheapPrepend, writer_index := kCheapPrepend\<rparr>)"

text \<open>\<open>Get\<close> returns the bytes copied to the caller; the source returns their number.\<close>

definition Get :: "IoBuffer \<Rightarrow> nat \<Rightarrow> (bytes \<times> IoBuffer) option" where
  "Get b sz =
     (if ReadableBytes b \<le> 0 then Some ([], b)
      else let actual = (if int sz < ReadableBytes b then int sz else ReadableBytes b) in
        do {
          d \<leftarrow> read_at (buf b) (reader_index b) actual;
          Some (d, Seek b actual)
        })"

text \<open>\<^verbatim>\<open>std::search\<close> for CR LF: the offset of the first occurrence in the range.\<close>

fun search_crlf :: "bytes \<Rightarrow> nat option" where
  "search_crlf (a # b # xs) =
     (if a = CR \<and> b = LF then Some 0 else map_option Suc (search_crlf (b # xs)))"
| "search_crlf _ = None"

text \<open>The search range of \<^verbatim>\<open>findCRLF\<close> starts at the reader index and is \<open>writer_index\<close>
  bytes long, so it may pass the end of the vector. \<open>Some None\<close> is the null result; a
  scan that leaves the vector before it finds a match is undefined.\<close>

definition findCRLF :: "IoBuffer \<Rightarrow> int option option" where
  "findCRLF b =
     (case search_crlf (take (nat (writer_index b)) (drop (nat (reader_index b)) (buf b))) of
        Some i \<Rightarrow> Some (Some (int i))
      | None \<Rightarrow>
          (if reader_index b + writer_index b \<le> int (length (buf b)) then Some None else None))"

text \<open>Pointers into the readable bytes are offsets from \<^verbatim>\<open>Peek()\<close>.\<close>

definition GetUntil :: "IoBuffer \<Rightarrow> int \<Rightarrow> IoBuffer" where
  "GetUntil b end_off = Seek b end_off"

text \<open>The outcome of \<^verbatim>\<open>readv\<close>: an error, or the bytes it placed, first into the writable
  tail and then into the extra buffer of 65536 bytes.\<close>

datatype readv_result = Readv_error | Readv_data bytes

definition extrabuf_size :: int where "extrabuf_size = 65536"

definition readv_capacity :: "IoBuffer \<Rightarrow> int" where
  "readv_capacity b =
     (if WritableBytes b < extrabuf_size then WritableBytes b + extrabuf_size
      else WritableBytes b)"

definition Retrieve :: "IoBuffer \<Rightarrow> readv_result \<Rightarrow> (nat \<times> IoBuffer) or_abort option" where
  "Retrieve b r =
     (case r of
        Readv_error \<Rightarrow> Some Aborted
      | Readv_data d \<Rightarrow>
          (let writeable = WritableBytes b in
           do {
             v \<leftarrow> write_at (buf b) (writer_index b) (take (nat writeable) d);
             (if int (length d) \<le> writeable
              then Some (Done (length d, wseek (b\<lparr>buf := v\<rparr>) (int (length d))))
              else do {
                b2 \<leftarrow> Put (wseek (b\<lparr>buf := v\<rparr>) writeable) (drop (nat writeable) d);
                Some (Done (length d, b2))
              })
           }))"

definition Swap :: "IoBuffer \<Rightarrow> IoBuffer \<Rightarrow> IoBuffer \<times> IoBuffer" where
  "Swap b b' = (b', b)"

definition Shrink :: "IoBuffer \<Rightarrow> int \<Rightarrow> IoBuffer option" where
  "Shrink b reserve =
     (let fresh = new_IoBuffer kInitialSize; res = reserve + ReadableBytes b in
      do {
        b1 \<leftarrow> (if WritableBytes fresh < res then makeSpace fresh (nat res) else Some fresh);
        d \<leftarrow> read_at (buf b) (reader_index b) (ReadableBytes b);
        b2 \<leftarrow> Append b1 d;
        Some (fst (Swap b b2))
      })"

definition Reset :: "IoBuffer \<Rightarrow> IoBuffer" where
  "Reset b = fst (Swap b (new_IoBuffer kInitialSize))"

text \<open>The four bytes of a 32-bit word in memory, most significant first and in host order.
  \<^verbatim>\<open>be32toh\<close> and \<^verbatim>\<open>htobe32\<close> swap the bytes on a little-endian host and do nothing on a
  big-endian one.\<close>

definition be_bytes :: "32 word \<Rightarrow> bytes" where
  "be_bytes w = map (\<lambda>i. char_of (unat (drop_bit (8 * i) w) mod 256)) [3, 2, 1, 0]"

definition be_word :: "bytes \<Rightarrow> 32 word" where
  "be_word bs = fold (\<lambda>c w. w * 256 + of_nat (of_char c)) bs 0"

definition host_bytes :: "bool \<Rightarrow> 32 word \<Rightarrow> bytes" where
  "host_bytes little w = (if little then rev (be_bytes w) else be_bytes w)"

definition host_word :: "bool \<Rightarrow> bytes \<Rightarrow> 32 word" where
  "host_word little bs = (if little then be_word (rev bs) else be_word bs)"

definition bswap32 :: "bool \<Rightarrow> 32 word \<Rightarrow> 32 word" where
  "bswap32 little w = (if little then be_word (rev (be_bytes w)) else w)"

definition PutInt32 :: "bool \<Rightarrow> IoBuffer \<Rightarrow> 32 word \<Rightarrow> (int \<times> IoBuffer) option" where
  "PutInt32 little b val =
     do {
       b1 \<leftarrow> Put b (host_bytes little (bswap32 little val));
       Some (4, b1)
     }"

text \<open>With fewer than four readable bytes part of \<^verbatim>\<open>val\<close> is read uninitialised.\<close>

definition GetInt32 :: "bool \<Rightarrow> IoBuffer \<Rightarrow> (32 word \<times> IoBuffer) option" where
  "GetInt32 little b =
     do {
       (d, b1) \<leftarrow> Get b 4;
       (if length d = 4 then Some (bswap32 little (host_word little d), b1) else None)
     }"

definition PutString :: "IoBuffer \<Rightarrow> string \<Rightarrow> (int \<times> IoBuffer) option" where
  "PutString b str = do { b1 \<leftarrow> Put b str; Some (cint (int (length str)), b1) }"

definition GetAsString :: "IoBuffer \<Rightarrow> int \<Rightarrow> (string \<times> IoBuffer) option" where
  "GetAsString b n = do { d \<leftarrow> read_at (buf b) (reader_index b) n; Some (d, Seek b n) }"

definition GetAllAsString :: "IoBuffer \<Rightarrow> (string \<times> IoBuffer) option" where
  "GetAllAsString b = GetAsString b (ReadableBytes b)"

section \<open>Sequences of operations\<close>

text \<open>Clients call the buffer many times in a row: a list of writes, or a mix of writes and
  reads (the result collects the bytes read).\<close>

primrec put_all :: "('b \<Rightarrow> bytes \<Rightarrow> 'b option) \<Rightarrow> 'b \<Rightarrow> bytes list \<Rightarrow> 'b option" where
  "put_all put b [] = Some b"
| "put_all put b (d # ds) = do { b1 \<leftarrow> put b d; put_all put b1 ds }"

datatype queue_op = Write bytes | Read nat

primrec written :: "queue_op \<Rightarrow> bytes" where
  "written (Write d) = d"
| "written (Read n) = []"

fun run_ops :: "('b \<Rightarrow> bytes \<Rightarrow> 'b option) \<Rightarrow> ('b \<Rightarrow> nat \<Rightarrow> (bytes \<times> 'b) option) \<Rightarrow>
    'b \<Rightarrow> queue_op list \<Rightarrow> (bytes \<times> 'b) option" where
  "run_ops put get b [] = Some ([], b)"
| "run_ops put get b (Write d # ops) = do { b1 \<leftarrow> put b d; run_ops put get b1 ops }"
| "run_ops put get b (Read n # ops) =
     do {
       (d, b1) \<leftarrow> get b n;
       (out, b2) \<leftarrow> run_ops put get b1 ops;
       Some (d @ out, b2)
     }"

section \<open>Invariant and abstraction\<close>

definition buf_ok :: "IoBuffer \<Rightarrow> bool" where
  "buf_ok b \<longleftrightarrow> 0 \<le> reader_index b \<and> reader_index b \<le> writer_index b \<and>
     kCheapPrepend \<le> writer_index b \<and> writer_index b \<le> int (length (buf b)) \<and>
     int (length (buf b)) \<le> int_max"

text \<open>The readable bytes.\<close>

definition content :: "IoBuffer \<Rightarrow> bytes" where
  "content b = take (nat (ReadableBytes b)) (drop (nat (reader_index b)) (buf b))"

text \<open>Room for \<open>n\<close> more bytes without leaving the range of \<^verbatim>\<open>int\<close>.\<close>

definition has_room :: "IoBuffer \<Rightarrow> nat \<Rightarrow> bool" where
  "has_room b n \<longleftrightarrow> int (length (buf b)) + int n + kCheapPrepend \<le> int_max"

lemmas buf_simps =
  kCheapPrepend_def WritableBytes_def PrependBytes_def ReadableBytes_def buf_ok_def content_def
  has_room_def wseek_def


section \<open>The invariant\<close>

lemma length_content: "buf_ok b \<Longrightarrow> int (length (content b)) = ReadableBytes b"
  by (auto simp: buf_simps)

lemma content_Nil_iff: "buf_ok b \<Longrightarrow> content b = [] \<longleftrightarrow> ReadableBytes b = 0"
  using length_content [of b] by (auto simp: buf_simps)

lemma ReadableBytes_nonneg: "buf_ok b \<Longrightarrow> 0 \<le> ReadableBytes b"
  by (simp add: buf_simps)

lemma WritableBytes_eq: "buf_ok b \<Longrightarrow> WritableBytes b = int (length (buf b)) - writer_index b"
  by (simp add: buf_simps cpp_arith)

lemma new_IoBuffer_ok:
  "int n + kCheapPrepend \<le> int_max \<Longrightarrow> buf_ok (new_IoBuffer n) \<and> content (new_IoBuffer n) = []"
  by (simp add: new_IoBuffer_def buf_simps)

lemma new_IoBuffer_room [simp]:
  "has_room (new_IoBuffer n) k \<longleftrightarrow> int n + int k + 16 \<le> int_max"
  by (simp add: new_IoBuffer_def has_room_def kCheapPrepend_def)

lemma new_IoBuffer_ok' [simp]: "int n + 8 \<le> int_max \<Longrightarrow> buf_ok (new_IoBuffer n)"
  using new_IoBuffer_ok [of n] by (simp add: kCheapPrepend_def)

lemma new_IoBuffer_content [simp]: "content (new_IoBuffer n) = []"
  by (simp add: new_IoBuffer_def content_def ReadableBytes_def)

lemma new_IoBuffer_sizes [simp]:
  "int n \<le> int_max \<Longrightarrow> WritableBytes (new_IoBuffer n) = int n"
  "ReadableBytes (new_IoBuffer n) = 0"
  by (simp_all add: new_IoBuffer_def WritableBytes_def ReadableBytes_def kCheapPrepend_def cpp_arith)

text \<open>What \<^verbatim>\<open>read_at\<close> finds between the indices is the content.\<close>

lemma read_content: "buf_ok b \<Longrightarrow> read_at (buf b) (reader_index b) (ReadableBytes b) = Some (content b)"
  by (simp add: buf_simps read_at_Some)

lemma read_prefix:
  "buf_ok b \<Longrightarrow> 0 \<le> n \<Longrightarrow> n \<le> ReadableBytes b \<Longrightarrow>
     read_at (buf b) (reader_index b) n = Some (take (nat n) (content b))"
  by (simp add: buf_simps read_at_Some min_absorb1 nat_mono)

lemma content_alt: "buf_ok b \<Longrightarrow> content b = drop (nat (reader_index b)) (take (nat (writer_index b)) (buf b))"
  by (auto simp: content_def ReadableBytes_def buf_ok_def drop_take nat_diff_distrib)

section \<open>Making space\<close>

text \<open>The assertion in \<^verbatim>\<open>compact\<close> ("Never happen") holds at its only call: the branch is
  taken only when the bytes before the reader exceed the head room.\<close>

lemma compact_guard:
  assumes "buf_ok b" and "has_room b n" and "WritableBytes b < cint (int n)"
    and "\<not> WritableBytes b + PrependBytes b < cint (int n) + kCheapPrepend"
  shows "kCheapPrepend < reader_index b"
  using assms by (simp add: PrependBytes_def)

lemma compact_ok:
  assumes "buf_ok b" and "kCheapPrepend < reader_index b"
  obtains b' where "compact b = Some b'" "buf_ok b'" "content b' = content b"
    "length (buf b') = length (buf b)" "reader_index b' = kCheapPrepend"
    "writer_index b' = kCheapPrepend + ReadableBytes b"
proof -
  let ?d = "content b"
  have d: "length ?d = nat (ReadableBytes b)"
    using length_content [OF assms(1)] by linarith
  have w: "write_at (buf b) kCheapPrepend ?d
      = Some (take 8 (buf b) @ ?d @ drop (8 + length ?d) (buf b))"
    using assms d by (intro trans [OF write_at_Some]) (auto simp: buf_simps)
  define b' where "b' = \<lparr>buf = take 8 (buf b) @ ?d @ drop (8 + length ?d) (buf b),
    reader_index = kCheapPrepend, writer_index = kCheapPrepend + ReadableBytes b\<rparr>"
  have c: "compact b = Some b'"
    using assms by (simp add: compact_def read_content w b'_def)
  have len: "length (buf b') = length (buf b)"
    using length_write_at [OF w] by (simp add: b'_def)
  have ok: "buf_ok b'"
    using assms len by (simp add: buf_ok_def b'_def ReadableBytes_def kCheapPrepend_def)
  have cont: "content b' = content b"
    using assms d unfolding content_def [of b'] by (simp add: b'_def ReadableBytes_def buf_ok_def kCheapPrepend_def)
  show thesis
    using c ok cont len by (rule that) (simp_all add: b'_def)
qed


lemma resize_ok:
  assumes "buf_ok b" and "has_room b n" and "WritableBytes b < int n"
  shows "buf_ok (b\<lparr>buf := vec_resize (nat (writer_index b + int n)) (buf b)\<rparr>)"
    and "content (b\<lparr>buf := vec_resize (nat (writer_index b + int n)) (buf b)\<rparr>) = content b"
proof -
  show ok: "buf_ok (b\<lparr>buf := vec_resize (nat (writer_index b + int n)) (buf b)\<rparr>)"
    using assms by (auto simp: buf_simps)
  have "take (nat (writer_index b)) (vec_resize (nat (writer_index b + int n)) (buf b))
      = take (nat (writer_index b)) (buf b)"
    using assms by (intro take_vec_resize) (auto simp: buf_simps)
  then show "content (b\<lparr>buf := vec_resize (nat (writer_index b + int n)) (buf b)\<rparr>) = content b"
    using content_alt [OF assms(1)] content_alt [OF ok] by simp
qed

text \<open>After \<^verbatim>\<open>makeSpace(n)\<close> the readable bytes are unchanged and \<open>n\<close> bytes are writable.\<close>

lemma makeSpace_ok:
  assumes "buf_ok b" and "has_room b n" and "WritableBytes b < int n"
  obtains b' where "makeSpace b n = Some b'" "buf_ok b'" "content b' = content b"
    "int n \<le> WritableBytes b'" "length (buf b') \<le> length (buf b) + n"
proof (cases "WritableBytes b + PrependBytes b < int n + kCheapPrepend")
  case True
  define b' where "b' = b\<lparr>buf := vec_resize (nat (writer_index b + int n)) (buf b)\<rparr>"
  have n: "cint (int n) = int n"
    using assms(2) by (intro cint_id) (simp_all add: has_room_def kCheapPrepend_def)
  have ok: "buf_ok b'" and c: "content b' = content b"
    unfolding b'_def using resize_ok [OF assms] by simp_all
  have "makeSpace b n = Some b'"
    using True by (simp add: makeSpace_def n b'_def)
  moreover have "int n \<le> WritableBytes b'"
    using WritableBytes_eq [OF ok] assms(1) by (simp add: b'_def buf_ok_def)
  moreover have "length (buf b') \<le> length (buf b) + n"
    using assms(1) by (simp add: b'_def buf_ok_def nat_le_iff)
  ultimately show thesis using ok c that by blast
next
  case False
  have n: "cint (int n) = int n"
    using assms(2) by (intro cint_id) (simp_all add: has_room_def kCheapPrepend_def)
  have g: "kCheapPrepend < reader_index b"
    using compact_guard [OF assms(1,2)] assms(3) False n by simp
  obtain b' where b': "compact b = Some b'" "buf_ok b'" "content b' = content b"
    "length (buf b') = length (buf b)" "reader_index b' = kCheapPrepend"
    "writer_index b' = kCheapPrepend + ReadableBytes b"
    using compact_ok [OF assms(1) g] by blast
  have "int n \<le> WritableBytes b'"
    using WritableBytes_eq [OF b'(2)] WritableBytes_eq [OF assms(1)] b' False
    by (simp add: PrependBytes_def ReadableBytes_def)
  then show thesis
    using that [of b'] b' False n by (simp add: makeSpace_def)
qed

section \<open>Writing\<close>

lemma write_tail:
  assumes "buf_ok b" and "int (length d) \<le> WritableBytes b"
  obtains v where "write_at (buf b) (writer_index b) d = Some v" "length v = length (buf b)"
    "buf_ok (wseek (b\<lparr>buf := v\<rparr>) (int (length d)))"
    "content (wseek (b\<lparr>buf := v\<rparr>) (int (length d))) = content b @ d"
proof -
  let ?w = "nat (writer_index b)" and ?r = "nat (reader_index b)"
  have bnd: "writer_index b + int (length d) \<le> int (length (buf b))"
    using assms WritableBytes_eq by fastforce
  define v where "v = take ?w (buf b) @ d @ drop (?w + length d) (buf b)"
  have w: "write_at (buf b) (writer_index b) d = Some v"
    using bnd assms(1) by (simp add: write_at_Some v_def buf_ok_def)
  have len: "length v = length (buf b)" using length_write_at [OF w] .
  have rw: "?r \<le> ?w" "?w + length d \<le> length (buf b)"
    using assms(1) bnd by (auto simp: buf_ok_def)
  have ok: "buf_ok (wseek (b\<lparr>buf := v\<rparr>) (int (length d)))"
    using assms(1) bnd len by (simp add: buf_ok_def wseek_def)
  have "take (?w + length d) v = take ?w (buf b) @ d"
    using rw by (simp add: v_def)
  then have "content (wseek (b\<lparr>buf := v\<rparr>) (int (length d))) = content b @ d"
    using content_alt [OF assms(1)] content_alt [OF ok] assms(1) rw
    by (simp add: wseek_def nat_add_distrib buf_ok_def)
  with w len ok show thesis by (intro that)
qed

text \<open>Writing appends to the readable bytes, whatever branch makes the space.\<close>

lemma Put_ok:
  assumes "buf_ok b" and "has_room b (length d)"
  obtains b' where "Put b d = Some b'" "buf_ok b'" "content b' = content b @ d"
    "length (buf b') \<le> length (buf b) + length d"
proof -
  have n: "cint (int (length d)) = int (length d)"
    using assms(2) by (intro cint_id) (simp_all add: has_room_def kCheapPrepend_def)
  obtain b1 where b1: "(if WritableBytes b < int (length d) then makeSpace b (length d) else Some b) = Some b1"
    "buf_ok b1" "content b1 = content b" "int (length d) \<le> WritableBytes b1"
    "length (buf b1) \<le> length (buf b) + length d"
  proof (cases "WritableBytes b < int (length d)")
    case True
    with makeSpace_ok [OF assms] show thesis by (metis that)
  next
    case False
    with assms(1) show thesis by (intro that [of b]) auto
  qed
  obtain v where v: "write_at (buf b1) (writer_index b1) d = Some v" "length v = length (buf b1)"
    "buf_ok (wseek (b1\<lparr>buf := v\<rparr>) (int (length d)))"
    "content (wseek (b1\<lparr>buf := v\<rparr>) (int (length d))) = content b1 @ d"
    using write_tail [OF b1(2,4)] by blast
  have "Put b d = Some (wseek (b1\<lparr>buf := v\<rparr>) (int (length d)))"
    using b1(1) v(1) by (simp add: Put_def n)
  then show thesis
    by (rule that) (use v b1 in \<open>simp_all add: wseek_def\<close>)
qed


text \<open>A size beyond the range of \<^verbatim>\<open>int\<close> makes \<^verbatim>\<open>static_cast<int>(size)\<close> negative: no
  space is made and the copy leaves the vector.\<close>

lemma Put_oversize:
  assumes "buf_ok b" and "int_max < int (length d)" and "int (length d) < 2 ^ 32"
  shows "Put b d = None"
proof -
  have "cint (int (length d)) < 0"
    using cint_wraps [OF assms(2,3)] assms(3) by simp
  moreover have "0 \<le> WritableBytes b"
    using WritableBytes_eq [OF assms(1)] assms(1) by (simp add: buf_ok_def)
  moreover have "write_at (buf b) (writer_index b) d = None"
    using assms(1,2) by (auto simp: write_at_def buf_ok_def)
  ultimately show ?thesis by (simp add: Put_def)
qed

lemma Prepend_ok:
  assumes "buf_ok b" and "int (length d) \<le> PrependBytes b"
  obtains b' where "Prepend b d = Some b'" "buf_ok b'" "content b' = d @ content b"
    "length (buf b') = length (buf b)"
proof -
  let ?r = "reader_index b - int (length d)"
  have r: "0 \<le> ?r" "nat ?r + length d = nat (reader_index b)" "nat (reader_index b) \<le> length (buf b)"
    using assms by (auto simp: PrependBytes_def buf_ok_def)
  define v where "v = take (nat ?r) (buf b) @ d @ drop (nat (reader_index b)) (buf b)"
  have w: "write_at (buf b) ?r d = Some v"
    using r assms by (simp add: write_at_def v_def buf_ok_def)
  have ok: "buf_ok (b\<lparr>buf := v, reader_index := ?r\<rparr>)"
    using assms length_write_at [OF w] r by (simp add: buf_ok_def)
  have "drop (nat ?r) v = d @ drop (nat (reader_index b)) (buf b)"
    using r by (simp add: v_def)
  moreover have "nat (writer_index b - ?r) = length d + nat (writer_index b - reader_index b)"
    using assms(1) unfolding buf_ok_def by linarith
  ultimately have "content (b\<lparr>buf := v, reader_index := ?r\<rparr>) = d @ content b"
    by (simp add: content_def ReadableBytes_def)
  with ok show thesis
    using that [of "b\<lparr>buf := v, reader_index := ?r\<rparr>"] length_write_at [OF w]
    by (simp add: Prepend_def Let_def w)
qed

section \<open>Reading\<close>

lemma Seek_ok:
  assumes "buf_ok b" and "0 \<le> n" and "n \<le> ReadableBytes b"
  shows "buf_ok (Seek b n)" and "content (Seek b n) = drop (nat n) (content b)"
    and "buf (Seek b n) = buf b"
proof -
  show ok: "buf_ok (Seek b n)"
    using assms by (auto simp: Seek_def buf_simps)
  show "buf (Seek b n) = buf b" by (simp add: Seek_def)
  show "content (Seek b n) = drop (nat n) (content b)"
  proof (cases "n < ReadableBytes b")
    case True
    with assms show ?thesis
      unfolding content_alt [OF ok] content_alt [OF assms(1)]
      by (simp add: Seek_def buf_ok_def nat_add_distrib add.commute)
  next
    case False
    with assms length_content [OF assms(1)] show ?thesis
      by (simp add: Seek_def content_def [of "b\<lparr>reader_index := _, writer_index := _\<rparr>"] ReadableBytes_def)
  qed
qed

lemma Get_ok:
  assumes "buf_ok b"
  obtains b' where "Get b n = Some (take n (content b), b')" "buf_ok b'"
    "content b' = drop n (content b)" "buf b' = buf b"
proof (cases "ReadableBytes b \<le> 0")
  case True
  with assms have "content b = []" using content_Nil_iff ReadableBytes_nonneg by force
  with True assms show thesis by (intro that [of b]) (simp_all add: Get_def)
next
  case False
  define a where "a = (if int n < ReadableBytes b then int n else ReadableBytes b)"
  have a: "0 \<le> a" "a \<le> ReadableBytes b" using False by (auto simp: a_def)
  have "take (nat a) (content b) = take n (content b)" "drop (nat a) (content b) = drop n (content b)"
    using length_content [OF assms] by (auto simp: a_def)
  then show thesis
    using that [of "Seek b a"] Seek_ok [OF assms a] False read_prefix [OF assms a]
    by (simp add: Get_def a_def [symmetric])
qed

lemma GetAsString_ok:
  assumes "buf_ok b" and "0 \<le> n" and "n \<le> ReadableBytes b"
  shows "GetAsString b n = Some (take (nat n) (content b), Seek b n)"
  using read_prefix [OF assms] by (simp add: GetAsString_def)

lemma Retrieve_ok:
  assumes "buf_ok b" and "has_room b (length d)" and "int (length d) \<le> readv_capacity b"
  obtains b' where "Retrieve b (Readv_data d) = Some (Done (length d, b'))" "buf_ok b'"
    "content b' = content b @ d" "length (buf b') \<le> length (buf b) + length d"
proof -
  let ?w = "WritableBytes b" and ?d1 = "take (nat (WritableBytes b)) d"
  have w: "0 \<le> ?w" using WritableBytes_eq [OF assms(1)] assms(1) by (simp add: buf_ok_def)
  then have "int (length ?d1) \<le> ?w" by simp
  then obtain v where v: "write_at (buf b) (writer_index b) ?d1 = Some v" "length v = length (buf b)"
    "buf_ok (wseek (b\<lparr>buf := v\<rparr>) (int (length ?d1)))"
    "content (wseek (b\<lparr>buf := v\<rparr>) (int (length ?d1))) = content b @ ?d1"
    using write_tail [OF assms(1)] by blast
  show thesis
  proof (cases "int (length d) \<le> ?w")
    case True
    then have "length ?d1 = length d" "?d1 = d" by simp_all
    then have "Retrieve b (Readv_data d) = Some (Done (length d, wseek (b\<lparr>buf := v\<rparr>) (int (length d))))"
      using v(1) True by (simp add: Retrieve_def)
    then show thesis
      by (rule that) (use v \<open>?d1 = d\<close> in \<open>simp_all add: wseek_def\<close>)
  next
    case False
    let ?b1 = "wseek (b\<lparr>buf := v\<rparr>) ?w"
    have b1: "buf_ok ?b1" "content ?b1 = content b @ ?d1" "length (buf ?b1) = length (buf b)"
      using v False w by (simp_all add: wseek_def)
    have "has_room ?b1 (length (drop (nat ?w) d))"
      using assms(2) b1(3) by (simp add: has_room_def)
    then obtain b2 where b2: "Put ?b1 (drop (nat ?w) d) = Some b2" "buf_ok b2"
      "content b2 = content ?b1 @ drop (nat ?w) d" "length (buf b2) \<le> length (buf ?b1) + length (drop (nat ?w) d)"
      using Put_ok [OF b1(1)] by blast
    then have "Retrieve b (Readv_data d) = Some (Done (length d, b2))"
      using False v by (simp add: Retrieve_def Let_def)
    then show thesis
      by (rule that) (use b2 b1 in simp_all)
  qed
qed

lemma Shrink_ok:
  assumes "buf_ok b" and "0 \<le> reserve"
    and "reserve + 2 * ReadableBytes b + int kInitialSize + 2 * kCheapPrepend \<le> int_max"
  obtains b' where "Shrink b reserve = Some b'" "buf_ok b'" "content b' = content b"
    "reserve \<le> WritableBytes b'"
proof -
  let ?f = "new_IoBuffer kInitialSize" and ?n = "nat (reserve + ReadableBytes b)"
  have R: "0 \<le> ReadableBytes b" by (rule ReadableBytes_nonneg [OF assms(1)])
  have f: "buf_ok ?f" "content ?f = []" "length (buf ?f) = 1032"
    using new_IoBuffer_ok [of kInitialSize]
    by (simp_all add: kInitialSize_def new_IoBuffer_def kCheapPrepend_def)
  have "has_room ?f ?n"
    using assms R f by (simp add: has_room_def kInitialSize_def kCheapPrepend_def)
  have n: "int ?n = reserve + ReadableBytes b" using assms R by simp
  obtain b1 where b1: "(if WritableBytes ?f < int ?n then makeSpace ?f ?n else Some ?f) = Some b1"
    "buf_ok b1" "content b1 = []" "int ?n \<le> WritableBytes b1" "length (buf b1) \<le> 1032 + ?n"
  proof (cases "WritableBytes ?f < int ?n")
    case True
    with makeSpace_ok [OF f(1) \<open>has_room ?f ?n\<close>] f that show thesis by (metis (no_types))
  next
    case False
    with f show thesis by (intro that [of ?f]) auto
  qed
  have lc: "int (length (content b)) = ReadableBytes b" by (rule length_content [OF assms(1)])
  have le: "\<not> WritableBytes b1 < cint (int (length (content b)))"
    using b1(4) lc n assms R by (simp add: cpp_arith kInitialSize_def kCheapPrepend_def)
  obtain v where v: "write_at (buf b1) (writer_index b1) (content b) = Some v" "length v = length (buf b1)"
    "buf_ok (wseek (b1\<lparr>buf := v\<rparr>) (int (length (content b))))"
    "content (wseek (b1\<lparr>buf := v\<rparr>) (int (length (content b)))) = content b1 @ content b"
    using write_tail [OF b1(2), of "content b"] b1(4) lc n assms(2) by auto
  let ?b2 = "wseek (b1\<lparr>buf := v\<rparr>) (int (length (content b)))"
  have "cint (int (length (content b))) = int (length (content b))"
    using lc assms R by (intro cint_id) (simp_all add: kInitialSize_def kCheapPrepend_def)
  then have "Shrink b reserve = Some ?b2"
    using b1(1) le v(1) n R
    by (simp add: Shrink_def Let_def read_content [OF assms(1)] Append_def Put_def Swap_def)
  moreover have "reserve \<le> WritableBytes ?b2"
    using WritableBytes_eq [OF v(3)] WritableBytes_eq [OF b1(2)] b1(4) n lc v(2)
    by (simp add: wseek_def)
  ultimately show thesis using v b1 that by simp
qed


section \<open>Searching for the line end\<close>

lemma search_crlf_append:
  "search_crlf xs = None \<Longrightarrow> search_crlf (xs @ CR # LF # ys) = Some (length xs)"
  by (induction xs rule: search_crlf.induct) (auto split: if_splits)

lemma search_crlf_bound: "search_crlf xs = Some i \<Longrightarrow> i + 2 \<le> length xs"
  by (induction xs arbitrary: i rule: search_crlf.induct) (fastforce split: if_splits)+

lemma search_crlf_mono: "search_crlf xs = Some i \<Longrightarrow> search_crlf (xs @ ys) = Some i"
  by (induction xs arbitrary: i rule: search_crlf.induct) (auto split: if_splits)

lemma search_crlf_take: "search_crlf (xs @ ys) = Some i \<Longrightarrow> i + 2 \<le> length xs \<Longrightarrow> search_crlf xs = Some i"
  by (induction xs arbitrary: i rule: search_crlf.induct) (auto split: if_splits)

text \<open>The bytes behind the writer index that \<^verbatim>\<open>findCRLF\<close> also scans.\<close>

definition stale :: "IoBuffer \<Rightarrow> bytes" where
  "stale b = take (nat (reader_index b)) (drop (nat (writer_index b)) (buf b))"

lemma search_range:
  "buf_ok b \<Longrightarrow> take (nat (writer_index b)) (drop (nat (reader_index b)) (buf b)) = content b @ stale b"
proof -
  assume ok: "buf_ok b"
  have w: "nat (writer_index b) = nat (ReadableBytes b) + nat (reader_index b)"
    using ok by (simp add: buf_ok_def ReadableBytes_def nat_add_distrib [symmetric])
  have "take (nat (ReadableBytes b) + nat (reader_index b)) (drop (nat (reader_index b)) (buf b))
      = content b @ take (nat (reader_index b)) (drop (nat (ReadableBytes b) + nat (reader_index b)) (buf b))"
    unfolding content_def by (simp only: take_add drop_drop)
  then show ?thesis unfolding w [symmetric] stale_def .
qed

lemma findCRLF_content:
  assumes "buf_ok b" and "content b = line @ CR # LF # rest" and "search_crlf line = None"
  shows "findCRLF b = Some (Some (int (length line)))"
  using assms search_crlf_append [of line "rest @ stale b"]
  by (simp add: findCRLF_def search_range)

section \<open>The byte-queue contract\<close>

locale byte_queue =
  fixes inv :: "'b \<Rightarrow> bool"
    and abs :: "'b \<Rightarrow> bytes"
    and room :: "'b \<Rightarrow> nat \<Rightarrow> bool"
    and put :: "'b \<Rightarrow> bytes \<Rightarrow> 'b option"
    and get :: "'b \<Rightarrow> nat \<Rightarrow> (bytes \<times> 'b) option"
  assumes put_law: "inv b \<Longrightarrow> room b (length d) \<Longrightarrow>
      \<exists>b'. put b d = Some b' \<and> inv b' \<and> abs b' = abs b @ d \<and>
        (\<forall>k. room b (length d + k) \<longrightarrow> room b' k)"
    and get_law: "inv b \<Longrightarrow>
      \<exists>b'. get b n = Some (take n (abs b), b') \<and> inv b' \<and> abs b' = drop n (abs b) \<and>
        (\<forall>k. room b k \<longrightarrow> room b' k)"
    and room_mono: "room b n \<Longrightarrow> m \<le> n \<Longrightarrow> room b m"
begin

lemma put_all_law:
  "inv b \<Longrightarrow> room b (length (concat ds)) \<Longrightarrow>
     \<exists>b'. put_all put b ds = Some b' \<and> inv b' \<and> abs b' = abs b @ concat ds"
proof (induction ds arbitrary: b)
  case Nil
  then show ?case by simp
next
  case (Cons d ds)
  have "room b (length d)" using Cons.prems(2) by (rule room_mono) simp
  with Cons.prems put_law [of b d] obtain b1 where
    b1: "put b d = Some b1" "inv b1" "abs b1 = abs b @ d" "room b1 (length (concat ds))"
    by auto
  from Cons.IH [OF b1(2,4)] b1 show ?case by auto
qed

text \<open>First in, first out: what has been read, followed by what is still held, is what was held
  at the start followed by what has been written.\<close>

lemma run_ops_fifo:
  "inv b \<Longrightarrow> room b (length (concat (map written ops))) \<Longrightarrow>
     \<exists>out b'. run_ops put get b ops = Some (out, b') \<and> inv b' \<and>
       out @ abs b' = abs b @ concat (map written ops)"
proof (induction ops arbitrary: b)
  case Nil
  then show ?case by simp
next
  case (Cons oper ops)
  show ?case
  proof (cases oper)
    case (Write d)
    have "room b (length d)" using Cons.prems(2) by (rule room_mono) (simp add: Write)
    with Cons.prems put_law [of b d] Write obtain b1 where
      b1: "put b d = Some b1" "inv b1" "abs b1 = abs b @ d" "room b1 (length (concat (map written ops)))"
      by auto
    from Cons.IH [OF b1(2,4)] b1 Write show ?thesis by auto
  next
    case (Read n)
    with Cons.prems get_law [of b n] obtain b1 where
      b1: "get b n = Some (take n (abs b), b1)" "inv b1" "abs b1 = drop n (abs b)"
        "room b1 (length (concat (map written ops)))"
      by auto
    from Cons.IH [OF b1(2,4)] obtain out b' where
      "run_ops put get b1 ops = Some (out, b')" "inv b'" "out @ abs b' = drop n (abs b) @ concat (map written ops)"
      using b1(3) by auto
    with b1 Read show ?thesis by simp
  qed
qed

end

interpretation iobuf: byte_queue buf_ok content has_room Put Get
proof
  fix b :: IoBuffer and d :: bytes
  assume "buf_ok b" "has_room b (length d)"
  then obtain b' where "Put b d = Some b'" "buf_ok b'" "content b' = content b @ d"
    "length (buf b') \<le> length (buf b) + length d"
    by (rule Put_ok)
  then show "\<exists>b'. Put b d = Some b' \<and> buf_ok b' \<and> content b' = content b @ d \<and>
      (\<forall>k. has_room b (length d + k) \<longrightarrow> has_room b' k)"
    by (auto simp: has_room_def)
next
  fix b :: IoBuffer and n
  assume "buf_ok b"
  then obtain b' where "Get b n = Some (take n (content b), b')" "buf_ok b'"
    "content b' = drop n (content b)" "buf b' = buf b"
    by (rule Get_ok)
  then show "\<exists>b'. Get b n = Some (take n (content b), b') \<and> buf_ok b' \<and>
      content b' = drop n (content b) \<and> (\<forall>k. has_room b k \<longrightarrow> has_room b' k)"
    by (auto simp: has_room_def)
qed (simp add: has_room_def)

section \<open>Integers in network byte order\<close>

text \<open>Base-256 digits, in both directions.\<close>

lemma digits_bound:
  fixes a b c d :: nat
  assumes "a < 256" and "b < 256" and "c < 256" and "d < 256"
  shows "((a * 256 + b) * 256 + c) * 256 + d < 2 ^ 32"
  using assms by (simp add: algebra_simps)

lemma digits_of_value:
  fixes a b c d :: nat
  assumes "b < 256" and "c < 256" and "d < 256"
  defines "n \<equiv> ((a * 256 + b) * 256 + c) * 256 + d"
  shows "n div 16777216 = a" and "n div 65536 = a * 256 + b" and "n div 256 = (a * 256 + b) * 256 + c"
proof -
  show n1: "n div 256 = (a * 256 + b) * 256 + c"
    using assms by simp
  have "n div 65536 = n div 256 div 256" "n div 16777216 = n div 256 div 256 div 256"
    by (simp_all add: div_mult2_eq [symmetric])
  with n1 assms(1,2) show "n div 16777216 = a" "n div 65536 = a * 256 + b"
    by simp_all
qed

lemma value_of_digits:
  fixes n :: nat
  shows "((n div 16777216 * 256 + n div 65536 mod 256) * 256 + n div 256 mod 256) * 256 + n mod 256 = n"
proof -
  have "n div 65536 = n div 256 div 256" "n div 16777216 = n div 256 div 256 div 256"
    by (simp_all add: div_mult2_eq [symmetric])
  then show ?thesis by (simp only: div_mult_mod_eq)
qed

lemma last_digit: "(x * 256 + of_char c) mod 256 = (of_char c :: nat)"
  by (simp add: mod_add_left_eq [symmetric] del: mod_add_left_eq)

lemma be_bytes_unat:
  "be_bytes w = map char_of [unat w div 16777216 mod 256, unat w div 65536 mod 256,
     unat w div 256 mod 256, unat w mod 256]"
  unfolding be_bytes_def by (simp add: unat_drop_bit_eq) (simp add: drop_bit_eq_div)

lemma unat_be_word:
  "unat (be_word [a, b, c, d]) =
     ((of_char a * 256 + of_char b) * 256 + of_char c) * 256 + of_char d"
proof -
  let ?n = "((of_char a * 256 + of_char b) * 256 + of_char c) * 256 + of_char d :: nat"
  have "be_word [a, b, c, d] = of_nat ?n"
    by (simp add: be_word_def algebra_simps)
  moreover have "?n < 2 ^ 32"
    by (rule digits_bound) (rule nat_of_char_less_256)+
  ultimately show ?thesis by (simp add: unat_of_nat del: of_nat_add of_nat_mult)
qed

lemma be_bytes_word: "length bs = 4 \<Longrightarrow> be_bytes (be_word bs) = bs"
proof -
  assume "length bs = 4"
  then obtain a b c d where bs: "bs = [a, b, c, d]"
    by (auto simp: length_Suc_conv numeral_eq_Suc)
  note q = digits_of_value [OF nat_of_char_less_256 [of b] nat_of_char_less_256 [of c]
    nat_of_char_less_256 [of d], of "of_char a"]
  show ?thesis
    unfolding be_bytes_unat bs unat_be_word q last_digit by simp
qed

lemma length_be_bytes [simp]: "length (be_bytes w) = 4"
  by (simp add: be_bytes_def)

lemma be_word_bytes: "be_word (be_bytes w) = w"
proof -
  have "unat w < 2 ^ LENGTH(32)" by (rule unsigned_less)
  then have "unat w div 16777216 mod 256 = unat w div 16777216" by simp
  then have "unat (be_word (be_bytes w)) = unat w"
    using value_of_digits [of "unat w"]
    by (simp only: be_bytes_unat list.map unat_be_word of_char_of mod_mod_trivial)
  then show ?thesis by (rule unsigned_word_eqI)
qed

text \<open>Whatever the byte order of the host, four bytes most significant first are written.\<close>

lemma PutInt32_bytes: "host_bytes little (bswap32 little v) = be_bytes v"
  by (simp add: host_bytes_def bswap32_def be_bytes_word)

lemma GetInt32_bytes: "bswap32 little (host_word little (be_bytes v)) = v"
  by (simp add: host_word_def bswap32_def be_bytes_word be_word_bytes)

section \<open>Properties\<close>

text \<open>C1: the buffer is a first-in first-out byte queue. Any sequence of \<^verbatim>\<open>Put\<close> and
  \<^verbatim>\<open>Get\<close> calls within the range of \<^verbatim>\<open>int\<close> is defined, keeps the index invariant, and the
  bytes read followed by the bytes left are the old bytes followed by the bytes written, whichever
  way (growing or moving data to the front) the space was made.\<close>

theorem iobuffer_fifo:
  assumes "buf_ok b" and "has_room b (length (concat (map written ops)))"
  shows "\<exists>out b'. run_ops Put Get b ops = Some (out, b') \<and> buf_ok b' \<and>
    out @ content b' = content b @ concat (map written ops)"
  using assms by (rule iobuf.run_ops_fifo)

theorem iobuffer_fifo_witness:
  "\<exists>out b'. run_ops Put Get (new_IoBuffer 4) [Write ''abc'', Read 2, Write ''defghij'', Read 100] =
     Some (out, b') \<and> buf_ok b' \<and> out @ content b' = ''abcdefghij''"
  using iobuffer_fifo [of "new_IoBuffer 4" "[Write ''abc'', Read 2, Write ''defghij'', Read 100]"]
  by simp

text \<open>\<^verbatim>\<open>makeSpace(n)\<close>, called when fewer than \<open>n\<close> bytes are writable, keeps the
  readable bytes, leaves at least \<open>n\<close> writable bytes, grows the vector by at most \<open>n\<close>, and calls
  \<^verbatim>\<open>compact\<close> only in states that satisfy its assertion \<^verbatim>\<open>kCheapPrepend < _reader_index\<close>,
  without which the overlapping copy would be undefined.\<close>

theorem makeSpace_contract:
  assumes "buf_ok b" and "has_room b n" and "WritableBytes b < int n"
  shows "\<exists>b'. makeSpace b n = Some b' \<and> buf_ok b' \<and> content b' = content b \<and>
      int n \<le> WritableBytes b' \<and> length (buf b') \<le> length (buf b) + n \<and>
      (WritableBytes b + PrependBytes b < int n + kCheapPrepend \<or> kCheapPrepend < reader_index b)"
proof -
  have "WritableBytes b + PrependBytes b < int n + kCheapPrepend \<or> kCheapPrepend < reader_index b"
    using assms(3) unfolding PrependBytes_def by linarith
  then show ?thesis using makeSpace_ok [OF assms] by metis
qed

theorem makeSpace_contract_witness:
  "\<exists>b'. makeSpace (new_IoBuffer 4) 6 = Some b' \<and> content b' = [] \<and> 6 \<le> WritableBytes b'"
  using makeSpace_contract [of "new_IoBuffer 4" 6]
  by auto

text \<open>\<^verbatim>\<open>Retrieve\<close> appends exactly the bytes that \<^verbatim>\<open>readv\<close> delivered, in order, also
  when they fill the writable tail and spill into the 64 KiB stack buffer; it returns their
  number.\<close>

theorem retrieve_appends:
  assumes "buf_ok b" and "has_room b (length d)" and "int (length d) \<le> readv_capacity b"
  shows "\<exists>b'. Retrieve b (Readv_data d) = Some (Done (length d, b')) \<and> buf_ok b' \<and>
    content b' = content b @ d"
  using Retrieve_ok [OF assms] by blast

theorem retrieve_appends_witness:
  "\<exists>b'. Retrieve (new_IoBuffer 3) (Readv_data ''0123456789'') = Some (Done (length ''0123456789'', b')) \<and>
     buf_ok b' \<and> content b' = ''0123456789''"
  using retrieve_appends [of "new_IoBuffer 3" "''0123456789''"]
  by (simp add: readv_capacity_def extrabuf_size_def)

text \<open>\<^verbatim>\<open>PutInt32\<close> appends the value most significant byte first on a host of either byte
  order, and \<^verbatim>\<open>GetInt32\<close> on a buffer that starts with those bytes returns the value and
  consumes them.\<close>

theorem int32_roundtrip:
  assumes "buf_ok b" and "has_room b 4"
  shows "\<exists>b'. PutInt32 little b v = Some (4, b') \<and> buf_ok b' \<and> content b' = content b @ be_bytes v \<and>
    (content b = [] \<longrightarrow> (\<exists>b''. GetInt32 little b' = Some (v, b'') \<and> content b'' = []))"
proof -
  obtain b' where b': "Put b (be_bytes v) = Some b'" "buf_ok b'" "content b' = content b @ be_bytes v"
    using Put_ok [OF assms(1), of "be_bytes v"] assms(2) by auto
  obtain b'' where "Get b' 4 = Some (take 4 (content b'), b'')" "content b'' = drop 4 (content b')"
    using Get_ok [OF b'(2)] by metis
  then have "content b = [] \<longrightarrow> (\<exists>b''. GetInt32 little b' = Some (v, b'') \<and> content b'' = [])"
    using b'(3) by (simp add: GetInt32_def GetInt32_bytes)
  with b' show ?thesis by (simp add: PutInt32_def PutInt32_bytes)
qed

theorem int32_roundtrip_witness:
  "\<exists>b'. PutInt32 True (new_IoBuffer 2) 258 = Some (4, b') \<and>
     (\<exists>b''. GetInt32 True b' = Some (258, b'') \<and> content b'' = [])"
  using int32_roundtrip [of "new_IoBuffer 2" True 258]
  by auto

text \<open>\<^verbatim>\<open>Shrink(reserve)\<close> keeps the readable bytes and leaves at least \<open>reserve\<close>
  writable bytes.\<close>

theorem shrink_contract:
  assumes "buf_ok b" and "0 \<le> reserve"
    and "reserve + 2 * ReadableBytes b + int kInitialSize + 2 * kCheapPrepend \<le> int_max"
  shows "\<exists>b'. Shrink b reserve = Some b' \<and> buf_ok b' \<and> content b' = content b \<and>
    reserve \<le> WritableBytes b'"
  using Shrink_ok [OF assms] by blast

theorem shrink_contract_witness:
  "\<exists>b'. Shrink (new_IoBuffer 0) 2000 = Some b' \<and> content b' = [] \<and> 2000 \<le> WritableBytes b'"
  using shrink_contract [of "new_IoBuffer 0" 2000]
  by (auto simp: kCheapPrepend_def kInitialSize_def)

text \<open>\<^verbatim>\<open>findCRLF\<close> scans past the writer index. A line end that lies among the stale bytes
  behind the readable ones is reported as if it had been received, and when the scan meets no line
  end it reads outside the vector as soon as the two indices together exceed its size.\<close>

theorem findCRLF_scans_stale_bytes:
  assumes "buf_ok b" and "search_crlf (content b) = None"
  shows "(\<forall>i. search_crlf (content b @ stale b) = Some i \<longrightarrow>
      findCRLF b = Some (Some (int i)) \<and> ReadableBytes b < int i + 2) \<and>
    (search_crlf (content b @ stale b) = None \<longrightarrow>
      findCRLF b = (if reader_index b + writer_index b \<le> int (length (buf b)) then Some None else None))"
proof -
  have "ReadableBytes b < int i + 2" if s: "search_crlf (content b @ stale b) = Some i" for i
  proof (rule ccontr)
    assume "\<not> ReadableBytes b < int i + 2"
    then have "i + 2 \<le> length (content b)" using length_content [OF assms(1)] by linarith
    with search_crlf_take [OF s] assms(2) show False by simp
  qed
  then show ?thesis
    using search_range [OF assms(1)] by (simp add: findCRLF_def)
qed

theorem findCRLF_scans_stale_bytes_witness:
  "content \<lparr>buf = replicate 8 (CHR 0x00) @ ''a:b'' @ kCRLF @ ''xyz'', reader_index = 8, writer_index = 8\<rparr> = [] \<and>
   findCRLF \<lparr>buf = replicate 8 (CHR 0x00) @ ''a:b'' @ kCRLF @ ''xyz'', reader_index = 8, writer_index = 8\<rparr> =
     Some (Some 3)"
  using findCRLF_scans_stale_bytes
    [of "\<lparr>buf = replicate 8 (CHR 0x00) @ ''a:b'' @ kCRLF @ ''xyz'', reader_index = 8, writer_index = 8\<rparr>"]
  by (simp add: buf_ok_def content_def stale_def ReadableBytes_def kCheapPrepend_def kCRLF_def)

end
