(* ===== verification/Selectors.thy ===== *)
theory Selectors
  imports Yamq_Prelude
begin

unbundle bit_operations_syntax

text \<open>
  The event demultiplexers (\<^verbatim>\<open>src/rpc/selector.cpp\<close>, \<^verbatim>\<open>src/rpc/epoll_selector.cpp\<close>) and the event
  bits of \<^verbatim>\<open>src/rpc/channel.h\<close>. Event masks are \<^verbatim>\<open>int\<close>s with C's bit operations; the values of
  the \<^verbatim>\<open>POLL*\<close> and \<^verbatim>\<open>EPOLL*\<close> constants are those of the Linux headers. The result of
  \<^verbatim>\<open>poll\<close> and \<^verbatim>\<open>epoll_wait\<close> is an argument of \<open>Select\<close>.

  The contract of a selector, that it keeps a table of the events of interest per descriptor, is
  the locale \<open>interest_table\<close>; the poll selector, an array with an index that is
  maintained by swapping with the last element, is proved to satisfy it.
\<close>

section \<open>Event masks\<close>

definition EV_NONE :: int where "EV_NONE = 0x00"
definition EV_READ :: int where "EV_READ = 0x01"
definition EV_WRITE :: int where "EV_WRITE = 0x02"
definition EV_ERROR :: int where "EV_ERROR = 0x08"
definition EV_CLOSE :: int where "EV_CLOSE = 0x10"

definition POLLIN :: int where "POLLIN = 0x001"
definition POLLOUT :: int where "POLLOUT = 0x004"

definition EPOLLIN :: int where "EPOLLIN = 0x001"
definition EPOLLPRI :: int where "EPOLLPRI = 0x002"
definition EPOLLOUT :: int where "EPOLLOUT = 0x004"
definition EPOLLERR :: int where "EPOLLERR = 0x008"
definition EPOLLHUP :: int where "EPOLLHUP = 0x010"
definition EPOLLRDHUP :: int where "EPOLLRDHUP = 0x2000"

lemmas event_bits = EV_NONE_def EV_READ_def EV_WRITE_def EV_ERROR_def EV_CLOSE_def POLLIN_def POLLOUT_def
  EPOLLIN_def EPOLLPRI_def EPOLLOUT_def EPOLLERR_def EPOLLHUP_def EPOLLRDHUP_def

record Event =
  revents :: int
  ev_fd :: int

definition trans_ev :: "int \<Rightarrow> int" where
  "trans_ev revs =
     (let e = EV_NONE;
          e = (if revs AND POLLIN \<noteq> 0 then e OR EV_READ else e)
      in if revs AND POLLOUT \<noteq> 0 then e OR EV_WRITE else e)"

text \<open>The mask both selectors register.\<close>

definition poll_mask :: "int \<Rightarrow> int" where
  "poll_mask events =
     (if EV_READ AND events \<noteq> 0 then POLLIN else 0) OR (if EV_WRITE AND events \<noteq> 0 then POLLOUT else 0)"

definition epoll_mask :: "int \<Rightarrow> int" where
  "epoll_mask events =
     (if EV_READ AND events \<noteq> 0 then EPOLLIN else 0) OR (if EV_WRITE AND events \<noteq> 0 then EPOLLOUT else 0)"

definition trans_epollev_to_ev :: "int \<Rightarrow> int" where
  "trans_epollev_to_ev epollev =
     (let ev = EV_NONE;
          ev = ev OR (if epollev AND EPOLLOUT \<noteq> 0 then EV_WRITE else 0);
          ev = ev OR (if epollev AND EPOLLIN \<noteq> 0 then EV_READ else 0);
          ev = ev OR (if epollev AND EPOLLPRI \<noteq> 0 then EV_READ else 0);
          ev = ev OR (if epollev AND EPOLLERR \<noteq> 0 then EV_ERROR else 0);
          ev = ev OR (if epollev AND EPOLLHUP \<noteq> 0 then EV_ERROR else 0);
          ev = ev OR (if epollev AND EPOLLRDHUP \<noteq> 0 then EV_CLOSE else 0)
      in ev)"

section \<open>PollSelector\<close>

record pollfd =
  pfd_fd :: int
  pfd_events :: int
  pfd_revents :: int

record PollSelector =
  pollfds :: "pollfd list"
  fd_idx_map :: "int \<rightharpoonup> nat"

definition new_PollSelector :: PollSelector where
  "new_PollSelector = \<lparr>pollfds = [], fd_idx_map = Map.empty\<rparr>"

definition poll_Add :: "PollSelector \<Rightarrow> int \<Rightarrow> int \<Rightarrow> int \<times> PollSelector" where
  "poll_Add s fd events =
     (let pfds = pollfds s @ [\<lparr>pfd_fd = fd, pfd_events = cshort (poll_mask events), pfd_revents = 0\<rparr>]
      in (0, s\<lparr>pollfds := pfds, fd_idx_map := (fd_idx_map s)(fd \<mapsto> length pfds - 1)\<rparr>))"

text \<open>An index out of range is undefined.\<close>

definition poll_Update :: "PollSelector \<Rightarrow> int \<Rightarrow> int \<Rightarrow> (int \<times> PollSelector) option" where
  "poll_Update s fd events =
     (case fd_idx_map s fd of
        None \<Rightarrow> Some (- 1, s)
      | Some idx \<Rightarrow>
          if idx < length (pollfds s)
          then Some (0, s\<lparr>pollfds := (pollfds s)[idx := (pollfds s ! idx)\<lparr>pfd_events := cshort (poll_mask events)\<rparr>]\<rparr>)
          else None)"

text \<open>\<^verbatim>\<open>_fd_idx_map.size()\<close> is the number of keys. Popping or reading the back of an empty array is
  undefined.\<close>

definition poll_Remove :: "PollSelector \<Rightarrow> int \<Rightarrow> (int \<times> PollSelector) option" where
  "poll_Remove s fd =
     (case fd_idx_map s fd of
        None \<Rightarrow> Some (- 1, s)
      | Some idx \<Rightarrow>
          if pollfds s = [] then None
          else if idx = card (dom (fd_idx_map s)) - 1
          then Some (0, s\<lparr>pollfds := butlast (pollfds s), fd_idx_map := (fd_idx_map s)(fd := None)\<rparr>)
          else if idx < length (pollfds s)
          then (let l = last (pollfds s);
                    m = (fd_idx_map s)(pfd_fd l \<mapsto> idx);
                    pfds = (pollfds s)[length (pollfds s) - 1 := pollfds s ! idx, idx := l]
                in Some (0, s\<lparr>pollfds := butlast pfds, fd_idx_map := m(fd := None)\<rparr>))
          else None)"

text \<open>The scan of \<^verbatim>\<open>Select\<close> over the array \<^verbatim>\<open>poll\<close> has filled in; it stops after \<open>active\<close> hits.\<close>

fun scan_active :: "pollfd list \<Rightarrow> int \<Rightarrow> Event list" where
  "scan_active [] active = []"
| "scan_active (p # ps) active =
     (if active \<le> 0 then []
      else if pfd_revents p > 0
      then \<lparr>revents = trans_ev (pfd_revents p), ev_fd = pfd_fd p\<rparr> # scan_active ps (active - 1)
      else scan_active ps active)"

text \<open>\<open>active\<close> and \<open>revs\<close> are what \<^verbatim>\<open>poll\<close> returned and stored.\<close>

definition poll_Select :: "int \<Rightarrow> int list \<Rightarrow> PollSelector \<Rightarrow> Event list \<Rightarrow> (int \<times> PollSelector \<times> Event list) or_abort" where
  "poll_Select active revs s events =
     (let s = s\<lparr>pollfds := map2 (\<lambda>p r. p\<lparr>pfd_revents := r\<rparr>) (pollfds s) revs\<rparr>
      in if active \<ge> 0
         then if active = 0 then Done (- 1, s, events)
              else Done (0, s, events @ scan_active (pollfds s) active)
         else Aborted)"

section \<open>EpollSelector\<close>

datatype epoll_op = EPOLL_CTL_ADD | EPOLL_CTL_MOD | EPOLL_CTL_DEL

text \<open>\<open>ctl\<close> is \<^verbatim>\<open>epoll_ctl\<close>: it takes the kernel's state to its result and the new state.\<close>

record 'k EpollSelector =
  kern :: 'k
  ev_cap :: nat

definition epoll_Add :: "(epoll_op \<Rightarrow> int \<Rightarrow> int \<Rightarrow> 'k \<Rightarrow> int \<times> 'k) \<Rightarrow> 'k EpollSelector \<Rightarrow> int \<Rightarrow> int \<Rightarrow>
    (int \<times> 'k EpollSelector) or_abort" where
  "epoll_Add ctl s fd events =
     (let (ret, k) = ctl EPOLL_CTL_ADD fd (epoll_mask events) (kern s)
      in if ret < 0 then Aborted else Done (ret, s\<lparr>kern := k\<rparr>))"

definition epoll_Update :: "(epoll_op \<Rightarrow> int \<Rightarrow> int \<Rightarrow> 'k \<Rightarrow> int \<times> 'k) \<Rightarrow> 'k EpollSelector \<Rightarrow> int \<Rightarrow> int \<Rightarrow>
    (int \<times> 'k EpollSelector) or_abort" where
  "epoll_Update ctl s fd events =
     (let (ret, k) = ctl EPOLL_CTL_MOD fd (epoll_mask events) (kern s)
      in if ret < 0 then Aborted else Done (ret, s\<lparr>kern := k\<rparr>))"

definition epoll_Remove :: "(epoll_op \<Rightarrow> int \<Rightarrow> int \<Rightarrow> 'k \<Rightarrow> int \<times> 'k) \<Rightarrow> 'k EpollSelector \<Rightarrow> int \<Rightarrow>
    (int \<times> 'k EpollSelector) or_abort" where
  "epoll_Remove ctl s fd =
     (let (ret, k) = ctl EPOLL_CTL_DEL fd 0 (kern s)
      in if ret < 0 then Aborted else Done (ret, s\<lparr>kern := k\<rparr>))"

text \<open>\<open>ready\<close> is the array prefix \<^verbatim>\<open>epoll_wait\<close> filled (event mask and descriptor), or \<open>None\<close> for
  a negative result. A full array is doubled for the next call.\<close>

definition epoll_Select :: "(int \<times> int) list option \<Rightarrow> 'k EpollSelector \<Rightarrow> Event list \<Rightarrow>
    int \<times> 'k EpollSelector \<times> Event list" where
  "epoll_Select ready s events =
     (case ready of
        None \<Rightarrow> (- 1, s, events)
      | Some rs \<Rightarrow>
          if rs = [] then (0, s, events)
          else (0, if ev_cap s = length rs then s\<lparr>ev_cap := 2 * length rs\<rparr> else s,
                events @ map (\<lambda>(m, fd). \<lparr>revents = trans_epollev_to_ev m, ev_fd = fd\<rparr>) rs))"

section \<open>The contract of a selector\<close>

datatype sel_op = SAdd int int | SUpdate int int | SRemove int

text \<open>The abstract table: what each operation does to it and returns.\<close>

abbreviation interest :: "int \<Rightarrow> int" where
  "interest m \<equiv> m AND (EV_READ OR EV_WRITE)"

fun spec_op :: "sel_op \<Rightarrow> (int \<rightharpoonup> int) \<Rightarrow> int \<times> (int \<rightharpoonup> int)" where
  "spec_op (SAdd fd m) t = (0, t(fd \<mapsto> interest m))"
| "spec_op (SUpdate fd m) t = (case t fd of None \<Rightarrow> (- 1, t) | Some _ \<Rightarrow> (0, t(fd \<mapsto> interest m)))"
| "spec_op (SRemove fd) t = (case t fd of None \<Rightarrow> (- 1, t) | Some _ \<Rightarrow> (0, t(fd := None)))"

text \<open>A descriptor is added at most once while it is registered.\<close>

fun op_allowed :: "sel_op \<Rightarrow> (int \<rightharpoonup> int) \<Rightarrow> bool" where
  "op_allowed (SAdd fd m) t = (fd \<notin> dom t)"
| "op_allowed _ t = True"

fun ops_allowed :: "sel_op list \<Rightarrow> (int \<rightharpoonup> int) \<Rightarrow> bool" where
  "ops_allowed [] t = True"
| "ops_allowed (x # xs) t = (op_allowed x t \<and> ops_allowed xs (snd (spec_op x t)))"

fun run_spec :: "sel_op list \<Rightarrow> (int \<rightharpoonup> int) \<Rightarrow> int list \<times> (int \<rightharpoonup> int)" where
  "run_spec [] t = ([], t)"
| "run_spec (x # xs) t = (let (r, t) = spec_op x t; (rs, t) = run_spec xs t in (r # rs, t))"

fun run_sel :: "(sel_op \<Rightarrow> 's \<Rightarrow> (int \<times> 's) option) \<Rightarrow> sel_op list \<Rightarrow> 's \<Rightarrow> (int list \<times> 's) option" where
  "run_sel step [] s = Some ([], s)"
| "run_sel step (x # xs) s =
     do { (r, s) \<leftarrow> step x s; (rs, s) \<leftarrow> run_sel step xs s; Some (r # rs, s) }"

locale interest_table =
  fixes inv :: "'s \<Rightarrow> bool" and table :: "'s \<Rightarrow> int \<rightharpoonup> int" and step :: "sel_op \<Rightarrow> 's \<Rightarrow> (int \<times> 's) option"
  assumes step_law: "inv s \<Longrightarrow> op_allowed x (table s) \<Longrightarrow>
    \<exists>r s'. step x s = Some (r, s') \<and> inv s' \<and> (r, table s') = spec_op x (table s)"
begin

lemma run_law:
  "inv s \<Longrightarrow> ops_allowed xs (table s) \<Longrightarrow>
   \<exists>rs s'. run_sel step xs s = Some (rs, s') \<and> inv s' \<and> (rs, table s') = run_spec xs (table s)"
proof (induction xs arbitrary: s)
  case (Cons x xs)
  then obtain r s1 where s1: "step x s = Some (r, s1)" "inv s1" "(r, table s1) = spec_op x (table s)"
    using step_law [of s x] by auto
  then have "snd (spec_op x (table s)) = table s1" by (metis snd_conv)
  then obtain rs s' where "run_sel step xs s1 = Some (rs, s')" "inv s'" "(rs, table s') = run_spec xs (table s1)"
    using Cons s1(2) by fastforce
  then show ?case using s1 by (auto simp: Let_def split: prod.splits)
qed simp

end

fun poll_step :: "sel_op \<Rightarrow> PollSelector \<Rightarrow> (int \<times> PollSelector) option" where
  "poll_step (SAdd fd m) s = Some (poll_Add s fd m)"
| "poll_step (SUpdate fd m) s = poll_Update s fd m"
| "poll_step (SRemove fd) s = poll_Remove s fd"


section \<open>The poll selector keeps the table\<close>

lemma and_1_2:
  fixes m :: int
  shows "(1 AND m \<noteq> 0) = bit m 0" "(m AND 1 \<noteq> 0) = bit m 0" "(2 AND m \<noteq> 0) = bit m 1" "(m AND 2 \<noteq> 0) = bit m 1"
    "(m AND 4 \<noteq> 0) = bit m 2"
  using bit_iff_and_push_bit_not_eq_0 [of m 0] bit_iff_and_push_bit_not_eq_0 [of m 1]
    bit_iff_and_push_bit_not_eq_0 [of m 2]
  by (simp_all add: and.commute push_bit_eq_mult)

lemma mask_roundtrip: "trans_ev (cshort (poll_mask m)) = interest m"
proof -
  have "interest m = (if bit m 0 then 1 else 0) OR (if bit m 1 then 2 else 0)"
  proof (rule bit_eqI)
    fix n
    have "bit (3::int) n \<longleftrightarrow> n = 0 \<or> n = 1"
      by (cases n; cases "n - 1") (auto simp: bit_Suc bit_0)
    moreover have "bit (2::int) n \<longleftrightarrow> n = 1" "bit (1::int) n \<longleftrightarrow> n = 0"
      by (cases n; cases "n - 1"; auto simp: bit_Suc bit_0)+
    ultimately show "bit (interest m) n = bit ((if bit m 0 then 1 else 0) OR (if bit m 1 then 2 else 0) :: int) n"
      by (auto simp: event_bits bit_and_iff bit_or_iff)
  qed
  then show ?thesis
    by (auto simp: trans_ev_def poll_mask_def event_bits and_1_2 cshort_def signed_take_bit_int_eq_self Let_def)
qed

definition poll_ok :: "PollSelector \<Rightarrow> bool" where
  "poll_ok s \<longleftrightarrow> (\<forall>fd i. fd_idx_map s fd = Some i \<longleftrightarrow> i < length (pollfds s) \<and> pfd_fd (pollfds s ! i) = fd)"

definition poll_table :: "PollSelector \<Rightarrow> int \<rightharpoonup> int" where
  "poll_table s fd = map_option (\<lambda>i. trans_ev (pfd_events (pollfds s ! i))) (fd_idx_map s fd)"

lemma poll_okD: "poll_ok s \<Longrightarrow> fd_idx_map s fd = Some i \<Longrightarrow> i < length (pollfds s) \<and> pfd_fd (pollfds s ! i) = fd"
  by (simp add: poll_ok_def)

lemma poll_ok_nth: "poll_ok s \<Longrightarrow> i < length (pollfds s) \<Longrightarrow> fd_idx_map s (pfd_fd (pollfds s ! i)) = Some i"
  by (simp add: poll_ok_def)

lemma poll_ok_card: "poll_ok s \<Longrightarrow> card (dom (fd_idx_map s)) = length (pollfds s)"
proof -
  assume ok: "poll_ok s"
  have "dom (fd_idx_map s) = set (map pfd_fd (pollfds s))"
    using poll_okD [OF ok] poll_ok_nth [OF ok] by (fastforce simp: in_set_conv_nth)
  moreover have "distinct (map pfd_fd (pollfds s))"
    unfolding distinct_conv_nth using poll_ok_nth [OF ok] by (metis length_map nth_map option.inject)
  ultimately show ?thesis by (metis distinct_card length_map)
qed

lemma table_dom: "dom (poll_table s) = dom (fd_idx_map s)"
  by (auto simp: poll_table_def dom_def)

lemma poll_Add_ok:
  assumes ok: "poll_ok s" and new: "fd \<notin> dom (poll_table s)"
  shows "poll_ok (snd (poll_Add s fd m)) \<and> poll_table (snd (poll_Add s fd m)) = (poll_table s)(fd \<mapsto> interest m)"
proof -
  have no: "fd_idx_map s fd = None" using new by (auto simp: table_dom)
  have "poll_ok (snd (poll_Add s fd m))"
  proof -
    have ne: "pfd_fd (pollfds s ! i) \<noteq> fd" if "i < length (pollfds s)" for i
      using poll_ok_nth [OF ok that] no by auto
    show ?thesis using ok ne unfolding poll_ok_def by (auto simp: poll_Add_def Let_def nth_append less_Suc_eq)
  qed
  moreover have "poll_table (snd (poll_Add s fd m)) g = ((poll_table s)(fd \<mapsto> interest m)) g" for g
    using poll_okD [OF ok, of g]
    by (auto simp: poll_table_def poll_Add_def Let_def mask_roundtrip nth_append map_option_case split: option.split)
  ultimately show ?thesis by auto
qed

lemma poll_Update_ok:
  assumes ok: "poll_ok s"
  shows "\<exists>r s'. poll_Update s fd m = Some (r, s') \<and> poll_ok s' \<and> (r, poll_table s') = spec_op (SUpdate fd m) (poll_table s)"
proof (cases "fd_idx_map s fd")
  case None
  then show ?thesis using ok by (simp add: poll_Update_def poll_table_def)
next
  case (Some i)
  note i = poll_okD [OF ok Some]
  let ?s = "s\<lparr>pollfds := (pollfds s)[i := (pollfds s ! i)\<lparr>pfd_events := cshort (poll_mask m)\<rparr>]\<rparr>"
  have "poll_ok ?s" using ok i by (auto simp: poll_ok_def nth_list_update)
  moreover have "poll_table ?s g = ((poll_table s)(fd \<mapsto> interest m)) g" for g
    using i Some poll_okD [OF ok, of g]
    by (cases "g = fd") (auto simp: poll_table_def mask_roundtrip nth_list_update map_option_case split: option.split)
  ultimately show ?thesis using Some i by (auto simp: poll_Update_def poll_table_def)
qed

lemma swap_index:
  fixes F :: "nat \<Rightarrow> int"
  assumes "\<And>a b. a < N \<Longrightarrow> b < N \<Longrightarrow> F a = F b \<Longrightarrow> a = b" "i < N" "n < N" "j < N" "j < n" "M = Some j \<longleftrightarrow> F j = g"
  shows "(if g = F i then None else if i \<noteq> n \<and> g = F n then Some i else M) = Some j \<longleftrightarrow>
    j < n \<and> (if j = i then F n else F j) = g"
proof (cases "j = i")
  case True
  then have "F n \<noteq> F i" using assms(1) [of n i] assms(2-5) by auto
  then show ?thesis using True assms(5,6) by auto
next
  case False
  then have "F j \<noteq> F i" "F j \<noteq> F n" using assms(1) [of j i] assms(1) [of j n] assms(2-5) by auto
  then show ?thesis using False assms(5,6) by auto
qed

lemma poll_Remove_ok:
  assumes ok: "poll_ok s"
  shows "\<exists>r s'. poll_Remove s fd = Some (r, s') \<and> poll_ok s' \<and> (r, poll_table s') = spec_op (SRemove fd) (poll_table s)"
proof (cases "fd_idx_map s fd")
  case None
  then show ?thesis using ok by (simp add: poll_Remove_def poll_table_def)
next
  case (Some i)
  note i = poll_okD [OF ok Some]
  let ?xs = "pollfds s" let ?n = "length (pollfds s) - 1"
  have "?xs \<noteq> []" using i by auto
  then have ne: "?xs \<noteq> []" "last ?xs = ?xs ! ?n" by (auto simp: last_conv_nth)
  let ?m = "(if i = ?n then fd_idx_map s else (fd_idx_map s)(pfd_fd (last ?xs) \<mapsto> i))(fd := None)"
  let ?ys = "if i = ?n then butlast ?xs else (butlast ?xs)[i := last ?xs]"
  let ?s = "s\<lparr>pollfds := ?ys, fd_idx_map := ?m\<rparr>"
  have "butlast (?xs[?n := ?xs ! i, i := last ?xs]) = (butlast ?xs)[i := last ?xs]" if "i \<noteq> ?n"
    using that i by (auto simp: butlast_conv_take list_eq_iff_nth_eq nth_list_update)
  then have r: "poll_Remove s fd = Some (0, ?s)"
    using Some i ne poll_ok_card [OF ok] by (auto simp: poll_Remove_def Let_def)
  have len: "length ?ys = ?n" by simp
  have nth: "?ys ! j = (if j = i then ?xs ! ?n else ?xs ! j)" if "j < ?n" for j
    using that i ne by (auto simp: nth_butlast nth_list_update)
  have idx: "fd_idx_map s (pfd_fd (?xs ! j)) = Some j" if "j < length ?xs" for j using poll_ok_nth [OF ok that] .
  have inj: "pfd_fd (?xs ! a) = pfd_fd (?xs ! b) \<longleftrightarrow> a = b" if "a < length ?xs" "b < length ?xs" for a b
    using idx [OF that(1)] idx [OF that(2)] by (metis option.inject)
  have fds: "fd = pfd_fd (?xs ! i)" "pfd_fd (last ?xs) = pfd_fd (?xs ! ?n)" "?n < length ?xs" using i ne by auto
  have mg: "?m g = (if g = fd then None else if i \<noteq> ?n \<and> g = pfd_fd (?xs ! ?n) then Some i else fd_idx_map s g)" for g
    using fds by simp
  have meq: "?m g = Some j \<longleftrightarrow> j < ?n \<and> pfd_fd (?ys ! j) = g" for g j
  proof (cases "j < ?n")
    case True
    have e: "pfd_fd (?ys ! j) = (if j = i then pfd_fd (?xs ! ?n) else pfd_fd (?xs ! j))" using nth [OF True] by simp
    have m: "fd_idx_map s g = Some j \<longleftrightarrow> pfd_fd (?xs ! j) = g" using ok True by (auto simp: poll_ok_def)
    show ?thesis by (subst mg, subst e, subst fds(1), rule swap_index [where F = "\<lambda>a. pfd_fd (?xs ! a)" and N = "length ?xs"])
        (use inj i fds(3) True m in auto)
  next
    case False
    have "j = ?n \<and> g = pfd_fd (?xs ! ?n)" if "fd_idx_map s g = Some j"
    proof -
      have "j < length ?xs" "pfd_fd (?xs ! j) = g" using poll_okD [OF ok that] by auto
      moreover from this have "j = ?n" using False by linarith
      ultimately show ?thesis by simp
    qed
    moreover have "i \<noteq> ?n \<Longrightarrow> i \<noteq> j" using i False by linarith
    ultimately have "?m g \<noteq> Some j" unfolding mg using fds(1) by (metis option.distinct(1) option.inject)
    then show ?thesis using False by blast
  qed
  then have "poll_ok ?s" unfolding poll_ok_def using len by simp
  moreover have "poll_table ?s g = ((poll_table s)(fd := None)) g" for g
  proof (cases "g \<noteq> fd \<and> g = pfd_fd (last ?xs)")
    case True
    then show ?thesis using i ne idx [of ?n] nth [of i] by (auto simp: poll_table_def)
  next
    case False
    show ?thesis
    proof (cases "?m g")
      case None
      then show ?thesis using False by (auto simp: poll_table_def split: if_splits)
    next
      case (Some j)
      then have j: "j < ?n" "fd_idx_map s g = Some j" "g \<noteq> fd"
        using meq [of g j] False fds(2) unfolding mg by (auto split: if_splits)
      moreover have "j \<noteq> i" using poll_okD [OF ok j(2)] j(3) fds(1) by auto
      ultimately show ?thesis using nth [of j] Some by (simp add: poll_table_def)
    qed
  qed
  then have "poll_table ?s = (poll_table s)(fd := None)" by blast
  ultimately show ?thesis using r Some by (auto simp: poll_table_def)
qed


interpretation poll: interest_table poll_ok poll_table poll_step
proof (unfold_locales, goal_cases)
  case (1 s x)
  then show ?case
    using poll_Add_ok [of s] poll_Update_ok [of s] poll_Remove_ok [of s]
    by (cases x) (auto simp: poll_Add_def Let_def)
qed


section \<open>Properties\<close>

text \<open>C21: the poll selector refines the table of interests: any sequence of \<^verbatim>\<open>Add\<close>, \<^verbatim>\<open>Update\<close> and
  \<^verbatim>\<open>Remove\<close> calls that does not add a registered descriptor again, starting from an empty selector, is
  defined (no index is out of range), every call returns what the table says (0, or -1
  for an unknown descriptor), and at the end the array and its index, in spite of the swapping with
  the last element, hold exactly the registered descriptors with the read and write
  interest last given.\<close>

theorem poll_selector_refines_table:
  assumes "ops_allowed xs Map.empty"
  shows "\<exists>rs s. run_sel poll_step xs new_PollSelector = Some (rs, s) \<and> poll_ok s \<and>
    (rs, poll_table s) = run_spec xs Map.empty"
proof -
  have "poll_ok new_PollSelector" "poll_table new_PollSelector = Map.empty"
    by (auto simp: poll_ok_def poll_table_def new_PollSelector_def)
  then show ?thesis using poll.run_law [of new_PollSelector xs] assms by metis
qed

theorem poll_selector_refines_table_witness:
  "\<exists>rs s. run_sel poll_step [SAdd 5 EV_READ, SAdd 6 EV_WRITE, SRemove 5, SUpdate 6 EV_READ] new_PollSelector = Some (rs, s) \<and>
     rs = [0, 0, 0, 0] \<and> poll_table s 6 = Some EV_READ \<and> poll_table s 5 = None"
proof -
  let ?xs = "[SAdd 5 EV_READ, SAdd 6 EV_WRITE, SRemove 5, SUpdate 6 EV_READ]"
  have "ops_allowed ?xs Map.empty" by simp
  from poll_selector_refines_table [OF this] obtain rs s where
    "run_sel poll_step ?xs new_PollSelector = Some (rs, s)" "(rs, poll_table s) = run_spec ?xs Map.empty" by blast
  moreover from this(2) have "rs = [0, 0, 0, 0]" "poll_table s 6 = Some EV_READ" "poll_table s 5 = None"
    by (simp_all add: event_bits)
  ultimately show ?thesis by blast
qed

text \<open>C40: what \<^verbatim>\<open>Select\<close> of the poll selector reports: if \<^verbatim>\<open>poll\<close> returns the number of entries
  with non-zero \<open>revents\<close>, as documented, the scan that stops after that many hits reports every one
  of them, in array order, with its descriptor and its translated mask.\<close>

theorem poll_Select_complete:
  assumes "length revs = length (pollfds s)" and "\<forall>r\<in>set revs. 0 \<le> r"
    and "active = int (length (filter (\<lambda>r. r \<noteq> 0) revs))" and "active \<noteq> 0"
  shows "\<exists>s'. poll_Select active revs s evs =
    Done (0, s', evs @ map (\<lambda>(p, r). \<lparr>revents = trans_ev r, ev_fd = pfd_fd p\<rparr>) (filter (\<lambda>(p, r). r \<noteq> 0) (zip (pollfds s) revs)))"
proof -
  have "scan_active (map2 (\<lambda>p r. p\<lparr>pfd_revents := r\<rparr>) ps rs) (int (length (filter (\<lambda>r. r \<noteq> 0) rs))) =
      map (\<lambda>(p, r). \<lparr>revents = trans_ev r, ev_fd = pfd_fd p\<rparr>) (filter (\<lambda>(p, r). r \<noteq> 0) (zip ps rs))"
    if "length rs = length ps" "\<forall>r\<in>set rs. 0 \<le> r" for ps rs
    using that
  proof (induction rs ps rule: list_induct2)
    case (Cons r rs p ps)
    have "filter (\<lambda>(p, r). r \<noteq> 0) (zip ps rs) = []" if "filter (\<lambda>r. r \<noteq> 0) rs = []"
      using that by (auto simp: filter_empty_conv dest: set_zip_rightD)
    then show ?case using Cons by auto
  qed simp
  then show ?thesis using assms by (auto simp: poll_Select_def Let_def)
qed

theorem poll_Select_complete_witness:
  "\<exists>s'. poll_Select 1 [0, POLLIN] \<lparr>pollfds = [\<lparr>pfd_fd = 5, pfd_events = 1, pfd_revents = 0\<rparr>, \<lparr>pfd_fd = 6, pfd_events = 1, pfd_revents = 0\<rparr>],
       fd_idx_map = [5 \<mapsto> 0, 6 \<mapsto> 1]\<rparr> [] = Done (0, s', [\<lparr>revents = EV_READ, ev_fd = 6\<rparr>])"
  using poll_Select_complete [of "[0, POLLIN]" "\<lparr>pollfds = [\<lparr>pfd_fd = 5, pfd_events = 1, pfd_revents = 0\<rparr>,
    \<lparr>pfd_fd = 6, pfd_events = 1, pfd_revents = 0\<rparr>], fd_idx_map = [5 \<mapsto> 0, 6 \<mapsto> 1]\<rparr>" 1 "[]"]
  by (simp add: event_bits trans_ev_def)

end
