(* ===== verification/Event_Dispatcher.thy ===== *)
theory Event_Dispatcher
  imports Selectors
begin

text \<open>
  Channels (\<^verbatim>\<open>src/rpc/channel.cpp\<close>) and the event dispatcher (\<^verbatim>\<open>src/rpc/event_dispatcher.cpp\<close>) over the epoll
  selector: registration of channels, the handlers an event asks for, and the queue of
  pending functors, first as the sequential code, then as a step relation that interleaves
  the loop thread with other threads that submit functors.
\<close>

section \<open>State\<close>

type_synonym chan = nat

record 'k EventDispatcher =
  stop :: bool
  selector :: "'k EpollSelector"
  channels :: "int \<rightharpoonup> chan"
  wakeup_fds :: "nat \<rightharpoonup> int"

record Channel =
  ch_fd :: int
  ch_events :: int
  ch_attached :: bool
  ch_self :: chan

text \<open>The constructor assigns \<^verbatim>\<open>_wakeup_fds[1]\<close> twice and never \<^verbatim>\<open>_wakeup_fds[0]\<close>; \<open>wfd\<close> is the eventfd
  of the wake-up channel.\<close>

definition new_EventDispatcher :: "'k EpollSelector \<Rightarrow> int \<Rightarrow> 'k EventDispatcher" where
  "new_EventDispatcher sel wfd =
     \<lparr>stop = False, selector = sel, channels = Map.empty, wakeup_fds = Map.empty(1 \<mapsto> 0, 1 \<mapsto> wfd)\<rparr>"

text \<open>\<open>wr\<close> is the system call \<^verbatim>\<open>write\<close>: the number of bytes written to a descriptor. Reading an
  array element that was never assigned is undefined.\<close>

definition Wakeup :: "(int \<Rightarrow> int) \<Rightarrow> 'k EventDispatcher \<Rightarrow> unit or_abort option" where
  "Wakeup wr d =
     do { fd \<leftarrow> wakeup_fds d 0; Some (if wr fd \<noteq> 8 then Aborted else Done ()) }"

definition Stop :: "(int \<Rightarrow> int) \<Rightarrow> 'k EventDispatcher \<Rightarrow> ('k EventDispatcher \<times> unit or_abort) option" where
  "Stop wr d = (let d = d\<lparr>stop := True\<rparr> in do { r \<leftarrow> Wakeup wr d; Some (d, r) })"

section \<open>Channels\<close>

text \<open>\<^verbatim>\<open>unordered_map::insert\<close> does not replace an entry that is there.\<close>

definition RegisterChannel :: "(epoll_op \<Rightarrow> int \<Rightarrow> int \<Rightarrow> 'k \<Rightarrow> int \<times> 'k) \<Rightarrow> 'k EventDispatcher \<Rightarrow> Channel \<Rightarrow>
    'k EventDispatcher or_abort" where
  "RegisterChannel ctl d c =
     (case epoll_Add ctl (selector d) (ch_fd c) (ch_events c) of
        Aborted \<Rightarrow> Aborted
      | Done (_, s) \<Rightarrow>
          Done (d\<lparr>selector := s,
                  channels := (if ch_fd c \<in> dom (channels d) then channels d else (channels d)(ch_fd c \<mapsto> ch_self c))\<rparr>))"

definition UpdateChannel :: "(epoll_op \<Rightarrow> int \<Rightarrow> int \<Rightarrow> 'k \<Rightarrow> int \<times> 'k) \<Rightarrow> 'k EventDispatcher \<Rightarrow> Channel \<Rightarrow>
    'k EventDispatcher or_abort" where
  "UpdateChannel ctl d c =
     (case epoll_Update ctl (selector d) (ch_fd c) (ch_events c) of
        Aborted \<Rightarrow> Aborted | Done (_, s) \<Rightarrow> Done (d\<lparr>selector := s\<rparr>))"

text \<open>As built without \<^verbatim>\<open>DEBUG\<close>, so that \<^verbatim>\<open>assert\<close> is compiled out.\<close>

definition RemoveChannel :: "(epoll_op \<Rightarrow> int \<Rightarrow> int \<Rightarrow> 'k \<Rightarrow> int \<times> 'k) \<Rightarrow> 'k EventDispatcher \<Rightarrow> Channel \<Rightarrow>
    'k EventDispatcher or_abort" where
  "RemoveChannel ctl d c =
     (case epoll_Remove ctl (selector d) (ch_fd c) of
        Aborted \<Rightarrow> Aborted
      | Done (_, s) \<Rightarrow> Done (d\<lparr>selector := s, channels := (channels d)(ch_fd c := None)\<rparr>))"

definition findChannel :: "'k EventDispatcher \<Rightarrow> int \<Rightarrow> chan option" where
  "findChannel d fd = channels d fd"

definition channel_Update :: "(epoll_op \<Rightarrow> int \<Rightarrow> int \<Rightarrow> 'k \<Rightarrow> int \<times> 'k) \<Rightarrow> 'k EventDispatcher \<Rightarrow> Channel \<Rightarrow>
    ('k EventDispatcher \<times> Channel) or_abort" where
  "channel_Update ctl d c =
     (if ch_attached c
      then (case UpdateChannel ctl d c of Aborted \<Rightarrow> Aborted | Done d \<Rightarrow> Done (d, c))
      else (case RegisterChannel ctl d c of Aborted \<Rightarrow> Aborted | Done d \<Rightarrow> Done (d, c\<lparr>ch_attached := True\<rparr>)))"

definition SetEvents :: "(epoll_op \<Rightarrow> int \<Rightarrow> int \<Rightarrow> 'k \<Rightarrow> int \<times> 'k) \<Rightarrow> 'k EventDispatcher \<Rightarrow> Channel \<Rightarrow> int \<Rightarrow>
    ('k EventDispatcher \<times> Channel) or_abort" where
  "SetEvents ctl d c events = channel_Update ctl d (c\<lparr>ch_events := events\<rparr>)"

definition EnableRead :: "(epoll_op \<Rightarrow> int \<Rightarrow> int \<Rightarrow> 'k \<Rightarrow> int \<times> 'k) \<Rightarrow> 'k EventDispatcher \<Rightarrow> Channel \<Rightarrow>
    ('k EventDispatcher \<times> Channel) or_abort" where
  "EnableRead ctl d c = SetEvents ctl d c (ch_events c OR EV_READ)"

definition EnableWrite :: "(epoll_op \<Rightarrow> int \<Rightarrow> int \<Rightarrow> 'k \<Rightarrow> int \<times> 'k) \<Rightarrow> 'k EventDispatcher \<Rightarrow> Channel \<Rightarrow>
    ('k EventDispatcher \<times> Channel) or_abort" where
  "EnableWrite ctl d c = SetEvents ctl d c (ch_events c OR EV_WRITE)"

definition DisableWrite :: "(epoll_op \<Rightarrow> int \<Rightarrow> int \<Rightarrow> 'k \<Rightarrow> int \<times> 'k) \<Rightarrow> 'k EventDispatcher \<Rightarrow> Channel \<Rightarrow>
    ('k EventDispatcher \<times> Channel) or_abort" where
  "DisableWrite ctl d c = SetEvents ctl d c (ch_events c AND NOT EV_WRITE)"

definition IsWritable :: "int \<Rightarrow> bool" where
  "IsWritable events \<longleftrightarrow> events AND EV_WRITE \<noteq> 0"

text \<open>The handlers \<^verbatim>\<open>HandleEvent\<close> calls, in order.\<close>

datatype handler = HRead | HWrite | HError

definition HandleEvent :: "int \<Rightarrow> handler list" where
  "HandleEvent revs =
     (if revs = EV_NONE then []
      else (if revs AND EV_READ \<noteq> 0 then [HRead] else []) @
           (if revs AND EV_WRITE \<noteq> 0 then [HWrite] else []) @
           (if revs AND EV_ERROR \<noteq> 0 then [HError] else []))"

section \<open>Pending functors, sequentially\<close>

record 'f Pending =
  functors :: "'f list"
  pf_done :: bool
  calling :: bool
  executed :: "'f list"

definition addPendingFunctor :: "'f \<Rightarrow> 'f Pending \<Rightarrow> 'f Pending" where
  "addPendingFunctor f p = p\<lparr>functors := functors p @ [f], pf_done := False\<rparr>"

text \<open>\<open>act\<close> is what calling a functor does; it may queue more functors. \<open>executed\<close> records the calls.\<close>

fun call_all :: "('f \<Rightarrow> 'f Pending \<Rightarrow> 'f Pending) \<Rightarrow> 'f list \<Rightarrow> 'f Pending \<Rightarrow> 'f Pending" where
  "call_all act [] p = p"
| "call_all act (f # fs) p = call_all act fs (act f (p\<lparr>executed := executed p @ [f]\<rparr>))"

definition runPendingFunctor :: "('f \<Rightarrow> 'f Pending \<Rightarrow> 'f Pending) \<Rightarrow> 'f Pending \<Rightarrow> 'f Pending" where
  "runPendingFunctor act p =
     (let p = p\<lparr>calling := True\<rparr>;
          fs = functors p;
          p = call_all act fs (p\<lparr>functors := []\<rparr>)
      in p\<lparr>calling := False, pf_done := True\<rparr>)"

definition RunInEvd :: "(int \<Rightarrow> int) \<Rightarrow> ('f \<Rightarrow> 'f Pending \<Rightarrow> 'f Pending) \<Rightarrow> bool \<Rightarrow> 'f \<Rightarrow>
    'k EventDispatcher \<Rightarrow> 'f Pending \<Rightarrow> ('f Pending \<times> unit or_abort) option" where
  "RunInEvd wr act in_evd f d p =
     (if in_evd then Some (act f (p\<lparr>executed := executed p @ [f]\<rparr>), Done ())
      else (let p = addPendingFunctor f p
            in if calling p then do { r \<leftarrow> Wakeup wr d; Some (p, r) } else Some (p, Done ())))"

section \<open>Pending functors, interleaved\<close>

datatype loop_pc = Polling | Entered | Running | Leaving

datatype 'f caller_pc = Submitting 'f | Pushed 'f | Cleared 'f | Waking 'f | Waiting 'f | Returned 'f

record 'f conc =
  c_functors :: "'f list"
  c_batch :: "'f list"
  c_done :: bool
  c_calling :: bool
  c_loop :: loop_pc
  c_callers :: "nat \<rightharpoonup> 'f caller_pc"
  c_submitted :: "'f list"
  c_executed :: "'f list"

definition conc_init :: "(nat \<rightharpoonup> 'f) \<Rightarrow> 'f conc" where
  "conc_init jobs =
     \<lparr>c_functors = [], c_batch = [], c_done = True, c_calling = False, c_loop = Polling,
      c_callers = (\<lambda>t. map_option Submitting (jobs t)), c_submitted = [], c_executed = []\<rparr>"

text \<open>The loop thread runs \<^verbatim>\<open>runPendingFunctor\<close> again and again; every other thread \<open>t\<close> makes one
  call of \<^verbatim>\<open>SyncRunInEvd\<close> on the dispatcher \<open>d\<close>: it pushes its functor under the lock, clears the flag
  \<^verbatim>\<open>_pending_functor_done\<close> after releasing it, looks at \<^verbatim>\<open>_calling_pending_functor\<close> and wakes the loop up if that is set,
  and spins until the flag is set. A wake-up that is undefined is no step.\<close>

inductive cstep :: "(int \<Rightarrow> int) \<Rightarrow> 'k EventDispatcher \<Rightarrow> 'f conc \<Rightarrow> 'f conc \<Rightarrow> bool" for wr d where
  enter: "c_loop s = Polling \<Longrightarrow> cstep wr d s (s\<lparr>c_calling := True, c_loop := Entered\<rparr>)"
| swap: "c_loop s = Entered \<Longrightarrow>
    cstep wr d s (s\<lparr>c_batch := c_functors s, c_functors := [], c_loop := Running\<rparr>)"
| run: "c_loop s = Running \<Longrightarrow> c_batch s = f # fs \<Longrightarrow>
    cstep wr d s (s\<lparr>c_batch := fs, c_executed := c_executed s @ [f]\<rparr>)"
| leave: "c_loop s = Running \<Longrightarrow> c_batch s = [] \<Longrightarrow> cstep wr d s (s\<lparr>c_calling := False, c_loop := Leaving\<rparr>)"
| finish: "c_loop s = Leaving \<Longrightarrow> cstep wr d s (s\<lparr>c_done := True, c_loop := Polling\<rparr>)"
| push: "c_callers s t = Some (Submitting f) \<Longrightarrow>
    cstep wr d s (s\<lparr>c_functors := c_functors s @ [f], c_submitted := c_submitted s @ [f],
              c_callers := (c_callers s)(t \<mapsto> Pushed f)\<rparr>)"
| clear: "c_callers s t = Some (Pushed f) \<Longrightarrow>
    cstep wr d s (s\<lparr>c_done := False, c_callers := (c_callers s)(t \<mapsto> Cleared f)\<rparr>)"
| look: "c_callers s t = Some (Cleared f) \<Longrightarrow>
    cstep wr d s (s\<lparr>c_callers := (c_callers s)(t \<mapsto> (if c_calling s then Waking f else Waiting f))\<rparr>)"
| wake: "c_callers s t = Some (Waking f) \<Longrightarrow> Wakeup wr d = Some (Done ()) \<Longrightarrow>
    cstep wr d s (s\<lparr>c_callers := (c_callers s)(t \<mapsto> Waiting f)\<rparr>)"
| return: "c_callers s t = Some (Waiting f) \<Longrightarrow> c_done s \<Longrightarrow>
    cstep wr d s (s\<lparr>c_callers := (c_callers s)(t \<mapsto> Returned f)\<rparr>)"

inductive creach :: "(int \<Rightarrow> int) \<Rightarrow> 'k EventDispatcher \<Rightarrow> (nat \<rightharpoonup> 'f) \<Rightarrow> 'f conc \<Rightarrow> bool" for wr d jobs where
  init: "creach wr d jobs (conc_init jobs)"
| step: "creach wr d jobs s \<Longrightarrow> cstep wr d s s' \<Longrightarrow> creach wr d jobs s'"

inductive_cases cstep_cases: "cstep wr d s s'"

section \<open>Lemmas\<close>

lemma call_all_executed:
  assumes "\<And>f p. executed (act f p) = executed p" "\<And>f p. \<exists>gs. functors (act f p) = functors p @ gs"
  shows "executed (call_all act fs p) = executed p @ fs \<and> (\<exists>gs. functors (call_all act fs p) = functors p @ gs)"
proof (induction fs arbitrary: p)
  case (Cons f fs)
  from Cons.IH [of "act f (p\<lparr>executed := executed p @ [f]\<rparr>)"] assms(1) assms(2) [of f "p\<lparr>executed := executed p @ [f]\<rparr>"]
  show ?case by auto
qed simp

text \<open>The invariant of the interleaving: nothing is lost, duplicated or reordered, and the batch is
  non-empty only while the loop runs it.\<close>

definition conc_inv :: "'f conc \<Rightarrow> bool" where
  "conc_inv s \<longleftrightarrow> c_submitted s = c_executed s @ c_batch s @ c_functors s \<and>
     (c_batch s \<noteq> [] \<longrightarrow> c_loop s = Running)"

lemma cstep_inv: "cstep wr d s s' \<Longrightarrow> conc_inv s \<Longrightarrow> conc_inv s'"
  by (induction rule: cstep.induct) (auto simp: conc_inv_def)

lemma creach_inv: "creach wr d jobs s \<Longrightarrow> conc_inv s"
proof (induction rule: creach.induct)
  case init
  show ?case by (simp add: conc_inv_def conc_init_def)
next
  case (step s s')
  then show ?case using cstep_inv by blast
qed

text \<open>\<^verbatim>\<open>epoll_ctl\<close> as documented: adding needs a valid descriptor that is not registered, modifying and
  deleting need a registered one; \<open>tab\<close> reads the interest list off the kernel's state.\<close>

definition ctl_ok :: "(epoll_op \<Rightarrow> int \<Rightarrow> int \<Rightarrow> 'k \<Rightarrow> int \<times> 'k) \<Rightarrow> ('k \<Rightarrow> int \<rightharpoonup> int) \<Rightarrow> bool" where
  "ctl_ok ctl tab \<longleftrightarrow> (\<forall>k fd m.
     (if 0 \<le> fd \<and> tab k fd = None
      then fst (ctl EPOLL_CTL_ADD fd m k) = 0 \<and> tab (snd (ctl EPOLL_CTL_ADD fd m k)) = (tab k)(fd \<mapsto> m)
      else fst (ctl EPOLL_CTL_ADD fd m k) = - 1) \<and>
     (if tab k fd \<noteq> None
      then fst (ctl EPOLL_CTL_MOD fd m k) = 0 \<and> tab (snd (ctl EPOLL_CTL_MOD fd m k)) = (tab k)(fd \<mapsto> m)
      else fst (ctl EPOLL_CTL_MOD fd m k) = - 1) \<and>
     (if tab k fd \<noteq> None
      then fst (ctl EPOLL_CTL_DEL fd m k) = 0 \<and> tab (snd (ctl EPOLL_CTL_DEL fd m k)) = (tab k)(fd := None)
      else fst (ctl EPOLL_CTL_DEL fd m k) = - 1))"

lemma ctl_okD:
  assumes "ctl_ok ctl tab"
  shows "0 \<le> fd \<Longrightarrow> tab k fd = None \<Longrightarrow> \<exists>k'. ctl EPOLL_CTL_ADD fd m k = (0, k') \<and> tab k' = (tab k)(fd \<mapsto> m)"
    "tab k fd \<noteq> None \<Longrightarrow> \<exists>k'. ctl EPOLL_CTL_MOD fd m k = (0, k') \<and> tab k' = (tab k)(fd \<mapsto> m)"
    "tab k fd \<noteq> None \<Longrightarrow> \<exists>k'. ctl EPOLL_CTL_DEL fd m k = (0, k') \<and> tab k' = (tab k)(fd := None)"
    "tab k fd = None \<Longrightarrow> fst (ctl EPOLL_CTL_MOD fd m k) = - 1"
  using assms unfolding ctl_ok_def by (metis prod.collapse)+

text \<open>The dispatcher's channel table, the kernel's interest list and the channels \<open>cs\<close> agree.\<close>

definition in_sync :: "('k \<Rightarrow> int \<rightharpoonup> int) \<Rightarrow> 'k EventDispatcher \<Rightarrow> (chan \<rightharpoonup> Channel) \<Rightarrow> bool" where
  "in_sync tab d cs \<longleftrightarrow>
     (\<forall>i c. cs i = Some c \<longrightarrow> ch_self c = i \<and> (ch_attached c \<longrightarrow> channels d (ch_fd c) = Some i)) \<and>
     (\<forall>fd i. channels d fd = Some i \<longrightarrow> (\<exists>c. cs i = Some c \<and> ch_fd c = fd \<and> ch_attached c)) \<and>
     (\<forall>fd. tab (kern (selector d)) fd =
        (case channels d fd of None \<Rightarrow> None | Some i \<Rightarrow> map_option (\<lambda>c. epoll_mask (ch_events c)) (cs i)))"

lemma in_syncD:
  "in_sync tab d cs \<Longrightarrow> cs i = Some c \<Longrightarrow> ch_attached c \<Longrightarrow>
     channels d (ch_fd c) = Some i \<and> tab (kern (selector d)) (ch_fd c) = Some (epoll_mask (ch_events c))"
  by (auto simp: in_sync_def)

text \<open>One entry is set in the table and in the interest list: the views still agree.\<close>

lemma in_sync_entry:
  assumes s: "in_sync tab d cs" and c: "cs i = Some c" and own: "ch_attached c \<or> ch_fd c \<notin> dom (channels d)"
    and upd: "channels d' = (channels d)(ch_fd c \<mapsto> i)"
      "tab (kern (selector d')) = (tab (kern (selector d)))(ch_fd c \<mapsto> epoll_mask ev)"
  shows "in_sync tab d' (cs(i \<mapsto> c\<lparr>ch_events := ev, ch_attached := True\<rparr>))"
proof -
  let ?c = "c\<lparr>ch_events := ev, ch_attached := True\<rparr>"
  note sy = s [unfolded in_sync_def]
  have tab: "tab (kern (selector d)) fd = (case channels d fd of None \<Rightarrow> None | Some i \<Rightarrow> map_option (\<lambda>c. epoll_mask (ch_events c)) (cs i))" for fd
    using sy by blast
  have ni: "channels d fd \<noteq> Some i" if "fd \<noteq> ch_fd c" for fd using sy c that by fastforce
  then have "tab (kern (selector d')) fd = (case channels d' fd of None \<Rightarrow> None
      | Some j \<Rightarrow> map_option (\<lambda>c. epoll_mask (ch_events c)) ((cs(i \<mapsto> ?c)) j))" for fd
    using upd tab [of fd] by (auto split: option.split)
  moreover have "ch_self x = j \<and> (ch_attached x \<longrightarrow> channels d' (ch_fd x) = Some j)" if "(cs(i \<mapsto> ?c)) j = Some x" for j x
  proof (cases "j = i")
    case True
    then show ?thesis using that upd(1) sy c by auto
  next
    case False
    then have x: "ch_self x = j" "ch_attached x \<Longrightarrow> channels d (ch_fd x) = Some j" using that sy by auto
    moreover have "ch_fd x \<noteq> ch_fd c" if "ch_attached x"
      using x(2) [OF that] sy c own False by auto
    ultimately show ?thesis using upd(1) by auto
  qed
  moreover have "\<exists>x. (cs(i \<mapsto> ?c)) j = Some x \<and> ch_fd x = fd \<and> ch_attached x" if "channels d' fd = Some j" for fd j
    using that sy c ni [of fd] upd(1) by (cases "fd = ch_fd c") auto
  ultimately show ?thesis unfolding in_sync_def by blast
qed

lemma SetEvents_sync:
  assumes "ctl_ok ctl tab" and "in_sync tab d cs" and "cs i = Some c"
    and "\<not> ch_attached c \<longrightarrow> 0 \<le> ch_fd c \<and> ch_fd c \<notin> dom (channels d)"
  shows "\<exists>d' c'. SetEvents ctl d c ev = Done (d', c') \<and> c' = c\<lparr>ch_events := ev, ch_attached := True\<rparr> \<and>
    in_sync tab d' (cs(i \<mapsto> c'))"
proof -
  let ?k = "kern (selector d)" and ?c = "c\<lparr>ch_events := ev, ch_attached := True\<rparr>"
  note s = assms(2) [unfolded in_sync_def]
  have tab: "tab ?k fd = (case channels d fd of None \<Rightarrow> None | Some i \<Rightarrow> map_option (\<lambda>c. epoll_mask (ch_events c)) (cs i))" for fd
    using s by blast
  note new = in_sync_entry [OF assms(2,3), of _ ev]
  show ?thesis
  proof (cases "ch_attached c")
    case True
    then have ch: "channels d (ch_fd c) = Some i" using s assms(3) by auto
    then have "tab ?k (ch_fd c) \<noteq> None" using tab assms(3) by auto
    from ctl_okD(2) [OF assms(1) this, of "epoll_mask ev"] obtain k where
      k: "ctl EPOLL_CTL_MOD (ch_fd c) (epoll_mask ev) ?k = (0, k)" "tab k = (tab ?k)(ch_fd c \<mapsto> epoll_mask ev)" by blast
    have c: "?c = c\<lparr>ch_events := ev\<rparr>" using True by simp
    have "in_sync tab (d\<lparr>selector := (selector d)\<lparr>kern := k\<rparr>\<rparr>) (cs(i \<mapsto> ?c))"
      by (rule new) (simp_all add: True ch k(2) fun_upd_idem)
    then show ?thesis using k(1) True unfolding c
      by (simp add: SetEvents_def channel_Update_def UpdateChannel_def epoll_Update_def)
  next
    case False
    then have ch: "0 \<le> ch_fd c" "channels d (ch_fd c) = None" using assms(4) by auto
    then have "tab ?k (ch_fd c) = None" using tab by simp
    from ctl_okD(1) [OF assms(1) ch(1) this, of "epoll_mask ev"] obtain k where
      k: "ctl EPOLL_CTL_ADD (ch_fd c) (epoll_mask ev) ?k = (0, k)" "tab k = (tab ?k)(ch_fd c \<mapsto> epoll_mask ev)" by blast
    have "ch_self c = i" using s assms(3) by auto
    then show ?thesis using k new [of "d\<lparr>selector := (selector d)\<lparr>kern := k\<rparr>, channels := (channels d)(ch_fd c \<mapsto> i)\<rparr>"] ch(2) False
      by (simp add: SetEvents_def channel_Update_def RegisterChannel_def epoll_Add_def domIff)
  qed
qed

lemma in_sync_chan: "in_sync tab d cs \<Longrightarrow> channels d fd = Some i \<Longrightarrow> \<exists>c. cs i = Some c \<and> ch_fd c = fd \<and> ch_attached c"
  unfolding in_sync_def by blast

lemma in_sync_fresh:
  assumes "in_sync tab d cs" and "cs (ch_self c) = None" and "\<not> ch_attached c"
  shows "in_sync tab d (cs(ch_self c \<mapsto> c))"
proof -
  have n: "channels d fd \<noteq> Some (ch_self c)" for fd using in_sync_chan [OF assms(1), of fd "ch_self c"] assms(2) by auto
  then have "tab (kern (selector d)) fd = (case channels d fd of None \<Rightarrow> None
      | Some i \<Rightarrow> map_option (\<lambda>c. epoll_mask (ch_events c)) ((cs(ch_self c \<mapsto> c)) i))" for fd
    using assms(1) by (auto simp: in_sync_def split: option.splits)
  moreover have "\<exists>x. (cs(ch_self c \<mapsto> c)) i = Some x \<and> ch_fd x = fd \<and> ch_attached x" if "channels d fd = Some i" for fd i
    using that assms(1) n [of fd] by (auto simp: in_sync_def)
  ultimately show ?thesis using assms by (auto simp: in_sync_def)
qed

lemma RemoveChannel_sync:
  assumes "ctl_ok ctl tab" and "in_sync tab d cs" and "cs i = Some c" and "ch_attached c"
  shows "\<exists>d'. RemoveChannel ctl d c = Done d' \<and> in_sync tab d' (cs(i := None)) \<and> channels d' = (channels d)(ch_fd c := None) \<and>
    tab (kern (selector d')) (ch_fd c) = None"
proof -
  note s = in_syncD [OF assms(2,3,4)]
  then have "tab (kern (selector d)) (ch_fd c) \<noteq> None" by simp
  from ctl_okD(3) [OF assms(1) this, of 0] obtain k where k: "ctl EPOLL_CTL_DEL (ch_fd c) 0 (kern (selector d)) = (0, k)"
    "tab k = (tab (kern (selector d)))(ch_fd c := None)" by blast
  let ?d = "d\<lparr>selector := (selector d)\<lparr>kern := k\<rparr>, channels := (channels d)(ch_fd c := None)\<rparr>"
  have "RemoveChannel ctl d c = Done ?d" using k(1) by (simp add: RemoveChannel_def epoll_Remove_def)
  moreover have o: "channels d fd \<noteq> Some i" if "fd \<noteq> ch_fd c" for fd using assms(2,3) that by (fastforce simp: in_sync_def)
  have "in_sync tab ?d (cs(i := None))"
  proof -
    have "tab k fd = (case ((channels d)(ch_fd c := None)) fd of None \<Rightarrow> None
        | Some j \<Rightarrow> map_option (\<lambda>c. epoll_mask (ch_events c)) ((cs(i := None)) j))" for fd
      using assms(2) o [of fd] k(2) by (auto simp: in_sync_def split: option.splits)
    moreover have "ch_fd x \<noteq> ch_fd c" if "cs j = Some x" "j \<noteq> i" "ch_attached x" for j x
      using in_syncD [OF assms(2) that(1,3)] s that(2) by auto
    ultimately show ?thesis using assms(2) o by (auto simp: in_sync_def)
  qed
  ultimately show ?thesis using k(2) by auto
qed

section \<open>Properties\<close>

text \<open>C22: under every interleaving of the loop thread with any number of submitting threads, up to a wake-up that is undefined, the
  functors submitted so far are, in the order of submission, those already executed, those of the
  batch being run and those still queued: no functor is lost, run twice or overtaken. And with a dispatcher as it is constructed, a thread that
  has found \<^verbatim>\<open>_calling_pending_functor\<close> set does not get any further: its next statement uses a descriptor that is not set.\<close>

theorem functors_fifo_exactly_once:
  assumes "creach wr d jobs s"
  shows "c_submitted s = c_executed s @ c_batch s @ c_functors s \<and>
    (wakeup_fds d = wakeup_fds (new_EventDispatcher sel wfd) \<longrightarrow>
       (\<forall>t f s'. c_callers s t = Some (Waking f) \<longrightarrow> cstep wr d s s' \<longrightarrow> c_callers s' t = Some (Waking f)))"
proof (intro conjI impI allI)
  show "c_submitted s = c_executed s @ c_batch s @ c_functors s" using creach_inv [OF assms] by (simp add: conc_inv_def)
  fix t f s'
  assume "wakeup_fds d = wakeup_fds (new_EventDispatcher sel wfd)" "c_callers s t = Some (Waking f)" "cstep wr d s s'"
  then show "c_callers s' t = Some (Waking f)"
    by (auto elim!: cstep_cases simp: Wakeup_def new_EventDispatcher_def)
qed

theorem functors_fifo_exactly_once_witness:
  "\<exists>s. creach (\<lambda>_. 8) (new_EventDispatcher \<lparr>kern = (), ev_cap = 10\<rparr> 4) [0 \<mapsto> (5::nat)] s \<and> c_callers s 0 = Some (Waking 5) \<and> c_submitted s = [5] \<and> [5] = c_executed s @ c_batch s @ c_functors s"
proof -
  let ?r = "creach (\<lambda>_. 8) (new_EventDispatcher \<lparr>kern = (), ev_cap = 10\<rparr> 4)"
  let ?s0 = "conc_init [0 \<mapsto> (5::nat)]"
  let ?s1 = "?s0\<lparr>c_calling := True, c_loop := Entered\<rparr>"
  let ?s2 = "?s1\<lparr>c_functors := c_functors ?s1 @ [5], c_submitted := c_submitted ?s1 @ [5],
    c_callers := (c_callers ?s1)(0 \<mapsto> Pushed 5)\<rparr>"
  let ?s3 = "?s2\<lparr>c_done := False, c_callers := (c_callers ?s2)(0 \<mapsto> Cleared 5)\<rparr>"
  let ?s4 = "?s3\<lparr>c_callers := (c_callers ?s3)(0 \<mapsto> (if c_calling ?s3 then Waking 5 else Waiting 5))\<rparr>"
  have "?r [0 \<mapsto> 5] ?s1" by (rule creach.step [OF creach.init], rule cstep.enter) (simp add: conc_init_def)
  then have "?r [0 \<mapsto> 5] ?s2" by (rule creach.step) (rule cstep.push, simp add: conc_init_def)
  then have "?r [0 \<mapsto> 5] ?s3" by (rule creach.step) (rule cstep.clear, simp)
  then have r: "?r [0 \<mapsto> 5] ?s4" by (rule creach.step) (rule cstep.look, simp)
  have "c_submitted ?s4 = [5]" "c_callers ?s4 0 = Some (Waking 5)" by (simp_all add: conc_init_def)
  with functors_fifo_exactly_once [OF r] r show ?thesis by (metis (no_types, lifting))
qed

text \<open>A thread that calls \<^verbatim>\<open>SyncRunInEvd\<close> can return before its functor has run: when the loop
  thread has swapped the queue out before the functor was pushed but sets
  \<^verbatim>\<open>_pending_functor_done\<close> after the caller has cleared it, the caller sees the flag of the batch that
  did not contain its functor. \<^verbatim>\<open>Connection::ForceClose\<close> relies on the functor having run.\<close>

theorem sync_run_returns_early:
  "\<exists>s. creach wr d [0 \<mapsto> f] s \<and> c_callers s 0 = Some (Returned f) \<and> c_executed s = []"
proof -
  let ?s0 = "conc_init [0 \<mapsto> f]"
  let ?s1 = "?s0\<lparr>c_calling := True, c_loop := Entered\<rparr>"
  let ?s2 = "?s1\<lparr>c_batch := c_functors ?s1, c_functors := [], c_loop := Running\<rparr>"
  let ?s3 = "?s2\<lparr>c_calling := False, c_loop := Leaving\<rparr>"
  let ?s4 = "?s3\<lparr>c_functors := c_functors ?s3 @ [f], c_submitted := c_submitted ?s3 @ [f],
    c_callers := (c_callers ?s3)(0 \<mapsto> Pushed f)\<rparr>"
  let ?s5 = "?s4\<lparr>c_done := False, c_callers := (c_callers ?s4)(0 \<mapsto> Cleared f)\<rparr>"
  let ?s6 = "?s5\<lparr>c_callers := (c_callers ?s5)(0 \<mapsto> (if c_calling ?s5 then Waking f else Waiting f))\<rparr>"
  let ?s7 = "?s6\<lparr>c_done := True, c_loop := Polling\<rparr>"
  let ?s8 = "?s7\<lparr>c_callers := (c_callers ?s7)(0 \<mapsto> Returned f)\<rparr>"
  have "creach wr d [0 \<mapsto> f] ?s0" by (rule creach.init)
  then have "creach wr d [0 \<mapsto> f] ?s1" by (rule creach.step) (rule cstep.enter, simp add: conc_init_def)
  then have "creach wr d [0 \<mapsto> f] ?s2" by (rule creach.step) (rule cstep.swap, simp)
  then have "creach wr d [0 \<mapsto> f] ?s3" by (rule creach.step) (rule cstep.leave, simp_all add: conc_init_def)
  then have "creach wr d [0 \<mapsto> f] ?s4" by (rule creach.step) (rule cstep.push, simp add: conc_init_def)
  then have "creach wr d [0 \<mapsto> f] ?s5" by (rule creach.step) (rule cstep.clear, simp)
  then have "creach wr d [0 \<mapsto> f] ?s6" by (rule creach.step) (rule cstep.look, simp)
  then have "creach wr d [0 \<mapsto> f] ?s7" by (rule creach.step) (rule cstep.finish, simp)
  then have "creach wr d [0 \<mapsto> f] ?s8" by (rule creach.step) (rule cstep.return, simp_all)
  then show ?thesis by (rule exI [of _ ?s8, OF conjI]) (simp add: conc_init_def)
qed

text \<open>\<^verbatim>\<open>runPendingFunctor\<close> calls exactly the functors that were queued when it started, in
  order; functors queued by the calls themselves are kept, in order, for the next round, and the
  queue is marked as done although they have not run.\<close>

theorem runPendingFunctor_batch:
  assumes "\<And>f p. executed (act f p) = executed p" and "\<And>f p. \<exists>gs. functors (act f p) = functors p @ gs"
  shows "executed (runPendingFunctor act p) = executed p @ functors p \<and>
    (\<forall>f. functors p = [f] \<longrightarrow>
       functors (runPendingFunctor act p) = functors (act f (p\<lparr>calling := True, functors := [], executed := executed p @ [f]\<rparr>))) \<and>
    pf_done (runPendingFunctor act p) \<and> \<not> calling (runPendingFunctor act p)"
  using call_all_executed [where act = act and fs = "functors p" and p = "p\<lparr>calling := True, functors := []\<rparr>", OF assms]
  by (auto simp: runPendingFunctor_def Let_def)

theorem runPendingFunctor_batch_witness:
  "executed (runPendingFunctor (\<lambda>f p. if f = (1::nat) then p\<lparr>functors := functors p @ [9]\<rparr> else p)
     \<lparr>functors = [1, 2], pf_done = False, calling = False, executed = []\<rparr>) = [1, 2]"
  using runPendingFunctor_batch [of "\<lambda>f p. if f = (1::nat) then p\<lparr>functors := functors p @ [9]\<rparr> else p"
    "\<lparr>functors = [1, 2], pf_done = False, calling = False, executed = []\<rparr>"] by simp

text \<open>No dispatcher can be woken up: \<^verbatim>\<open>Wakeup\<close> writes to \<^verbatim>\<open>_wakeup_fds[0]\<close>, which the
  constructor never assigns (it assigns element 1 twice). So \<^verbatim>\<open>Stop\<close>, and a \<^verbatim>\<open>RunInEvd\<close> from another
  thread while functors are being called, use an uninitialised descriptor.\<close>

theorem wakeup_uninitialised:
  "Wakeup wr (new_EventDispatcher sel wfd) = None \<and> Stop wr (new_EventDispatcher sel wfd) = None \<and>
   RunInEvd wr act False f (new_EventDispatcher sel wfd) \<lparr>functors = fs, pf_done = b, calling = True, executed = es\<rparr> = None"
  by (simp add: Wakeup_def Stop_def RunInEvd_def addPendingFunctor_def new_EventDispatcher_def Let_def)

text \<open>Changing the events of a channel, the first time (which registers it under a fresh descriptor)
  or later, never aborts and keeps three views in agreement: the dispatcher's table of
  channels, the kernel's interest list and the channel's own event mask.\<close>

theorem SetEvents_keeps_sync:
  assumes "ctl_ok ctl tab" and "in_sync tab d cs" and "cs i = Some c"
    and "\<not> ch_attached c \<longrightarrow> 0 \<le> ch_fd c \<and> ch_fd c \<notin> dom (channels d)"
  shows "\<exists>d' c'. SetEvents ctl d c ev = Done (d', c') \<and> c' = c\<lparr>ch_events := ev, ch_attached := True\<rparr> \<and>
    in_sync tab d' (cs(i \<mapsto> c'))"
  by (rule SetEvents_sync [OF assms])

text \<open>The interest list itself as the kernel, for the examples.\<close>

fun demo_ctl :: "epoll_op \<Rightarrow> int \<Rightarrow> int \<Rightarrow> (int \<rightharpoonup> int) \<Rightarrow> int \<times> (int \<rightharpoonup> int)" where
  "demo_ctl EPOLL_CTL_ADD fd m k = (if 0 \<le> fd \<and> k fd = None then (0, k(fd \<mapsto> m)) else (- 1, k))"
| "demo_ctl EPOLL_CTL_MOD fd m k = (if k fd \<noteq> None then (0, k(fd \<mapsto> m)) else (- 1, k))"
| "demo_ctl EPOLL_CTL_DEL fd m k = (if k fd \<noteq> None then (0, k(fd := None)) else (- 1, k))"

lemma demo_ctl_ok: "ctl_ok demo_ctl (\<lambda>k. k)"
  by (simp add: ctl_ok_def)

definition demo_evd :: "(int \<rightharpoonup> int) EventDispatcher" where
  "demo_evd = new_EventDispatcher \<lparr>kern = Map.empty, ev_cap = 10\<rparr> 4"

definition demo_chan :: Channel where
  "demo_chan = \<lparr>ch_fd = 7, ch_events = EV_NONE, ch_attached = False, ch_self = 0\<rparr>"

theorem SetEvents_keeps_sync_witness:
  "\<exists>d' c'. SetEvents demo_ctl demo_evd demo_chan EV_READ = Done (d', c') \<and> kern (selector d') 7 = Some EPOLLIN \<and>
     findChannel d' 7 = Some 0"
proof -
  have "in_sync (\<lambda>k. k) demo_evd [0 \<mapsto> demo_chan]"
    by (auto simp: in_sync_def demo_evd_def demo_chan_def new_EventDispatcher_def)
  from SetEvents_keeps_sync [OF demo_ctl_ok this, of 0 demo_chan EV_READ] obtain d' c' where
    "SetEvents demo_ctl demo_evd demo_chan EV_READ = Done (d', c')" "c' = demo_chan\<lparr>ch_events := EV_READ, ch_attached := True\<rparr>"
    "in_sync (\<lambda>k. k) d' [0 \<mapsto> c']" by (auto simp: demo_evd_def demo_chan_def new_EventDispatcher_def)
  moreover from this(2) in_syncD [OF this(3), of 0 c'] have "channels d' 7 = Some 0" "kern (selector d') 7 = Some EPOLLIN"
    by (simp_all add: demo_chan_def epoll_mask_def event_bits)
  ultimately show ?thesis by (simp add: findChannel_def)
qed

end
