(* ===== verification/Connection.thy ===== *)
theory Connection
  imports Io_Buffer Event_Dispatcher
begin

text \<open>
  TCP connections (\<^verbatim>\<open>src/rpc/tcp/connection.cpp\<close>): a channel with an input and an output buffer.
  \<^verbatim>\<open>send\<close> writes to the socket when nothing is queued and queues the rest; \<^verbatim>\<open>HandleWrite\<close>
  continues when the socket is writable. The state \<open>conn_state\<close> holds the dispatcher, the
  connection, the bytes the kernel has taken for it and the descriptors closed; the results of
  \<^verbatim>\<open>send\<close> and \<^verbatim>\<open>readv\<close> are arguments. The theory proves that the stream the peer gets
  is exactly what was sent, and that write interest is on exactly while bytes are queued.
\<close>

section \<open>State\<close>

datatype conn_status = CONNECTING | CONNECTED | CLOSING | CLOSED

record 'x Connection =
  con_id :: int
  con_chan :: Channel
  con_status :: conn_status
  input_buf :: IoBuffer
  output_buf :: IoBuffer
  con_context :: "'x option"

record ('k, 'x) conn_state =
  cs_evd :: "'k EventDispatcher"
  cs_con :: "'x Connection"
  cs_wire :: bytes
  cs_closed :: "int list"

type_synonym ('k, 'x) conn_op = "('k, 'x) conn_state \<Rightarrow> ('k, 'x) conn_state or_abort option"

definition new_Connection :: "int \<Rightarrow> chan \<Rightarrow> int \<Rightarrow> 'x Connection" where
  "new_Connection cid self fd =
     \<lparr>con_id = cid, con_chan = \<lparr>ch_fd = fd, ch_events = EV_NONE, ch_attached = False, ch_self = self\<rparr>,
      con_status = CONNECTING, input_buf = new_IoBuffer kInitialSize, output_buf = new_IoBuffer kInitialSize,
      con_context = None\<rparr>"

section \<open>Operations\<close>

definition set_status :: "conn_status \<Rightarrow> ('k, 'x) conn_state \<Rightarrow> ('k, 'x) conn_state" where
  "set_status st s = s\<lparr>cs_con := (cs_con s)\<lparr>con_status := st\<rparr>\<rparr>"

text \<open>\<open>upd\<close> is one of \<^verbatim>\<open>EnableRead\<close>, \<^verbatim>\<open>EnableWrite\<close>, \<^verbatim>\<open>DisableWrite\<close> of the channel.\<close>

definition on_channel :: "('k EventDispatcher \<Rightarrow> Channel \<Rightarrow> ('k EventDispatcher \<times> Channel) or_abort) \<Rightarrow> ('k, 'x) conn_op" where
  "on_channel upd s =
     Some (case upd (cs_evd s) (con_chan (cs_con s)) of
        Aborted \<Rightarrow> Aborted
      | Done (d, c) \<Rightarrow> Done (s\<lparr>cs_evd := d, cs_con := (cs_con s)\<lparr>con_chan := c\<rparr>\<rparr>))"

definition establish :: "(epoll_op \<Rightarrow> int \<Rightarrow> int \<Rightarrow> 'k \<Rightarrow> int \<times> 'k) \<Rightarrow> ('k, 'x) conn_op" where
  "establish ctl s = and_then (on_channel (EnableRead ctl) s) (\<lambda>s. Some (Done (set_status CONNECTED s)))"

text \<open>The callbacks are arguments, \<open>None\<close> when they are not set. A failed \<^verbatim>\<open>readv\<close> aborts inside
  \<^verbatim>\<open>Retrieve\<close>.\<close>

definition conn_HandleRead :: "('k, 'x) conn_op option \<Rightarrow> ('k, 'x) conn_op option \<Rightarrow> readv_result \<Rightarrow> ('k, 'x) conn_op" where
  "conn_HandleRead message_cb close_cb r s =
     and_then (Retrieve (input_buf (cs_con s)) r) (\<lambda>(n, b).
       let s = s\<lparr>cs_con := (cs_con s)\<lparr>input_buf := b\<rparr>\<rparr> in
       if n > 0 then (case message_cb of Some cb \<Rightarrow> cb s | None \<Rightarrow> Some (Done s))
       else and_then (case close_cb of Some cb \<Rightarrow> cb (set_status CLOSING s) | None \<Rightarrow> Some (Done (set_status CLOSING s)))
              (\<lambda>s. Some (Done (set_status CLOSED s))))"

text \<open>The result of \<^verbatim>\<open>::send\<close>: the number of bytes taken, or an error number.\<close>

datatype send_result = Sent nat | Send_failed int

definition EPIPE :: int where "EPIPE = 32"
definition ECONNRESET :: int where "ECONNRESET = 104"

definition to_wire :: "bytes \<Rightarrow> ('k, 'x) conn_state \<Rightarrow> ('k, 'x) conn_state" where
  "to_wire d s = s\<lparr>cs_wire := cs_wire s @ d\<rparr>"

text \<open>\<^verbatim>\<open>HandleError\<close> is not overridden by \<^verbatim>\<open>Connection\<close> and does nothing.\<close>

definition conn_HandleWrite :: "(epoll_op \<Rightarrow> int \<Rightarrow> int \<Rightarrow> 'k \<Rightarrow> int \<times> 'k) \<Rightarrow> send_result \<Rightarrow> ('k, 'x) conn_op" where
  "conn_HandleWrite ctl r s =
     (let out = output_buf (cs_con s) in
      case read_at (buf out) (reader_index out) (ReadableBytes out) of
        None \<Rightarrow> None
      | Some d \<Rightarrow>
          (case r of
             Sent n \<Rightarrow>
               (if n > 0
                then let out = Seek out (int n);
                         s = to_wire (take n d) (s\<lparr>cs_con := (cs_con s)\<lparr>output_buf := out\<rparr>\<rparr>)
                     in if ReadableBytes out = 0 then on_channel (DisableWrite ctl) s else Some (Done s)
                else Some (Done s))
           | Send_failed e \<Rightarrow> Some (Done s)))"

text \<open>The second half of \<^verbatim>\<open>send\<close>: queue what the socket did not take.\<close>

definition send_queue :: "(epoll_op \<Rightarrow> int \<Rightarrow> int \<Rightarrow> 'k \<Rightarrow> int \<times> 'k) \<Rightarrow> bytes \<Rightarrow> ('k, 'x) conn_op" where
  "send_queue ctl rest s =
     (if rest = [] then Some (Done s)
      else case Put (output_buf (cs_con s)) rest of
        None \<Rightarrow> None
      | Some out \<Rightarrow>
          (let s = s\<lparr>cs_con := (cs_con s)\<lparr>output_buf := out\<rparr>\<rparr>
           in if \<not> IsWritable (ch_events (con_chan (cs_con s))) then on_channel (EnableWrite ctl) s else Some (Done s)))"

definition conn_send :: "(epoll_op \<Rightarrow> int \<Rightarrow> int \<Rightarrow> 'k \<Rightarrow> int \<times> 'k) \<Rightarrow> send_result \<Rightarrow> bytes \<Rightarrow> ('k, 'x) conn_op" where
  "conn_send ctl r data s =
     (if con_status (cs_con s) \<noteq> CONNECTED then Some (Done s)
      else if \<not> IsWritable (ch_events (con_chan (cs_con s))) \<and> ReadableBytes (output_buf (cs_con s)) = 0
      then (case r of
          Sent n \<Rightarrow> send_queue ctl (drop n data) (to_wire (take n data) s)
        | Send_failed e \<Rightarrow> (if e = EPIPE \<or> e = ECONNRESET then Some Aborted else send_queue ctl data s))
      else send_queue ctl data s)"

text \<open>\<^verbatim>\<open>ForceClose\<close> on the connection's own loop thread, where \<^verbatim>\<open>SyncRunInEvd\<close> runs the functor at once.\<close>

definition ForceClose :: "('k, 'x) conn_op option \<Rightarrow> ('k, 'x) conn_state \<Rightarrow> (int \<times> ('k, 'x) conn_state) or_abort option" where
  "ForceClose close_cb s =
     (if con_status (cs_con s) \<noteq> CONNECTED then Some (Done (- 1, s))
      else and_then (case close_cb of Some cb \<Rightarrow> cb (set_status CLOSING s) | None \<Rightarrow> Some (Done (set_status CLOSING s)))
        (\<lambda>s. Some (Done (0, set_status CLOSED (s\<lparr>cs_closed := cs_closed s @ [ch_fd (con_chan (cs_con s))]\<rparr>)))))"

section \<open>Runs\<close>

text \<open>Calls of \<^verbatim>\<open>send\<close> and writable events in any order, with the results of the system calls.\<close>

datatype write_event = WSend bytes send_result | WWritable send_result

primrec sent_bytes :: "write_event \<Rightarrow> bytes" where
  "sent_bytes (WSend d r) = d"
| "sent_bytes (WWritable r) = []"

primrec write_step :: "(epoll_op \<Rightarrow> int \<Rightarrow> int \<Rightarrow> 'k \<Rightarrow> int \<times> 'k) \<Rightarrow> write_event \<Rightarrow> ('k, 'x) conn_op" where
  "write_step ctl (WSend d r) = conn_send ctl r d"
| "write_step ctl (WWritable r) = conn_HandleWrite ctl r"

fun write_run :: "(epoll_op \<Rightarrow> int \<Rightarrow> int \<Rightarrow> 'k \<Rightarrow> int \<times> 'k) \<Rightarrow> write_event list \<Rightarrow> ('k, 'x) conn_op" where
  "write_run ctl [] s = Some (Done s)"
| "write_run ctl (e # es) s = and_then (write_step ctl e s) (write_run ctl es)"

text \<open>A reset connection ends the process; such results are excluded where bytes are counted.\<close>

fun event_ok :: "write_event \<Rightarrow> bool" where
  "event_ok (WSend d (Send_failed e)) \<longleftrightarrow> e \<noteq> EPIPE \<and> e \<noteq> ECONNRESET"
| "event_ok _ \<longleftrightarrow> True"

section \<open>Invariant\<close>

text \<open>The connection is up and registered, the buffers are well formed, and the channel asks for
  writable events exactly while there is something to write.\<close>

definition conn_ok :: "('k \<Rightarrow> int \<rightharpoonup> int) \<Rightarrow> (chan \<rightharpoonup> Channel) \<Rightarrow> ('k, 'x) conn_state \<Rightarrow> bool" where
  "conn_ok tab cs s \<longleftrightarrow>
     con_status (cs_con s) = CONNECTED \<and> ch_attached (con_chan (cs_con s)) \<and>
     buf_ok (output_buf (cs_con s)) \<and>
     (IsWritable (ch_events (con_chan (cs_con s))) \<longleftrightarrow> content (output_buf (cs_con s)) \<noteq> []) \<and>
     (\<exists>i. in_sync tab (cs_evd s) (cs(i \<mapsto> con_chan (cs_con s))))"

lemma IsWritable_bit: "IsWritable e \<longleftrightarrow> bit e 1"
  using and_exp_eq_0_iff_not_bit [of e 1] by (simp add: IsWritable_def EV_WRITE_def)

lemma IsWritable_bits [simp]: "IsWritable (e OR EV_WRITE)" "\<not> IsWritable (e AND NOT EV_WRITE)"
  by (simp_all add: IsWritable_bit bit_or_iff bit_and_iff bit_not_iff EV_WRITE_def bit_1_iff)

lemma Seek_any:
  assumes "buf_ok b"
  shows "buf_ok (Seek b (int n))" "content (Seek b (int n)) = drop n (content b)" "buf (Seek b (int n)) = buf b"
proof -
  let ?m = "min (int n) (ReadableBytes b)"
  have m: "0 \<le> ?m" "?m \<le> ReadableBytes b" using ReadableBytes_nonneg [OF assms] by auto
  have e: "Seek b (int n) = Seek b ?m" by (auto simp: Seek_def min_def)
  show "buf_ok (Seek b (int n))" "buf (Seek b (int n)) = buf b" using Seek_ok [OF assms m] e by simp_all
  have "drop (nat ?m) (content b) = drop n (content b)" using length_content [OF assms] by (auto simp: min_def)
  then show "content (Seek b (int n)) = drop n (content b)" using Seek_ok(2) [OF assms m] e by simp
qed

lemma on_channel_ok:
  assumes "ctl_ok ctl tab" and "in_sync tab (cs_evd s) (cs(i \<mapsto> con_chan (cs_con s)))" and "ch_attached (con_chan (cs_con s))"
    and "\<And>d c. upd d c = SetEvents ctl d c (g (ch_events c))"
  shows "\<exists>d. on_channel upd s = Some (Done (s\<lparr>cs_evd := d, cs_con := (cs_con s)\<lparr>con_chan :=
      (con_chan (cs_con s))\<lparr>ch_events := g (ch_events (con_chan (cs_con s)))\<rparr>\<rparr>\<rparr>)) \<and>
    in_sync tab d (cs(i \<mapsto> (con_chan (cs_con s))\<lparr>ch_events := g (ch_events (con_chan (cs_con s)))\<rparr>))"
proof -
  let ?c = "con_chan (cs_con s)" and ?ev = "g (ch_events (con_chan (cs_con s)))"
  from SetEvents_sync [OF assms(1,2), of i ?c ?ev] assms(3) obtain d where
    "SetEvents ctl (cs_evd s) ?c ?ev = Done (d, ?c\<lparr>ch_events := ?ev, ch_attached := True\<rparr>)"
    "in_sync tab d (cs(i \<mapsto> ?c\<lparr>ch_events := ?ev, ch_attached := True\<rparr>))" by auto
  moreover have "?c\<lparr>ch_events := ?ev, ch_attached := True\<rparr> = ?c\<lparr>ch_events := ?ev\<rparr>" using assms(3) by simp
  ultimately show ?thesis by (auto simp: on_channel_def assms(4))
qed

text \<open>What one step of writing does to an established connection: \<open>d\<close> is added to the stream.\<close>

definition stream_step :: "('k \<Rightarrow> int \<rightharpoonup> int) \<Rightarrow> (chan \<rightharpoonup> Channel) \<Rightarrow> ('k, 'x) conn_state \<Rightarrow> bytes \<Rightarrow>
    ('k, 'x) conn_state or_abort option \<Rightarrow> bool" where
  "stream_step tab cs s d r \<longleftrightarrow> (\<exists>s'. r = Some (Done s') \<and> conn_ok tab cs s' \<and>
     cs_wire s' @ content (output_buf (cs_con s')) = cs_wire s @ content (output_buf (cs_con s)) @ d \<and>
     length (buf (output_buf (cs_con s'))) \<le> length (buf (output_buf (cs_con s))) + length d)"

lemma send_queue_ok:
  assumes "ctl_ok ctl tab" and "conn_ok tab cs s" and "has_room (output_buf (cs_con s)) (length rest)"
  shows "stream_step tab cs s rest (send_queue ctl rest s)"
proof (cases "rest = []")
  case False
  from assms(2) have o: "buf_ok (output_buf (cs_con s))" by (simp add: conn_ok_def)
  from Put_ok [OF o assms(3)] obtain out where out: "Put (output_buf (cs_con s)) rest = Some out" "buf_ok out"
    "content out = content (output_buf (cs_con s)) @ rest" "length (buf out) \<le> length (buf (output_buf (cs_con s))) + length rest" .
  let ?s = "s\<lparr>cs_con := (cs_con s)\<lparr>output_buf := out\<rparr>\<rparr>"
  from assms(2) obtain i where i: "in_sync tab (cs_evd ?s) (cs(i \<mapsto> con_chan (cs_con ?s)))" by (auto simp: conn_ok_def)
  have a: "ch_attached (con_chan (cs_con ?s))" using assms(2) by (simp add: conn_ok_def)
  from on_channel_ok [OF assms(1) i a, of "EnableWrite ctl" "\<lambda>e. e OR EV_WRITE"]
  obtain d where "on_channel (EnableWrite ctl) ?s = Some (Done (?s\<lparr>cs_evd := d, cs_con := (cs_con ?s)\<lparr>con_chan :=
      (con_chan (cs_con s))\<lparr>ch_events := ch_events (con_chan (cs_con s)) OR EV_WRITE\<rparr>\<rparr>\<rparr>))"
    "in_sync tab d (cs(i \<mapsto> (con_chan (cs_con s))\<lparr>ch_events := ch_events (con_chan (cs_con s)) OR EV_WRITE\<rparr>))"
    by (auto simp: EnableWrite_def)
  then show ?thesis using out False assms(2) i by (auto simp: stream_step_def send_queue_def conn_ok_def Let_def)
qed (use assms in \<open>simp add: stream_step_def send_queue_def\<close>)

lemma conn_send_ok:
  assumes "ctl_ok ctl tab" and "conn_ok tab cs s" and "has_room (output_buf (cs_con s)) (length d)" and "event_ok (WSend d r)"
  shows "stream_step tab cs s d (conn_send ctl r d s)"
proof -
  have up: "con_status (cs_con s) = CONNECTED" using assms(2) by (simp add: conn_ok_def)
  show ?thesis
  proof (cases "\<not> IsWritable (ch_events (con_chan (cs_con s))) \<and> ReadableBytes (output_buf (cs_con s)) = 0")
    case True
    then have e: "content (output_buf (cs_con s)) = []" using assms(2) by (simp add: conn_ok_def)
    show ?thesis
    proof (cases r)
      case (Sent n)
      let ?s = "to_wire (take n d) s"
      have "conn_ok tab cs ?s" using assms(2) by (simp add: conn_ok_def to_wire_def)
      moreover have "has_room (output_buf (cs_con ?s)) (length (drop n d))" using assms(3) by (simp add: has_room_def to_wire_def)
      ultimately have "stream_step tab cs ?s (drop n d) (send_queue ctl (drop n d) ?s)" by (rule send_queue_ok [OF assms(1)])
      then show ?thesis using True Sent up e by (auto simp: stream_step_def conn_send_def to_wire_def)
    next
      case (Send_failed x)
      then show ?thesis using True up assms(4) send_queue_ok [OF assms(1,2,3)] by (simp add: conn_send_def)
    qed
  next
    case False
    then show ?thesis using up send_queue_ok [OF assms(1,2,3)] by (auto simp: conn_send_def)
  qed
qed

lemma conn_HandleWrite_ok:
  assumes "ctl_ok ctl tab" and "conn_ok tab cs s"
  shows "stream_step tab cs s [] (conn_HandleWrite ctl r s)"
proof -
  have o: "buf_ok (output_buf (cs_con s))" using assms(2) by (simp add: conn_ok_def)
  note rd = read_content [OF o]
  show ?thesis
  proof (cases "\<exists>n. r = Sent n \<and> n > 0")
    case True
    then obtain n where n: "r = Sent n" "n > 0" by blast
    let ?out = "Seek (output_buf (cs_con s)) (int n)"
    let ?s = "to_wire (take n (content (output_buf (cs_con s)))) (s\<lparr>cs_con := (cs_con s)\<lparr>output_buf := ?out\<rparr>\<rparr>)"
    note sk = Seek_any [OF o, of n]
    have z: "ReadableBytes ?out = 0 \<longleftrightarrow> content ?out = []" using content_Nil_iff [OF sk(1)] by simp
    have st: "cs_wire ?s @ content (output_buf (cs_con ?s)) = cs_wire s @ content (output_buf (cs_con s))"
      using sk(2) by (simp add: to_wire_def)
    from assms(2) obtain i where i: "in_sync tab (cs_evd ?s) (cs(i \<mapsto> con_chan (cs_con ?s)))" by (auto simp: conn_ok_def to_wire_def)
    have a: "ch_attached (con_chan (cs_con ?s))" using assms(2) by (simp add: conn_ok_def to_wire_def)
    from on_channel_ok [OF assms(1) i a, of "DisableWrite ctl" "\<lambda>e. e AND NOT EV_WRITE"]
    obtain d where d: "on_channel (DisableWrite ctl) ?s = Some (Done (?s\<lparr>cs_evd := d, cs_con := (cs_con ?s)\<lparr>con_chan :=
        (con_chan (cs_con s))\<lparr>ch_events := ch_events (con_chan (cs_con s)) AND NOT EV_WRITE\<rparr>\<rparr>\<rparr>))"
      "in_sync tab d (cs(i \<mapsto> (con_chan (cs_con s))\<lparr>ch_events := ch_events (con_chan (cs_con s)) AND NOT EV_WRITE\<rparr>))"
      by (auto simp: DisableWrite_def to_wire_def)
    show ?thesis
    proof (cases "content ?out = []")
      case True
      then show ?thesis using d n rd z st sk assms(2) by (auto simp: stream_step_def conn_HandleWrite_def conn_ok_def Let_def to_wire_def)
    next
      case False
      then have "content (output_buf (cs_con s)) \<noteq> []" using sk(2) by auto
      then show ?thesis using False n rd z st sk assms(2) i
        by (auto simp: stream_step_def conn_HandleWrite_def conn_ok_def Let_def to_wire_def)
    qed
  next
    case False
    then show ?thesis using rd assms(2) by (auto simp: stream_step_def conn_HandleWrite_def Let_def split: send_result.splits)
  qed
qed

section \<open>Properties\<close>

text \<open>C3: the output path neither loses, duplicates nor reorders bytes. For an established connection
  and any sequence of \<^verbatim>\<open>send\<close> calls and writable events with any results of the system call
  short of a reset, every step is defined and none aborts; the bytes the kernel has taken followed by
  those queued are the bytes sent, and the channel asks for writable events exactly while bytes are
  queued, so that none are left behind.\<close>

theorem connection_stream_exact:
  assumes "ctl_ok ctl tab" and "conn_ok tab cs s" and "\<forall>e \<in> set es. event_ok e"
    and "has_room (output_buf (cs_con s)) (length (concat (map sent_bytes es)))"
  shows "\<exists>s'. write_run ctl es s = Some (Done s') \<and> conn_ok tab cs s' \<and>
    cs_wire s' @ content (output_buf (cs_con s')) = cs_wire s @ content (output_buf (cs_con s)) @ concat (map sent_bytes es) \<and>
    (IsWritable (ch_events (con_chan (cs_con s'))) \<longleftrightarrow> content (output_buf (cs_con s')) \<noteq> [])"
  using assms(2,3,4)
proof (induction es arbitrary: s)
  case Nil
  then show ?case by (simp add: conn_ok_def)
next
  case (Cons e es)
  have "stream_step tab cs s (sent_bytes e) (write_step ctl e s)"
  proof (cases e)
    case (WSend d r)
    then show ?thesis using conn_send_ok [OF assms(1) Cons.prems(1)] Cons.prems(2,3) by (simp add: has_room_def)
  next
    case (WWritable r)
    then show ?thesis using conn_HandleWrite_ok [OF assms(1) Cons.prems(1)] by simp
  qed
  then obtain s1 where s1: "write_step ctl e s = Some (Done s1)" "conn_ok tab cs s1"
    "cs_wire s1 @ content (output_buf (cs_con s1)) = cs_wire s @ content (output_buf (cs_con s)) @ sent_bytes e"
    "length (buf (output_buf (cs_con s1))) \<le> length (buf (output_buf (cs_con s))) + length (sent_bytes e)"
    by (auto simp: stream_step_def)
  from Cons.IH [OF s1(2)] Cons.prems(2,3) s1(4) obtain s' where "write_run ctl es s1 = Some (Done s')" "conn_ok tab cs s'"
    "cs_wire s' @ content (output_buf (cs_con s')) = cs_wire s1 @ content (output_buf (cs_con s1)) @ concat (map sent_bytes es)"
    by (auto simp: has_room_def)
  then show ?case using s1(1,3) by (auto simp: conn_ok_def)
qed

text \<open>An established connection on a dispatcher with no other channel.\<close>

definition demo_conn :: "(int \<rightharpoonup> int, nat) conn_state" where
  "demo_conn = \<lparr>cs_evd = demo_evd\<lparr>selector := \<lparr>kern = [7 \<mapsto> EPOLLIN], ev_cap = 10\<rparr>, channels := [7 \<mapsto> 0]\<rparr>,
     cs_con = (new_Connection 1 0 7)\<lparr>con_chan := demo_chan\<lparr>ch_events := EV_READ, ch_attached := True\<rparr>, con_status := CONNECTED\<rparr>,
     cs_wire = [], cs_closed = []\<rparr>"

lemma demo_conn_ok: "conn_ok (\<lambda>k. k) Map.empty demo_conn" "has_room (output_buf (cs_con demo_conn)) 100"
proof -
  have w: "\<not> IsWritable EV_READ" by (simp add: IsWritable_def event_bits)
  have "in_sync (\<lambda>k. k) (cs_evd demo_conn) [0 \<mapsto> con_chan (cs_con demo_conn)]"
    by (auto simp: in_sync_def demo_conn_def demo_chan_def demo_evd_def new_EventDispatcher_def epoll_mask_def event_bits)
  then show "conn_ok (\<lambda>k. k) Map.empty demo_conn" "has_room (output_buf (cs_con demo_conn)) 100"
    using w by (auto simp: conn_ok_def demo_conn_def demo_chan_def new_Connection_def kInitialSize_def)
qed

theorem connection_stream_exact_witness:
  "\<exists>s'. write_run demo_ctl [WSend ''hello'' (Sent 2), WSend ''!'' (Sent 0), WWritable (Sent 3)] demo_conn = Some (Done s') \<and>
     cs_wire s' @ content (output_buf (cs_con s')) = ''hello!''"
proof -
  have r: "has_room (output_buf (cs_con demo_conn)) (length (concat (map sent_bytes [WSend ''hello'' (Sent 2), WSend ''!'' (Sent 0), WWritable (Sent 3)])))"
    using demo_conn_ok(2) by (simp add: has_room_def)
  have "cs_wire demo_conn = []" "content (output_buf (cs_con demo_conn)) = []" by (simp_all add: demo_conn_def new_Connection_def)
  then show ?thesis using connection_stream_exact [OF demo_ctl_ok demo_conn_ok(1) _ r] by auto
qed

text \<open>A readable event. Bytes that arrive are appended to the input and the message callback gets
  the connection with them; at the end of the stream the close callback runs on a connection
  that is closing, and afterwards the connection is closed; a read error ends the process.\<close>

theorem HandleRead_outcomes:
  assumes "buf_ok (input_buf (cs_con s))" and "has_room (input_buf (cs_con s)) (length d)"
    and "int (length d) \<le> readv_capacity (input_buf (cs_con s))"
    and "\<And>b. close_cb (set_status CLOSING (s\<lparr>cs_con := (cs_con s)\<lparr>input_buf := b\<rparr>\<rparr>)) = Some (Done (closed b))"
  shows "conn_HandleRead (Some message_cb) (Some close_cb) Readv_error s = Some Aborted \<and>
    (\<exists>b. content b = content (input_buf (cs_con s)) @ d \<and> buf_ok b \<and>
      conn_HandleRead (Some message_cb) (Some close_cb) (Readv_data d) s =
        (if d \<noteq> [] then message_cb (s\<lparr>cs_con := (cs_con s)\<lparr>input_buf := b\<rparr>\<rparr>)
         else Some (Done (set_status CLOSED (closed b)))))"
proof -
  have "conn_HandleRead (Some message_cb) (Some close_cb) Readv_error s = Some Aborted"
    by (simp add: conn_HandleRead_def Retrieve_def)
  moreover from Retrieve_ok [OF assms(1,2,3)] obtain b where
    "Retrieve (input_buf (cs_con s)) (Readv_data d) = Some (Done (length d, b))" "buf_ok b"
    "content b = content (input_buf (cs_con s)) @ d" by blast
  ultimately show ?thesis using assms(4)
    by (auto simp: conn_HandleRead_def Let_def intro!: exI [of _ b])
qed

theorem HandleRead_outcomes_witness:
  "\<exists>b. content b = ''GET'' \<and>
     conn_HandleRead (Some (\<lambda>s. Some (Done s))) (Some (\<lambda>s. Some (Done s))) (Readv_data ''GET'') demo_conn =
       Some (Done (demo_conn\<lparr>cs_con := (cs_con demo_conn)\<lparr>input_buf := b\<rparr>\<rparr>))"
proof -
  have i: "input_buf (cs_con demo_conn) = new_IoBuffer 1024" by (simp add: demo_conn_def new_Connection_def kInitialSize_def)
  have "(\<exists>b. content b = content (input_buf (cs_con demo_conn)) @ ''GET'' \<and> buf_ok b \<and>
      conn_HandleRead (Some (\<lambda>s. Some (Done s))) (Some (\<lambda>s. Some (Done s))) (Readv_data ''GET'') demo_conn =
        (if ''GET'' \<noteq> [] then Some (Done (demo_conn\<lparr>cs_con := (cs_con demo_conn)\<lparr>input_buf := b\<rparr>\<rparr>))
         else Some (Done (set_status CLOSED (set_status CLOSING (demo_conn\<lparr>cs_con := (cs_con demo_conn)\<lparr>input_buf := b\<rparr>\<rparr>))))))"
    by (rule HandleRead_outcomes [THEN conjunct2]) (simp_all add: i readv_capacity_def extrabuf_size_def)
  then show ?thesis by (simp add: i) blast
qed

end
