(* ===== verification/Event_Loop.thy ===== *)
theory Event_Loop
  imports Connection
begin

text \<open>
  What \<^verbatim>\<open>EventDispatcher::Start\<close> (\<^verbatim>\<open>src/rpc/event_dispatcher.cpp\<close>) does around the single operations of
  \<^theory_text>\<open>Event_Dispatcher\<close>: the construction of a dispatcher with its wake-up channel, the registration of
  its own two channels, one pass of the loop and the loop itself, over the results of
  \<^verbatim>\<open>epoll_wait\<close>. The theory proves which handlers a batch of events calls, and what becomes of a
  batch in which a handler removes the channel of a later event.
\<close>

section \<open>Construction\<close>

text \<open>\<open>fd\<close> is what \<^verbatim>\<open>eventfd\<close> returns.\<close>

definition createEventfd :: "int \<Rightarrow> int or_abort" where
  "createEventfd fd = (if fd < 0 then Aborted else Done fd)"

definition new_WakeupChannel :: "chan \<Rightarrow> int \<Rightarrow> Channel or_abort" where
  "new_WakeupChannel self fd =
     (case createEventfd fd of
        Aborted \<Rightarrow> Aborted
      | Done fd \<Rightarrow> Done \<lparr>ch_fd = fd, ch_events = EV_NONE, ch_attached = False, ch_self = self\<rparr>)"

text \<open>The handler reads eight bytes, or ends the process with status 0: \<open>Some 0\<close>.\<close>

definition wakeup_HandleRead :: "(int \<Rightarrow> int) \<Rightarrow> Channel \<Rightarrow> int option" where
  "wakeup_HandleRead rd c = (let n = rd (ch_fd c) in if n \<noteq> 8 then Some 0 else None)"

definition new_EpollSelector :: "int \<Rightarrow> 'k \<Rightarrow> 'k EpollSelector or_abort" where
  "new_EpollSelector epfd k = (if epfd < 0 then Aborted else Done \<lparr>kern = k, ev_cap = 10\<rparr>)"

text \<open>The parts are constructed in the order of the members: selector, timer queue, wake-up channel. \<open>epfd\<close>,
  \<open>evfd\<close> are the results of the system calls, \<open>k\<close> is the new, empty interest list.\<close>

definition make_EventDispatcher :: "int \<Rightarrow> 'k \<Rightarrow> chan \<Rightarrow> int \<Rightarrow> ('k EventDispatcher \<times> Channel) or_abort" where
  "make_EventDispatcher epfd k self evfd =
     (case new_EpollSelector epfd k of
        Aborted \<Rightarrow> Aborted
      | Done sel \<Rightarrow>
          (case new_WakeupChannel self evfd of
             Aborted \<Rightarrow> Aborted | Done c \<Rightarrow> Done (new_EventDispatcher sel (ch_fd c), c)))"

section \<open>The loop\<close>

text \<open>The calls before the loop of \<^verbatim>\<open>Start\<close>.\<close>

definition loop_begin :: "(epoll_op \<Rightarrow> int \<Rightarrow> int \<Rightarrow> 'k \<Rightarrow> int \<times> 'k) \<Rightarrow> Channel \<Rightarrow> Channel \<Rightarrow> 'k EventDispatcher \<Rightarrow>
    ('k EventDispatcher \<times> Channel \<times> Channel) or_abort" where
  "loop_begin ctl wakeup timer d =
     (case EnableRead ctl d wakeup of
        Aborted \<Rightarrow> Aborted
      | Done (d, wakeup) \<Rightarrow>
          (case EnableRead ctl d timer of
             Aborted \<Rightarrow> Aborted | Done (d, timer) \<Rightarrow> Done (d, wakeup, timer)))"

text \<open>The loop works on a state \<open>w\<close> that holds the dispatcher and everything the handlers reach; \<open>get\<close> and
  \<open>put\<close> read and write the dispatcher in it. \<open>handle\<close> is the virtual call of one handler of a channel.\<close>

fun call_handlers :: "(chan \<Rightarrow> handler \<Rightarrow> 'w \<Rightarrow> 'w or_abort option) \<Rightarrow> chan \<Rightarrow> handler list \<Rightarrow> 'w \<Rightarrow> 'w or_abort option" where
  "call_handlers handle c [] w = Some (Done w)"
| "call_handlers handle c (h # hs) w = and_then (handle c h w) (call_handlers handle c hs)"

fun dispatch :: "('w \<Rightarrow> 'k EventDispatcher) \<Rightarrow> ('k EventDispatcher \<Rightarrow> 'w \<Rightarrow> 'w) \<Rightarrow> (epoll_op \<Rightarrow> int \<Rightarrow> int \<Rightarrow> 'k \<Rightarrow> int \<times> 'k) \<Rightarrow>
    (chan \<Rightarrow> handler \<Rightarrow> 'w \<Rightarrow> 'w or_abort option) \<Rightarrow> Event list \<Rightarrow> 'w \<Rightarrow> 'w or_abort option" where
  "dispatch get put ctl handle [] w = Some (Done w)"
| "dispatch get put ctl handle (e # es) w =
     (case findChannel (get w) (ev_fd e) of
        Some c \<Rightarrow> and_then (call_handlers handle c (HandleEvent (revents e)) w) (dispatch get put ctl handle es)
      | None \<Rightarrow>
          (case epoll_Remove ctl (selector (get w)) (ev_fd e) of
             Aborted \<Rightarrow> Some Aborted
           | Done (_, s) \<Rightarrow> dispatch get put ctl handle es (put ((get w)\<lparr>selector := s\<rparr>) w)))"

text \<open>One round: \<open>wait\<close> is \<^verbatim>\<open>epoll_wait\<close>, which stores what is ready in the interest list, and
  \<open>pending\<close> runs the pending functors.\<close>

definition loop_pass :: "('w \<Rightarrow> 'k EventDispatcher) \<Rightarrow> ('k EventDispatcher \<Rightarrow> 'w \<Rightarrow> 'w) \<Rightarrow> (epoll_op \<Rightarrow> int \<Rightarrow> int \<Rightarrow> 'k \<Rightarrow> int \<times> 'k) \<Rightarrow>
    (chan \<Rightarrow> handler \<Rightarrow> 'w \<Rightarrow> 'w or_abort option) \<Rightarrow> ('w \<Rightarrow> 'w or_abort option) \<Rightarrow>
    ('k \<Rightarrow> (int \<times> int) list option) \<Rightarrow> 'w \<Rightarrow> 'w or_abort option" where
  "loop_pass get put ctl handle pending wait w =
     (let (_, s, events) = epoll_Select (wait (kern (selector (get w)))) (selector (get w)) []
      in and_then (dispatch get put ctl handle events (put ((get w)\<lparr>selector := s\<rparr>) w)) pending)"

text \<open>The loop, over what the system calls do in each round: \<open>True\<close> when it was left, \<open>False\<close> when it is still
  running after the last of these rounds.\<close>

fun event_loop :: "('w \<Rightarrow> 'k EventDispatcher) \<Rightarrow> ('k EventDispatcher \<Rightarrow> 'w \<Rightarrow> 'w) \<Rightarrow> (epoll_op \<Rightarrow> int \<Rightarrow> int \<Rightarrow> 'k \<Rightarrow> int \<times> 'k) \<Rightarrow>
    ('i \<Rightarrow> chan \<Rightarrow> handler \<Rightarrow> 'w \<Rightarrow> 'w or_abort option) \<Rightarrow> ('w \<Rightarrow> 'w or_abort option) \<Rightarrow>
    (('k \<Rightarrow> (int \<times> int) list option) \<times> 'i) list \<Rightarrow> 'w \<Rightarrow> (bool \<times> 'w) or_abort option" where
  "event_loop get put ctl handle pending [] w = Some (Done (False, w))"
| "event_loop get put ctl handle pending ((wait, i) # rs) w =
     and_then (loop_pass get put ctl (handle i) pending wait w)
       (\<lambda>w. if stop (get w) then Some (Done (True, w)) else event_loop get put ctl handle pending rs w)"

section \<open>A connection on its loop\<close>

text \<open>What the loop calls for the channels of a dispatcher that serves the connection \<open>self\<close>: \<open>rd\<close> and \<open>sd\<close> are
  the results of \<^verbatim>\<open>readv\<close> and \<^verbatim>\<open>send\<close>. \<^verbatim>\<open>HandleError\<close> is the empty one of the base class, and
  handlers of other channels do not touch the connection.\<close>

definition conn_handle :: "(epoll_op \<Rightarrow> int \<Rightarrow> int \<Rightarrow> 'k \<Rightarrow> int \<times> 'k) \<Rightarrow> ('k, 'x) conn_op option \<Rightarrow> ('k, 'x) conn_op option \<Rightarrow>
    readv_result \<times> send_result \<Rightarrow> chan \<Rightarrow> handler \<Rightarrow> ('k, 'x) conn_op" where
  "conn_handle ctl message_cb close_cb i c h s =
     (if c \<noteq> ch_self (con_chan (cs_con s)) then Some (Done s)
      else case h of
        HRead \<Rightarrow> conn_HandleRead message_cb close_cb (fst i) s
      | HWrite \<Rightarrow> conn_HandleWrite ctl (snd i) s
      | HError \<Rightarrow> Some (Done s))"

text \<open>\<^verbatim>\<open>Channel::Remove\<close> of a connection on its own loop.\<close>

definition conn_Remove :: "(epoll_op \<Rightarrow> int \<Rightarrow> int \<Rightarrow> 'k \<Rightarrow> int \<times> 'k) \<Rightarrow> ('k, 'x) conn_op" where
  "conn_Remove ctl s =
     Some (case RemoveChannel ctl (cs_evd s) (con_chan (cs_con s)) of
        Aborted \<Rightarrow> Aborted | Done d \<Rightarrow> Done (s\<lparr>cs_evd := d\<rparr>))"

abbreviation set_evd :: "'k EventDispatcher \<Rightarrow> ('k, 'x) conn_state \<Rightarrow> ('k, 'x) conn_state" where
  "set_evd d s \<equiv> s\<lparr>cs_evd := d\<rparr>"

section \<open>Lemmas\<close>

text \<open>The handlers of a list of channels, called one after the other.\<close>

fun run_calls :: "(chan \<Rightarrow> handler \<Rightarrow> 'w \<Rightarrow> 'w or_abort option) \<Rightarrow> (chan \<times> handler list) list \<Rightarrow> 'w \<Rightarrow> 'w or_abort option" where
  "run_calls handle [] w = Some (Done w)"
| "run_calls handle ((c, hs) # cs) w = and_then (call_handlers handle c hs w) (run_calls handle cs)"

text \<open>What a channel may do to the registration of others: nothing.\<close>

definition keeps_others :: "('w \<Rightarrow> 'k EventDispatcher) \<Rightarrow> (chan \<Rightarrow> handler \<Rightarrow> 'w \<Rightarrow> 'w or_abort option) \<Rightarrow> bool" where
  "keeps_others get handle \<longleftrightarrow> (\<forall>c h w w' fd i. handle c h w = Some (Done w') \<longrightarrow> channels (get w) fd = Some i \<longrightarrow> i \<noteq> c \<longrightarrow>
     channels (get w') fd = Some i)"

lemma and_then_Done: "and_then m f = Some (Done y) \<longleftrightarrow> (\<exists>x. m = Some (Done x) \<and> f x = Some (Done y))"
  by (auto simp: and_then_def split: option.splits or_abort.splits)

lemma call_handlers_others:
  assumes "keeps_others get handle" and "call_handlers handle c hs w = Some (Done w')"
    and "channels (get w) fd = Some i" and "i \<noteq> c"
  shows "channels (get w') fd = Some i"
  using assms(2,3)
proof (induction hs arbitrary: w)
  case (Cons h hs)
  then obtain v where v: "handle c h w = Some (Done v)" "call_handlers handle c hs v = Some (Done w')"
    by (auto simp: and_then_Done)
  then have "channels (get v) fd = Some i" using assms(1,4) Cons.prems(2) unfolding keeps_others_def by blast
  then show ?case using Cons.IH [OF v(2)] by simp
qed simp

lemma dispatch_run_calls:
  assumes "keeps_others get handle" and "\<forall>e\<in>set es. channels (get w) (ev_fd e) = Some (f e)" and "distinct (map f es)"
  shows "dispatch get put ctl handle es w = run_calls handle (map (\<lambda>e. (f e, HandleEvent (revents e))) es) w"
  using assms(2,3)
proof (induction es arbitrary: w)
  case (Cons e es)
  have "dispatch get put ctl handle es w' = run_calls handle (map (\<lambda>e. (f e, HandleEvent (revents e))) es) w'"
    if "call_handlers handle (f e) (HandleEvent (revents e)) w = Some (Done w')" for w'
  proof (rule Cons.IH)
    show "\<forall>x\<in>set es. channels (get w') (ev_fd x) = Some (f x)"
    proof
      fix x assume "x \<in> set es"
      moreover have "f e \<notin> f ` set es" using Cons.prems(2) by simp
      ultimately have "channels (get w) (ev_fd x) = Some (f x)" "f x \<noteq> f e" using Cons.prems(1) by (simp, metis imageI)
      then show "channels (get w') (ev_fd x) = Some (f x)" by (rule call_handlers_others [OF assms(1) that])
    qed
  qed (use Cons.prems in simp)
  then show ?case using Cons.prems(1) by (auto simp: findChannel_def and_then_def split: option.split or_abort.split)
qed simp

text \<open>An event without a channel: \<^verbatim>\<open>Start\<close> removes its descriptor from the selector, where it is not
  registered.\<close>

lemma dispatch_unregistered:
  assumes "ctl_ok ctl tab" and "in_sync tab (get w) cs" and "channels (get w) (ev_fd e) = None"
  shows "dispatch get put ctl handle (e # es) w = Some Aborted"
proof -
  have "tab (kern (selector (get w))) (ev_fd e) = None" using assms(2,3) by (auto simp: in_sync_def)
  then have "fst (ctl EPOLL_CTL_DEL (ev_fd e) 0 (kern (selector (get w)))) = - 1" using assms(1) unfolding ctl_ok_def by metis
  then show ?thesis using assms(3) by (simp add: findChannel_def epoll_Remove_def split_beta)
qed

text \<open>A socket that can always be written, under a level-triggered selector: it is reported while the
  interest list asks for it.\<close>

definition writable_wait :: "('k \<Rightarrow> int \<rightharpoonup> int) \<Rightarrow> int \<Rightarrow> 'k \<Rightarrow> (int \<times> int) list option" where
  "writable_wait tab fd k =
     Some (case tab k fd of None \<Rightarrow> [] | Some m \<Rightarrow> if m AND EPOLLOUT \<noteq> 0 then [(EPOLLOUT, fd)] else [])"

lemma epoll_mask_out: "epoll_mask e AND EPOLLOUT \<noteq> 0 \<longleftrightarrow> IsWritable e"
  by (simp add: epoll_mask_def IsWritable_def event_bits and.commute)

lemma SetEvents_stop: "SetEvents ctl d c ev = Done (d', c') \<Longrightarrow> stop d' = stop d \<and> ch_fd c' = ch_fd c \<and> ch_self c' = ch_self c"
  by (auto simp: SetEvents_def channel_Update_def UpdateChannel_def RegisterChannel_def split: or_abort.splits if_splits prod.splits)

lemma HandleWrite_drops:
  assumes "conn_HandleWrite ctl (Sent n) s = Some (Done s')" and "buf_ok (output_buf (cs_con s))"
  shows "content (output_buf (cs_con s')) = drop n (content (output_buf (cs_con s)))" "stop (cs_evd s') = stop (cs_evd s)"
    "ch_fd (con_chan (cs_con s')) = ch_fd (con_chan (cs_con s))" "ch_self (con_chan (cs_con s')) = ch_self (con_chan (cs_con s))"
  using assms(1) Seek_any [OF assms(2), of n]
  by (auto simp: conn_HandleWrite_def Let_def to_wire_def on_channel_def DisableWrite_def dest!: SetEvents_stop
      split: option.splits if_splits or_abort.splits)

lemma conn_send_keeps:
  "conn_send ctl r d s = Some (Done s') \<Longrightarrow> stop (cs_evd s') = stop (cs_evd s) \<and> ch_fd (con_chan (cs_con s')) = ch_fd (con_chan (cs_con s)) \<and>
    input_buf (cs_con s') = input_buf (cs_con s)"
  by (auto simp: conn_send_def send_queue_def Let_def to_wire_def on_channel_def EnableWrite_def dest!: SetEvents_stop
      split: option.splits if_splits or_abort.splits send_result.splits)

lemma conn_send_none: "conn_send ctl (Sent 0) d s = Some (Done s') \<Longrightarrow> cs_wire s' = cs_wire s"
  by (auto simp: conn_send_def send_queue_def Let_def to_wire_def on_channel_def split: option.splits if_splits or_abort.splits)

lemma in_sync_cap: "in_sync tab (d\<lparr>selector := (selector d)\<lparr>ev_cap := n\<rparr>\<rparr>) cs \<longleftrightarrow> in_sync tab d cs"
  by (simp add: in_sync_def)

lemma conn_ok_chan:
  assumes "conn_ok tab cs s"
  shows "channels (cs_evd s) (ch_fd (con_chan (cs_con s))) = Some (ch_self (con_chan (cs_con s)))"
    "tab (kern (selector (cs_evd s))) (ch_fd (con_chan (cs_con s))) = Some (epoll_mask (ch_events (con_chan (cs_con s))))"
proof -
  from assms obtain i where i: "in_sync tab (cs_evd s) (cs(i \<mapsto> con_chan (cs_con s)))" "ch_attached (con_chan (cs_con s))"
    by (auto simp: conn_ok_def)
  then have "ch_self (con_chan (cs_con s)) = i" unfolding in_sync_def by (metis fun_upd_same)
  then show "channels (cs_evd s) (ch_fd (con_chan (cs_con s))) = Some (ch_self (con_chan (cs_con s)))"
    "tab (kern (selector (cs_evd s))) (ch_fd (con_chan (cs_con s))) = Some (epoll_mask (ch_events (con_chan (cs_con s))))"
    using in_syncD [OF i(1), of i] i(2) by auto
qed

text \<open>One pass over a writable socket that takes \<open>n\<close> bytes.\<close>

lemma writable_pass:
  assumes "ctl_ok ctl tab" and "conn_ok tab cs s" and "fd = ch_fd (con_chan (cs_con s))"
  shows "\<exists>s'. loop_pass cs_evd set_evd ctl (conn_handle ctl mcb ccb (rd, Sent n)) (\<lambda>s. Some (Done s)) (writable_wait tab fd) s = Some (Done s') \<and>
    conn_ok tab cs s' \<and> fd = ch_fd (con_chan (cs_con s')) \<and> stop (cs_evd s') = stop (cs_evd s) \<and>
    content (output_buf (cs_con s')) = drop n (content (output_buf (cs_con s))) \<and>
    cs_wire s' @ content (output_buf (cs_con s')) = cs_wire s @ content (output_buf (cs_con s))"
proof (cases "IsWritable (ch_events (con_chan (cs_con s)))")
  case False
  then have "content (output_buf (cs_con s)) = []" using assms(2) by (simp add: conn_ok_def)
  then show ?thesis using False assms conn_ok_chan [OF assms(2)]
    by (simp add: loop_pass_def writable_wait_def epoll_mask_out epoll_Select_def)
next
  case True
  let ?sel = "selector (cs_evd s)"
  obtain k where sel: "epoll_Select (writable_wait tab fd (kern ?sel)) ?sel [] = (0, ?sel\<lparr>ev_cap := k\<rparr>, [\<lparr>revents = EV_WRITE, ev_fd = fd\<rparr>])"
  proof -
    have "trans_epollev_to_ev EPOLLOUT = EV_WRITE" by (simp add: trans_epollev_to_ev_def event_bits)
    then show ?thesis using True assms(3) conn_ok_chan(2) [OF assms(2)]
      by (intro that [of "if ev_cap ?sel = 1 then 2 else ev_cap ?sel"])
        (simp add: writable_wait_def epoll_mask_out epoll_Select_def)
  qed
  let ?s = "set_evd ((cs_evd s)\<lparr>selector := ?sel\<lparr>ev_cap := k\<rparr>\<rparr>) s"
  have ok: "conn_ok tab cs ?s" using assms(2) by (simp add: conn_ok_def in_sync_cap)
  have "HandleEvent EV_WRITE = [HWrite]" by (simp add: HandleEvent_def event_bits)
  then have "loop_pass cs_evd set_evd ctl (conn_handle ctl mcb ccb (rd, Sent n)) (\<lambda>s. Some (Done s)) (writable_wait tab fd) s =
      conn_HandleWrite ctl (Sent n) ?s"
    using conn_ok_chan(1) [OF ok] assms(3) sel
    by (simp add: loop_pass_def findChannel_def conn_handle_def and_then_def split: option.split or_abort.split)
  moreover obtain s' where s': "conn_HandleWrite ctl (Sent n) ?s = Some (Done s')" "conn_ok tab cs s'"
    "cs_wire s' @ content (output_buf (cs_con s')) = cs_wire ?s @ content (output_buf (cs_con ?s))"
    using conn_HandleWrite_ok [OF assms(1) ok, of "Sent n"] by (auto simp: stream_step_def)
  moreover have "buf_ok (output_buf (cs_con ?s))" using ok by (simp add: conn_ok_def)
  note HandleWrite_drops [OF s'(1) this]
  ultimately show ?thesis using assms(3) by auto
qed

lemma writable_loop:
  assumes "ctl_ok ctl tab" and "conn_ok tab cs s" and "fd = ch_fd (con_chan (cs_con s))" and "\<not> stop (cs_evd s)"
  shows "\<exists>s'. event_loop cs_evd set_evd ctl (conn_handle ctl mcb ccb) (\<lambda>s. Some (Done s)) (map (\<lambda>n. (writable_wait tab fd, Readv_error, Sent n)) ns) s =
      Some (Done (False, s')) \<and> conn_ok tab cs s' \<and> fd = ch_fd (con_chan (cs_con s')) \<and>
    content (output_buf (cs_con s')) = drop (sum_list ns) (content (output_buf (cs_con s))) \<and>
    cs_wire s' @ content (output_buf (cs_con s')) = cs_wire s @ content (output_buf (cs_con s))"
  using assms(2,3,4)
proof (induction ns arbitrary: s)
  case (Cons n ns)
  from writable_pass [OF assms(1) Cons.prems(1,2), of mcb ccb Readv_error n] obtain s1 where
    s1: "loop_pass cs_evd set_evd ctl (conn_handle ctl mcb ccb (Readv_error, Sent n)) (\<lambda>s. Some (Done s)) (writable_wait tab fd) s = Some (Done s1)"
    "conn_ok tab cs s1" "fd = ch_fd (con_chan (cs_con s1))" "stop (cs_evd s1) = stop (cs_evd s)"
    "content (output_buf (cs_con s1)) = drop n (content (output_buf (cs_con s)))"
    "cs_wire s1 @ content (output_buf (cs_con s1)) = cs_wire s @ content (output_buf (cs_con s))" by blast
  have "\<not> stop (cs_evd s1)" using s1(4) Cons.prems(3) by simp
  from Cons.IH [OF s1(2,3) this] show ?case
    using s1 Cons.prems(3) by (simp add: add.commute)
qed simp

lemma sum_list_ge_length: "\<forall>n \<in> set ns. 0 < n \<Longrightarrow> length ns \<le> sum_list (ns :: nat list)"
  by (induction ns) auto

section \<open>Properties\<close>

text \<open>A batch of events of different registered channels. If no channel's handlers touch the registration
  of another channel, \<^verbatim>\<open>Start\<close> calls, for each event in the order reported, exactly the handlers the event
  asks for on the channel that was registered for the descriptor when the batch began; no event is lost,
  none is taken for unregistered.\<close>

theorem dispatch_calls_each:
  assumes "keeps_others get handle" and "\<forall>e\<in>set es. findChannel (get w) (ev_fd e) \<noteq> None"
    and "distinct (map (\<lambda>e. findChannel (get w) (ev_fd e)) es)"
  shows "dispatch get put ctl handle es w =
    run_calls handle (map (\<lambda>e. (the (findChannel (get w) (ev_fd e)), HandleEvent (revents e))) es) w"
proof (rule dispatch_run_calls [OF assms(1)])
  show "\<forall>e\<in>set es. channels (get w) (ev_fd e) = Some (the (findChannel (get w) (ev_fd e)))"
    using assms(2) by (auto simp: findChannel_def)
  have "inj_on (\<lambda>e. the (findChannel (get w) (ev_fd e))) (set es)"
    using assms(2,3) unfolding inj_on_def distinct_map by (metis option.expand)
  then show "distinct (map (\<lambda>e. the (findChannel (get w) (ev_fd e))) es)" using assms(3) by (simp add: distinct_map)
qed

definition demo_handle :: "chan \<Rightarrow> handler \<Rightarrow> (int \<rightharpoonup> int) EventDispatcher \<Rightarrow> (int \<rightharpoonup> int) EventDispatcher or_abort option" where
  "demo_handle c h d = Some (Done (if h = HError then d\<lparr>stop := True\<rparr> else d))"

theorem dispatch_calls_each_witness:
  "dispatch (\<lambda>d. d) (\<lambda>d w. d) demo_ctl demo_handle [\<lparr>revents = EV_READ, ev_fd = 5\<rparr>, \<lparr>revents = EV_ERROR, ev_fd = 7\<rparr>]
     (demo_evd\<lparr>channels := [5 \<mapsto> 1, 7 \<mapsto> 2]\<rparr>) = Some (Done (demo_evd\<lparr>channels := [5 \<mapsto> 1, 7 \<mapsto> 2], stop := True\<rparr>))"
proof -
  have "keeps_others (\<lambda>d. d) demo_handle" by (auto simp: keeps_others_def demo_handle_def)
  note t = dispatch_calls_each [OF this, of "[\<lparr>revents = EV_READ, ev_fd = 5\<rparr>, \<lparr>revents = EV_ERROR, ev_fd = 7\<rparr>]"
    "demo_evd\<lparr>channels := [5 \<mapsto> 1, 7 \<mapsto> 2]\<rparr>" "\<lambda>d w. d" demo_ctl]
  have "HandleEvent EV_READ = [HRead]" "HandleEvent EV_ERROR = [HError]" by (simp_all add: HandleEvent_def event_bits)
  then show ?thesis by (subst t) (simp_all add: findChannel_def demo_handle_def)
qed

text \<open>A handler that removes another channel of the same batch, as closing a second connection does, kills
  the process: the event that is still in the batch has no channel any more, and the loop's answer, to
  remove the descriptor from the selector, fails fatally there because it has been removed already. \<^verbatim>\<open>Start\<close>
  means to survive such an event: it logs a warning and goes on.\<close>

theorem removed_channel_kills_loop:
  assumes "ctl_ok ctl tab" and "in_sync tab (get w) cs" and "findChannel (get w) (ev_fd e1) = Some i" and "HandleEvent (revents e1) = [h]"
    and "\<And>d'. RemoveChannel ctl (get w) c = Done d' \<Longrightarrow> \<exists>w'. handle i h w = Some (Done w') \<and> get w' = d'"
    and "cs j = Some c" and "ch_attached c" and "ev_fd e2 = ch_fd c"
  shows "dispatch get put ctl handle (e1 # e2 # es) w = Some Aborted"
proof -
  from RemoveChannel_sync [OF assms(1,2,6,7)] obtain d' where d': "RemoveChannel ctl (get w) c = Done d'"
    "in_sync tab d' (cs(j := None))" "channels d' = (channels (get w))(ch_fd c := None)" by blast
  from assms(5) [OF d'(1)] obtain w' where w': "handle i h w = Some (Done w')" "get w' = d'" by blast
  have "in_sync tab (get w') (cs(j := None))" "channels (get w') (ev_fd e2) = None" using d' assms(8) w'(2) by simp_all
  from dispatch_unregistered [OF assms(1), of get, OF this] show ?thesis
    using assms(3,4) w'(1) by simp
qed

theorem removed_channel_kills_loop_witness:
  "\<exists>d. dispatch (\<lambda>d. d) (\<lambda>d w. d) demo_ctl
       (\<lambda>i h d. Some (RemoveChannel demo_ctl d \<lparr>ch_fd = 7, ch_events = EV_READ, ch_attached = True, ch_self = 2\<rparr>))
     [\<lparr>revents = EV_READ, ev_fd = 5\<rparr>, \<lparr>revents = EV_READ, ev_fd = 7\<rparr>] d = Some Aborted \<and> channels d = [5 \<mapsto> 1, 7 \<mapsto> 2]"
proof -
  let ?c = "\<lambda>fd i. \<lparr>ch_fd = fd, ch_events = EV_READ, ch_attached = True, ch_self = i\<rparr>"
  let ?d = "demo_evd\<lparr>selector := \<lparr>kern = [5 \<mapsto> EPOLLIN, 7 \<mapsto> EPOLLIN], ev_cap = 10\<rparr>, channels := [5 \<mapsto> 1, 7 \<mapsto> 2]\<rparr>"
  have s: "in_sync (\<lambda>k. k) ?d [1 \<mapsto> ?c 5 1, 2 \<mapsto> ?c 7 2]"
    by (auto simp: in_sync_def epoll_mask_def event_bits)
  have h: "HandleEvent EV_READ = [HRead]" by (simp add: HandleEvent_def event_bits)
  have "dispatch (\<lambda>d. d) (\<lambda>d w. d) demo_ctl (\<lambda>i h d. Some (RemoveChannel demo_ctl d (?c 7 2)))
     [\<lparr>revents = EV_READ, ev_fd = 5\<rparr>, \<lparr>revents = EV_READ, ev_fd = 7\<rparr>] ?d = Some Aborted"
    by (rule removed_channel_kills_loop [OF demo_ctl_ok, where get = "\<lambda>d. d" and cs = "[1 \<mapsto> ?c 5 1, 2 \<mapsto> ?c 7 2]" and j = 2 and i = 1 and c = "?c 7 2"])
      (use s h in \<open>simp_all add: findChannel_def\<close>)
  then show ?thesis by (intro exI [of _ ?d]) simp
qed

text \<open>Starting a loop. A dispatcher whose system calls succeed begins to poll with exactly its two own
  channels registered for reading, the wake-up descriptor and the timer descriptor, and with table, interest
  list and channels in agreement; a failed \<^verbatim>\<open>epoll_create\<close> or \<^verbatim>\<open>eventfd\<close> ends the process.\<close>

theorem loop_begin_registers:
  assumes "ctl_ok ctl tab" and "tab k = Map.empty" and "0 \<le> tfd" and "wfd \<noteq> tfd" and "w \<noteq> t"
  shows "(case make_EventDispatcher epfd k w wfd of
      Aborted \<Rightarrow> epfd < 0 \<or> wfd < 0
    | Done (d, wc) \<Rightarrow> 0 \<le> epfd \<and> (\<exists>d' wc' tc'. loop_begin ctl wc \<lparr>ch_fd = tfd, ch_events = EV_NONE, ch_attached = False, ch_self = t\<rparr> d = Done (d', wc', tc') \<and>
        in_sync tab d' [w \<mapsto> wc', t \<mapsto> tc'] \<and> channels d' = [wfd \<mapsto> w, tfd \<mapsto> t] \<and>
        tab (kern (selector d')) = [wfd \<mapsto> EPOLLIN, tfd \<mapsto> EPOLLIN]))"
proof (cases "0 \<le> epfd \<and> 0 \<le> wfd")
  case True
  let ?wc = "\<lparr>ch_fd = wfd, ch_events = EV_NONE, ch_attached = False, ch_self = w\<rparr>"
  let ?tc = "\<lparr>ch_fd = tfd, ch_events = EV_NONE, ch_attached = False, ch_self = t\<rparr>"
  let ?d = "new_EventDispatcher \<lparr>kern = k, ev_cap = 10\<rparr> wfd"
  have m: "make_EventDispatcher epfd k w wfd = Done (?d, ?wc)"
    using True by (simp add: make_EventDispatcher_def new_EpollSelector_def new_WakeupChannel_def createEventfd_def)
  have s0: "in_sync tab ?d [w \<mapsto> ?wc, t \<mapsto> ?tc]" using assms(2,5) by (auto simp: in_sync_def new_EventDispatcher_def)
  from SetEvents_sync [OF assms(1) s0, of w ?wc "EV_NONE OR EV_READ"] assms(5) True obtain d1 where
    d1: "EnableRead ctl ?d ?wc = Done (d1, ?wc\<lparr>ch_events := EV_READ, ch_attached := True\<rparr>)"
    "in_sync tab d1 [t \<mapsto> ?tc, w \<mapsto> ?wc\<lparr>ch_events := EV_READ, ch_attached := True\<rparr>]"
    by (auto simp: EnableRead_def new_EventDispatcher_def fun_upd_twist [of w t] event_bits)
  let ?wc1 = "?wc\<lparr>ch_events := EV_READ, ch_attached := True\<rparr>"
  have ch1: "channels d1 fd = (if fd = wfd then Some w else None)" for fd
    using d1(2) assms(5) in_sync_chan [OF d1(2), of fd] in_syncD [OF d1(2), of w ?wc1]
    by (cases "channels d1 fd") (auto split: if_splits)
  from SetEvents_sync [OF assms(1) d1(2), of t ?tc "EV_NONE OR EV_READ"] assms(3,4,5) ch1 obtain d2 where
    d2: "EnableRead ctl d1 ?tc = Done (d2, ?tc\<lparr>ch_events := EV_READ, ch_attached := True\<rparr>)"
    "in_sync tab d2 [w \<mapsto> ?wc1, t \<mapsto> ?tc\<lparr>ch_events := EV_READ, ch_attached := True\<rparr>]"
    by (auto simp: EnableRead_def domIff fun_upd_twist [of w t] event_bits)
  let ?tc1 = "?tc\<lparr>ch_events := EV_READ, ch_attached := True\<rparr>"
  have ch2: "channels d2 fd = [wfd \<mapsto> w, tfd \<mapsto> t] fd" for fd
    using assms(4,5) in_sync_chan [OF d2(2), of fd] in_syncD [OF d2(2), of w ?wc1] in_syncD [OF d2(2), of t ?tc1]
    by (cases "channels d2 fd") (auto split: if_splits)
  then have "tab (kern (selector d2)) fd = [wfd \<mapsto> EPOLLIN, tfd \<mapsto> EPOLLIN] fd" for fd
    using d2(2) assms(5) by (auto simp: in_sync_def epoll_mask_def event_bits split: option.splits if_splits)
  then show ?thesis using m d1(1) d2 ch2 True by (auto simp: loop_begin_def)
next
  case False
  then show ?thesis by (auto simp: make_EventDispatcher_def new_EpollSelector_def new_WakeupChannel_def createEventfd_def)
qed

theorem loop_begin_registers_witness:
  "\<exists>d wc d' wc' tc'. make_EventDispatcher 3 Map.empty 1 4 = Done (d, wc) \<and>
     loop_begin demo_ctl wc \<lparr>ch_fd = 5, ch_events = EV_NONE, ch_attached = False, ch_self = 2\<rparr> d = Done (d', wc', tc') \<and>
     kern (selector d') = [4 \<mapsto> EPOLLIN, 5 \<mapsto> EPOLLIN]"
  using loop_begin_registers [OF demo_ctl_ok, of Map.empty 5 4 1 2 3]
  by (auto simp: make_EventDispatcher_def new_EpollSelector_def new_WakeupChannel_def createEventfd_def)

text \<open>C13: output drains. A connection on its event loop with any bytes queued and a peer that takes at least one
  byte whenever the socket is reported writable: the loop runs without fault, after as many rounds as there
  are bytes at the latest everything has reached the peer in order and nothing is queued, and the selector is no
  longer asked for writable events, so that the loop does not spin.\<close>

theorem loop_drains_output:
  assumes "ctl_ok ctl tab" and "conn_ok tab cs s" and "fd = ch_fd (con_chan (cs_con s))" and "\<not> stop (cs_evd s)"
    and "\<forall>n \<in> set ns. 0 < n" and "length (content (output_buf (cs_con s))) \<le> length ns"
  shows "\<exists>s'. event_loop cs_evd set_evd ctl (conn_handle ctl mcb ccb) (\<lambda>s. Some (Done s)) (map (\<lambda>n. (writable_wait tab fd, Readv_error, Sent n)) ns) s =
      Some (Done (False, s')) \<and> conn_ok tab cs s' \<and>
    cs_wire s' = cs_wire s @ content (output_buf (cs_con s)) \<and> content (output_buf (cs_con s')) = [] \<and>
    writable_wait tab fd (kern (selector (cs_evd s'))) = Some []"
proof -
  from writable_loop [OF assms(1-4), of mcb ccb ns] obtain s' where
    s': "event_loop cs_evd set_evd ctl (conn_handle ctl mcb ccb) (\<lambda>s. Some (Done s)) (map (\<lambda>n. (writable_wait tab fd, Readv_error, Sent n)) ns) s =
      Some (Done (False, s'))" "conn_ok tab cs s'" "fd = ch_fd (con_chan (cs_con s'))"
    "content (output_buf (cs_con s')) = drop (sum_list ns) (content (output_buf (cs_con s)))"
    "cs_wire s' @ content (output_buf (cs_con s')) = cs_wire s @ content (output_buf (cs_con s))" by blast
  then have e: "content (output_buf (cs_con s')) = []" using sum_list_ge_length [OF assms(5)] assms(6) by simp
  then have "\<not> IsWritable (ch_events (con_chan (cs_con s')))" using s'(2) by (simp add: conn_ok_def)
  then have "writable_wait tab fd (kern (selector (cs_evd s'))) = Some []"
    using conn_ok_chan(2) [OF s'(2)] s'(3) by (simp add: writable_wait_def epoll_mask_out)
  then show ?thesis using s'(1,2,5) e by auto
qed

theorem loop_drains_output_witness:
  "\<exists>s s'. write_run demo_ctl [WSend ''hello'' (Sent 2)] demo_conn = Some (Done s) \<and>
     event_loop cs_evd set_evd demo_ctl (conn_handle demo_ctl None None) (\<lambda>s. Some (Done s))
       (map (\<lambda>n. (writable_wait (\<lambda>k. k) 7, Readv_error, Sent n)) [1, 1, 1, 1, 1]) s = Some (Done (False, s')) \<and> cs_wire s' = ''hello''"
proof -
  have r: "has_room (output_buf (cs_con demo_conn)) 5" using demo_conn_ok(2) by (simp add: has_room_def)
  have w0: "cs_wire demo_conn = []" "content (output_buf (cs_con demo_conn)) = []" "ch_fd (con_chan (cs_con demo_conn)) = 7"
    "\<not> stop (cs_evd demo_conn)"
    by (simp_all add: demo_conn_def new_Connection_def demo_chan_def demo_evd_def new_EventDispatcher_def)
  have "stream_step (\<lambda>k. k) Map.empty demo_conn ''hello'' (conn_send demo_ctl (Sent 2) ''hello'' demo_conn)"
    by (rule conn_send_ok [OF demo_ctl_ok demo_conn_ok(1)]) (use r in \<open>simp_all add: has_room_def\<close>)
  then obtain s where s: "conn_send demo_ctl (Sent 2) ''hello'' demo_conn = Some (Done s)" "conn_ok (\<lambda>k. k) Map.empty s"
    "cs_wire s @ content (output_buf (cs_con s)) = ''hello''" using w0 by (auto simp: stream_step_def)
  then have fd: "7 = ch_fd (con_chan (cs_con s))" "\<not> stop (cs_evd s)" using w0 conn_send_keeps [OF s(1)] by auto
  have "length (content (output_buf (cs_con s))) \<le> length [1, 1, 1, 1, 1 :: nat]"
    using arg_cong [OF s(3), of length] by simp
  from loop_drains_output [OF demo_ctl_ok s(2) fd(1) fd(2) _ this, of None None] s show ?thesis by auto
qed

text \<open>A peer that closes while output is queued for it kills the process. When one event reports the end of
  the stream and room for output together, \<^verbatim>\<open>HandleEvent\<close> calls \<^verbatim>\<open>HandleWrite\<close> on the connection that
  \<^verbatim>\<open>HandleRead\<close> has just closed and removed; as soon as the last queued byte is taken, the
  connection asks the selector to change a descriptor that is not registered any more, which is fatal.\<close>

theorem eof_with_output_kills:
  assumes "ctl_ok ctl tab" and "conn_ok tab cs s" and "buf_ok (input_buf (cs_con s))" and "has_room (input_buf (cs_con s)) 0"
    and "ev_fd e = ch_fd (con_chan (cs_con s))" and "HandleEvent (revents e) = [HRead, HWrite]"
    and "content (output_buf (cs_con s)) \<noteq> []" and "length (content (output_buf (cs_con s))) \<le> n"
  shows "dispatch cs_evd set_evd ctl (conn_handle ctl mcb (Some (conn_Remove ctl)) (Readv_data [], Sent n)) (e # es) s = Some Aborted"
proof -
  have "int (length ([] :: bytes)) \<le> readv_capacity (input_buf (cs_con s))"
    using assms(3) WritableBytes_eq [OF assms(3)] by (simp add: readv_capacity_def extrabuf_size_def buf_ok_def)
  with Retrieve_ok [OF assms(3), of "[]"] assms(4) obtain b where
    b: "Retrieve (input_buf (cs_con s)) (Readv_data []) = Some (Done (0, b))" by auto
  let ?c = "con_chan (cs_con s)"
  let ?s1 = "set_status CLOSING (s\<lparr>cs_con := (cs_con s)\<lparr>input_buf := b\<rparr>\<rparr>)"
  from assms(2) obtain i where i: "in_sync tab (cs_evd s) (cs(i \<mapsto> ?c))" and a: "ch_attached ?c" by (auto simp: conn_ok_def)
  from RemoveChannel_sync [OF assms(1) i, of i ?c] a obtain d where
    d: "RemoveChannel ctl (cs_evd s) ?c = Done d" "tab (kern (selector d)) (ch_fd ?c) = None" by auto
  let ?s2 = "set_status CLOSED (set_evd d ?s1)"
  have r: "conn_HandleRead mcb (Some (conn_Remove ctl)) (Readv_data []) s = Some (Done ?s2)"
    using b d(1) by (simp add: conn_HandleRead_def conn_Remove_def set_status_def)
  have o: "buf_ok (output_buf (cs_con s))" using assms(2) by (simp add: conn_ok_def)
  note sk = Seek_any [OF o, of n]
  have z: "ReadableBytes (Seek (output_buf (cs_con s)) (int n)) = 0" using sk(1,2) assms(8) content_Nil_iff [OF sk(1)] by simp
  have n: "0 < n" using assms(7,8) by (cases n) auto
  have "fst (ctl EPOLL_CTL_MOD (ch_fd ?c) m (kern (selector d))) = - 1" for m using ctl_okD(4) [OF assms(1) d(2)] .
  then have "conn_HandleWrite ctl (Sent n) ?s2 = Some Aborted"
    using n z a read_content [OF o]
    by (simp add: conn_HandleWrite_def set_status_def to_wire_def Let_def on_channel_def DisableWrite_def SetEvents_def
        channel_Update_def UpdateChannel_def epoll_Update_def split_beta)
  then show ?thesis using r conn_ok_chan(1) [OF assms(2)] assms(5,6)
    by (simp add: findChannel_def conn_handle_def set_status_def)
qed

theorem eof_with_output_kills_witness:
  "\<exists>s. write_run demo_ctl [WSend ''bye'' (Sent 0)] demo_conn = Some (Done s) \<and>
     dispatch cs_evd set_evd demo_ctl (conn_handle demo_ctl None (Some (conn_Remove demo_ctl)) (Readv_data [], Sent 3))
       [\<lparr>revents = EV_READ OR EV_WRITE, ev_fd = 7\<rparr>] s = Some Aborted"
proof -
  have r: "has_room (output_buf (cs_con demo_conn)) 3" using demo_conn_ok(2) by (simp add: has_room_def)
  have w0: "cs_wire demo_conn = []" "content (output_buf (cs_con demo_conn)) = []" "ch_fd (con_chan (cs_con demo_conn)) = 7"
    "input_buf (cs_con demo_conn) = new_IoBuffer kInitialSize"
    by (simp_all add: demo_conn_def new_Connection_def demo_chan_def)
  have "stream_step (\<lambda>k. k) Map.empty demo_conn ''bye'' (conn_send demo_ctl (Sent 0) ''bye'' demo_conn)"
    by (rule conn_send_ok [OF demo_ctl_ok demo_conn_ok(1)]) (use r in \<open>simp_all add: has_room_def\<close>)
  then obtain s where s: "conn_send demo_ctl (Sent 0) ''bye'' demo_conn = Some (Done s)" "conn_ok (\<lambda>k. k) Map.empty s"
    "cs_wire s @ content (output_buf (cs_con s)) = ''bye''" using w0 by (auto simp: stream_step_def)
  have wire: "cs_wire s = []" using conn_send_none [OF s(1)] w0(1) by simp
  have in_ok: "buf_ok (input_buf (cs_con s))" "has_room (input_buf (cs_con s)) 0"
    using conn_send_keeps [OF s(1)] w0(4) by (simp_all add: kInitialSize_def)
  have "HandleEvent (EV_READ OR EV_WRITE) = [HRead, HWrite]" by (simp add: HandleEvent_def event_bits)
  from eof_with_output_kills [OF demo_ctl_ok s(2) in_ok, of "\<lparr>revents = EV_READ OR EV_WRITE, ev_fd = 7\<rparr>" 3 None "[]"] this
  show ?thesis using s conn_send_keeps [OF s(1)] w0(3) wire by auto
qed

end
