(* ===== verification/Timer_Loop.thy ===== *)
theory Timer_Loop
  imports Evd_Timers Event_Loop
begin

text \<open>
  A dispatcher that runs with its timer queue: \<^verbatim>\<open>AddTimer\<close> calls and rounds of \<^verbatim>\<open>EventDispatcher::Start\<close> in any order,
  in which \<^verbatim>\<open>epoll_wait\<close> reports the timer descriptor when its alarm has gone off, and the loop calls
  \<^verbatim>\<open>TimerQueueRbtree::HandleRead\<close> on it. The theory proves that all of it, from the descriptor to the red-black tree,
  implements a list of alarms in the order of their times.
\<close>

section \<open>The dispatcher and its timers\<close>

text \<open>\<open>fd\<close> is what \<^verbatim>\<open>timerfd_create\<close> returns; the queue is a channel on it.\<close>

definition createTimerfd :: "int \<Rightarrow> int or_abort" where
  "createTimerfd fd = (if fd < 0 then Aborted else Done fd)"

definition new_timer_channel :: "chan \<Rightarrow> int \<Rightarrow> Channel or_abort" where
  "new_timer_channel self fd =
     (case createTimerfd fd of
        Aborted \<Rightarrow> Aborted
      | Done fd \<Rightarrow> Done \<lparr>ch_fd = fd, ch_events = EV_NONE, ch_attached = False, ch_self = self\<rparr>)"

record ('k, 'c) timer_loop =
  tl_evd :: "'k EventDispatcher"
  tl_chan :: Channel
  tl_queue :: "'c TimerQueue"

abbreviation set_tl_evd :: "'k EventDispatcher \<Rightarrow> ('k, 'c) timer_loop \<Rightarrow> ('k, 'c) timer_loop" where
  "set_tl_evd d w \<equiv> w\<lparr>tl_evd := d\<rparr>"

text \<open>The start of the loop on new objects. \<open>epfd\<close>, \<open>evfd\<close> and \<open>tfd\<close> are the results of the system calls, \<open>wself\<close> and
  \<open>tself\<close> the handles of the two channels; the queue is made by \<open>new_TimerQueue\<close>.\<close>

definition start_timer_loop :: "(epoll_op \<Rightarrow> int \<Rightarrow> int \<Rightarrow> 'k \<Rightarrow> int \<times> 'k) \<Rightarrow> 'k \<Rightarrow> int \<Rightarrow> chan \<Rightarrow> int \<Rightarrow> chan \<Rightarrow> int \<Rightarrow> 'c TimerQueue \<Rightarrow>
    ('k, 'c) timer_loop or_abort" where
  "start_timer_loop ctl k epfd wself evfd tself tfd q =
     (case new_timer_channel tself tfd of
        Aborted \<Rightarrow> Aborted
      | Done tc \<Rightarrow>
          (case make_EventDispatcher epfd k wself evfd of
             Aborted \<Rightarrow> Aborted
           | Done (d, wc) \<Rightarrow>
               (case loop_begin ctl wc tc d of
                  Aborted \<Rightarrow> Aborted | Done (d, wc, tc) \<Rightarrow> Done \<lparr>tl_evd = d, tl_chan = tc, tl_queue = q\<rparr>)))"

text \<open>At time \<open>T\<close> the descriptor can be read when the alarm of \<^verbatim>\<open>timerfd_settime\<close> is not after it; \<open>armed\<close> is that alarm
  until it is read. Times are counted from the construction of the queue.\<close>

definition alarm_due :: "int \<Rightarrow> 'c TimerQueue \<Rightarrow> bool" where
  "alarm_due T q \<longleftrightarrow>
     (case armed q of None \<Rightarrow> False | Some (s, n) \<Rightarrow> s * nsec_per_sec + n \<le> own_epoch q + T)"

definition timer_wait :: "('k \<Rightarrow> int \<rightharpoonup> int) \<Rightarrow> int \<Rightarrow> ('k, 'c) timer_loop \<Rightarrow> 'k \<Rightarrow> (int \<times> int) list option" where
  "timer_wait tab T w k =
     Some (case tab k (ch_fd (tl_chan w)) of
       None \<Rightarrow> []
     | Some m \<Rightarrow> if m AND EPOLLIN \<noteq> 0 \<and> alarm_due T (tl_queue w) then [(EPOLLIN, ch_fd (tl_chan w))] else [])"

text \<open>The handlers the loop calls. Nobody writes to the wake-up descriptor here.\<close>

definition timer_handle :: "(int \<times> int \<Rightarrow> int) \<Rightarrow> ('c \<Rightarrow> 'c TimerQueue \<Rightarrow> 'c TimerQueue option) \<Rightarrow> int \<Rightarrow> chan \<Rightarrow> handler \<Rightarrow>
    ('k, 'c) timer_loop \<Rightarrow> ('k, 'c) timer_loop or_abort option" where
  "timer_handle settime call T c h w =
     (if c = ch_self (tl_chan w) \<and> h = HRead
      then map_option (\<lambda>q. Done (w\<lparr>tl_queue := q\<rparr>)) (HandleRead settime call (if alarm_due T (tl_queue w) then 8 else - 1) (tl_queue w))
      else Some (Done w))"

text \<open>What happens: a call of \<^verbatim>\<open>AddTimer\<close> on the thread of the loop, with the address of the new timer and the time it
  reads, or a round of the loop in which \<^verbatim>\<open>epoll_wait\<close> returns at some time, with the times read in it.\<close>

datatype 'c timer_event = Add ptr int int 'c int | Round int "int list"

fun timer_step :: "(epoll_op \<Rightarrow> int \<Rightarrow> int \<Rightarrow> 'k \<Rightarrow> int \<times> 'k) \<Rightarrow> ('k \<Rightarrow> int \<rightharpoonup> int) \<Rightarrow> (int \<times> int \<Rightarrow> int) \<Rightarrow>
    ('c \<Rightarrow> 'c TimerQueue \<Rightarrow> 'c TimerQueue option) \<Rightarrow> 'c timer_event \<Rightarrow> ('k, 'c) timer_loop \<Rightarrow> ('k, 'c) timer_loop or_abort option" where
  "timer_step ctl tab settime call (Add ta ms iv c T) w =
     map_option (\<lambda>(i, q). Done (w\<lparr>tl_queue := q\<rparr>))
       (evd_AddTimer settime ((tl_queue w)\<lparr>nows := [own_epoch (tl_queue w) + T]\<rparr>) ta ms iv c)"
| "timer_step ctl tab settime call (Round T cl) w =
     (let w = w\<lparr>tl_queue := (tl_queue w)\<lparr>nows := map (\<lambda>t. own_epoch (tl_queue w) + t) cl\<rparr>\<rparr>
      in loop_pass tl_evd set_tl_evd ctl (timer_handle settime call T) (\<lambda>w. Some (Done w)) (timer_wait tab T w) w)"

fun timer_run :: "(epoll_op \<Rightarrow> int \<Rightarrow> int \<Rightarrow> 'k \<Rightarrow> int \<times> 'k) \<Rightarrow> ('k \<Rightarrow> int \<rightharpoonup> int) \<Rightarrow> (int \<times> int \<Rightarrow> int) \<Rightarrow>
    ('c \<Rightarrow> 'c TimerQueue \<Rightarrow> 'c TimerQueue option) \<Rightarrow> 'c timer_event list \<Rightarrow> ('k, 'c) timer_loop \<Rightarrow> ('k, 'c) timer_loop or_abort option" where
  "timer_run ctl tab settime call [] w = Some (Done w)"
| "timer_run ctl tab settime call (e # es) w = and_then (timer_step ctl tab settime call e w) (timer_run ctl tab settime call es)"

section \<open>Specification\<close>

text \<open>An alarm: when it rings next, the timer it belongs to, what it calls, how often it still rings and after which delay.\<close>

record 'c alarm =
  al_due :: int
  al_timer :: ptr
  al_call :: 'c
  al_rounds :: int
  al_delay :: int

definition schedule :: "'c alarm \<Rightarrow> 'c alarm list \<Rightarrow> 'c alarm list" where
  "schedule a s = filter (\<lambda>x. al_due x < al_due a) s @ a # filter (\<lambda>x. al_due a < al_due x) s"

text \<open>Alarms that ring one after the other. One with rounds left is scheduled again, counted from the time read then.\<close>

fun ring :: "int list \<Rightarrow> 'c alarm list \<Rightarrow> 'c alarm list \<Rightarrow> 'c list \<times> 'c alarm list" where
  "ring cl [] s = ([], s)"
| "ring cl (a # as) s =
     (if 1 < al_rounds a
      then (let (l, s) = ring (tl cl) as (schedule (a\<lparr>al_due := hd cl + al_delay a, al_rounds := al_rounds a - 1\<rparr>) s) in (al_call a # l, s))
      else if 0 < al_rounds a then (let (l, s) = ring cl as s in (al_call a # l, s))
      else ring cl as s)"

text \<open>The state is what has been called so far and the alarms in order. A round calls something when the first alarm is
  due as \<^verbatim>\<open>epoll_wait\<close> returns, and then all that are before the second time read.\<close>

fun spec_step :: "'c timer_event \<Rightarrow> 'c list \<times> 'c alarm list \<Rightarrow> 'c list \<times> 'c alarm list" where
  "spec_step (Add ta ms iv c T) (l, s) =
     (l, schedule \<lparr>al_due = T + ms * 1000000, al_timer = ta, al_call = c, al_rounds = iv, al_delay = ms * 1000000\<rparr> s)"
| "spec_step (Round T cl) (l, s) =
     (if s \<noteq> [] \<and> al_due (hd s) \<le> T
      then (let (l', s) = ring (drop 2 cl) (takeWhile (\<lambda>a. al_due a < cl ! 1) s) (dropWhile (\<lambda>a. al_due a < cl ! 1) s) in (l @ l', s))
      else (l, s))"

text \<open>The conditions: times and delays in range, no two alarms for the same nanosecond, a clock reading for every
  alarm that is scheduled again, distinct timers, and \<open>n\<close> allocations left.\<close>

fun ring_fits :: "int list \<Rightarrow> 'c alarm list \<Rightarrow> 'c alarm list \<Rightarrow> bool" where
  "ring_fits cl [] s \<longleftrightarrow> True"
| "ring_fits cl (a # as) s \<longleftrightarrow>
     (if 1 < al_rounds a
      then cl \<noteq> [] \<and> 0 < hd cl \<and> hd cl + al_delay a < 2 ^ 63 \<and> hd cl + al_delay a \<notin> al_due ` set s \<and>
        ring_fits (tl cl) as (schedule (a\<lparr>al_due := hd cl + al_delay a, al_rounds := al_rounds a - 1\<rparr>) s)
      else ring_fits cl as s)"

definition again :: "'c alarm list \<Rightarrow> nat" where
  "again as = length (filter (\<lambda>a. 1 < al_rounds a) as)"

fun event_fits :: "nat \<Rightarrow> 'c timer_event \<Rightarrow> 'c alarm list \<Rightarrow> bool" where
  "event_fits n (Add ta ms iv c T) s \<longleftrightarrow>
     0 < T \<and> 0 \<le> ms \<and> T + ms * 1000000 < 2 ^ 63 \<and> 0 < iv \<and> iv < 2 ^ 31 \<and>
     T + ms * 1000000 \<notin> al_due ` set s \<and> ta \<notin> al_timer ` set s \<and> 0 < n"
| "event_fits n (Round T cl) s \<longleftrightarrow>
     (if s \<noteq> [] \<and> al_due (hd s) \<le> T
      then 2 \<le> length cl \<and> 0 \<le> cl ! 1 \<and> cl ! 1 < 2 ^ 63 \<and>
        ring_fits (drop 2 cl) (takeWhile (\<lambda>a. al_due a < cl ! 1) s) (dropWhile (\<lambda>a. al_due a < cl ! 1) s) \<and>
        again (takeWhile (\<lambda>a. al_due a < cl ! 1) s) \<le> n
      else True)"

fun allocations :: "'c timer_event \<Rightarrow> 'c alarm list \<Rightarrow> nat" where
  "allocations (Add ta ms iv c T) s = 1"
| "allocations (Round T cl) s =
     (if s \<noteq> [] \<and> al_due (hd s) \<le> T then again (takeWhile (\<lambda>a. al_due a < cl ! 1) s) else 0)"

fun run_fits :: "nat \<Rightarrow> 'c timer_event list \<Rightarrow> 'c list \<times> 'c alarm list \<Rightarrow> bool" where
  "run_fits n [] ls \<longleftrightarrow> True"
| "run_fits n (e # es) ls \<longleftrightarrow> event_fits n e (snd ls) \<and> run_fits (n - allocations e (snd ls)) es (spec_step e ls)"

section \<open>Lemmas\<close>

definition alarm_of :: "'c TimerQueue \<Rightarrow> int \<times> ptr \<times> ptr \<Rightarrow> 'c alarm" where
  "alarm_of q e = (let tm = the (timers q (timer_of e))
     in \<lparr>al_due = fst e, al_timer = timer_of e, al_call = cb tm, al_rounds = elapse tm, al_delay = time tm\<rparr>)"

lemma alarm_of_sel [simp]: "al_due (alarm_of q e) = fst e" "al_timer (alarm_of q e) = timer_of e"
  by (simp_all add: alarm_of_def Let_def)

lemma alarms_cong: "(\<And>e. e \<in> set es \<Longrightarrow> timers q' (timer_of e) = timers q (timer_of e)) \<Longrightarrow> map (alarm_of q') es = map (alarm_of q) es"
  by (simp add: alarm_of_def)

lemma set_entered: "k \<notin> fst ` set es \<Longrightarrow> set (entered k n ta es) = insert (k, n, ta) (set es)"
  by force

lemma map_entered: "map (alarm_of q) (entered k n ta es) = schedule (alarm_of q (k, n, ta)) (map (alarm_of q) es)"
  by (simp add: schedule_def filter_map comp_def)

definition mallocs_ok :: "nat \<Rightarrow> 'c TimerQueue \<Rightarrow> (int \<times> ptr \<times> ptr) list \<Rightarrow> bool" where
  "mallocs_ok n q es \<longleftrightarrow> n \<le> length (nodes q) \<and> distinct (map fst (nodes q)) \<and>
     fst ` set (nodes q) \<inter> insert NULL (insert (nil (tree q)) (fst ` snd ` set es)) = {}"

lemma env_ok_iff: "env_ok n q es \<longleftrightarrow> n \<le> length (nows q) \<and> mallocs_ok n q es"
  by (auto simp: env_ok_def mallocs_ok_def)

text \<open>The queue when the loop is not in the handler (\<open>X\<close> empty), or the timers in \<open>X\<close> are still to be called.\<close>

definition timers_ok :: "nat \<Rightarrow> ptr set \<Rightarrow> 'c TimerQueue \<Rightarrow> (int \<times> ptr \<times> ptr) list \<Rightarrow> bool" where
  "timers_ok n X q es \<longleftrightarrow> queue_ok q es \<and> mallocs_ok n q es \<and> dom (timers q) = X \<union> timer_of ` set es \<and>
     (\<forall>e \<in> set es. 0 < fst e \<and> fst e < 2 ^ 63) \<and> (\<forall>tm \<in> ran (timers q). 0 \<le> time tm)"

text \<open>A timer outside the tree is entered.\<close>

lemma addTimer_scheduled:
  assumes ok: "timers_ok (Suc n) (insert ta X) q es" and tm: "timers q ta = Some tm" and ta: "ta \<notin> timer_of ` set es" and st: "settime_ok settime"
    and now: "nows q = (own_epoch q + t) # ts" and t: "0 < t" "t + time tm < 2 ^ 63" "t + time tm \<notin> fst ` set es"
  shows "\<exists>q' es'. addTimer settime q ta = Some q' \<and> timers_ok n X q' es' \<and> nows q' = ts \<and> es' \<noteq> [] \<and>
    map (alarm_of q') es' = schedule (alarm_of q (t + time tm, NULL, ta)) (map (alarm_of q) es) \<and>
    (\<forall>x. x \<noteq> ta \<longrightarrow> timers q' x = timers q x) \<and> own_epoch q' = own_epoch q \<and> fired q' = fired q \<and> ref q' = ref q \<and> slot q' = slot q \<and>
    (armed_ok q es \<longrightarrow> armed_ok q' es')"
proof -
  let ?k = "t + time tm"
  have z: "0 \<le> time tm" using ok tm by (auto simp: timers_ok_def ran_def)
  have due: "due q tm = ?k" using now t(1,2) z by (simp add: due_def culong_id)
  have "env_ok (Suc 0) q es" using ok now by (auto simp: timers_ok_def env_ok_iff mallocs_ok_def)
  moreover have q: "queue_ok q es" using ok by (simp add: timers_ok_def)
  ultimately obtain q' na where q': "addTimer settime q ta = Some q'" "queue_ok q' (entered ?k na ta es)" "env_ok 0 q' (entered ?k na ta es)"
    "timers q' = (timers q)(ta \<mapsto> tm\<lparr>expire := ?k, attach := na\<rparr>)" "own_epoch q' = own_epoch q" "fired q' = fired q"
    "ref q' = ref q" "slot q' = slot q" "nows q' = tl (nows q)" "nodes q' = tl (nodes q)"
    "armed q' = (if ?k \<le> fst (hd (entered ?k na ta es)) then Some (TransTicks (culong (own_epoch q + ?k))) else armed q)"
    using addTimer_queue [OF q tm _ st due t(2,3) ta] by blast
  have se: "set (entered ?k na ta es) = insert (?k, na, ta) (set es)" by (rule set_entered [OF t(3)])
  have "n \<le> length (nodes q')" using q'(10) ok by (auto simp: timers_ok_def mallocs_ok_def)
  then have "mallocs_ok n q' (entered ?k na ta es)" using q'(3) by (simp add: env_ok_def mallocs_ok_def)
  moreover have "dom (timers q') = X \<union> timer_of ` set (entered ?k na ta es)" using ok q'(4) se by (auto simp: timers_ok_def)
  moreover have "\<forall>e \<in> set (entered ?k na ta es). 0 < fst e \<and> fst e < 2 ^ 63" using ok se t(1,2) z by (auto simp: timers_ok_def)
  moreover have "\<forall>m \<in> ran (timers q'). 0 \<le> time m" using ok q'(4) z by (auto simp: timers_ok_def ran_def)
  ultimately have "timers_ok n X q' (entered ?k na ta es)" using q'(2) by (simp add: timers_ok_def)
  moreover have "map (alarm_of q') (entered ?k na ta es) = schedule (alarm_of q (?k, NULL, ta)) (map (alarm_of q) es)"
  proof -
    have "alarm_of q' (?k, na, ta) = alarm_of q (?k, NULL, ta)" using q'(4) tm by (simp add: alarm_of_def)
    moreover have "map (alarm_of q') es = map (alarm_of q) es" using q'(4) ta by (intro alarms_cong) (auto simp: image_iff)
    ultimately show ?thesis by (simp only: map_entered)
  qed
  moreover have "armed_ok q' (entered ?k na ta es)" if "armed_ok q es"
  proof -
    have "sorted_wrt (<) (map fst es)" using q rb.repr_sorted by (auto simp: queue_ok_def)
    from hd_around [OF this, of ?k na ta] show ?thesis using that q'(5,11) by (auto simp: armed_ok_def split: if_splits)
  qed
  ultimately show ?thesis using q' now by (intro exI [of _ q'] exI [of _ "entered ?k na ta es"]) (simp del: map_append)
qed

lemma queue_ok_other:
  "queue_ok q es \<Longrightarrow> tree q' = tree q \<Longrightarrow> (\<And>e. e \<in> set es \<Longrightarrow> timers q' (timer_of e) = timers q (timer_of e)) \<Longrightarrow> queue_ok q' es"
  by (auto simp: queue_ok_def)

lemma timers_ok_other:
  assumes "timers_ok n X q es" and "tree q' = tree q" "nodes q' = nodes q"
    and "\<And>e. e \<in> set es \<Longrightarrow> timers q' (timer_of e) = timers q (timer_of e)" "dom (timers q') = X' \<union> timer_of ` set es"
    and "\<forall>tm \<in> ran (timers q'). 0 \<le> time tm"
  shows "timers_ok n X' q' es"
  using assms queue_ok_other [OF _ assms(2,4), of es] by (simp add: timers_ok_def mallocs_ok_def)

text \<open>The second loop of a tick does what \<open>ring\<close> says.\<close>

lemma fire_rings:
  assumes st: "settime_ok settime" and quiet: "quiet call"
  shows "timers_ok n (set tas) q es \<Longrightarrow> distinct tas \<Longrightarrow> set tas \<inter> timer_of ` set es = {} \<Longrightarrow> nows q = map (\<lambda>t. own_epoch q + t) cl \<Longrightarrow>
    ring_fits cl as (map (alarm_of q) es) \<Longrightarrow> again as \<le> n \<Longrightarrow>
    list_all2 (\<lambda>a ta. \<exists>d. a = alarm_of q (d, NULL, ta)) as tas \<Longrightarrow>
    \<exists>q' es' l. fire settime call tas q = Some q' \<and> ring cl as (map (alarm_of q) es) = (l, map (alarm_of q') es') \<and> fired q' = fired q @ l \<and>
      timers_ok (n - again as) {} q' es' \<and> own_epoch q' = own_epoch q \<and> ref q' = ref q \<and> slot q' = slot q \<and> (es \<noteq> [] \<longrightarrow> es' \<noteq> []) \<and>
      (es' = [] \<longrightarrow> armed q' = armed q)"
proof (induction as arbitrary: tas q es cl n)
  case Nil
  then show ?case by (auto simp: again_def)
next
  case (Cons a as)
  from Cons.prems(7) obtain ta ts d where ts: "tas = ta # ts" "a = alarm_of q (d, NULL, ta)"
    "list_all2 (\<lambda>a ta. \<exists>d. a = alarm_of q (d, NULL, ta)) as ts" by (auto simp: list_all2_Cons1)
  have "ta \<in> dom (timers q)" using Cons.prems(1) ts(1) by (auto simp: timers_ok_def)
  then obtain tm where tm: "timers q ta = Some tm" by auto
  have ta: "ta \<notin> timer_of ` set es" "ta \<notin> set ts" using Cons.prems(2,3) ts(1) by auto
  have a: "al_timer a = ta" "al_call a = cb tm" "al_rounds a = elapse tm" "al_delay a = time tm" using ts(2) tm by (simp_all add: alarm_of_def)
  show ?case
  proof (cases "1 < elapse tm")
    case True
    let ?q1 = "q\<lparr>timers := (timers q)(ta \<mapsto> tm\<lparr>elapse := elapse tm - 1\<rparr>), fired := fired q @ [cb tm]\<rparr>"
    let ?a = "a\<lparr>al_due := hd cl + al_delay a, al_rounds := al_rounds a - 1\<rparr>"
    from Cons.prems(5) True a(3) have cl: "cl \<noteq> []" "0 < hd cl" "hd cl + time tm < 2 ^ 63" "hd cl + time tm \<notin> fst ` set es"
      "ring_fits (tl cl) as (schedule ?a (map (alarm_of q) es))" by (auto simp: a(4) image_image)
    obtain m where m: "n = Suc m" "again as \<le> m" using Cons.prems(6) True a(3) by (cases n) (auto simp: again_def)
    have s1: "map (alarm_of ?q1) es = map (alarm_of q) es" using ta(1) by (intro alarms_cong) (auto simp: image_iff)
    have dom: "dom (timers q) = insert ta (set ts) \<union> timer_of ` set es" and z: "\<forall>m \<in> ran (timers q). 0 \<le> time m"
      using Cons.prems(1) ts(1) by (simp_all add: timers_ok_def)
    have ok1: "timers_ok (Suc m) (insert ta (set ts)) ?q1 es"
    proof (rule timers_ok_other [OF Cons.prems(1) [unfolded m(1)]])
      show "dom (timers ?q1) = insert ta (set ts) \<union> timer_of ` set es" using dom by auto
      show "\<forall>m \<in> ran (timers ?q1). 0 \<le> time m" using z tm by (auto simp: ran_def)
      show "timers ?q1 (timer_of e) = timers q (timer_of e)" if "e \<in> set es" for e using that ta(1) by auto
    qed simp_all
    let ?tm = "tm\<lparr>elapse := elapse tm - 1\<rparr>"
    have nw: "nows ?q1 = (own_epoch ?q1 + hd cl) # map (\<lambda>t. own_epoch q + t) (tl cl)" using Cons.prems(4) cl(1) by (cases cl) auto
    have "timers ?q1 ta = Some ?tm" "hd cl + time ?tm < 2 ^ 63" "hd cl + time ?tm \<notin> fst ` set es" using cl(3,4) by simp_all
    from addTimer_scheduled [OF ok1 this(1) ta(1) st nw cl(2) this(2,3)] obtain q2 es2 where q2: "addTimer settime ?q1 ta = Some q2"
      "timers_ok m (set ts) q2 es2" "nows q2 = map (\<lambda>t. own_epoch q + t) (tl cl)"
      "es2 \<noteq> []" "map (alarm_of q2) es2 = schedule (alarm_of ?q1 (hd cl + time ?tm, NULL, ta)) (map (alarm_of ?q1) es)"
      "\<forall>x. x \<noteq> ta \<longrightarrow> timers q2 x = timers ?q1 x" "own_epoch q2 = own_epoch ?q1" "fired q2 = fired ?q1" "ref q2 = ref ?q1" "slot q2 = slot ?q1"
      by blast
    have "alarm_of ?q1 (hd cl + time ?tm, NULL, ta) = ?a" using ts(2) tm by (simp add: alarm_of_def)
    with q2(5) s1 have s2: "map (alarm_of q2) es2 = schedule ?a (map (alarm_of q) es)" by simp
    have "set ts \<inter> timer_of ` set es2 = {}"
    proof -
      have "timer_of ` set es2 = al_timer ` set (map (alarm_of q2) es2)" by (simp add: image_image)
      also have "\<dots> \<subseteq> insert (al_timer ?a) (al_timer ` set (map (alarm_of q) es))" unfolding s2 schedule_def by auto
      finally have "timer_of ` set es2 \<subseteq> insert ta (timer_of ` set es)" by (simp add: a(1) image_image)
      then show ?thesis using Cons.prems(3) ts(1) ta(2) by auto
    qed
    moreover have "list_all2 (\<lambda>a ta. \<exists>d. a = alarm_of q2 (d, NULL, ta)) as ts"
    proof -
      have "alarm_of q2 (d, NULL, x) = alarm_of q (d, NULL, x)" if "x \<in> set ts" for d x
        using q2(6) that ta(2) by (auto simp: alarm_of_def)
      then show ?thesis using ts(3) by (auto simp: list_all2_conv_all_nth)
    qed
    ultimately obtain q' es' l where q': "fire settime call ts q2 = Some q'" "ring (tl cl) as (map (alarm_of q2) es2) = (l, map (alarm_of q') es')"
      "fired q' = fired q2 @ l" "timers_ok (m - again as) {} q' es'" "own_epoch q' = own_epoch q2" "ref q' = ref q2" "slot q' = slot q2"
      "es2 \<noteq> [] \<longrightarrow> es' \<noteq> []"
      using Cons.IH [OF q2(2), of "tl cl"] Cons.prems(2) q2(3,7) cl(5) m(2) ts(1) unfolding s2 by auto
    have "es' \<noteq> []" using q'(8) q2(4) by simp
    have "fire settime call tas q = Some q'" using q2(1) q'(1) tm True quiet ts(1) by (simp add: quiet_def Let_def)
    moreover have "ring cl (a # as) (map (alarm_of q) es) = (cb tm # l, map (alarm_of q') es')"
      using q'(2) True a(2,3) by (simp add: s2)
    moreover have "n - again (a # as) = m - again as" using m(1) True a(3) by (simp add: again_def)
    ultimately show ?thesis using q'(3-7) q2(7-10) \<open>es' \<noteq> []\<close> by (intro exI [of _ q'] exI [of _ es'] exI [of _ "cb tm # l"]) simp
  next
    case False
    let ?q2 = "delete_timer (q\<lparr>fired := fired q @ (if 0 < elapse tm then [cb tm] else [])\<rparr>) ta"
    have s2: "map (alarm_of ?q2) es = map (alarm_of q) es" using ta(1) by (intro alarms_cong) (auto simp: image_iff delete_timer_def)
    have dom: "dom (timers q) = insert ta (set ts) \<union> timer_of ` set es" and z: "\<forall>m \<in> ran (timers q). 0 \<le> time m"
      using Cons.prems(1) ts(1) by (simp_all add: timers_ok_def)
    have ok2: "timers_ok n (set ts) ?q2 es"
    proof (rule timers_ok_other [OF Cons.prems(1)])
      show "dom (timers ?q2) = set ts \<union> timer_of ` set es" using dom ta by (auto simp: delete_timer_def)
      show "\<forall>m \<in> ran (timers ?q2). 0 \<le> time m" using z by (auto simp: ran_def delete_timer_def)
      show "timers ?q2 (timer_of e) = timers q (timer_of e)" if "e \<in> set es" for e using that ta(1) by (auto simp: delete_timer_def)
    qed (simp_all add: delete_timer_def)
    moreover have "list_all2 (\<lambda>a ta. \<exists>d. a = alarm_of ?q2 (d, NULL, ta)) as ts"
    proof -
      have "alarm_of ?q2 (d, NULL, x) = alarm_of q (d, NULL, x)" if "x \<in> set ts" for d x
        using that ta(2) by (auto simp: alarm_of_def delete_timer_def)
      then show ?thesis using ts(3) by (auto simp: list_all2_conv_all_nth)
    qed
    moreover have "again (a # as) = again as" using False a(3) by (simp add: again_def)
    moreover have "ring_fits cl as (map (alarm_of ?q2) es)" using Cons.prems(5) False a(3) unfolding s2 by simp
    moreover have "own_epoch ?q2 = own_epoch q" "nows ?q2 = nows q" "ref ?q2 = ref q" "slot ?q2 = slot q" "armed ?q2 = armed q" by (simp_all add: delete_timer_def)
    ultimately obtain q' es' l where q': "fire settime call ts ?q2 = Some q'" "ring cl as (map (alarm_of q) es) = (l, map (alarm_of q') es')"
      "fired q' = fired ?q2 @ l" "timers_ok (n - again (a # as)) {} q' es'" "own_epoch q' = own_epoch q" "ref q' = ref q" "slot q' = slot q"
      "es \<noteq> [] \<longrightarrow> es' \<noteq> []" "es' = [] \<longrightarrow> armed q' = armed q"
      using Cons.IH [of n ts ?q2 es cl] Cons.prems(2,3,4,6) ts(1) unfolding s2 by auto
    have "fire settime call tas q = Some q'" using q'(1) tm False quiet ts(1)
      by (auto simp: quiet_def Let_def delete_timer_def intro!: arg_cong [where f = "fire settime call ts"])
    then show ?thesis using q'(2-9) False a by (auto simp: delete_timer_def split: prod.splits)
  qed
qed

text \<open>The handler as a whole.\<close>

lemma HandleRead_rings:
  assumes ok: "timers_ok n {} q es" and st: "settime_ok settime" and quiet: "quiet call"
    and now: "nows q = map (\<lambda>t. own_epoch q + t) cl" and cl: "2 \<le> length cl" "0 \<le> cl ! 1" "cl ! 1 < 2 ^ 63"
    and as: "as = takeWhile (\<lambda>a. al_due a < cl ! 1) (map (alarm_of q) es)" and s: "s = dropWhile (\<lambda>a. al_due a < cl ! 1) (map (alarm_of q) es)"
    and fits: "ring_fits (drop 2 cl) as s" "again as \<le> n"
  shows "\<exists>q' es' l. HandleRead settime call 8 q = Some q' \<and> ring (drop 2 cl) as s = (l, map (alarm_of q') es') \<and> fired q' = fired q @ l \<and>
    timers_ok (n - again as) {} q' es' \<and> armed_ok q' es' \<and> (es' = [] \<longrightarrow> armed q' = None) \<and>
    own_epoch q' = own_epoch q \<and> ref q' = ref q \<and> slot q' = slot q"
proof -
  obtain t0 t ts where cls: "cl = t0 # t # ts" using cl(1) by (cases cl; cases "tl cl") auto
  let ?ts = "map (\<lambda>t. own_epoch q + t) ts"
  let ?q0 = "q\<lparr>armed := None, nows := ?ts\<rparr>" and ?tas = "map timer_of (expired t es)"
  have qok: "queue_ok q es" and dom: "dom (timers q) = timer_of ` set es" using ok by (simp_all add: timers_ok_def)
  then have q0: "queue_ok ?q0 es" by (simp add: queue_ok_def)
  from pop_expired_ok [OF this, of t "[]"] obtain tr where
    p: "pop_expired t ?q0 [] = Some (?q0\<lparr>tree := tr, timers := detach ?tas (timers q)\<rparr>, ?tas)" "nil tr = nil (tree q)"
      "queue_ok (?q0\<lparr>tree := tr, timers := detach ?tas (timers q)\<rparr>) (pending t es)" by auto
  let ?q1 = "?q0\<lparr>tree := tr, timers := detach ?tas (timers q)\<rparr>"
  have al: "alarm_of ?q1 x = alarm_of q x" if "timer_of x \<in> timer_of ` set es" for x
  proof -
    have "timer_of x \<in> dom (timers q)" using that by (simp only: dom)
    then obtain tm where "timers q (timer_of x) = Some tm" by auto
    then show ?thesis by (simp add: alarm_of_def detach_def)
  qed
  have sub: "set (pending t es) \<subseteq> set es" "set (expired t es) \<subseteq> set es" by (auto dest: set_dropWhileD set_takeWhileD)
  have s1: "s = map (alarm_of ?q1) (pending t es)"
  proof -
    have "s = map (alarm_of q) (pending t es)" by (simp add: s cls dropWhile_map comp_def)
    also have "\<dots> = map (alarm_of ?q1) (pending t es)"
    proof (rule map_cong [OF refl])
      fix e assume "e \<in> set (pending t es)"
      then have "timer_of e \<in> timer_of ` set es" using sub(1) by blast
      then show "alarm_of q e = alarm_of ?q1 e" by (rule al [symmetric])
    qed
    finally show ?thesis .
  qed
  have as1: "as = map (alarm_of q) (expired t es)" by (simp add: as cls takeWhile_map comp_def)
  have ok1: "timers_ok n (set ?tas) ?q1 (pending t es)"
  proof -
    have "set es = set (expired t es) \<union> set (pending t es)" by (metis set_append takeWhile_dropWhile_id)
    then have "dom (timers ?q1) = set ?tas \<union> timer_of ` set (pending t es)" using dom by (simp add: dom_detach image_Un)
    moreover have "\<forall>m \<in> ran (timers ?q1). 0 \<le> time m" using ok by (auto simp: timers_ok_def detach_def ran_def)
    moreover have "fst ` snd ` set (pending t es) \<subseteq> fst ` snd ` set es" by (intro image_mono) (auto dest: set_dropWhileD)
    from disjoint_sub [OF this, of "fst ` set (nodes q)" NULL "nil tr"] have "mallocs_ok n ?q1 (pending t es)"
      using ok p(2) by (simp add: timers_ok_def mallocs_ok_def)
    ultimately show ?thesis using p(3) ok sub(1) by (auto simp: timers_ok_def)
  qed
  have "list_all2 (\<lambda>a ta. \<exists>d. a = alarm_of ?q1 (d, NULL, ta)) as ?tas"
    unfolding as1 list.rel_map
  proof (rule list.rel_refl_strong)
    fix e assume "e \<in> set (expired t es)"
    then have "timer_of e \<in> timer_of ` set es" using sub(2) by blast
    then have "alarm_of ?q1 (fst e, NULL, timer_of e) = alarm_of q (fst e, NULL, timer_of e)" by (intro al) simp
    also have "\<dots> = alarm_of q e" by (simp add: alarm_of_def)
    finally show "\<exists>d. alarm_of q e = alarm_of ?q1 (d, NULL, timer_of e)" by metis
  qed
  from fire_rings [OF st quiet ok1 expired_timers(1) [OF q0] expired_timers(3) [OF q0] _ _ fits(2) this, of ts] obtain q2 es2 l where
    q2: "fire settime call ?tas ?q1 = Some q2" "ring (drop 2 cl) as s = (l, map (alarm_of q2) es2)" "fired q2 = fired q @ l"
      "timers_ok (n - again as) {} q2 es2" "own_epoch q2 = own_epoch q" "ref q2 = ref q" "slot q2 = slot q" "es2 = [] \<longrightarrow> armed q2 = None"
    using fits(1) by (auto simp: s1 cls)
  have "PerTick settime call (q\<lparr>nows := (own_epoch q + t) # ?ts, armed := None\<rparr>) = Some q2"
    using p(1) q2(1) cl(2,3) by (simp add: PerTick_def cls culong_id)
  moreover have "queue_ok q2 es2" "\<forall>e\<in>set es2. 0 < fst e \<and> fst e < 2 ^ 63" using q2(4) by (simp_all add: timers_ok_def)
  ultimately obtain a where a: "HandleRead settime call 8 q = Some (q2\<lparr>armed := a\<rparr>)" "armed_ok (q2\<lparr>armed := a\<rparr>) es2" "es2 = [] \<longrightarrow> a = armed q2"
    using HandleRead_rearm [of q "own_epoch q + t0" _ settime call q2 es2] now cls st by auto
  have "timers_ok (n - again as) {} (q2\<lparr>armed := a\<rparr>) es2"
    by (rule timers_ok_other [OF q2(4)]) (use q2(4) in \<open>simp_all add: timers_ok_def\<close>)
  moreover have "map (alarm_of (q2\<lparr>armed := a\<rparr>)) es2 = map (alarm_of q2) es2" by (intro alarms_cong) simp
  ultimately show ?thesis using a q2 by (intro exI [of _ "q2\<lparr>armed := a\<rparr>"] exI [of _ es2] exI [of _ l]) simp
qed

definition loop_ok :: "('k \<Rightarrow> int \<rightharpoonup> int) \<Rightarrow> nat \<Rightarrow> ('k, 'c) timer_loop \<Rightarrow> 'c alarm list \<Rightarrow> bool" where
  "loop_ok tab n w s \<longleftrightarrow>
     (\<exists>es. timers_ok n {} (tl_queue w) es \<and> armed_ok (tl_queue w) es \<and> (es = [] \<longrightarrow> armed (tl_queue w) = None) \<and> s = map (alarm_of (tl_queue w)) es) \<and>
     0 \<le> own_epoch (tl_queue w) \<and> own_epoch (tl_queue w) < 2 ^ 63 \<and>
     0 \<le> slot (tl_queue w) \<and> (\<forall>i > slot (tl_queue w). ref (tl_queue w) i = None) \<and>
     channels (tl_evd w) (ch_fd (tl_chan w)) = Some (ch_self (tl_chan w)) \<and> tab (kern (selector (tl_evd w))) (ch_fd (tl_chan w)) = Some EPOLLIN"

lemma alarm_due_hd:
  assumes "timers_ok n X q es" and "armed_ok q es" and "es = [] \<longrightarrow> armed q = None" and "0 \<le> own_epoch q" and "own_epoch q < 2 ^ 63"
  shows "alarm_due T q \<longleftrightarrow> es \<noteq> [] \<and> fst (hd es) \<le> T"
proof (cases es)
  case Nil
  then show ?thesis using assms(3) by (simp add: alarm_due_def)
next
  case (Cons e es')
  then have "0 < fst e" "fst e < 2 ^ 63" using assms(1) by (auto simp: timers_ok_def)
  then have "culong (own_epoch q + fst e) = own_epoch q + fst e" using assms(4,5) by (intro culong_id) auto
  then have "armed q = Some (TransTicks (own_epoch q + fst e))" using assms(2) Cons by (simp add: armed_ok_def)
  then show ?thesis using Cons by (simp add: alarm_due_def TransTicks_def)
qed

lemma add_step:
  assumes ok: "loop_ok tab n w s" and fits: "event_fits n (Add ta ms iv c T) s" and st: "settime_ok settime" and sl: "slot (tl_queue w) < int_max"
  shows "\<exists>w'. timer_step ctl tab settime call (Add ta ms iv c T) w = Some (Done w') \<and>
    loop_ok tab (n - 1) w' (snd (spec_step (Add ta ms iv c T) (l, s))) \<and> fired (tl_queue w') = fired (tl_queue w) \<and> slot (tl_queue w') = slot (tl_queue w) + 1"
proof -
  let ?q = "tl_queue w" and ?i = "slot (tl_queue w) + 1" and ?ms = "ms * 1000000"
  obtain es where es: "timers_ok n {} ?q es" "armed_ok ?q es" "s = map (alarm_of ?q) es" using ok by (auto simp: loop_ok_def)
  have id: "0 \<le> slot ?q" "\<forall>i > slot ?q. ref ?q i = None" using ok by (simp_all add: loop_ok_def)
  obtain m where m: "n = Suc m" using fits by (cases n) auto
  have ms: "culong ?ms = ?ms" "clong (culong (culong iv)) = iv" using fits by (simp_all add: culong_id clong_id)
  let ?t = "\<lparr>index = - 1, tm_id = ?i, expire = 0, time = ?ms, interval = iv, elapse = iv, cb = c, attach = NULL\<rparr>"
  let ?q1 = "?q\<lparr>nows := [own_epoch ?q + T], slot := ?i, ref := (ref ?q)(?i \<mapsto> ta), timers := (timers ?q)(ta \<mapsto> ?t)\<rparr>"
  have "next_free (ref ?q) ?i = Some ?i" using sl id by (subst next_free.simps) (simp add: Let_def)
  then have reg: "AddTimer_register (?q\<lparr>nows := [own_epoch ?q + T]\<rparr>) ta (culong ?ms) (culong iv) c = Some (?i, ?q1)"
    using fits by (simp add: AddTimer_register_def nextId_def Let_def culong_id clong_id)
  have ta: "ta \<notin> timer_of ` set es" using fits by (simp add: es(3) image_image)
  have dom: "dom (timers ?q) = timer_of ` set es" and z: "\<forall>m \<in> ran (timers ?q). 0 \<le> time m" using es(1) by (simp_all add: timers_ok_def)
  have ok1: "timers_ok (Suc m) (insert ta {}) ?q1 es"
  proof (rule timers_ok_other [OF es(1) [unfolded m]])
    show "dom (timers ?q1) = insert ta {} \<union> timer_of ` set es" using dom by auto
    show "\<forall>m \<in> ran (timers ?q1). 0 \<le> time m" using z fits by (auto simp: ran_def)
    show "timers ?q1 (timer_of e) = timers ?q (timer_of e)" if "e \<in> set es" for e using that ta by auto
  qed simp_all
  have "timers ?q1 ta = Some ?t" "nows ?q1 = (own_epoch ?q1 + T) # []" by simp_all
  from addTimer_scheduled [OF ok1 this(1) ta st this(2), of] fits obtain q' es' where
    q': "addTimer settime ?q1 ta = Some q'" "timers_ok m {} q' es'" "es' \<noteq> []"
      "map (alarm_of q') es' = schedule (alarm_of ?q1 (T + ?ms, NULL, ta)) (map (alarm_of ?q1) es)"
      "own_epoch q' = own_epoch ?q1" "fired q' = fired ?q1" "ref q' = ref ?q1" "slot q' = slot ?q1" "armed_ok ?q1 es \<longrightarrow> armed_ok q' es'"
    by (auto simp: es(3) image_image)
  have "map (alarm_of ?q1) es = s" unfolding es(3) using ta by (intro alarms_cong) (auto simp: image_iff)
  moreover have "alarm_of ?q1 (T + ?ms, NULL, ta) = \<lparr>al_due = T + ?ms, al_timer = ta, al_call = c, al_rounds = iv, al_delay = ?ms\<rparr>"
    by (simp add: alarm_of_def)
  ultimately have s': "map (alarm_of q') es' = snd (spec_step (Add ta ms iv c T) (l, s))" using q'(4) by simp
  have "armed_ok q' es'" using q'(9) es(2) by (simp add: armed_ok_def)
  then have "loop_ok tab m (w\<lparr>tl_queue := q'\<rparr>) (snd (spec_step (Add ta ms iv c T) (l, s)))"
    using q'(2,3,5,7,8) s' ok id unfolding loop_ok_def by (intro conjI exI [of _ es']) auto
  moreover have "timer_step ctl tab settime call (Add ta ms iv c T) w = Some (Done (w\<lparr>tl_queue := q'\<rparr>))"
    using reg q'(1) by (simp add: evd_AddTimer_def AddTimer_def)
  ultimately show ?thesis using m q'(6,8) by (intro exI [of _ "w\<lparr>tl_queue := q'\<rparr>"]) simp
qed

lemma round_step:
  assumes ok: "loop_ok tab n w s" and fits: "event_fits n (Round T cl) s" and st: "settime_ok settime" and quiet: "quiet call"
  shows "\<exists>w' l'. timer_step ctl tab settime call (Round T cl) w = Some (Done w') \<and>
    loop_ok tab (n - allocations (Round T cl) s) w' (snd (spec_step (Round T cl) (l, s))) \<and>
    fst (spec_step (Round T cl) (l, s)) = l @ l' \<and> fired (tl_queue w') = fired (tl_queue w) @ l' \<and> slot (tl_queue w') = slot (tl_queue w)"
proof -
  let ?q = "(tl_queue w)\<lparr>nows := map (\<lambda>t. own_epoch (tl_queue w) + t) cl\<rparr>" and ?fd = "ch_fd (tl_chan w)" and ?sel = "selector (tl_evd w)"
  obtain es where es: "timers_ok n {} (tl_queue w) es" "armed_ok (tl_queue w) es" "es = [] \<longrightarrow> armed (tl_queue w) = None"
    "s = map (alarm_of (tl_queue w)) es" using ok by (auto simp: loop_ok_def)
  have ep: "0 \<le> own_epoch (tl_queue w)" "own_epoch (tl_queue w) < 2 ^ 63" using ok by (simp_all add: loop_ok_def)
  have ch: "channels (tl_evd w) ?fd = Some (ch_self (tl_chan w))" "tab (kern ?sel) ?fd = Some EPOLLIN" using ok by (simp_all add: loop_ok_def)
  have due: "alarm_due T ?q \<longleftrightarrow> s \<noteq> [] \<and> al_due (hd s) \<le> T"
  proof -
    have "alarm_due T ?q \<longleftrightarrow> alarm_due T (tl_queue w)" by (simp add: alarm_due_def split: option.split)
    then show ?thesis using alarm_due_hd [OF es(1-3) ep, of T] unfolding es(4) by (cases es) auto
  qed
  have in_bit: "EPOLLIN AND EPOLLIN \<noteq> 0" by (simp add: event_bits)
  have okq: "timers_ok n {} ?q es" by (rule timers_ok_other [OF es(1)]) (use es(1) in \<open>simp_all add: timers_ok_def\<close>)
  show ?thesis
  proof (cases "alarm_due T ?q")
    case False
    let ?w = "w\<lparr>tl_queue := ?q, tl_evd := (tl_evd w)\<lparr>selector := ?sel\<rparr>\<rparr>"
    have "timer_step ctl tab settime call (Round T cl) w = Some (Done ?w)"
      using False ch by (simp add: loop_pass_def timer_wait_def epoll_Select_def Let_def)
    moreover have "map (alarm_of ?q) es = s" unfolding es(4) by (intro alarms_cong) simp
    then have "loop_ok tab n ?w s" using ok okq es(2,3) unfolding loop_ok_def by (intro conjI exI [of _ es]) (auto simp: armed_ok_def)
    moreover have "\<not> (s \<noteq> [] \<and> al_due (hd s) \<le> T)" using False due by blast
    ultimately show ?thesis by (intro exI [of _ ?w] exI [of _ "[]"]) auto
  next
    case True
    then have d: "s \<noteq> [] \<and> al_due (hd s) \<le> T" using due by simp
    let ?as = "takeWhile (\<lambda>a. al_due a < cl ! 1) s" and ?s = "dropWhile (\<lambda>a. al_due a < cl ! 1) s"
    have f: "2 \<le> length cl" "0 \<le> cl ! 1" "cl ! 1 < 2 ^ 63" "ring_fits (drop 2 cl) ?as ?s" "again ?as \<le> n" using fits d by simp_all
    have s: "s = map (alarm_of ?q) es" unfolding es(4) by (rule sym) (intro alarms_cong, simp)
    from HandleRead_rings [OF okq st quiet _ f(1-3) _ _ f(4,5)] s obtain q' es' l' where
      q': "HandleRead settime call 8 ?q = Some q'" "ring (drop 2 cl) ?as ?s = (l', map (alarm_of q') es')" "fired q' = fired ?q @ l'"
        "timers_ok (n - again ?as) {} q' es'" "armed_ok q' es'" "es' = [] \<longrightarrow> armed q' = None" "own_epoch q' = own_epoch ?q" "ref q' = ref ?q" "slot q' = slot ?q"
      by auto
    obtain k where sel: "epoll_Select (timer_wait tab T (w\<lparr>tl_queue := ?q\<rparr>) (kern ?sel)) ?sel [] =
      (0, ?sel\<lparr>ev_cap := k\<rparr>, [\<lparr>revents = EV_READ, ev_fd = ?fd\<rparr>])"
    proof -
      have "trans_epollev_to_ev EPOLLIN = EV_READ" by (simp add: trans_epollev_to_ev_def event_bits)
      then show ?thesis using True ch(2) in_bit
        by (intro that [of "if ev_cap ?sel = 1 then 2 else ev_cap ?sel"]) (simp add: timer_wait_def epoll_Select_def)
    qed
    let ?w = "w\<lparr>tl_queue := q', tl_evd := (tl_evd w)\<lparr>selector := ?sel\<lparr>ev_cap := k\<rparr>\<rparr>\<rparr>"
    have "HandleEvent EV_READ = [HRead]" by (simp add: HandleEvent_def event_bits)
    then have "timer_step ctl tab settime call (Round T cl) w = Some (Done ?w)"
      using sel ch(1) True q'(1) by (simp add: loop_pass_def Let_def findChannel_def timer_handle_def)
    moreover have "loop_ok tab (n - again ?as) ?w (map (alarm_of q') es')"
      using ok q'(4-9) unfolding loop_ok_def by (intro conjI exI [of _ es']) auto
    ultimately show ?thesis using d q'(2,3,9) by (intro exI [of _ ?w] exI [of _ l']) auto
  qed
qed

lemma timer_run_refines:
  assumes st: "settime_ok settime" and quiet: "quiet call"
  shows "loop_ok tab n w s \<Longrightarrow> fired (tl_queue w) = l \<Longrightarrow> run_fits n evs (l, s) \<Longrightarrow> slot (tl_queue w) + int (length evs) \<le> int_max \<Longrightarrow>
    \<exists>w' n'. timer_run ctl tab settime call evs w = Some (Done w') \<and> loop_ok tab n' w' (snd (fold spec_step evs (l, s))) \<and>
      fired (tl_queue w') = fst (fold spec_step evs (l, s))"
proof (induction evs arbitrary: n w s l)
  case Nil
  then show ?case by auto
next
  case (Cons e evs)
  have "\<exists>w1. timer_step ctl tab settime call e w = Some (Done w1) \<and> loop_ok tab (n - allocations e s) w1 (snd (spec_step e (l, s))) \<and>
    fired (tl_queue w1) = fst (spec_step e (l, s)) \<and> slot (tl_queue w1) \<le> slot (tl_queue w) + 1"
  proof (cases e)
    case (Add ta ms iv c T)
    then show ?thesis using add_step [OF Cons.prems(1) _ st, of ta ms iv c T ctl call l] Cons.prems(2-4) by auto
  next
    case (Round T cl)
    then show ?thesis using round_step [OF Cons.prems(1) _ st quiet, of T cl ctl l] Cons.prems(2,3) by fastforce
  qed
  then obtain w1 where w1: "timer_step ctl tab settime call e w = Some (Done w1)" "loop_ok tab (n - allocations e s) w1 (snd (spec_step e (l, s)))"
    "fired (tl_queue w1) = fst (spec_step e (l, s))" "slot (tl_queue w1) \<le> slot (tl_queue w) + 1" by blast
  have "run_fits (n - allocations e s) evs (fst (spec_step e (l, s)), snd (spec_step e (l, s)))" using Cons.prems(3) by simp
  from Cons.IH [OF w1(2,3) this] show ?case using w1(1,4) Cons.prems(4) by auto
qed

lemma loop_ok_sorted: "loop_ok tab n w s \<Longrightarrow> sorted_wrt (<) (map al_due s)"
  using rb.repr_sorted by (auto simp: loop_ok_def timers_ok_def queue_ok_def comp_def)

lemma start_ok:
  assumes "ctl_ok ctl tab" and "tab k = Map.empty" and "wself \<noteq> tself" and "evfd \<noteq> tfd" and "0 \<le> epoch" and "epoch < 2 ^ 63"
    and "a \<noteq> NULL" and "distinct (map fst ns)" and "{NULL, a} \<inter> fst ` set ns = {}"
    and "start_timer_loop ctl k epfd wself evfd tself tfd (new_TimerQueue a junk epoch [] ns) = Done w"
  shows "loop_ok tab (length ns) w []" and "fired (tl_queue w) = []" and "slot (tl_queue w) = 0"
proof -
  let ?q = "new_TimerQueue a junk epoch [] ns"
  from assms(10) have "0 \<le> tfd" "make_EventDispatcher epfd k wself evfd \<noteq> Aborted"
    by (auto simp: start_timer_loop_def new_timer_channel_def createTimerfd_def split: if_splits or_abort.splits)
  then obtain d wc where d: "0 \<le> tfd" "make_EventDispatcher epfd k wself evfd = Done (d, wc)" by (cases "make_EventDispatcher epfd k wself evfd") auto
  let ?tc = "\<lparr>ch_fd = tfd, ch_events = EV_NONE, ch_attached = False, ch_self = tself\<rparr>"
  from loop_begin_registers [OF assms(1,2) d(1) assms(4,3), of epfd] obtain d' wc' tc' where
    l: "loop_begin ctl wc ?tc d = Done (d', wc', tc')" "in_sync tab d' [wself \<mapsto> wc', tself \<mapsto> tc']" "channels d' = [evfd \<mapsto> wself, tfd \<mapsto> tself]"
      "tab (kern (selector d')) = [evfd \<mapsto> EPOLLIN, tfd \<mapsto> EPOLLIN]" by (auto simp: d(2))
  have w0: "w = \<lparr>tl_evd = d', tl_chan = tc', tl_queue = ?q\<rparr>" using assms(10) d l(1) by (simp add: start_timer_loop_def new_timer_channel_def createTimerfd_def)
  have "ch_fd tc' = tfd" using in_sync_chan [OF l(2), of tfd tself] l(3) by auto
  moreover have "ch_self tc' = tself" using l(2) by (simp add: in_sync_def)
  ultimately have w: "tl_queue w = ?q" "channels (tl_evd w) (ch_fd (tl_chan w)) = Some (ch_self (tl_chan w))"
      "tab (kern (selector (tl_evd w))) (ch_fd (tl_chan w)) = Some EPOLLIN" using w0 l(3,4) by simp_all
  have "rb_tree (tree ?q) Lf" using rbtree_create_ok [OF assms(7)] by (simp add: new_TimerQueue_def)
  then have "tree_repr (tree ?q) []" by (force simp: tree_repr_def)
  moreover have "nil (tree ?q) = a" by (simp add: new_TimerQueue_def rbtree_create_def)
  ultimately have "timers_ok (length ns) {} ?q []"
    using assms(8,9) by (auto simp: timers_ok_def queue_ok_def mallocs_ok_def new_TimerQueue_def)
  then show "loop_ok tab (length ns) w []"
    using w assms(5,6) unfolding loop_ok_def by (auto simp: armed_ok_def new_TimerQueue_def)
  show "fired (tl_queue w) = []" "slot (tl_queue w) = 0" using w(1) by (simp_all add: new_TimerQueue_def)
qed

text \<open>On the side of the specification: an alarm stays until it rings.\<close>

lemma ring_keeps:
  "ring_fits cl as s \<Longrightarrow> (\<forall>x \<in> set s. x \<in> set (snd (ring cl as s))) \<and> (\<forall>a \<in> set as. 0 < al_rounds a \<longrightarrow> al_call a \<in> set (fst (ring cl as s)))"
proof (induction cl as s rule: ring.induct)
  case (2 cl a as s)
  let ?a = "a\<lparr>al_due := hd cl + al_delay a, al_rounds := al_rounds a - 1\<rparr>"
  show ?case
  proof (cases "1 < al_rounds a")
    case True
    have "x \<in> set (schedule ?a s)" if "x \<in> set s" for x using 2(4) True that by (fastforce simp: schedule_def)
    then show ?thesis using 2(1) [OF True] 2(4) True by (auto split: prod.split)
  next
    case False
    then show ?thesis using 2(2) [OF False] 2(3) [OF False] 2(4) by (auto split: prod.split)
  qed
qed simp

lemma spec_keeps:
  assumes "a \<in> set s" and "0 < al_rounds a" and "event_fits n e s"
  shows "\<exists>l'. fst (spec_step e (l, s)) = l @ l' \<and> (a \<in> set (snd (spec_step e (l, s))) \<or> al_call a \<in> set l')"
proof (cases e)
  case (Add ta ms iv c T)
  then show ?thesis using assms(1,3) by (auto simp: schedule_def image_iff)
next
  case (Round T cl)
  show ?thesis
  proof (cases "s \<noteq> [] \<and> al_due (hd s) \<le> T")
    case True
    let ?as = "takeWhile (\<lambda>a. al_due a < cl ! 1) s" and ?s = "dropWhile (\<lambda>a. al_due a < cl ! 1) s"
    have "ring_fits (drop 2 cl) ?as ?s" using assms(3) True Round by simp
    note ring_keeps [OF this]
    moreover have "a \<in> set ?as \<or> a \<in> set ?s" using assms(1) by (metis Un_iff set_append takeWhile_dropWhile_id)
    ultimately show ?thesis using True Round assms(2) by (auto split: prod.split)
  next
    case False
    then show ?thesis using assms(1) Round by auto
  qed
qed

lemma spec_log: "\<exists>l'. fst (spec_step e (l, s)) = l @ l'"
  by (cases e) (auto split: prod.split)

lemma spec_run_log: "\<exists>l'. fst (fold spec_step evs (l, s)) = l @ l'"
proof (induction evs arbitrary: l s)
  case (Cons e evs)
  obtain l1 s1 where "spec_step e (l, s) = (l1, s1)" by fastforce
  then show ?case using spec_log [of e l s] Cons.IH [of l1 s1] by auto
qed simp

lemma spec_run_keeps:
  "a \<in> set s \<Longrightarrow> 0 < al_rounds a \<Longrightarrow> run_fits n evs (l, s) \<Longrightarrow>
   \<exists>l'. fst (fold spec_step evs (l, s)) = l @ l' \<and> (a \<in> set (snd (fold spec_step evs (l, s))) \<or> al_call a \<in> set l')"
proof (induction evs arbitrary: l s n)
  case (Cons e evs)
  obtain l1 s1 where e: "spec_step e (l, s) = (l1, s1)" by fastforce
  from spec_keeps [OF Cons.prems(1,2), of n e l] Cons.prems(3) e obtain l' where l': "l1 = l @ l'" "a \<in> set s1 \<or> al_call a \<in> set l'" by auto
  have r: "run_fits (n - allocations e s) evs (l1, s1)" using Cons.prems(3) e by simp
  show ?case
  proof (cases "a \<in> set s1")
    case True
    from Cons.IH [OF True Cons.prems(2) r] show ?thesis using e l'(1) by auto
  next
    case False
    then show ?thesis using spec_run_log [of evs l1 s1] e l' by auto
  qed
qed simp

lemma run_fits_append: "run_fits n (es @ fs) ls \<Longrightarrow> run_fits n es ls \<and> (\<exists>m. run_fits m fs (fold spec_step es ls))"
proof (induction es arbitrary: n ls)
  case (Cons e es)
  then show ?case using Cons.IH [of "n - allocations e (snd ls)" "spec_step e ls"] by auto
qed auto

text \<open>An alarm that is scheduled rings in a round that begins when it is due.\<close>

lemma round_rings:
  assumes "a \<in> set s" and "0 < al_rounds a" and "event_fits n (Round T cl) s" and "sorted_wrt (<) (map al_due s)"
    and "al_due a \<le> T" and "al_due a < cl ! 1"
  shows "\<exists>l'. fst (spec_step (Round T cl) (l, s)) = l @ l' \<and> al_call a \<in> set l'"
proof -
  obtain b s' where b: "s = b # s'" using assms(1) by (cases s) auto
  then have "al_due b \<le> al_due a" using assms(1,4) by auto
  then have d: "s \<noteq> [] \<and> al_due (hd s) \<le> T" using b assms(5) by simp
  let ?as = "takeWhile (\<lambda>a. al_due a < cl ! 1) s" and ?s = "dropWhile (\<lambda>a. al_due a < cl ! 1) s"
  have "x \<in> set (takeWhile (\<lambda>a. al_due a < cl ! 1) xs)" if "x \<in> set xs" "sorted_wrt (<) (map al_due xs)" "al_due x < cl ! 1" for x :: "'a alarm" and xs
    using that by (induction xs) fastforce+
  then have "a \<in> set ?as" using assms(1,4,6) by blast
  moreover have "ring_fits (drop 2 cl) ?as ?s" using assms(3) d by simp
  note ring_keeps [OF this]
  ultimately show ?thesis using d assms(2) by (auto split: prod.split)
qed

section \<open>Properties\<close>

text \<open>C20: the dispatcher with its timers is an alarm clock. Started as \<^verbatim>\<open>EventDispatcher::Start\<close> does on newly constructed objects, and
  run over any sequence of \<^verbatim>\<open>AddTimer\<close> calls and rounds of the loop, it is never at fault, and it has called exactly the
  callbacks, in exactly the order, that a sorted list of alarms prescribes, with the same alarms left in the tree. The
  callbacks do not use the timer queue themselves; timers have at least one round; no two expire in the same nanosecond; times,
  ids and allocations stay in range (\<open>run_fits\<close>).\<close>

theorem timer_loop_refines_alarms:
  assumes "ctl_ok ctl tab" and "tab k = Map.empty" and "wself \<noteq> tself" and "evfd \<noteq> tfd" and "settime_ok settime" and "quiet call"
    and "0 \<le> epoch" and "epoch < 2 ^ 63" and "a \<noteq> NULL" and "distinct (map fst ns)" and "{NULL, a} \<inter> fst ` set ns = {}"
    and "start_timer_loop ctl k epfd wself evfd tself tfd (new_TimerQueue a junk epoch [] ns) = Done w"
    and "run_fits (length ns) evs ([], [])" and "int (length evs) \<le> int_max"
  shows "\<exists>w' es. timer_run ctl tab settime call evs w = Some (Done w') \<and> fired (tl_queue w') = fst (fold spec_step evs ([], [])) \<and>
    tree_repr (tree (tl_queue w')) es \<and> map (alarm_of (tl_queue w')) es = snd (fold spec_step evs ([], []))"
proof -
  note s = start_ok [OF assms(1-4,7-12)]
  from timer_run_refines [where ctl = ctl, OF assms(5,6) s(1,2) assms(13)] s(3) assms(14) obtain w' n' where
    "timer_run ctl tab settime call evs w = Some (Done w')" "loop_ok tab n' w' (snd (fold spec_step evs ([], [])))"
    "fired (tl_queue w') = fst (fold spec_step evs ([], []))" by auto
  then show ?thesis by (auto simp: loop_ok_def timers_ok_def queue_ok_def)
qed

text \<open>An alarm that rings twice and a later one that rings once.\<close>

definition demo_adds :: "string timer_event list" where
  "demo_adds = [Add 100 1 2 ''tick'' 10, Round 1000010 [1000400, 1000500, 1000600], Round 2500000 [2500000, 2500001]]"

definition demo_nodes :: "(ptr \<times> ptr rbtree_node_t) list" where
  "demo_nodes = [(2, blank_node), (3, blank_node), (4, blank_node)]"

abbreviation demo_queue :: "string TimerQueue" where
  "demo_queue \<equiv> new_TimerQueue 1 blank_node 1000 [] demo_nodes"

lemma demo_starts: "\<exists>w. start_timer_loop demo_ctl Map.empty 3 1 4 2 5 (demo_queue) = Done w"
  using loop_begin_registers [OF demo_ctl_ok, of Map.empty 5 4 1 2 3]
  by (auto simp: start_timer_loop_def new_timer_channel_def createTimerfd_def split: or_abort.splits)

lemma demo_fold:
  "fold spec_step (Add 101 3 1 ''tock'' 5 # demo_adds @ [Round 4000000 [4000000, 4000001]]) ([], []) = ([''tick'', ''tick'', ''tock''], [])"
  "run_fits (length demo_nodes) (Add 101 3 1 ''tock'' 5 # demo_adds @ [Round 4000000 [4000000, 4000001]]) ([], [])"
  by (code_simp, code_simp)

lemma demo_nodes_ok: "distinct (map fst demo_nodes)" "{NULL, 1} \<inter> fst ` set demo_nodes = {}"
  by (simp_all add: demo_nodes_def)

theorem timer_loop_refines_alarms_witness:
  "\<exists>w w'. start_timer_loop demo_ctl Map.empty 3 1 4 2 5 demo_queue = Done w \<and>
     timer_run demo_ctl (\<lambda>k. k) (\<lambda>_. 0) (\<lambda>c. Some) (Add 101 3 1 ''tock'' 5 # demo_adds @ [Round 4000000 [4000000, 4000001]]) w = Some (Done w') \<and>
     fired (tl_queue w') = [''tick'', ''tick'', ''tock'']"
proof -
  let ?evs = "Add 101 3 1 ''tock'' 5 # demo_adds @ [Round 4000000 [4000000, 4000001]]"
  obtain w where w: "start_timer_loop demo_ctl Map.empty 3 1 4 2 5 demo_queue = Done w" using demo_starts by blast
  have "int (length ?evs) \<le> int_max" by (simp add: demo_adds_def)
  from timer_loop_refines_alarms [OF demo_ctl_ok refl _ _ settime_always quiet_Some _ _ _ demo_nodes_ok w demo_fold(2) this] obtain w' where
    "timer_run demo_ctl (\<lambda>k. k) (\<lambda>_. 0) (\<lambda>c. Some) ?evs w = Some (Done w')" "fired (tl_queue w') = fst (fold spec_step ?evs ([], []))" by auto
  then show ?thesis using w demo_fold(1) by (metis fst_conv)
qed



end
