(* ===== verification/Rbtree_Dump.thy ===== *)
theory Rbtree_Dump
  imports Rbtree_Query C_Strings
begin

text \<open>
  Printing the red-black tree (\<^verbatim>\<open>src/base/rbtree/rbtree_util.h\<close>): a traversal without recursion, on an array of 64
  backlogged nodes, that also tells where the vertical lines of the drawing go. What is printed is
  the result. The theory proves that it is the drawing a recursive function gives, for every tree whose
  height the array can hold.
\<close>

section \<open>The backlog\<close>

definition RBTREE_MAX_LEVEL :: nat where "RBTREE_MAX_LEVEL = 64"
definition RBTREE_LEFT_INDEX :: int where "RBTREE_LEFT_INDEX = 0"
definition RBTREE_RIGHT_INDEX :: int where "RBTREE_RIGHT_INDEX = 1"

text \<open>The array and the distance of its top pointer from the bottom.\<close>

type_synonym node_backlog = "ptr \<times> int"

definition nbl_push :: "node_backlog \<Rightarrow> nat \<Rightarrow> node_backlog list \<Rightarrow> nat \<times> node_backlog list" where
  "nbl_push e tos stk = (if tos < RBTREE_MAX_LEVEL then (Suc tos, stk[tos := e]) else (tos, stk))"

definition nbl_pop :: "nat \<Rightarrow> node_backlog list \<Rightarrow> (node_backlog \<times> nat) option" where
  "nbl_pop tos stk = (if tos > 0 then Some (stk ! (tos - 1), tos - 1) else None)"

section \<open>Printing\<close>

definition is_leaf :: "'v rbtree_t \<Rightarrow> ptr \<Rightarrow> bool option" where
  "is_leaf s n = do { l \<leftarrow> fld left s n; if l = nil s then do { r \<leftarrow> fld right s n; Some (r = nil s) } else Some False }"

definition side_mark :: "'v rbtree_t \<Rightarrow> ptr \<Rightarrow> ptr \<Rightarrow> string option" where
  "side_mark s par n =
     (if par = NULL then Some []
      else do {
        l \<leftarrow> fld left s par;
        (if n = l then Some ''L''
         else do { r \<leftarrow> fld right s par; Some (if n = r then ''R'' else []) })
      })"

definition node_text :: "bool \<Rightarrow> int \<Rightarrow> string" where
  "node_text red k = (if red then ''R:'' else ''B:'') @ show_nat (nat (culong k)) @ [LF]"

definition node_dump :: "'v rbtree_t \<Rightarrow> ptr \<Rightarrow> string option" where
  "node_dump s n =
     (if n = NULL then Some []
      else do {
        p \<leftarrow> fld parent s n;
        mk \<leftarrow> side_mark s p n;
        c \<leftarrow> fld col s n;
        k \<leftarrow> fld key s n;
        Some (mk @ node_text (c = RBTREE_COL_RED) k)
      })"

definition elbow :: string where "elbow = ''+-------''"
definition bar :: "bool \<Rightarrow> string" where "bar open_branch = (if open_branch then ''|       '' else ''        '')"

text \<open>The lines in front of a node, for the \<open>i\<close> of the loop.\<close>

fun draw_lines :: "ptr \<Rightarrow> node_backlog list \<Rightarrow> nat \<Rightarrow> nat list \<Rightarrow> string option" where
  "draw_lines nl stk level [] = Some []"
| "draw_lines nl stk level (i # ix) =
     (if i = level - 1 then do { rest \<leftarrow> draw_lines nl stk level ix; Some (elbow @ rest) }
      else if i - 1 < length stk
      then do { rest \<leftarrow> draw_lines nl stk level ix; Some (bar (fst (stk ! (i - 1)) \<noteq> nl) @ rest) }
      else None)"

partial_function (option) dump_loop :: "'v rbtree_t \<Rightarrow> ptr \<Rightarrow> node_backlog option \<Rightarrow> nat \<Rightarrow> nat \<Rightarrow> node_backlog list \<Rightarrow>
    string \<Rightarrow> string option" where
  "dump_loop s n p_nbl level tos stk out =
     (if n \<noteq> nil s
      then do {
        let sub_index = (case p_nbl of Some e \<Rightarrow> snd e | None \<Rightarrow> RBTREE_RIGHT_INDEX);
        leaf \<leftarrow> is_leaf s n;
        let e = (if leaf \<or> sub_index = RBTREE_LEFT_INDEX then (nil s, RBTREE_RIGHT_INDEX) else (n, RBTREE_LEFT_INDEX));
        let (tos, stk) = nbl_push e tos stk;
        let level = Suc level;
        out \<leftarrow> (if sub_index = RBTREE_RIGHT_INDEX
                then do { ls \<leftarrow> draw_lines (nil s) stk level [1..<level]; nd \<leftarrow> node_dump s n; Some (out @ ls @ nd) }
                else Some out);
        n \<leftarrow> (if sub_index = RBTREE_LEFT_INDEX then fld left s n else fld right s n);
        dump_loop s n None level tos stk out
      }
      else case nbl_pop tos stk of
          None \<Rightarrow> Some out
        | Some (e, tos) \<Rightarrow> dump_loop s (fst e) (Some e) (level - 1) tos stk out)"

definition rbtree_dump_for_watch :: "node_backlog list \<Rightarrow> 'v rbtree_t \<Rightarrow> string option" where
  "rbtree_dump_for_watch junk s = dump_loop s (root s) None 0 0 junk []"

section \<open>The drawing\<close>

text \<open>\<open>bs\<close> says for each ancestor whether its left branch is still to come.\<close>

definition lines_text :: "bool list \<Rightarrow> string" where
  "lines_text bs = (if bs = [] then [] else concat (map bar (butlast bs)) @ elbow)"

fun render :: "bool list \<Rightarrow> string \<Rightarrow> 'v rbt \<Rightarrow> string" where
  "render bs mk Lf = []"
| "render bs mk (Nd l a c k v r) =
     lines_text bs @ mk @ node_text (c = Red) k @ render (bs @ [\<not> (l = Lf \<and> r = Lf)]) ''R'' r @ render (bs @ [False]) ''L'' l"

fun rbt_height :: "'v rbt \<Rightarrow> nat" where
  "rbt_height Lf = 0"
| "rbt_height (Nd l a c k v r) = Suc (max (rbt_height l) (rbt_height r))"

section \<open>Lemmas\<close>

lemma dump_loop_nil: "dump_loop s (nil s) p level tos stk out = dump_loop s (nil s) None level tos stk out"
  by (simp add: dump_loop.simps [of s "nil s"])

lemma draw_lines_bars:
  "(\<And>i. i \<in> set ix \<Longrightarrow> i \<noteq> level - 1 \<and> i - 1 < length stk) \<Longrightarrow>
   draw_lines nl stk level (ix @ js) = map_option ((@) (concat (map (\<lambda>i. bar (fst (stk ! (i - 1)) \<noteq> nl)) ix))) (draw_lines nl stk level js)"
proof (induction ix)
  case Nil
  show ?case by (cases "draw_lines nl stk level js") simp_all
next
  case (Cons i ix)
  then show ?case by (cases "draw_lines nl stk level js") auto
qed

text \<open>The backlog below the current level tells the branches still open.\<close>

definition open_branches :: "ptr \<Rightarrow> node_backlog list \<Rightarrow> bool list" where
  "open_branches nl es = map (\<lambda>e. fst e \<noteq> nl) es"

lemma draw_lines_text:
  assumes "tos \<le> length stk"
  shows "draw_lines nl stk (Suc tos) [1..<Suc tos] = Some (lines_text (open_branches nl (take tos stk)))"
proof (cases tos)
  case (Suc m)
  have u: "[1..<Suc tos] = [1..<Suc m] @ [Suc m]" by (simp add: Suc)
  have "map (\<lambda>i. bar (fst (stk ! (i - 1)) \<noteq> nl)) [1..<Suc m] = map bar (butlast (open_branches nl (take tos stk)))"
    using assms Suc by (intro list_eq_iff_nth_eq [THEN iffD2]) (simp add: open_branches_def nth_butlast del: upt_Suc)
  moreover have "draw_lines nl stk (Suc tos) ([1..<Suc m] @ [Suc m]) =
      map_option ((@) (concat (map (\<lambda>i. bar (fst (stk ! (i - 1)) \<noteq> nl)) [1..<Suc m]))) (draw_lines nl stk (Suc tos) [Suc m])"
    using assms Suc by (intro draw_lines_bars) auto
  moreover have "stk \<noteq> []" using assms Suc by auto
  ultimately show ?thesis unfolding u using Suc by (simp add: lines_text_def open_branches_def del: upt_Suc)
qed (simp add: lines_text_def open_branches_def)

text \<open>Where the node stands below its parent.\<close>

lemma node_dump_text:
  assumes "fld parent s a = Some p" "side_mark s p a = Some mk" "fld col s a = Some (col_num c)" "fld key s a = Some k" "a \<noteq> NULL"
  shows "node_dump s a = Some (mk @ node_text (c = Red) k)"
  using assms by (simp add: node_dump_def)

lemma push_backlog:
  "tos < RBTREE_MAX_LEVEL \<Longrightarrow> length stk = RBTREE_MAX_LEVEL \<Longrightarrow>
   nbl_push e tos stk = (Suc tos, stk[tos := e]) \<and> take (Suc tos) (stk[tos := e]) = take tos stk @ [e]"
  by (simp add: nbl_push_def take_Suc_conv_app_nth)

text \<open>Walking a subtree prints its drawing and leaves the backlog as it was.\<close>

lemma dump_subtree:
  assumes "tree_in (mem s) (nil s) par t" "distinct (NULL # nil s # addrs t)" "length stk = RBTREE_MAX_LEVEL"
    "tos + rbt_height t \<le> RBTREE_MAX_LEVEL" "t \<noteq> Lf \<longrightarrow> side_mark s par (rp (nil s) t) = Some mk"
  shows "\<exists>stk'. length stk' = RBTREE_MAX_LEVEL \<and> take tos stk' = take tos stk \<and>
    dump_loop s (rp (nil s) t) None tos tos stk out =
    dump_loop s (nil s) None tos tos stk' (out @ render (open_branches (nil s) (take tos stk)) mk t)"
  using assms
proof (induction t arbitrary: par tos stk out mk)
  case (Nd l a c k v r)
  let ?nl = "nil s"
  have load: "load s a = Some (node (rp ?nl l) (rp ?nl r) par c k v)" and a: "a \<noteq> ?nl" "a \<noteq> NULL"
    using Nd.prems(1,2) by (auto simp: load_def)
  then have f: "fld left s a = Some (rp ?nl l)" "fld right s a = Some (rp ?nl r)" "fld parent s a = Some par"
    "fld col s a = Some (col_num c)" "fld key s a = Some k" by (simp_all add: fld_def)
  let ?leaf = "l = Lf \<and> r = Lf"
  have nl: "rp ?nl l = ?nl \<longleftrightarrow> l = Lf" "rp ?nl r = ?nl \<longleftrightarrow> r = Lf" using Nd.prems(2) rp_notin [of ?nl] by auto
  have leaf: "is_leaf s a = Some ?leaf" using f nl by (auto simp: is_leaf_def)
  have h: "Suc (tos + rbt_height l) \<le> RBTREE_MAX_LEVEL" "Suc (tos + rbt_height r) \<le> RBTREE_MAX_LEVEL" using Nd.prems(4) by simp_all
  have room: "tos < RBTREE_MAX_LEVEL" using Nd.prems(4) by simp
  define e where "e = (if ?leaf then (?nl, RBTREE_RIGHT_INDEX) else (a, RBTREE_LEFT_INDEX))"
  note p1 = push_backlog [OF room Nd.prems(3), of e]
  let ?out1 = "out @ lines_text (open_branches ?nl (take tos stk)) @ mk @ node_text (c = Red) k"
  have draw: "draw_lines ?nl (stk[tos := e]) (Suc tos) [1..<Suc tos] = Some (lines_text (open_branches ?nl (take tos stk)))"
    using draw_lines_text [of tos "stk[tos := e]" ?nl] room Nd.prems(3) by simp
  have nd: "node_dump s a = Some (mk @ node_text (c = Red) k)"
    using node_dump_text [OF f(3) _ f(4,5) a(2)] Nd.prems(5) by simp
  have first: "dump_loop s a None tos tos stk out = dump_loop s (rp ?nl r) None (Suc tos) (Suc tos) (stk[tos := e]) ?out1"
    using a leaf p1 draw nd f
    by (subst dump_loop.simps) (simp add: e_def RBTREE_RIGHT_INDEX_def RBTREE_LEFT_INDEX_def del: upt_Suc)
  let ?bs = "open_branches ?nl (take tos stk)"
  have bs: "open_branches ?nl (take tos stk @ [(x, i)]) = ?bs @ [x \<noteq> ?nl]" for x i by (simp add: open_branches_def)
  have fe: "fst e \<noteq> ?nl \<longleftrightarrow> \<not> ?leaf" using a by (simp add: e_def)
  have pop: "dump_loop s ?nl None (Suc tos) (Suc tos) stk1 o1 = dump_loop s (fst d) (Some d) tos tos stk1 o1"
    if "take (Suc tos) stk1 = take tos stk @ [d]" "length stk1 = RBTREE_MAX_LEVEL" for stk1 d o1
  proof -
    have "stk1 ! tos = (take (Suc tos) stk1) ! tos" by simp
    also have "\<dots> = d" using that room Nd.prems(3) by (simp add: nth_append)
    finally show ?thesis by (subst dump_loop.simps) (simp add: nbl_pop_def)
  qed
  have "side_mark s a (rp ?nl r) = Some ''R''" if "r \<noteq> Lf"
  proof -
    have "rp ?nl r \<in> set (addrs r)" by (rule rp_in [OF that])
    then have "rp ?nl r \<noteq> rp ?nl l" using Nd.prems(2) by (cases l) auto
    then show ?thesis using f a by (simp add: side_mark_def)
  qed
  then obtain stk2 where stk2: "length stk2 = RBTREE_MAX_LEVEL" "take (Suc tos) stk2 = take tos stk @ [e]" and
    right: "dump_loop s (rp ?nl r) None (Suc tos) (Suc tos) (stk[tos := e]) ?out1 =
      dump_loop s ?nl None (Suc tos) (Suc tos) stk2 (?out1 @ render (?bs @ [\<not> ?leaf]) ''R'' r)"
    using Nd.IH(2) [of a "stk[tos := e]" "Suc tos" "''R''" ?out1] Nd.prems(1-3) h p1 bs [of "fst e" "snd e"] fe by auto
  let ?out2 = "?out1 @ render (?bs @ [\<not> ?leaf]) ''R'' r"
  have t2: "take tos stk2 = take tos stk" using arg_cong [OF stk2(2), of "take tos"] room Nd.prems(3) by (simp add: min_def)
  show ?case
  proof (cases ?leaf)
    case True
    then show ?thesis using first right pop [OF stk2(2,1)] t2 stk2(1) fe dump_loop_nil [of s "Some e" tos tos stk2]
      by (intro exI [of _ stk2]) simp
  next
    case False
    let ?e = "(?nl, RBTREE_RIGHT_INDEX)"
    note p2 = push_backlog [OF room stk2(1), of ?e]
    have e: "e = (a, RBTREE_LEFT_INDEX)" using False by (auto simp: e_def)
    have second: "dump_loop s a (Some (a, RBTREE_LEFT_INDEX)) tos tos stk2 ?out2 =
        dump_loop s (rp ?nl l) None (Suc tos) (Suc tos) (stk2[tos := ?e]) ?out2"
      using a leaf p2 f by (subst dump_loop.simps) (simp add: RBTREE_RIGHT_INDEX_def RBTREE_LEFT_INDEX_def)
    have "side_mark s a (rp ?nl l) = Some ''L''" using f a by (simp add: side_mark_def)
    then obtain stk3 where stk3: "length stk3 = RBTREE_MAX_LEVEL" "take (Suc tos) stk3 = take tos stk @ [?e]" and
      left: "dump_loop s (rp ?nl l) None (Suc tos) (Suc tos) (stk2[tos := ?e]) ?out2 =
        dump_loop s ?nl None (Suc tos) (Suc tos) stk3 (?out2 @ render (?bs @ [False]) ''L'' l)"
      using Nd.IH(1) [of a "stk2[tos := ?e]" "Suc tos" "''L''" ?out2] Nd.prems(1,2) h stk2(1) p2 t2 bs [of ?nl] by auto
    have "take tos stk3 = take tos stk" using arg_cong [OF stk3(2), of "take tos"] room Nd.prems(3) by (simp add: min_def)
    then show ?thesis using first right pop [OF stk2(2,1)] second left pop [OF stk3(2,1)] stk3(1) e False
        dump_loop_nil [of s "Some ?e" tos tos stk3]
      by (intro exI [of _ stk3]) auto
  qed
qed auto

section \<open>Property\<close>

text \<open>C30: on every tree of height at most 64, whatever its backlog array holds, \<^verbatim>\<open>rbtree_dump_for_watch\<close> ends and prints what the recursive
  drawing prints: each node once, before its right and then its left subtree, with side, colour, key and the
  lines of the branches still open.\<close>

theorem rbtree_dump_draws_tree:
  assumes "zrep s t []" and "rbt_height t \<le> RBTREE_MAX_LEVEL" and "length junk = RBTREE_MAX_LEVEL"
    and "fld left s (nil s) = Some NULL" and "fld right s (nil s) = Some NULL"
  shows "rbtree_dump_for_watch junk s = Some (render [] [] t)"
proof -
  have z: "tree_in (mem s) (nil s) (nil s) t" "distinct (NULL # nil s # addrs t)" "root s = rp (nil s) t" "nil s \<noteq> NULL"
    using assms(1) by (auto simp: zrep_def)
  have "side_mark s (nil s) (rp (nil s) t) = Some []" if "t \<noteq> Lf"
  proof -
    have "rp (nil s) t \<noteq> NULL" using rp_in [OF that, of "nil s"] z(2) by auto
    then show ?thesis using assms(4,5) z(4) by (simp add: side_mark_def)
  qed
  then obtain stk' where "dump_loop s (rp (nil s) t) None 0 0 junk [] = dump_loop s (nil s) None 0 0 stk' (render [] [] t)"
    using dump_subtree [OF z(1,2) assms(3), of 0 "[]" "[]"] assms(2) by (auto simp: open_branches_def)
  then show ?thesis by (simp add: rbtree_dump_for_watch_def z(3) dump_loop.simps [of s "nil s"] nbl_pop_def)
qed

definition demo_tree :: "nat rbtree_t" where
  "demo_tree = \<lparr>mem = [1 \<mapsto> \<lparr>left = NULL, right = NULL, parent = NULL, col = RBTREE_COL_BLACK, key = 0, val = 0\<rparr>,
     2 \<mapsto> node 1 3 1 Black 5 50, 3 \<mapsto> node 1 1 2 Red 9 90], root = 2, nil = 1\<rparr>"

theorem rbtree_dump_draws_tree_witness:
  "rbtree_dump_for_watch (replicate 64 (0, 0)) demo_tree = Some (''B:5'' @ [LF] @ ''+-------RR:9'' @ [LF])"
proof -
  let ?t = "Nd Lf 2 Black 5 50 (Nd Lf 3 Red 9 90 Lf)"
  have z: "zrep demo_tree ?t []" by (simp add: zrep_def sentinel_def demo_tree_def)
  have r: "render [] [] ?t = ''B:5'' @ [LF] @ ''+-------RR:9'' @ [LF]"
    by (simp add: lines_text_def elbow_def node_text_def culong_def show_nat.simps digit_char_def)
  have "fld left demo_tree (nil demo_tree) = Some NULL" "fld right demo_tree (nil demo_tree) = Some NULL"
    by (simp_all add: demo_tree_def fld_def load_def)
  then show ?thesis using rbtree_dump_draws_tree [OF z, of "replicate 64 (0, 0)"] r by (simp add: RBTREE_MAX_LEVEL_def)
qed

end
