(* ===== verification/Log_Stream.thy ===== *)
theory Log_Stream
  imports C_Strings "HOL-Library.Signed_Division"
begin

text \<open>
  The log stream (\<^verbatim>\<open>src/log/logstream.h\<close>, \<^verbatim>\<open>src/log/logstream.cpp\<close>): the bounded
  character array \<^verbatim>\<open>FixedBuffer\<close> with its write pointer, the hand-written number
  conversions \<^verbatim>\<open>convert\<close> and \<^verbatim>\<open>convertHex\<close> and the insertion operators. The pointer \<^verbatim>\<open>_cur\<close>
  is its offset from \<^verbatim>\<open>_data\<close>; a store outside the array is undefined. The theory
  proves that \<^verbatim>\<open>convert\<close> writes the decimal numeral of every integer of up to 64 bits
  and that an insertion never leaves the array and is all or nothing.
\<close>

section \<open>FixedBuffer\<close>

record FixedBuffer =
  fb_data :: bytes
  fb_cur :: int

text \<open>The array is not initialised: \<open>junk\<close> is what it holds.\<close>

definition new_FixedBuffer :: "bytes \<Rightarrow> FixedBuffer" where
  "new_FixedBuffer junk = \<lparr>fb_data = junk, fb_cur = 0\<rparr>"

definition fb_length :: "FixedBuffer \<Rightarrow> int" where
  "fb_length b = culong (fb_cur b)"

definition fb_remain :: "FixedBuffer \<Rightarrow> int" where
  "fb_remain b = culong (int (length (fb_data b)) - fb_cur b)"

definition fb_offset :: "FixedBuffer \<Rightarrow> int \<Rightarrow> FixedBuffer" where
  "fb_offset b off = b\<lparr>fb_cur := fb_cur b + off\<rparr>"

definition fb_reset :: "FixedBuffer \<Rightarrow> FixedBuffer" where
  "fb_reset b = b\<lparr>fb_cur := 0\<rparr>"

definition fb_append :: "FixedBuffer \<Rightarrow> bytes \<Rightarrow> (bool \<times> FixedBuffer) option" where
  "fb_append b d =
     (if fb_remain b < int (length d) then Some (False, b)
      else do {
        v \<leftarrow> write_at (fb_data b) (fb_cur b) d;
        Some (True, fb_offset (b\<lparr>fb_data := v\<rparr>) (int (length d)))
      })"

section \<open>Numbers\<close>

definition digits :: string where "digits = ''9876543210123456789''"
definition digitsHex :: string where "digitsHex = ''0123456789ABCDEF''"

text \<open>The loop of \<^verbatim>\<open>convert\<close>, least significant digit first. C++ division truncates, so the
  last digit of a negative number is negative and \<^verbatim>\<open>zero[lsd]\<close>, nine places into the
  table, finds it on the left.\<close>

lemma sdiv10_less: "i sdiv 10 \<noteq> 0 \<Longrightarrow> nat \<bar>i sdiv 10\<bar> < nat \<bar>i\<bar>" for i :: int
  by (auto simp: signed_divide_int_def sgn_if abs_mult)

function convert_loop :: "int \<Rightarrow> bytes" where
  "convert_loop i =
     (let lsd = i smod 10; i' = i sdiv 10
      in digits ! nat (9 + lsd) # (if i' \<noteq> 0 then convert_loop i' else []))"
  by auto
termination by (relation "measure (\<lambda>i. nat \<bar>i\<bar>)") (use sdiv10_less in auto)

declare convert_loop.simps [simp del]

definition convert :: "bytes \<Rightarrow> int \<Rightarrow> int \<Rightarrow> (int \<times> bytes) option" where
  "convert arr pos value =
     (let s = rev (convert_loop value @ (if value < 0 then ''-'' else ''''))
      in do { v \<leftarrow> write_at arr pos (s @ [CHR 0x00]); Some (int (length s), v) })"

fun convertHex_loop :: "nat \<Rightarrow> bytes" where
  "convertHex_loop i = digitsHex ! (i mod 16) # (if i div 16 \<noteq> 0 then convertHex_loop (i div 16) else [])"

declare convertHex_loop.simps [simp del]

definition convertHex :: "bytes \<Rightarrow> int \<Rightarrow> nat \<Rightarrow> (int \<times> bytes) option" where
  "convertHex arr pos value =
     (let s = rev (convertHex_loop value)
      in do { v \<leftarrow> write_at arr pos (s @ [CHR 0x00]); Some (int (length s), v) })"

section \<open>Insertion operators\<close>

definition kMaxLogMessageLen :: nat where "kMaxLogMessageLen = 3000"
definition maxNumericSize :: int where "maxNumericSize = 32"

definition copy2buf :: "FixedBuffer \<Rightarrow> int \<Rightarrow> FixedBuffer option" where
  "copy2buf b v =
     (if maxNumericSize \<le> fb_remain b
      then do {
        (len, arr) \<leftarrow> convert (fb_data b) (fb_cur b) v;
        Some (fb_offset (b\<lparr>fb_data := arr\<rparr>) len)
      }
      else Some b)"

text \<open>The result of \<^verbatim>\<open>append\<close> is ignored by the operators.\<close>

definition put_bytes :: "FixedBuffer \<Rightarrow> bytes \<Rightarrow> FixedBuffer option" where
  "put_bytes b d = map_option snd (fb_append b d)"

definition put_bool :: "FixedBuffer \<Rightarrow> bool \<Rightarrow> FixedBuffer option" where
  "put_bool b v = put_bytes b (if v then ''1'' else ''0'')"

definition put_char :: "FixedBuffer \<Rightarrow> char \<Rightarrow> FixedBuffer option" where
  "put_char b c = put_bytes b [c]"

text \<open>\<open>None\<close> is the null pointer.\<close>

definition put_cstr :: "FixedBuffer \<Rightarrow> string option \<Rightarrow> FixedBuffer option" where
  "put_cstr b str = (case str of Some s \<Rightarrow> put_bytes b s | None \<Rightarrow> put_bytes b ''(null)'')"

definition put_string :: "FixedBuffer \<Rightarrow> string \<Rightarrow> FixedBuffer option" where
  "put_string b str = put_bytes b str"

definition put_buffer :: "FixedBuffer \<Rightarrow> FixedBuffer \<Rightarrow> FixedBuffer option" where
  "put_buffer b other = do { d \<leftarrow> read_at (fb_data other) 0 (fb_length other); put_bytes b d }"

definition put_pointer :: "FixedBuffer \<Rightarrow> nat \<Rightarrow> FixedBuffer option" where
  "put_pointer b p =
     (if maxNumericSize + 2 < fb_remain b
      then do {
        b1 \<leftarrow> put_bytes b ''0x'';
        (len, arr) \<leftarrow> convertHex (fb_data b1) (fb_cur b1) p;
        Some (fb_offset (b1\<lparr>fb_data := arr\<rparr>) len)
      }
      else Some b)"

text \<open>\<open>txt\<close> is the text \<^verbatim>\<open>printf\<close> makes of the number with \<^verbatim>\<open>%.12g\<close>.\<close>

definition put_double :: "FixedBuffer \<Rightarrow> string \<Rightarrow> FixedBuffer option" where
  "put_double b txt =
     (if maxNumericSize \<le> fb_remain b
      then do {
        (len, arr) \<leftarrow> snprintf_at (fb_data b) (fb_cur b) (nat maxNumericSize) txt;
        Some (fb_offset (b\<lparr>fb_data := arr\<rparr>) len)
      }
      else Some b)"

text \<open>The overloads of \<^verbatim>\<open>operator<<\<close>; all integer types share \<^verbatim>\<open>copy2buf\<close>, \<^verbatim>\<open>short\<close> by way
  of \<^verbatim>\<open>int\<close>, and \<^verbatim>\<open>float\<close> by way of \<^verbatim>\<open>double\<close>.\<close>

datatype log_item =
    LBool bool
  | LInteger int
  | LPointer nat
  | LDouble string
  | LChar char
  | LCstr "string option"
  | LString string
  | LBuffer FixedBuffer

fun insert_item :: "FixedBuffer \<Rightarrow> log_item \<Rightarrow> FixedBuffer option" where
  "insert_item b (LBool v) = put_bool b v"
| "insert_item b (LInteger v) = copy2buf b v"
| "insert_item b (LPointer p) = put_pointer b p"
| "insert_item b (LDouble txt) = put_double b txt"
| "insert_item b (LChar c) = put_char b c"
| "insert_item b (LCstr s) = put_cstr b s"
| "insert_item b (LString s) = put_string b s"
| "insert_item b (LBuffer other) = put_buffer b other"

fun insert_items :: "FixedBuffer \<Rightarrow> log_item list \<Rightarrow> FixedBuffer option" where
  "insert_items b [] = Some b"
| "insert_items b (x # xs) = do { b1 \<leftarrow> insert_item b x; insert_items b1 xs }"

section \<open>Invariant, contents and the text of an item\<close>

definition fb_ok :: "FixedBuffer \<Rightarrow> bool" where
  "fb_ok b \<longleftrightarrow> 0 \<le> fb_cur b \<and> fb_cur b \<le> int (length (fb_data b)) \<and> int (length (fb_data b)) < 2 ^ 63"

definition fb_content :: "FixedBuffer \<Rightarrow> bytes" where
  "fb_content b = take (nat (fb_cur b)) (fb_data b)"

text \<open>The values the operators' argument types hold; \<^verbatim>\<open>%.12g\<close> never makes more than
  19 characters.\<close>

fun item_ok :: "log_item \<Rightarrow> bool" where
  "item_ok (LInteger v) \<longleftrightarrow> - (2 ^ 63) \<le> v \<and> v < 2 ^ 64"
| "item_ok (LPointer p) \<longleftrightarrow> p < 2 ^ 64"
| "item_ok (LDouble txt) \<longleftrightarrow> length txt < 32"
| "item_ok (LBuffer other) \<longleftrightarrow> fb_ok other"
| "item_ok _ \<longleftrightarrow> True"

definition show_hex :: "nat \<Rightarrow> string" where
  "show_hex n = rev (convertHex_loop n)"

definition hex_value :: "char \<Rightarrow> nat" where
  "hex_value c = (if is_digit c then digit_value c else of_char c - 55)"

definition read_hex :: "string \<Rightarrow> nat" where
  "read_hex s = fold (\<lambda>c n. 16 * n + hex_value c) s 0"

fun item_text :: "log_item \<Rightarrow> string" where
  "item_text (LBool v) = (if v then ''1'' else ''0'')"
| "item_text (LInteger v) = show_int v"
| "item_text (LPointer p) = ''0x'' @ show_hex p"
| "item_text (LDouble txt) = txt"
| "item_text (LChar c) = [c]"
| "item_text (LCstr s) = (case s of Some s \<Rightarrow> s | None \<Rightarrow> ''(null)'')"
| "item_text (LString s) = s"
| "item_text (LBuffer other) = fb_content other"

text \<open>The room an operator asks for.\<close>

fun item_room :: "log_item \<Rightarrow> int" where
  "item_room (LInteger v) = 32"
| "item_room (LPointer p) = 35"
| "item_room (LDouble txt) = 32"
| "item_room x = int (length (item_text x))"

section \<open>Lemmas\<close>

lemma fb_remain_eq: "fb_ok b \<Longrightarrow> fb_remain b = int (length (fb_data b)) - fb_cur b"
  by (simp add: fb_remain_def fb_ok_def culong_id)

lemma fb_length_eq: "fb_ok b \<Longrightarrow> fb_length b = fb_cur b"
  by (simp add: fb_length_def fb_ok_def culong_id)

lemma length_fb_content: "fb_ok b \<Longrightarrow> int (length (fb_content b)) = fb_cur b"
  by (auto simp: fb_content_def fb_ok_def min_def)

lemma new_FixedBuffer_ok:
  "int (length junk) < 2 ^ 63 \<Longrightarrow> fb_ok (new_FixedBuffer junk) \<and> fb_content (new_FixedBuffer junk) = []"
  by (simp add: new_FixedBuffer_def fb_ok_def fb_content_def)

text \<open>Storing \<open>s\<close>, and perhaps a terminator behind it, at the write pointer and advancing it.\<close>

lemma store_ok:
  assumes "fb_ok b" and "fb_cur b + int (length (s @ t)) \<le> int (length (fb_data b))"
  obtains v where "write_at (fb_data b) (fb_cur b) (s @ t) = Some v" "length v = length (fb_data b)"
    "fb_ok (fb_offset (b\<lparr>fb_data := v\<rparr>) (int (length s)))"
    "fb_content (fb_offset (b\<lparr>fb_data := v\<rparr>) (int (length s))) = fb_content b @ s"
proof -
  let ?p = "nat (fb_cur b)"
  let ?v = "take ?p (fb_data b) @ (s @ t) @ drop (?p + length (s @ t)) (fb_data b)"
  have p: "0 \<le> fb_cur b" "?p + length s \<le> length (fb_data b)" "?p \<le> length (fb_data b)"
    using assms by (auto simp: fb_ok_def)
  then have w: "write_at (fb_data b) (fb_cur b) (s @ t) = Some ?v"
    using assms by (simp add: write_at_Some)
  moreover have l: "length ?v = length (fb_data b)" by (rule length_write_at [OF w])
  moreover have "fb_ok (fb_offset (b\<lparr>fb_data := ?v\<rparr>) (int (length s)))"
    using assms l by (simp add: fb_ok_def fb_offset_def del: append_assoc)
  moreover have "take (?p + length s) ?v = take ?p (fb_data b) @ s" using p by simp
  then have "fb_content (fb_offset (b\<lparr>fb_data := ?v\<rparr>) (int (length s))) = fb_content b @ s"
    using p by (simp add: fb_content_def fb_offset_def nat_add_distrib)
  ultimately show ?thesis by (rule that)
qed

text \<open>An operator on \<open>b\<close> is defined, keeps the invariant, and appends \<open>t\<close> if it \<open>fits\<close>.\<close>

definition puts :: "FixedBuffer \<Rightarrow> FixedBuffer option \<Rightarrow> bool \<Rightarrow> bytes \<Rightarrow> bool" where
  "puts b r fits t \<longleftrightarrow> (\<exists>b'. r = Some b' \<and> fb_ok b' \<and> length (fb_data b') = length (fb_data b) \<and>
     fb_content b' = fb_content b @ (if fits then t else []))"

lemma put_bytes_ok:
  assumes "fb_ok b"
  shows "puts b (put_bytes b d) (int (length d) \<le> fb_remain b) d"
proof (cases "fb_remain b < int (length d)")
  case True
  then show ?thesis using assms by (simp add: puts_def put_bytes_def fb_append_def)
next
  case False
  then have "fb_cur b + int (length (d @ [])) \<le> int (length (fb_data b))" using fb_remain_eq [OF assms] by simp
  from store_ok [OF assms this] obtain v where "write_at (fb_data b) (fb_cur b) d = Some v" "length v = length (fb_data b)"
    "fb_ok (fb_offset (b\<lparr>fb_data := v\<rparr>) (int (length d)))"
    "fb_content (fb_offset (b\<lparr>fb_data := v\<rparr>) (int (length d))) = fb_content b @ d" by (metis append_Nil2)
  then show ?thesis using False by (simp add: puts_def put_bytes_def fb_append_def fb_offset_def)
qed

text \<open>The table lookup finds the digit of the absolute value.\<close>

lemma digits_nth: "- 10 < l \<Longrightarrow> l < 10 \<Longrightarrow> digits ! nat (9 + l) = digit_char (nat \<bar>l\<bar>)" for l :: int
proof -
  assume "- 10 < l" "l < 10"
  then have "l \<in> {-9, -8, -7, -6, -5, -4, -3, -2, -1, 0, 1, 2, 3, 4, 5, 6, 7, 8, 9}" by simp presburger
  then show ?thesis by (elim insertE) (simp_all add: digits_def digit_char_def)
qed

lemma convert_loop_show: "convert_loop i = rev (show_nat (nat \<bar>i\<bar>))"
proof (induction i rule: convert_loop.induct)
  case (1 i)
  let ?n = "nat \<bar>i\<bar>"
  have s: "i smod 10 = (if i < 0 then - (- i mod 10) else i mod 10)"
    by (simp add: signed_modulo_int_def signed_divide_int_def sgn_if minus_mult_div_eq_mod)
  then have m: "nat \<bar>i smod 10\<bar> = ?n mod 10" "- 10 < i smod 10" "i smod 10 < 10"
    using pos_mod_bound [of 10 i] pos_mod_sign [of 10 i] pos_mod_bound [of 10 "- i"] pos_mod_sign [of 10 "- i"]
    by (auto simp: nat_mod_distrib)
  have d: "nat \<bar>i sdiv 10\<bar> = ?n div 10" by (simp add: signed_divide_int_def sgn_if nat_div_distrib)
  then have z: "i sdiv 10 = 0 \<longleftrightarrow> ?n < 10" by linarith
  show ?case using 1 [OF refl refl] z d m
    by (subst convert_loop.simps, subst show_nat.simps) (auto simp: Let_def digits_nth)
qed

lemma convert_eq_show:
  "convert arr pos v = do { a \<leftarrow> write_at arr pos (show_int v @ [CHR 0x00]); Some (int (length (show_int v)), a) }"
  by (simp add: convert_def convert_loop_show show_int_def Let_def)

lemma length_show_int64: "- (2 ^ 63) \<le> v \<Longrightarrow> v < 2 ^ 64 \<Longrightarrow> length (show_int v) \<le> 20"
  using length_show_nat [of "nat v" 20] length_show_nat [of "nat (- v)" 19] by (auto simp: show_int_def nat_less_iff)

lemma length_convertHex_loop: "n < 16 ^ k \<Longrightarrow> 0 < k \<Longrightarrow> length (convertHex_loop n) \<le> k"
proof (induction n arbitrary: k rule: convertHex_loop.induct)
  case (1 n)
  show ?case
  proof (cases "n div 16 = 0")
    case True
    then show ?thesis using 1(3) by (subst convertHex_loop.simps) simp
  next
    case False
    then have k: "1 < k" using 1(2,3) by (cases "k = 1") auto
    have "n div 16 < 16 ^ (k - 1)" using 1(2) k by (cases k) (simp_all add: div_less_iff_less_mult mult.commute)
    from 1(1) [OF False this] k show ?thesis using False by (subst convertHex_loop.simps) simp
  qed
qed

lemma hex_value_nth: "d < 16 \<Longrightarrow> hex_value (digitsHex ! d) = d"
  by (auto simp: hex_value_def is_digit_def digit_value_def digitsHex_def eval_nat_numeral less_Suc_eq)

text \<open>What \<^verbatim>\<open>convertHex\<close> writes is the hexadecimal numeral of the pointer.\<close>

lemma read_show_hex: "read_hex (show_hex n) = n"
proof (induction n rule: convertHex_loop.induct)
  case (1 n)
  then show ?case unfolding show_hex_def
    by (subst convertHex_loop.simps) (auto simp: read_hex_def hex_value_nth)
qed

lemma copy2buf_ok:
  assumes "fb_ok b" and "- (2 ^ 63) \<le> v" "v < 2 ^ 64"
  shows "puts b (copy2buf b v) (32 \<le> fb_remain b) (show_int v)"
proof (cases "32 \<le> fb_remain b")
  case True
  then have "fb_cur b + int (length (show_int v @ [CHR 0x00])) \<le> int (length (fb_data b))"
    using fb_remain_eq [OF assms(1)] length_show_int64 [OF assms(2,3)] by simp
  from store_ok [OF assms(1) this] show ?thesis
    using True by (fastforce simp: puts_def copy2buf_def maxNumericSize_def convert_eq_show fb_offset_def)
qed (use assms in \<open>simp add: puts_def copy2buf_def maxNumericSize_def\<close>)

lemma put_double_ok:
  assumes "fb_ok b" and "length txt < 32"
  shows "puts b (put_double b txt) (32 \<le> fb_remain b) txt"
proof (cases "32 \<le> fb_remain b")
  case True
  then have "fb_cur b + int (length (txt @ [CHR 0x00])) \<le> int (length (fb_data b))"
    using fb_remain_eq [OF assms(1)] assms(2) by simp
  from store_ok [OF assms(1) this] show ?thesis
    using True assms(2) by (fastforce simp: puts_def put_double_def maxNumericSize_def snprintf_at_def fb_offset_def)
qed (use assms in \<open>simp add: puts_def put_double_def maxNumericSize_def\<close>)

lemma put_pointer_ok:
  assumes "fb_ok b" and "p < 2 ^ 64"
  shows "puts b (put_pointer b p) (35 \<le> fb_remain b) (''0x'' @ show_hex p)"
proof (cases "35 \<le> fb_remain b")
  case True
  from put_bytes_ok [OF assms(1), of "''0x''"] True obtain b1 where b1: "put_bytes b ''0x'' = Some b1" "fb_ok b1"
    "length (fb_data b1) = length (fb_data b)" "fb_content b1 = fb_content b @ ''0x''" by (auto simp: puts_def)
  have "p < 16 ^ 16" using assms(2) by simp
  then have "length (show_hex p) \<le> 16" using length_convertHex_loop [of p 16] by (simp add: show_hex_def)
  then have "fb_cur b1 + int (length (show_hex p @ [CHR 0x00])) \<le> int (length (fb_data b1))"
    using True fb_remain_eq [OF assms(1)] length_fb_content [OF assms(1)] length_fb_content [OF b1(2)] b1(3,4) by simp
  from store_ok [OF b1(2) this] show ?thesis
    using True b1 by (fastforce simp: puts_def put_pointer_def maxNumericSize_def convertHex_def show_hex_def fb_offset_def Let_def)
qed (use assms in \<open>simp add: puts_def put_pointer_def maxNumericSize_def\<close>)

lemma insert_item_ok:
  assumes "fb_ok b" and "item_ok x"
  shows "puts b (insert_item b x) (item_room x \<le> fb_remain b) (item_text x)"
proof (cases x)
  case (LBuffer other)
  then have "read_at (fb_data other) 0 (fb_length other) = Some (fb_content other)"
    using assms(2) by (simp add: read_at_def fb_length_eq fb_content_def) (simp add: fb_ok_def)
  then show ?thesis using put_bytes_ok [OF assms(1), of "fb_content other"] LBuffer by (simp add: put_buffer_def)
next
  case (LCstr s)
  then show ?thesis using put_bytes_ok [OF assms(1), of "item_text x"] by (cases s) (simp_all add: put_cstr_def)
next
  case (LBool v)
  then show ?thesis using put_bytes_ok [OF assms(1), of "item_text x"] by (simp add: put_bool_def split: if_splits)
next
  case (LChar c)
  then show ?thesis using put_bytes_ok [OF assms(1), of "[c]"] by (simp add: put_char_def)
next
  case (LString s)
  then show ?thesis using put_bytes_ok [OF assms(1), of s] by (simp add: put_string_def)
qed (use assms in \<open>simp_all add: copy2buf_ok put_double_ok put_pointer_ok [simplified]\<close>)

section \<open>Properties\<close>

text \<open>C35: for every integer a C++ integer type of up to 64 bits holds, the smallest negative one
  included, \<^verbatim>\<open>convert\<close> stores the canonical decimal numeral of the value, reading the numeral
  gives the value back, and at most 21 characters, the terminator included, are
  stored at the given place; every other character of the array is kept.\<close>

theorem convert_decimal_roundtrip:
  assumes "- (2 ^ 63) \<le> v" and "v < 2 ^ 64" and "0 \<le> pos" and "pos + 21 \<le> int (length arr)"
  shows "\<exists>s. convert arr pos v = Some (int (length s),
           take (nat pos) arr @ s @ [CHR 0x00] @ drop (nat pos + length s + 1) arr) \<and>
     s = show_int v \<and> read_int s = v \<and> length s \<le> 20 \<and>
     (v \<noteq> 0 \<longrightarrow> hd s \<noteq> CHR ''0'')"
proof -
  have l: "length (show_int v) \<le> 20" by (rule length_show_int64 [OF assms(1,2)])
  have "hd (show_int v) \<noteq> CHR ''0''" if "v \<noteq> 0"
    using show_nat_no_leading_zero [of "nat v"] that by (auto simp: show_int_def digit_value_def)
  moreover have "write_at arr pos (show_int v @ [CHR 0x00]) =
      Some (take (nat pos) arr @ show_int v @ [CHR 0x00] @ drop (nat pos + length (show_int v) + 1) arr)"
    using assms(3,4) l by (simp add: write_at_Some)
  ultimately show ?thesis using l by (simp add: convert_eq_show)
qed

theorem convert_decimal_roundtrip_witness:
  "\<exists>s. convert (replicate 24 CHR ''.'') 2 (- (2 ^ 63)) = Some (int (length s),
       take 2 (replicate 24 CHR ''.'') @ s @ [CHR 0x00] @ drop (2 + length s + 1) (replicate 24 CHR ''.'')) \<and>
     read_int s = - (2 ^ 63)"
  using convert_decimal_roundtrip [of "- (2 ^ 63)" 2 "replicate 24 CHR ''.''"] by auto

text \<open>C34: a log stream never leaves its array, whatever is inserted: every insertion is defined,
  keeps the write pointer inside, and either appends the whole text of the item or, when the room
  the operator asks for is not there, nothing at all.\<close>

theorem insert_item_all_or_nothing:
  assumes "fb_ok b" and "\<forall>x \<in> set xs. item_ok x"
  shows "\<exists>b'. insert_items b xs = Some b' \<and> fb_ok b' \<and> length (fb_data b') = length (fb_data b) \<and>
    (\<exists>ys \<in> set (subseqs xs). fb_content b' = fb_content b @ concat (map item_text ys)) \<and>
    ((\<Sum>x\<leftarrow>xs. max (item_room x) (int (length (item_text x)))) \<le> fb_remain b \<longrightarrow>
       fb_content b' = fb_content b @ concat (map item_text xs))"
  using assms
proof (induction xs arbitrary: b)
  case (Cons x xs)
  let ?need = "\<lambda>x. max (item_room x) (int (length (item_text x)))"
  let ?t = "if item_room x \<le> fb_remain b then item_text x else []"
  from insert_item_ok [of b x] Cons.prems obtain b1 where b1: "insert_item b x = Some b1" "fb_ok b1"
    "length (fb_data b1) = length (fb_data b)" "fb_content b1 = fb_content b @ ?t" by (auto simp: puts_def)
  from Cons.IH [OF b1(2)] Cons.prems(2) obtain b' ys where b': "insert_items b1 xs = Some b'" "fb_ok b'"
    "length (fb_data b') = length (fb_data b1)" "ys \<in> set (subseqs xs)" "fb_content b' = fb_content b1 @ concat (map item_text ys)"
    "(\<Sum>x\<leftarrow>xs. ?need x) \<le> fb_remain b1 \<longrightarrow> fb_content b' = fb_content b1 @ concat (map item_text xs)" by auto
  have r: "fb_remain b1 = fb_remain b - int (length ?t)"
    using fb_remain_eq length_fb_content b1(2,3,4) Cons.prems(1) by (metis (no_types, lifting) add_diff_eq diff_diff_eq length_append of_nat_add)
  have "\<exists>ys \<in> set (subseqs (x # xs)). fb_content b' = fb_content b @ concat (map item_text ys)"
    using b'(4,5) b1(4) by (intro bexI [of _ "if item_room x \<le> fb_remain b then x # ys else ys"]) (auto simp: Let_def)
  moreover have "fb_content b' = fb_content b @ concat (map item_text (x # xs))" if fit: "(\<Sum>x\<leftarrow>x # xs. ?need x) \<le> fb_remain b"
  proof -
    have "0 \<le> (\<Sum>x\<leftarrow>xs. ?need x)" by (intro sum_list_nonneg) auto
    then have "?need x \<le> fb_remain b" "(\<Sum>x\<leftarrow>xs. ?need x) \<le> fb_remain b - int (length (item_text x))" using fit by auto
    then show ?thesis using b'(6) r b1(4) by simp
  qed
  ultimately show ?case using b1 b'(1,2,3) by auto
qed simp

theorem insert_item_all_or_nothing_witness:
  "\<exists>b'. insert_items (new_FixedBuffer (replicate 64 CHR ''.'')) [LCstr (Some ''n = ''), LInteger (- 7), LCstr None] = Some b' \<and>
     fb_content b' = ''n = -7(null)''"
proof -
  let ?b = "new_FixedBuffer (replicate 64 CHR ''.'')"
  have s: "show_int (- 7) = ''-7''" by code_simp
  have b: "fb_ok ?b" "fb_content ?b = []" "fb_remain ?b = 64"
    using new_FixedBuffer_ok [of "replicate 64 CHR ''.''"] fb_remain_eq [of ?b] by (simp_all add: new_FixedBuffer_def)
  from insert_item_all_or_nothing [OF b(1), of "[LCstr (Some ''n = ''), LInteger (- 7), LCstr None]"] b(2,3)
  show ?thesis by (auto simp: s)
qed

end
