(* ===== verification/Log_File.thy ===== *)
theory Log_File
  imports C_Strings "HOL-Library.Sublist"
begin

text \<open>
  Log files (\<^verbatim>\<open>src/log/logfile.h\<close>, \<^verbatim>\<open>src/log/logfile.cpp\<close>): the append-only file wrapper, which
  reopens its file when the path was removed or replaced, and the log file that rolls over
  to a numbered file when the current one has reached the roll size. The file system is a
  directory from paths to inode numbers, with the bytes written to each inode and the number of them that have left
  the buffer of \<^verbatim>\<open>stdio\<close>: only those survive an \<^verbatim>\<open>abort()\<close>. The theory proves that rolling
  keeps every byte in order, that what is on disk is always a beginning of what was logged, and all of it after a
  \<^verbatim>\<open>flush\<close> (the locale \<open>log_sink\<close>), and what the wrapper does after a short write and after a failed reopening.
\<close>

section \<open>The file system\<close>

text \<open>The stream of an inode is identified with it: a wrapper closes its stream before it opens another. Further
  arguments of the model are the paths that can be opened, the results of the next calls of \<^verbatim>\<open>fwrite\<close>, which are complete once the
  list is used up, how many of the bytes \<^verbatim>\<open>stdio\<close> passes on by itself after a write, and whether the device is full, so
  that nothing more leaves a buffer.\<close>

record fs =
  fs_dir :: "string \<rightharpoonup> nat"
  fs_bytes :: "nat \<Rightarrow> bytes"
  fs_synced :: "nat \<Rightarrow> nat"
  fs_next :: nat
  fs_openable :: "string \<Rightarrow> bool"
  fs_writes :: "nat list"
  fs_passes :: "nat \<Rightarrow> nat \<Rightarrow> nat"
  fs_full :: bool
  fs_now :: int

text \<open>\<^verbatim>\<open>fopen(path, "ae")\<close>: the inode of the path, created if it is not there.\<close>

definition fopen :: "fs \<Rightarrow> string \<Rightarrow> (nat \<times> fs) option" where
  "fopen s path =
     (if \<not> fs_openable s path then None
      else case fs_dir s path of
        Some i \<Rightarrow> Some (i, s)
      | None \<Rightarrow> Some (fs_next s, s\<lparr>fs_dir := (fs_dir s)(path \<mapsto> fs_next s),
           fs_bytes := (fs_bytes s)(fs_next s := []), fs_synced := (fs_synced s)(fs_next s := 0), fs_next := Suc (fs_next s)\<rparr>))"

text \<open>A write may make the buffer pass on any number of its bytes.\<close>

definition pass_on :: "fs \<Rightarrow> nat \<Rightarrow> nat \<Rightarrow> nat" where
  "pass_on s old all = max old (min all (fs_passes s old all))"

definition fwrite :: "fs \<Rightarrow> nat \<Rightarrow> bytes \<Rightarrow> nat \<times> fs" where
  "fwrite s h d =
     (let x = (case fs_writes s of [] \<Rightarrow> length d | n # _ \<Rightarrow> min n (length d));
          bs = fs_bytes s h @ take x d
      in (x, s\<lparr>fs_writes := tl (fs_writes s), fs_bytes := (fs_bytes s)(h := bs),
               fs_synced := (fs_synced s)(h := pass_on s (fs_synced s h) (length bs))\<rparr>))"

text \<open>Passing on all that is in the buffer of one stream.\<close>

definition sync_stream :: "nat \<Rightarrow> fs \<Rightarrow> fs" where
  "sync_stream h s = (if fs_full s then s else s\<lparr>fs_synced := (fs_synced s)(h := length (fs_bytes s h))\<rparr>)"

text \<open>\<^verbatim>\<open>fflush\<close> of a null pointer is that of all streams; \<^verbatim>\<open>fclose\<close> of a null pointer is undefined.\<close>

definition fflush :: "nat option \<Rightarrow> fs \<Rightarrow> fs" where
  "fflush raw s =
     (case raw of
        Some h \<Rightarrow> sync_stream h s
      | None \<Rightarrow> (if fs_full s then s else s\<lparr>fs_synced := (\<lambda>h. length (fs_bytes s h))\<rparr>))"

definition fclose :: "nat option \<Rightarrow> fs \<Rightarrow> fs option" where
  "fclose raw s = (case raw of None \<Rightarrow> None | Some h \<Rightarrow> Some (sync_stream h s))"

section \<open>AppendFileWrapper\<close>

record AppendFileWrapper =
  afw_filepath :: string
  afw_valid :: bool
  afw_raw :: "nat option"
  afw_st_ino :: nat
  afw_writenChars :: int

text \<open>\<^verbatim>\<open>open()\<close>: the result is 0, or -1 when the file cannot be opened. \<^verbatim>\<open>fstat\<close> of an open
  descriptor succeeds.\<close>

definition afw_open :: "fs \<Rightarrow> AppendFileWrapper \<Rightarrow> int \<times> AppendFileWrapper \<times> fs" where
  "afw_open s w =
     (case fopen s (afw_filepath w) of
        None \<Rightarrow> (- 1, w\<lparr>afw_raw := None, afw_valid := False\<rparr>, s)
      | Some (h, s) \<Rightarrow> (0, w\<lparr>afw_valid := True, afw_raw := Some h, afw_writenChars := 0, afw_st_ino := h\<rparr>, s))"

definition new_AppendFileWrapper :: "fs \<Rightarrow> string \<Rightarrow> AppendFileWrapper \<times> fs" where
  "new_AppendFileWrapper s path =
     snd (afw_open s \<lparr>afw_filepath = path, afw_valid = False, afw_raw = None, afw_st_ino = 0, afw_writenChars = 0\<rparr>)"

definition delete_AppendFileWrapper :: "fs \<Rightarrow> AppendFileWrapper \<Rightarrow> fs option" where
  "delete_AppendFileWrapper s w = fclose (afw_raw w) s"

definition afw_flush :: "fs \<Rightarrow> AppendFileWrapper \<Rightarrow> fs" where
  "afw_flush s w = fflush (afw_raw w) s"

definition checkIfOpen :: "fs \<Rightarrow> AppendFileWrapper \<Rightarrow> (int \<times> AppendFileWrapper \<times> fs) option" where
  "checkIfOpen s w =
     (case fs_dir s (afw_filepath w) of
        None \<Rightarrow> do { s \<leftarrow> fclose (afw_raw w) s; Some (afw_open s w) }
      | Some ino \<Rightarrow>
          (if afw_st_ino w \<noteq> ino then do { s \<leftarrow> fclose (afw_raw w) s; Some (afw_open s w) } else Some (0, w, s)))"

text \<open>The loop of \<^verbatim>\<open>append\<close>: every round writes the whole message from its start, and \<^verbatim>\<open>remain\<close>
  is an unsigned 64-bit number. A loop that never ends is \<open>None\<close>.\<close>

partial_function (option) append_loop :: "fs \<Rightarrow> nat \<Rightarrow> bytes \<Rightarrow> int \<Rightarrow> (int \<times> fs) option" where
  "append_loop s h d remain =
     (let (x, s) = fwrite s h d in
      if x = 0 then Some (remain, s)
      else let remain = culong (remain - int x) in
        if remain \<noteq> 0 then append_loop s h d remain else Some (remain, s))"

declare append_loop.simps [code]

definition afw_append :: "fs \<Rightarrow> AppendFileWrapper \<Rightarrow> bytes \<Rightarrow> (int \<times> AppendFileWrapper \<times> fs) option" where
  "afw_append s w d =
     (if \<not> afw_valid w \<or> d = [] then Some (0, w, s)
      else do {
        (err, w, s) \<leftarrow> checkIfOpen s w;
        if err \<noteq> 0 then Some (0, w, s)
        else do {
          h \<leftarrow> afw_raw w;
          (remain, s) \<leftarrow> append_loop s h d (int (length d));
          let writen = culong (int (length d) - remain);
          Some (writen, w\<lparr>afw_writenChars := culong (afw_writenChars w + writen)\<rparr>, s)
        }
      })"

section \<open>LogFile\<close>

record LogFile =
  lf_file :: "AppendFileWrapper option"
  lf_dirname :: string
  lf_filename :: string
  lf_extension :: string
  lf_lastTimestamp :: int
  lf_filepath :: string
  lf_rollIndex :: int
  lf_kRollSize :: int

definition base_path :: "LogFile \<Rightarrow> string" where
  "base_path f = lf_dirname f @ ''/'' @ lf_filename f @ ''.'' @ lf_extension f"

definition roll_path :: "string \<Rightarrow> int \<Rightarrow> string" where
  "roll_path base i = (if i > 0 then base @ ''_'' @ show_int i else base)"

text \<open>\<^verbatim>\<open>unique_ptr\<close> destroys the wrapper it pointed to. A new wrapper that is not valid is released, not
  destroyed.\<close>

definition delete_file :: "fs \<Rightarrow> LogFile \<Rightarrow> fs option" where
  "delete_file s f = (case lf_file f of None \<Rightarrow> Some s | Some w \<Rightarrow> delete_AppendFileWrapper s w)"

definition roll :: "fs \<Rightarrow> LogFile \<Rightarrow> (bool \<times> LogFile \<times> fs) option" where
  "roll s f =
     (let f = (if lf_filepath f = [] then f\<lparr>lf_filepath := base_path f\<rparr> else f);
          (w, s) = new_AppendFileWrapper s (roll_path (lf_filepath f) (lf_rollIndex f))
      in if \<not> afw_valid w then Some (False, f, s)
         else do {
           s \<leftarrow> delete_file s f;
           Some (True, f\<lparr>lf_file := Some w, lf_rollIndex := (lf_rollIndex f + 1) mod 2 ^ 32,
                         lf_lastTimestamp := fs_now s\<rparr>, s)
         })"

text \<open>The first roll has no wrapper to destroy.\<close>

definition new_LogFile :: "fs \<Rightarrow> string \<Rightarrow> string \<Rightarrow> int \<Rightarrow> string \<Rightarrow> (LogFile \<times> fs) option" where
  "new_LogFile s dirname filename rollSize extension =
     map_option snd (roll s \<lparr>lf_file = None, lf_dirname = dirname, lf_filename = filename, lf_extension = extension,
                  lf_lastTimestamp = 0, lf_filepath = [], lf_rollIndex = 0, lf_kRollSize = rollSize\<rparr>)"

text \<open>Without a file (the first roll failed) the call follows a null pointer.\<close>

definition lf_append :: "fs \<Rightarrow> LogFile \<Rightarrow> bytes \<Rightarrow> (int \<times> LogFile \<times> fs) option" where
  "lf_append s f d =
     do {
       w \<leftarrow> lf_file f;
       (writen, w, s) \<leftarrow> afw_append s w d;
       let f = f\<lparr>lf_file := Some w\<rparr>;
       (f, s) \<leftarrow> (if lf_kRollSize f > 0 \<and> afw_writenChars w \<ge> lf_kRollSize f then map_option snd (roll s f) else Some (f, s));
       Some (writen, f, s)
     }"

definition lf_flush :: "fs \<Rightarrow> LogFile \<Rightarrow> fs option" where
  "lf_flush s f = do { w \<leftarrow> lf_file f; Some (afw_flush s w) }"

section \<open>The contract of a log output\<close>

text \<open>What a client of a log file relies on: appending adds the bytes at the end of the logged
  text, as long as the text stays within the capacity.\<close>

primrec append_all :: "('f \<Rightarrow> bytes \<Rightarrow> 'f option) \<Rightarrow> 'f \<Rightarrow> bytes list \<Rightarrow> 'f option" where
  "append_all app f [] = Some f"
| "append_all app f (d # ds) = do { f1 \<leftarrow> app f d; append_all app f1 ds }"

locale log_sink =
  fixes ok :: "'f \<Rightarrow> bool" and logged :: "'f \<Rightarrow> bytes" and cap :: "'f \<Rightarrow> nat"
    and app :: "'f \<Rightarrow> bytes \<Rightarrow> 'f option"
  assumes app_law: "ok f \<Longrightarrow> length (logged f) + length d \<le> cap f \<Longrightarrow>
    \<exists>f'. app f d = Some f' \<and> ok f' \<and> logged f' = logged f @ d \<and> cap f' = cap f"
begin

lemma appE:
  assumes "ok f" and "length (logged f) + length d \<le> cap f"
  obtains f' where "app f d = Some f'" "ok f'" "logged f' = logged f @ d" "cap f' = cap f"
  using app_law [OF assms] by blast

lemma append_all_logged:
  "ok f \<Longrightarrow> length (logged f) + length (concat ds) \<le> cap f \<Longrightarrow>
   \<exists>f'. append_all app f ds = Some f' \<and> ok f' \<and> logged f' = logged f @ concat ds \<and> cap f' = cap f"
proof (induction ds arbitrary: f)
  case (Cons d ds)
  then obtain f1 where "app f d = Some f1" "ok f1" "logged f1 = logged f @ d" "cap f1 = cap f"
    using appE [of f d] by (auto simp: add.assoc)
  with Cons.IH [of f1] Cons.prems(2) show ?case by auto
qed simp

end

text \<open>One that can also be told to write out what it holds back: what is on disk is always a beginning of the logged text,
  is never taken back, and is all of it after \<open>sync\<close> and after \<open>close\<close>.\<close>

locale durable_sink = log_sink +
  fixes disk :: "'f \<Rightarrow> bytes" and sync :: "'f \<Rightarrow> 'f option" and close :: "'f \<Rightarrow> 'f option"
  assumes disk_law: "ok f \<Longrightarrow> prefix (disk f) (logged f)"
    and app_disk: "ok f \<Longrightarrow> length (logged f) + length d \<le> cap f \<Longrightarrow> app f d = Some f' \<Longrightarrow> prefix (disk f) (disk f')"
    and sync_law: "ok f \<Longrightarrow> \<exists>f'. sync f = Some f' \<and> ok f' \<and> logged f' = logged f \<and> cap f' = cap f \<and> disk f' = logged f"
    and close_law: "ok f \<Longrightarrow> \<exists>f'. close f = Some f' \<and> disk f' = logged f"
begin

lemma syncE:
  assumes "ok f"
  obtains f' where "sync f = Some f'" "ok f'" "logged f' = logged f" "cap f' = cap f" "disk f' = logged f"
  using sync_law [OF assms] by blast

lemma append_all_disk:
  "ok f \<Longrightarrow> length (logged f) + length (concat ds) \<le> cap f \<Longrightarrow> append_all app f ds = Some f' \<Longrightarrow> prefix (disk f) (disk f')"
proof (induction ds arbitrary: f)
  case (Cons d ds)
  from Cons.prems(1,2) obtain f1 where f1: "app f d = Some f1" "ok f1" "logged f1 = logged f @ d" "cap f1 = cap f"
    using appE [of f d] by auto
  moreover have "prefix (disk f) (disk f1)" using app_disk [OF Cons.prems(1) _ f1(1)] Cons.prems(2) by simp
  moreover have "prefix (disk f1) (disk f')" using Cons.IH [OF f1(2)] Cons.prems(2,3) f1 by simp
  ultimately show ?case by (blast intro: prefix_order.trans)
qed simp

end

section \<open>Log files meet the contract\<close>

type_synonym log_state = "LogFile \<times> fs"

abbreviation log_path :: "LogFile \<Rightarrow> nat \<Rightarrow> string" where
  "log_path f i \<equiv> roll_path (lf_filepath f) (int i)"

definition file_bytes :: "log_state \<Rightarrow> nat \<Rightarrow> bytes" where
  "file_bytes st i = (case fs_dir (snd st) (log_path (fst st) i) of None \<Rightarrow> [] | Some h \<Rightarrow> fs_bytes (snd st) h)"

definition file_disk :: "log_state \<Rightarrow> nat \<Rightarrow> bytes" where
  "file_disk st i = (case fs_dir (snd st) (log_path (fst st) i) of
     None \<Rightarrow> [] | Some h \<Rightarrow> take (fs_synced (snd st) h) (fs_bytes (snd st) h))"

text \<open>The files in the order of their numbers, one after the other: all that was written, and what a reader finds.\<close>

definition log_text :: "log_state \<Rightarrow> bytes" where
  "log_text st = concat (map (file_bytes st) [0..<nat (lf_rollIndex (fst st))])"

definition disk_text :: "log_state \<Rightarrow> bytes" where
  "disk_text st = concat (map (file_disk st) [0..<nat (lf_rollIndex (fst st))])"

definition log_cap :: "log_state \<Rightarrow> nat" where
  "log_cap st = (if lf_kRollSize (fst st) = 0 then 2 ^ 63 else min (2 ^ 63) (nat (lf_kRollSize (fst st)) * (2 ^ 32 - 3)))"

definition log_append :: "log_state \<Rightarrow> bytes \<Rightarrow> log_state option" where
  "log_append st d = map_option snd (lf_append (snd st) (fst st) d)"

definition log_flush :: "log_state \<Rightarrow> log_state option" where
  "log_flush st = map_option (Pair (fst st)) (lf_flush (snd st) (fst st))"

definition log_close :: "log_state \<Rightarrow> log_state option" where
  "log_close st = map_option (Pair (fst st)) (delete_file (snd st) (fst st))"

definition closed_ok :: "log_state \<Rightarrow> nat \<Rightarrow> nat \<Rightarrow> bool" where
  "closed_ok st cur i \<longleftrightarrow> (\<exists>h. fs_dir (snd st) (log_path (fst st) i) = Some h \<and> h < fs_next (snd st) \<and> h \<noteq> cur \<and>
     lf_kRollSize (fst st) \<le> int (length (fs_bytes (snd st) h)) \<and> fs_synced (snd st) h = length (fs_bytes (snd st) h))"

text \<open>The current file is open under its path, the files before it are full and on disk, the
  paths after it are free; files can be opened and written.\<close>

definition log_open :: "log_state \<Rightarrow> AppendFileWrapper \<Rightarrow> nat \<Rightarrow> bool" where
  "log_open st w k \<longleftrightarrow> (case st of (f, s) \<Rightarrow>
     fs_writes s = [] \<and> \<not> fs_full s \<and> (\<forall>i. fs_openable s (log_path f i)) \<and> lf_filepath f \<noteq> [] \<and>
     0 \<le> lf_kRollSize f \<and> lf_file f = Some w \<and> lf_rollIndex f = int (Suc k) \<and>
     afw_valid w \<and> afw_filepath w = log_path f k \<and> fs_dir s (log_path f k) = Some (afw_st_ino w) \<and>
     afw_raw w = Some (afw_st_ino w) \<and> afw_st_ino w < fs_next s \<and> afw_writenChars w = int (length (fs_bytes s (afw_st_ino w))) \<and>
     fs_synced s (afw_st_ino w) \<le> length (fs_bytes s (afw_st_ino w)) \<and>
     (\<forall>i < k. closed_ok st (afw_st_ino w) i) \<and> (\<forall>i > k. fs_dir s (log_path f i) = None))"

text \<open>Between two calls the current file is not full.\<close>

definition log_ok :: "log_state \<Rightarrow> bool" where
  "log_ok st \<longleftrightarrow> (\<exists>w k. log_open st w k \<and> (lf_kRollSize (fst st) > 0 \<longrightarrow> afw_writenChars w < lf_kRollSize (fst st)))"

lemma roll_path_inj [simp]: "0 \<le> i \<Longrightarrow> 0 \<le> j \<Longrightarrow> roll_path b i = roll_path b j \<longleftrightarrow> i = j"
  by (auto simp: roll_path_def)

lemma pass_on_bounds: "old \<le> all \<Longrightarrow> old \<le> pass_on s old all \<and> pass_on s old all \<le> all"
  by (simp add: pass_on_def)

lemma append_loop_complete:
  assumes "fs_writes s = []" and "d \<noteq> []" and "int (length d) < 2 ^ 64"
  shows "append_loop s h d (int (length d)) = Some (0, s\<lparr>fs_bytes := (fs_bytes s)(h := fs_bytes s h @ d),
    fs_synced := (fs_synced s)(h := pass_on s (fs_synced s h) (length (fs_bytes s h @ d)))\<rparr>)"
  using assms by (subst append_loop.simps) (simp add: fwrite_def culong_def Let_def)

text \<open>The files that are full hold at least their number times the roll size.\<close>

lemma closed_length:
  assumes "\<And>i. i < k \<Longrightarrow> closed_ok st h i"
  shows "int k * lf_kRollSize (fst st) \<le> int (length (concat (map (file_bytes st) [0..<k])))"
  using assms
proof (induction k)
  case (Suc k)
  from Suc.prems [of k] have "lf_kRollSize (fst st) \<le> int (length (file_bytes st k))"
    by (auto simp: closed_ok_def file_bytes_def)
  with Suc show ?case by (simp add: algebra_simps)
qed simp

text \<open>The logged text ends with the current file; all but that is on disk.\<close>

lemma texts_split:
  assumes "lf_rollIndex f = int (Suc k)" and "\<And>i. i < k \<Longrightarrow> closed_ok (f, s) h i"
  shows "log_text (f, s) = concat (map (file_bytes (f, s)) [0..<k]) @ file_bytes (f, s) k"
    and "disk_text (f, s) = concat (map (file_bytes (f, s)) [0..<k]) @ file_disk (f, s) k"
proof -
  have "file_disk (f, s) i = file_bytes (f, s) i" if "i < k" for i
    using assms(2) [OF that] by (auto simp: closed_ok_def file_disk_def file_bytes_def)
  then have "map (file_disk (f, s)) [0..<k] = map (file_bytes (f, s)) [0..<k]" by simp
  then show "log_text (f, s) = concat (map (file_bytes (f, s)) [0..<k]) @ file_bytes (f, s) k"
    "disk_text (f, s) = concat (map (file_bytes (f, s)) [0..<k]) @ file_disk (f, s) k"
    using assms(1) by (simp_all add: log_text_def disk_text_def nat_add_distrib del: map_eq_conv)
qed

lemma open_texts:
  assumes "log_open (f, s) w k"
  shows "log_text (f, s) = concat (map (file_bytes (f, s)) [0..<k]) @ fs_bytes s (afw_st_ino w)"
    and "disk_text (f, s) = concat (map (file_bytes (f, s)) [0..<k]) @ take (fs_synced s (afw_st_ino w)) (fs_bytes s (afw_st_ino w))"
  using texts_split [of f k s "afw_st_ino w"] assms by (simp_all add: log_open_def file_bytes_def file_disk_def)

text \<open>Changes to the current inode and new inodes do not touch the files that are full.\<close>

lemma other_files:
  assumes "closed_ok (f, s) h i" and "lf_filepath f' = lf_filepath f" and "lf_kRollSize f' = lf_kRollSize f"
    and "fs_dir s' (log_path f i) = fs_dir s (log_path f i)" and "fs_next s \<le> fs_next s'"
    and "\<And>h'. h' \<noteq> h \<Longrightarrow> h' < fs_next s \<Longrightarrow> fs_bytes s' h' = fs_bytes s h' \<and> fs_synced s' h' = fs_synced s h'"
  shows "file_bytes (f', s') i = file_bytes (f, s) i" and "closed_ok (f', s') h i"
    and "h \<noteq> h1 \<Longrightarrow> fs_next s \<le> h1 \<Longrightarrow> closed_ok (f', s') h1 i"
  using assms by (auto simp: closed_ok_def file_bytes_def)

text \<open>One append to the current file, before the check of the roll size.\<close>

lemma afw_append_current:
  assumes "log_open (f, s) w k" and "length (fs_bytes s (afw_st_ino w)) + length d < 2 ^ 64"
  obtains n where "fs_synced s (afw_st_ino w) \<le> n" "n \<le> length (fs_bytes s (afw_st_ino w)) + length d"
    "afw_append s w d = Some (int (length d), w\<lparr>afw_writenChars := afw_writenChars w + int (length d)\<rparr>,
      s\<lparr>fs_bytes := (fs_bytes s)(afw_st_ino w := fs_bytes s (afw_st_ino w) @ d), fs_synced := (fs_synced s)(afw_st_ino w := n)\<rparr>)"
proof (cases "d = []")
  case True
  then show ?thesis using assms(1) that [of "fs_synced s (afw_st_ino w)"] by (simp add: afw_append_def log_open_def)
next
  case False
  let ?n = "pass_on s (fs_synced s (afw_st_ino w)) (length (fs_bytes s (afw_st_ino w) @ d))"
  have "checkIfOpen s w = Some (0, w, s)" using assms(1) by (simp add: checkIfOpen_def log_open_def)
  moreover have "int (length (fs_bytes s (afw_st_ino w))) + int (length d) < 2 ^ 64" using assms(2) by simp
  moreover have "fs_synced s (afw_st_ino w) \<le> length (fs_bytes s (afw_st_ino w) @ d)" using assms(1) by (simp add: log_open_def)
  then have "fs_synced s (afw_st_ino w) \<le> ?n" "?n \<le> length (fs_bytes s (afw_st_ino w) @ d)" using pass_on_bounds by blast+
  ultimately show ?thesis using assms(1) append_loop_complete [of s d "afw_st_ino w"] False that [of ?n]
    by (simp add: afw_append_def log_open_def culong_id Let_def)
qed

lemma open_written:
  assumes at: "log_open (f, s) w k" and n: "fs_synced s (afw_st_ino w) \<le> n" "n \<le> length (fs_bytes s (afw_st_ino w)) + length d"
  defines "w' \<equiv> w\<lparr>afw_writenChars := afw_writenChars w + int (length d)\<rparr>"
    and "s' \<equiv> s\<lparr>fs_bytes := (fs_bytes s)(afw_st_ino w := fs_bytes s (afw_st_ino w) @ d), fs_synced := (fs_synced s)(afw_st_ino w := n)\<rparr>"
    and "f' \<equiv> f\<lparr>lf_file := Some (w\<lparr>afw_writenChars := afw_writenChars w + int (length d)\<rparr>)\<rparr>"
  shows "log_open (f', s') w' k" and "log_text (f', s') = log_text (f, s) @ d" and "prefix (disk_text (f, s)) (disk_text (f', s'))"
proof -
  have closed: "closed_ok (f', s') (afw_st_ino w) i" and same: "file_bytes (f', s') i = file_bytes (f, s) i" if "i < k" for i
    using at that other_files [of f s "afw_st_ino w" i f' s'] by (auto simp: log_open_def f'_def s'_def)
  then show o: "log_open (f', s') w' k" using at n by (auto simp: log_open_def f'_def s'_def w'_def)
  have m: "map (file_bytes (f', s')) [0..<k] = map (file_bytes (f, s)) [0..<k]" using same by simp
  have i: "afw_st_ino w' = afw_st_ino w" "fs_bytes s' (afw_st_ino w) = fs_bytes s (afw_st_ino w) @ d" "fs_synced s' (afw_st_ino w) = n"
    by (simp_all add: w'_def s'_def)
  show "log_text (f', s') = log_text (f, s) @ d" by (simp add: open_texts [OF at] open_texts [OF o] m i del: map_eq_conv)
  have "prefix (take (fs_synced s (afw_st_ino w)) (fs_bytes s (afw_st_ino w))) (take n (fs_bytes s (afw_st_ino w) @ d))"
    using n at by (auto simp: log_open_def prefix_def intro!: exI [of _ "drop (fs_synced s (afw_st_ino w)) (take n (fs_bytes s (afw_st_ino w) @ d))"])
      (metis append_take_drop_id min.absorb1 take_append take_take diff_is_0_eq append.right_neutral take0)
  then show "prefix (disk_text (f, s)) (disk_text (f', s'))"
    by (simp add: open_texts [OF at] open_texts [OF o] m i del: map_eq_conv)
qed

lemma roll_ok:
  assumes at: "log_open (f, s) w k" and full: "0 < lf_kRollSize f" "lf_kRollSize f \<le> afw_writenChars w" and k: "int k \<le> 2 ^ 32 - 3"
  shows "\<exists>f' s'. roll s f = Some (True, f', s') \<and> log_ok (f', s') \<and> log_text (f', s') = log_text (f, s) \<and>
    disk_text (f', s') = log_text (f, s) \<and> lf_kRollSize f' = lf_kRollSize f"
proof -
  let ?h = "afw_st_ino w"
  define s' where "s' = s\<lparr>fs_dir := (fs_dir s)(log_path f (Suc k) \<mapsto> fs_next s), fs_bytes := (fs_bytes s)(fs_next s := []),
    fs_synced := (fs_synced s)(fs_next s := 0, ?h := length (fs_bytes s ?h)), fs_next := Suc (fs_next s)\<rparr>"
  define w' where "w' = \<lparr>afw_filepath = log_path f (Suc k), afw_valid = True, afw_raw = Some (fs_next s), afw_st_ino = fs_next s, afw_writenChars = 0\<rparr>"
  define f' where "f' = f\<lparr>lf_file := Some w', lf_rollIndex := int (Suc (Suc k)), lf_lastTimestamp := fs_now s\<rparr>"
  note o = at [unfolded log_open_def]
  have p: "fs_dir s (log_path f (Suc k)) = None" "fs_openable s (log_path f (Suc k))" "lf_rollIndex f = int (Suc k)" "?h < fs_next s" using o by blast+
  then have r: "roll s f = Some (True, f', s')"
    using o k by (simp add: roll_def new_AppendFileWrapper_def afw_open_def fopen_def Let_def delete_file_def delete_AppendFileWrapper_def
      fclose_def sync_stream_def s'_def w'_def f'_def)
  have c: "closed_ok (f', s') (fs_next s) i" if "i < Suc k" for i
  proof (cases "i = k")
    case True
    then show ?thesis using o full p(4) by (auto simp: closed_ok_def f'_def s'_def)
  next
    case False
    then have "closed_ok (f, s) ?h i" using that o by simp
    then show ?thesis using that other_files(3) [of f s ?h i f' s' "fs_next s"] p(4) by (simp add: f'_def s'_def)
  qed
  have o': "log_open (f', s') w' (Suc k)" using o c by (auto simp: log_open_def f'_def s'_def w'_def)
  have "file_bytes (f', s') i = file_bytes (f, s) i" if "i < k" for i
    using other_files(1) [of f s ?h i f' s'] that o by (auto simp: f'_def s'_def)
  then have "map (file_bytes (f', s')) [0..<k] = map (file_bytes (f, s)) [0..<k]" by simp
  moreover have "file_bytes (f', s') k = fs_bytes s ?h" using o p(4) by (simp add: file_bytes_def f'_def s'_def)
  moreover have "fs_bytes s' (afw_st_ino w') = []" by (simp add: s'_def w'_def)
  ultimately have "log_text (f', s') = log_text (f, s)" "disk_text (f', s') = log_text (f, s)"
    by (simp_all add: open_texts [OF o'] open_texts [OF at] del: map_eq_conv)
  moreover have "log_ok (f', s')" using o' full by (auto simp: log_ok_def f'_def w'_def)
  ultimately show ?thesis using r by (simp add: f'_def)
qed

lemma log_append_law:
  assumes "log_ok st" and "length (log_text st) + length d \<le> log_cap st"
  shows "\<exists>st'. log_append st d = Some st' \<and> log_ok st' \<and> log_text st' = log_text st @ d \<and> log_cap st' = log_cap st \<and>
    prefix (disk_text st) (disk_text st')"
proof -
  obtain f s where st: "st = (f, s)" by (cases st)
  from assms(1) obtain w k where at: "log_open (f, s) w k" by (auto simp: st log_ok_def)
  let ?h = "afw_st_ino w" and ?w = "w\<lparr>afw_writenChars := afw_writenChars w + int (length d)\<rparr>"
  have "length (fs_bytes s ?h) + length d \<le> 2 ^ 63"
    using assms(2) by (auto simp: st open_texts [OF at] log_cap_def split: if_splits)
  then have "length (fs_bytes s ?h) + length d < 2 ^ 64" by simp
  then obtain n where n: "fs_synced s ?h \<le> n" "n \<le> length (fs_bytes s ?h) + length d"
    and a: "afw_append s w d = Some (int (length d), ?w, s\<lparr>fs_bytes := (fs_bytes s)(?h := fs_bytes s ?h @ d), fs_synced := (fs_synced s)(?h := n)\<rparr>)"
    by (rule afw_append_current [OF at])
  define s' where "s' = s\<lparr>fs_bytes := (fs_bytes s)(?h := fs_bytes s ?h @ d), fs_synced := (fs_synced s)(?h := n)\<rparr>"
  define f' where "f' = f\<lparr>lf_file := Some ?w\<rparr>"
  note wr = open_written [OF at n, folded s'_def f'_def]
  have f: "lf_file f = Some w" using at by (simp add: log_open_def)
  show ?thesis
  proof (cases "lf_kRollSize f > 0 \<and> afw_writenChars ?w \<ge> lf_kRollSize f")
    case False
    then have "log_append st d = Some (f', s')" using a f by (auto simp: st log_append_def lf_append_def f'_def s'_def)
    moreover have "log_ok (f', s')" using wr(1) False by (auto simp: log_ok_def f'_def)
    ultimately show ?thesis using wr by (auto simp: st log_cap_def f'_def)
  next
    case True
    have "int k * lf_kRollSize f \<le> int (length (log_text (f, s)))"
      using closed_length [of k "(f, s)" ?h] at by (simp add: open_texts [OF at]) (simp add: log_open_def)
    also have "\<dots> \<le> int (log_cap (f, s))" using assms(2) by (simp add: st)
    also have "\<dots> \<le> (2 ^ 32 - 3) * lf_kRollSize f" using True by (auto simp: log_cap_def min_def)
    finally have kb: "int k \<le> 2 ^ 32 - 3" using True by (simp add: mult_le_cancel_right)
    from roll_ok [OF wr(1) _ _ kb] True obtain g t where g: "roll s' f' = Some (True, g, t)" "log_ok (g, t)" "log_text (g, t) = log_text (f', s')"
      "disk_text (g, t) = log_text (f', s')" "lf_kRollSize g = lf_kRollSize f'" by (auto simp: f'_def)
    have "log_append st d = Some (g, t)" using a f True g(1) by (auto simp: st log_append_def lf_append_def f'_def s'_def)
    moreover have "prefix (disk_text (f', s')) (log_text (f', s'))"
      by (simp add: open_texts [OF wr(1)] take_is_prefix)
    ultimately show ?thesis using g wr(2,3) by (auto simp: st log_cap_def f'_def intro: prefix_order.trans)
  qed
qed

text \<open>With a file open, closing the log does to the disk what a flush does.\<close>

lemma log_close_flush: "log_ok st \<Longrightarrow> log_close st = log_flush st"
  by (auto simp: log_ok_def log_open_def log_close_def log_flush_def lf_flush_def afw_flush_def fflush_def delete_file_def
      delete_AppendFileWrapper_def fclose_def)

lemma log_flush_law:
  assumes "log_ok st"
  shows "\<exists>st'. log_flush st = Some st' \<and> log_ok st' \<and> log_text st' = log_text st \<and> log_cap st' = log_cap st \<and> disk_text st' = log_text st"
proof -
  obtain f s where st: "st = (f, s)" by (cases st)
  from assms obtain w k where at: "log_open (f, s) w k" and sz: "lf_kRollSize f > 0 \<longrightarrow> afw_writenChars w < lf_kRollSize f"
    by (auto simp: st log_ok_def)
  let ?h = "afw_st_ino w"
  define s' where "s' = s\<lparr>fs_synced := (fs_synced s)(?h := length (fs_bytes s ?h))\<rparr>"
  have fl: "log_flush st = Some (f, s')" using at by (simp add: st log_flush_def lf_flush_def afw_flush_def fflush_def sync_stream_def s'_def log_open_def)
  have closed: "closed_ok (f, s') ?h i" and same: "file_bytes (f, s') i = file_bytes (f, s) i" if "i < k" for i
    using at that other_files [of f s ?h i f s'] by (auto simp: log_open_def s'_def)
  then have o: "log_open (f, s') w k" using at by (auto simp: log_open_def s'_def)
  have "map (file_bytes (f, s')) [0..<k] = map (file_bytes (f, s)) [0..<k]" using same by simp
  then have "log_text (f, s') = log_text st" "disk_text (f, s') = log_text st"
    unfolding st open_texts [OF at] open_texts [OF o] by (simp_all add: s'_def del: map_eq_conv)
  then show ?thesis using fl o sz by (auto simp: st log_ok_def log_cap_def)
qed

interpretation lf: durable_sink log_ok log_text log_cap log_append disk_text log_flush log_close
proof unfold_locales
  fix st d
  show "log_ok st \<Longrightarrow> length (log_text st) + length d \<le> log_cap st \<Longrightarrow>
    \<exists>f'. log_append st d = Some f' \<and> log_ok f' \<and> log_text f' = log_text st @ d \<and> log_cap f' = log_cap st"
    using log_append_law by blast
  show "log_ok st \<Longrightarrow> length (log_text st) + length d \<le> log_cap st \<Longrightarrow> log_append st d = Some f' \<Longrightarrow> prefix (disk_text st) (disk_text f')" for f'
    using log_append_law [of st d] by auto
  show "log_ok st \<Longrightarrow> prefix (disk_text st) (log_text st)"
    by (cases st) (auto simp: log_ok_def open_texts take_is_prefix)
  show "log_ok st \<Longrightarrow> \<exists>f'. log_close st = Some f' \<and> disk_text f' = log_text st"
    using log_flush_law [of st] log_close_flush [of st] by auto
qed (rule log_flush_law)

text \<open>A log file that is new in a working file system satisfies the invariant.\<close>

lemma new_LogFile_ok:
  assumes "fs_writes s = []" and "\<not> fs_full s" and "\<And>p. fs_openable s p"
    and "\<And>i. fs_dir s (roll_path (dir @ ''/'' @ name @ ''.'' @ ext) (int i)) = None" and "0 \<le> rs"
  shows "\<exists>st. new_LogFile s dir name rs ext = Some st \<and> log_ok st \<and> log_text st = [] \<and> lf_kRollSize (fst st) = rs"
proof -
  let ?base = "dir @ ''/'' @ name @ ''.'' @ ext"
  have "roll_path ?base 0 = ?base" by (simp add: roll_path_def)
  with assms(4) [of 0] have "fs_dir s ?base = None" by simp
  moreover have "?base \<noteq> roll_path ?base (int i)" "roll_path ?base (int i) \<noteq> ?base" if "0 < i" for i
    using roll_path_inj [of 0 "int i" ?base] that by (simp_all add: roll_path_def)
  moreover have "fs_dir s (?base @ ''_'' @ show_int (int i)) = None" if "0 < i" for i
    using assms(4) [of i] that by (simp add: roll_path_def)
  ultimately show ?thesis using assms(1,2,3,5)
    by (auto simp: log_ok_def log_open_def new_LogFile_def roll_def new_AppendFileWrapper_def afw_open_def fopen_def delete_file_def
      base_path_def Let_def log_text_def file_bytes_def roll_path_def)
qed

lemma append_all_rollSize: "append_all log_append st ds = Some st' \<Longrightarrow> lf_kRollSize (fst st') = lf_kRollSize (fst st)"
proof (induction ds arbitrary: st)
  case (Cons d ds)
  then obtain st1 where "log_append st d = Some st1" "append_all log_append st1 ds = Some st'" by (auto split: bind_splits)
  moreover from this(1) have "lf_kRollSize (fst st1) = lf_kRollSize (fst st)"
    by (auto simp: log_append_def lf_append_def roll_def Let_def split: bind_splits prod.splits if_splits)
  ultimately show ?case using Cons.IH by simp
qed simp

text \<open>An empty, working file system.\<close>

definition demo_fs :: fs where
  "demo_fs = \<lparr>fs_dir = Map.empty, fs_bytes = (\<lambda>_. []), fs_synced = (\<lambda>_. 0), fs_next = 0, fs_openable = (\<lambda>_. True), fs_writes = [],
     fs_passes = (\<lambda>old all. old), fs_full = False, fs_now = 5\<rparr>"

lemma demo_fs_simps [simp]:
  "fs_dir demo_fs = Map.empty" "fs_writes demo_fs = []" "\<not> fs_full demo_fs" "fs_openable demo_fs p"
  by (simp_all add: demo_fs_def)

section \<open>Properties\<close>

text \<open>C31: rolling loses nothing. For a log file that is new in a working file system, any sequence of
  appends is defined, and the files in the order of their numbers hold exactly the appended
  bytes, one after the other; every file before the current one has reached the roll
  size and is on disk, and after a \<^verbatim>\<open>flush\<close> so is the current one. The bound on the total keeps the 32-bit roll index from wrapping.\<close>

theorem rolled_files_hold_the_log:
  assumes "fs_writes s = []" and "\<not> fs_full s" and "\<And>p. fs_openable s p"
    and "\<And>i. fs_dir s (roll_path (dir @ ''/'' @ name @ ''.'' @ ext) (int i)) = None"
    and "0 < rs" and "length (concat ds) \<le> min (2 ^ 63) (nat rs * (2 ^ 32 - 3))"
  shows "\<exists>st f s' s2. new_LogFile s dir name rs ext = Some st \<and> append_all log_append st ds = Some (f, s') \<and>
    concat (map (file_bytes (f, s')) [0..<nat (lf_rollIndex f)]) = concat ds \<and>
    (\<forall>i < nat (lf_rollIndex f) - 1. rs \<le> int (length (file_bytes (f, s') i)) \<and> file_disk (f, s') i = file_bytes (f, s') i) \<and>
    lf_flush s' f = Some s2 \<and> disk_text (f, s2) = concat ds"
proof -
  from new_LogFile_ok [of s dir name ext rs, OF assms(1-4)] assms(5) obtain st0 where n: "new_LogFile s dir name rs ext = Some st0" "log_ok st0"
    "log_text st0 = []" "lf_kRollSize (fst st0) = rs" by auto
  have cap: "log_cap st0 = min (2 ^ 63) (nat rs * (2 ^ 32 - 3))" using n(4) assms(5) by (simp add: log_cap_def)
  from lf.append_all_logged [OF n(2), of ds] assms(6) n(3) cap obtain st where st:
    "append_all log_append st0 ds = Some st" "log_ok st" "log_text st = concat ds" by auto
  obtain f s' where fs: "st = (f, s')" by (cases st)
  from st(2) obtain w k where at: "log_open (f, s') w k" by (auto simp: fs log_ok_def)
  have "lf_kRollSize f = rs" using append_all_rollSize [OF st(1)] n(4) by (simp add: fs)
  moreover have "nat (lf_rollIndex f) - 1 = k" "\<And>i. i < k \<Longrightarrow> closed_ok (f, s') (afw_st_ino w) i"
    using at by (simp_all add: log_open_def)
  ultimately have "\<forall>i < nat (lf_rollIndex f) - 1. rs \<le> int (length (file_bytes (f, s') i)) \<and> file_disk (f, s') i = file_bytes (f, s') i"
    by (fastforce simp: closed_ok_def file_bytes_def file_disk_def)
  moreover obtain s2 where "lf_flush s' f = Some s2" "disk_text (f, s2) = concat ds"
    using log_flush_law [OF st(2)] st(3) by (auto simp: fs log_flush_def)
  ultimately show ?thesis using n(1) st(1,3) by (auto simp: fs log_text_def)
qed

theorem rolled_files_hold_the_log_witness:
  "\<exists>st f s' s2. new_LogFile demo_fs ''d'' ''n'' 3 ''log'' = Some st \<and> append_all log_append st [''ab'', ''cd'', ''e''] = Some (f, s') \<and>
     lf_flush s' f = Some s2 \<and> disk_text (f, s2) = ''abcde''"
proof -
  have "length (concat [''ab'', ''cd'', ''e'']) \<le> min (2 ^ 63) (nat 3 * (2 ^ 32 - 3))" by simp
  from rolled_files_hold_the_log [of demo_fs "''d''" "''n''" "''log''" 3, OF _ _ _ _ _ this] show ?thesis by auto
qed

text \<open>A short write corrupts the log. When \<^verbatim>\<open>fwrite\<close> takes only the first \<open>n\<close> characters of a
  message and the next call succeeds, \<^verbatim>\<open>append\<close> does not go on behind the part that was written but
  writes the message from its start again, and again until a call writes nothing; it then
  reports more characters than the message has.\<close>

theorem short_write_repeats_message:
  assumes "afw_valid w" and "checkIfOpen s w = Some (0, w, s)" and "afw_raw w = Some h" and "0 < n" "n < length d"
    and "fs_writes s = [n, length d, 0]" and "length d < 2 ^ 62"
  shows "\<exists>w' s'. afw_append s w d = Some (int (n + length d), w', s') \<and>
    fs_bytes s' h = fs_bytes s h @ take n d @ d"
proof -
  have fw: "fwrite s h d = (x, s') \<Longrightarrow> fs_writes s = m # ms \<Longrightarrow> x = min m (length d) \<and> fs_writes s' = ms \<and>
      fs_bytes s' h = fs_bytes s h @ take (min m (length d)) d" for s x s' m ms
    by (auto simp: fwrite_def Let_def)
  obtain x1 s1 where "fwrite s h d = (x1, s1)" by fastforce
  moreover obtain x2 s2 where "fwrite s1 h d = (x2, s2)" by fastforce
  moreover obtain x3 s3 where "fwrite s2 h d = (x3, s3)" by fastforce
  ultimately have w: "fwrite s h d = (n, s1)" "fwrite s1 h d = (length d, s2)" "fwrite s2 h d = (0, s3)"
    and b: "fs_bytes s3 h = fs_bytes s h @ take n d @ d"
    using fw [of s x1 s1] fw [of s1 x2 s2] fw [of s2 x3 s3] assms(4-6) by (auto simp: min_def)
  have r1: "culong (int (length d) - int n) = int (length d) - int n" using assms(5,7) by (intro culong_id) auto
  have r2: "culong (int (length d) - int n - int (length d)) = 2 ^ 64 - int n"
    using assms(4,5,7) by (simp add: culong_def take_bit_eq_mod zmod_zminus1_eq_if)
  have "append_loop s h d (int (length d)) = append_loop s1 h d (int (length d) - int n)"
    using w(1) r1 assms(4,5) by (subst append_loop.simps) (simp add: Let_def)
  also have "\<dots> = append_loop s2 h d (2 ^ 64 - int n)"
    using w(2) r2 assms(4,5,7) by (subst append_loop.simps) (auto simp: Let_def)
  also have "\<dots> = Some (2 ^ 64 - int n, s3)"
    using w(3) by (subst append_loop.simps) (simp add: Let_def)
  finally have l: "append_loop s h d (int (length d)) = Some (2 ^ 64 - int n, s3)" .
  have "int (length d) - (2 ^ 64 - int n) = int (n + length d) - 2 ^ 64" by simp
  then have "culong (int (length d) - (2 ^ 64 - int n)) = culong (int (n + length d))"
    by (simp only: culong_def take_bit_eq_mod minus_mod_self2)
  also have "\<dots> = int (n + length d)" using assms(5,7) by (intro culong_id) auto
  finally show ?thesis using assms(1,2,3,5) l b by (auto simp: afw_append_def Let_def)
qed

theorem short_write_repeats_message_witness:
  "\<exists>w' s'. afw_append (demo_fs\<lparr>fs_dir := [''p'' \<mapsto> 0], fs_next := 1, fs_writes := [1, 3, 0]\<rparr>)
       \<lparr>afw_filepath = ''p'', afw_valid = True, afw_raw = Some 0, afw_st_ino = 0, afw_writenChars = 0\<rparr> ''abc'' = Some (4, w', s') \<and>
     fs_bytes s' 0 = ''aabc''"
  using short_write_repeats_message [of "\<lparr>afw_filepath = ''p'', afw_valid = True, afw_raw = Some 0, afw_st_ino = 0, afw_writenChars = 0\<rparr>"
    "demo_fs\<lparr>fs_dir := [''p'' \<mapsto> 0], fs_next := 1, fs_writes := [1, 3, 0]\<rparr>" 0 1 "''abc''"] by (simp add: checkIfOpen_def demo_fs_def)

text \<open>When the file has been removed and cannot be opened again, the wrapper has closed its stream and stays without one: every
  later append writes nothing and reports nothing written, and destroying the wrapper passes a null pointer to \<^verbatim>\<open>fclose\<close>.\<close>

theorem failed_reopening_is_final:
  assumes "afw_valid w" and "afw_raw w = Some h" and "fs_dir s (afw_filepath w) = None" and "\<not> fs_openable s (afw_filepath w)" and "d \<noteq> []"
  shows "\<exists>w' s'. afw_append s w d = Some (0, w', s') \<and> s' = sync_stream h s \<and>
    (\<forall>t d'. afw_append t w' d' = Some (0, w', t) \<and> delete_AppendFileWrapper t w' = None)"
  using assms
  by (auto simp: afw_append_def checkIfOpen_def fclose_def afw_open_def fopen_def sync_stream_def delete_AppendFileWrapper_def)

theorem failed_reopening_is_final_witness:
  "\<exists>w' s'. afw_append (demo_fs\<lparr>fs_openable := (\<lambda>_. False), fs_next := 1\<rparr>)
       \<lparr>afw_filepath = ''p'', afw_valid = True, afw_raw = Some 0, afw_st_ino = 0, afw_writenChars = 0\<rparr> ''abc'' = Some (0, w', s') \<and>
     delete_AppendFileWrapper s' w' = None"
  using failed_reopening_is_final [of "\<lparr>afw_filepath = ''p'', afw_valid = True, afw_raw = Some 0, afw_st_ino = 0, afw_writenChars = 0\<rparr>" 0
    "demo_fs\<lparr>fs_openable := (\<lambda>_. False), fs_next := 1\<rparr>" "''abc''"] by (auto simp: demo_fs_def)

end
