(* ===== verification/Async_Logging.thy ===== *)
theory Async_Logging
  imports Log_Stream Log_File
begin

text \<open>
  The asynchronous log worker (\<^verbatim>\<open>src/log/asynclogging.cpp\<close>): producers copy messages into the
  current buffer under the lock, full buffers queue up, and a backend thread writes them to the log
  file and returns them to the pool. The file is written with the lock released, so producers,
  \<^verbatim>\<open>flush\<close> and the destructor interleave with the backend between its critical sections; the
  step relation \<open>wstep\<close> is that interleaving. The log file is used through the contract
  \<open>log_sink\<close> and the results are stated for \<^verbatim>\<open>LogFile\<close>.
\<close>

section \<open>State\<close>

record 'f LogWorker =
  lw_filled :: "FixedBuffer list"
  lw_available :: "FixedBuffer list"
  lw_buffer :: "FixedBuffer option"
  lw_stop :: bool
  lw_output :: 'f

text \<open>\<open>junk\<close> is what the storage of a new buffer holds.\<close>

definition new_LogWorker :: "bytes \<Rightarrow> nat \<Rightarrow> 'f \<Rightarrow> 'f LogWorker" where
  "new_LogWorker junk bufSize out =
     \<lparr>lw_filled = [], lw_available = replicate bufSize (new_FixedBuffer junk), lw_buffer = Some (new_FixedBuffer junk),
      lw_stop = False, lw_output = out\<rparr>"

section \<open>Producers\<close>

definition push_current :: "'f LogWorker \<Rightarrow> 'f LogWorker" where
  "push_current w =
     (case lw_buffer w of None \<Rightarrow> w | Some b \<Rightarrow> w\<lparr>lw_filled := lw_filled w @ [b], lw_buffer := None\<rparr>)"

text \<open>The result says whether the message was stored; the source only prints a notice when no
  buffer is available and ignores the result of \<^verbatim>\<open>append\<close>.\<close>

definition take_buffer :: "'f LogWorker \<Rightarrow> bytes \<Rightarrow> (bool \<times> 'f LogWorker) option" where
  "take_buffer w d =
     (if lw_available w \<noteq> []
      then do {
        (ok, b) \<leftarrow> fb_append (last (lw_available w)) d;
        Some (ok, w\<lparr>lw_available := butlast (lw_available w), lw_buffer := Some b\<rparr>)
      }
      else Some (False, w))"

definition append_async :: "'f LogWorker \<Rightarrow> bytes \<Rightarrow> (bool \<times> 'f LogWorker) option" where
  "append_async w d =
     (if lw_stop w then Some (False, w)
      else case lw_buffer w of
        Some b \<Rightarrow>
          (if fb_remain b > int (length d)
           then do { (ok, b) \<leftarrow> fb_append b d; Some (ok, w\<lparr>lw_buffer := Some b\<rparr>) }
           else take_buffer (push_current w) d)
      | None \<Rightarrow> take_buffer w d)"

text \<open>\<open>app\<close> is \<^verbatim>\<open>LogFile::append\<close> on the output and \<open>sync\<close> is \<^verbatim>\<open>LogFile::flush\<close>.\<close>

definition fb_bytes :: "FixedBuffer \<Rightarrow> bytes option" where
  "fb_bytes b = read_at (fb_data b) 0 (fb_length b)"

fun drain :: "('f \<Rightarrow> bytes \<Rightarrow> 'f option) \<Rightarrow> FixedBuffer list \<Rightarrow> 'f LogWorker \<Rightarrow> 'f LogWorker option" where
  "drain app [] w = Some w"
| "drain app (b # bs) w =
     do {
       d \<leftarrow> fb_bytes b;
       out \<leftarrow> app (lw_output w) d;
       drain app bs (w\<lparr>lw_output := out, lw_available := lw_available w @ [fb_reset b]\<rparr>)
     }"

definition lw_flush :: "('f \<Rightarrow> bytes \<Rightarrow> 'f option) \<Rightarrow> ('f \<Rightarrow> 'f option) \<Rightarrow> 'f LogWorker \<Rightarrow> 'f LogWorker option" where
  "lw_flush app sync w =
     (let w = push_current w in
      do {
        w \<leftarrow> drain app (lw_filled w) (w\<lparr>lw_filled := []\<rparr>);
        out \<leftarrow> sync (lw_output w);
        Some (w\<lparr>lw_output := out\<rparr>)
      })"

section \<open>The backend thread\<close>

text \<open>Where \<^verbatim>\<open>threadFunc\<close> stands: in \<^verbatim>\<open>wait_for\<close>, about to write a buffer or back from writing it
  with the lock released (\<open>True\<close> in the loop over the filled buffers), before
  \<^verbatim>\<open>_output->flush()\<close>, or returned.\<close>

datatype backend_pc = BWait | BWrite bool FixedBuffer | BWrote bool FixedBuffer | BFlush | BDone

definition next_filled :: "'f LogWorker \<Rightarrow> 'f LogWorker \<times> backend_pc" where
  "next_filled w =
     (case lw_filled w of [] \<Rightarrow> (w, BFlush) | b # bs \<Rightarrow> (w\<lparr>lw_filled := bs\<rparr>, BWrite True b))"

fun threadFunc_step :: "('f \<Rightarrow> bytes \<Rightarrow> 'f option) \<Rightarrow> ('f \<Rightarrow> 'f option) \<Rightarrow> 'f LogWorker \<times> backend_pc \<Rightarrow> ('f LogWorker \<times> backend_pc) option" where
  "threadFunc_step app sync (w, BWait) =
     (let w = (if lw_stop w then push_current w else w) in
      Some (if lw_filled w = []
        then (case lw_buffer w of
            None \<Rightarrow> (w, BWait)
          | Some b \<Rightarrow> (if fb_length b = 0 then (w, BWait) else (w\<lparr>lw_buffer := None\<rparr>, BWrite False b)))
        else next_filled w))"
| "threadFunc_step app sync (w, BWrite lp b) =
     do {
       d \<leftarrow> fb_bytes b;
       out \<leftarrow> app (lw_output w) d;
       Some (w\<lparr>lw_output := out\<rparr>, BWrote lp (fb_reset b))
     }"
| "threadFunc_step app sync (w, BWrote lp b) =
     (let w = w\<lparr>lw_available := lw_available w @ [b]\<rparr>
      in Some (if lp then next_filled w else (w, BFlush)))"
| "threadFunc_step app sync (w, BFlush) =
     do { out \<leftarrow> sync (lw_output w); Some (w\<lparr>lw_output := out\<rparr>, if lw_stop w then BDone else BWait) }"
| "threadFunc_step app sync (w, BDone) = None"

section \<open>Interleaving\<close>

text \<open>A state with the messages stored so far. Producers, the destructor and, with \<open>fl\<close>, callers
  of \<^verbatim>\<open>flush\<close> act whenever the backend does not hold the lock.\<close>

type_synonym 'f wsys = "'f LogWorker \<times> backend_pc \<times> bytes list"

inductive wstep :: "('f \<Rightarrow> bytes \<Rightarrow> 'f option) \<Rightarrow> ('f \<Rightarrow> 'f option) \<Rightarrow> bool \<Rightarrow> 'f wsys \<Rightarrow> 'f wsys \<Rightarrow> bool" for app sync fl where
  produce: "append_async w d = Some (ok, w') \<Longrightarrow> wstep app sync fl (w, pc, acc) (w', pc, if ok then acc @ [d] else acc)"
| flush: "fl \<Longrightarrow> lw_flush app sync w = Some w' \<Longrightarrow> wstep app sync fl (w, pc, acc) (w', pc, acc)"
| stop: "wstep app sync fl (w, pc, acc) (w\<lparr>lw_stop := True\<rparr>, pc, acc)"
| backend: "threadFunc_step app sync (w, pc) = Some (w', pc') \<Longrightarrow> wstep app sync fl (w, pc, acc) (w', pc', acc)"

inductive wreach :: "('f \<Rightarrow> bytes \<Rightarrow> 'f option) \<Rightarrow> ('f \<Rightarrow> 'f option) \<Rightarrow> bool \<Rightarrow> 'f wsys \<Rightarrow> 'f wsys \<Rightarrow> bool" for app sync fl s0 where
  start: "wreach app sync fl s0 s0"
| step: "wreach app sync fl s0 s \<Longrightarrow> wstep app sync fl s s' \<Longrightarrow> wreach app sync fl s0 s'"

section \<open>Invariants\<close>

fun held :: "backend_pc \<Rightarrow> FixedBuffer list" where
  "held (BWrite lp b) = [b]"
| "held (BWrote lp b) = [b]"
| "held pc = []"

definition buffers :: "'f LogWorker \<Rightarrow> backend_pc \<Rightarrow> FixedBuffer list" where
  "buffers w pc = lw_filled w @ lw_available w @ held pc @ (case lw_buffer w of None \<Rightarrow> [] | Some b \<Rightarrow> [b])"

text \<open>Every one of the \<open>n\<close> buffers of \<open>N\<close> bytes is in exactly one place, and those in the pool are
  empty.\<close>

definition good_buffer :: "nat \<Rightarrow> FixedBuffer \<Rightarrow> bool" where
  "good_buffer N b \<longleftrightarrow> fb_ok b \<and> length (fb_data b) = N"

fun pc_ok :: "backend_pc \<Rightarrow> bool" where
  "pc_ok (BWrote lp b) \<longleftrightarrow> fb_content b = []"
| "pc_ok _ \<longleftrightarrow> True"

definition pool_ok :: "nat \<Rightarrow> nat \<Rightarrow> 'f LogWorker \<Rightarrow> backend_pc \<Rightarrow> bool" where
  "pool_ok N n w pc \<longleftrightarrow> length (buffers w pc) = n \<and> (\<forall>b \<in> set (buffers w pc). good_buffer N b) \<and>
     (\<forall>b \<in> set (lw_available w). fb_content b = []) \<and> pc_ok pc"

text \<open>The bytes stored but not yet handed to the log file, in order.\<close>

definition pending :: "'f LogWorker \<Rightarrow> backend_pc \<Rightarrow> bytes" where
  "pending w pc = concat (map fb_content (held pc)) @ concat (map fb_content (lw_filled w)) @
     (case lw_buffer w of None \<Rightarrow> [] | Some b \<Rightarrow> fb_content b)"

lemma fb_reset_good [simp]: "good_buffer N b \<Longrightarrow> good_buffer N (fb_reset b)" "fb_content (fb_reset b) = []"
  by (auto simp: good_buffer_def fb_reset_def fb_ok_def fb_content_def)

lemma fb_bytes_content [simp]: "good_buffer N b \<Longrightarrow> fb_bytes b = Some (fb_content b)"
  using fb_length_eq [of b] by (auto simp: fb_bytes_def read_at_def good_buffer_def fb_ok_def fb_content_def)

lemma fb_append_good:
  assumes "good_buffer N b"
  obtains b' where "fb_append b d = Some (int (length d) \<le> fb_remain b, b')" "good_buffer N b'"
    "fb_content b' = fb_content b @ (if int (length d) \<le> fb_remain b then d else [])"
proof -
  have "puts b (put_bytes b d) (int (length d) \<le> fb_remain b) d"
    using assms by (intro put_bytes_ok) (simp add: good_buffer_def)
  then obtain b' where b': "put_bytes b d = Some b'" "good_buffer N b'"
    "fb_content b' = fb_content b @ (if int (length d) \<le> fb_remain b then d else [])"
    using assms by (auto simp: puts_def good_buffer_def)
  from b'(1) have "fb_append b d = Some (int (length d) \<le> fb_remain b, b')"
    by (auto simp: put_bytes_def fb_append_def split: if_splits bind_splits)
  with b' that show ?thesis by blast
qed

text \<open>A producer never fails, and its message goes behind everything stored before or nowhere.\<close>

lemma take_buffer_ok:
  assumes "pool_ok N n w pc" and "lw_buffer w = None"
  shows "\<exists>ok w'. take_buffer w d = Some (ok, w') \<and> pool_ok N n w' pc \<and>
    pending w' pc = pending w pc @ (if ok then d else []) \<and> lw_output w' = lw_output w \<and> lw_stop w' = lw_stop w \<and>
    (ok \<longleftrightarrow> lw_available w \<noteq> [] \<and> length d \<le> N)"
proof (cases "lw_available w = []")
  case True
  then show ?thesis using assms by (auto simp: take_buffer_def)
next
  case False
  then obtain xs b where av: "lw_available w = xs @ [b]" by (cases "lw_available w" rule: rev_cases) auto
  have b: "good_buffer N b" "fb_content b = []"
    using assms(1) av by (auto simp: pool_ok_def buffers_def)
  from b have r: "fb_remain b = int N" using length_fb_content [of b] fb_remain_eq [of b] by (simp add: good_buffer_def)
  from fb_append_good [OF b(1), of d] obtain b' where b': "fb_append b d = Some (length d \<le> N, b')" "good_buffer N b'"
    "fb_content b' = (if length d \<le> N then d else [])" using r b(2) by auto
  have "pool_ok N n (w\<lparr>lw_available := xs, lw_buffer := Some b'\<rparr>) pc"
    using assms b'(2) av by (simp add: pool_ok_def buffers_def ball_Un)
  then show ?thesis using av b'(1,3) assms(2) by (simp add: take_buffer_def pending_def)
qed

lemma push_current_ok:
  assumes "pool_ok N n w pc"
  shows "pool_ok N n (push_current w) pc" "pending (push_current w) pc = pending w pc" "lw_buffer (push_current w) = None"
    "lw_output (push_current w) = lw_output w" "lw_stop (push_current w) = lw_stop w" "lw_available (push_current w) = lw_available w"
  using assms by (auto simp: push_current_def pool_ok_def buffers_def pending_def split: option.splits)

lemma append_async_ok:
  assumes "pool_ok N n w pc"
  shows "\<exists>ok w'. append_async w d = Some (ok, w') \<and> pool_ok N n w' pc \<and>
    pending w' pc = pending w pc @ (if ok then d else []) \<and> lw_output w' = lw_output w \<and>
    (\<not> ok \<longrightarrow> lw_stop w \<or> lw_available w = [] \<or> N < length d)"
proof (cases "lw_stop w")
  case False
  note take = take_buffer_ok [OF push_current_ok(1) [OF assms] push_current_ok(3) [OF assms], of d]
  show ?thesis
  proof (cases "lw_buffer w")
    case None
    then have "push_current w = w" by (simp add: push_current_def)
    with take None False show ?thesis by (auto simp: append_async_def)
  next
    case (Some b)
    show ?thesis
    proof (cases "int (length d) < fb_remain b")
      case True
      have "good_buffer N b" using assms Some by (auto simp: pool_ok_def buffers_def)
      from fb_append_good [OF this, of d] obtain b' where "fb_append b d = Some (True, b')" "good_buffer N b'"
        "fb_content b' = fb_content b @ d" using True by auto
      moreover from this(2) have "pool_ok N n (w\<lparr>lw_buffer := Some b'\<rparr>) pc"
        using assms Some by (auto simp: pool_ok_def buffers_def)
      ultimately show ?thesis using True False Some by (auto simp: append_async_def pending_def)
    next
      case False
      then show ?thesis using take \<open>\<not> lw_stop w\<close> Some push_current_ok [OF assms] by (auto simp: append_async_def)
    qed
  qed
qed (use assms in \<open>auto simp: append_async_def\<close>)

lemma drain_frame:
  "drain app bs w = Some w' \<Longrightarrow> lw_filled w' = lw_filled w \<and> lw_buffer w' = lw_buffer w \<and> lw_stop w' = lw_stop w \<and>
   lw_available w' = lw_available w @ map fb_reset bs"
  by (induction app bs w rule: drain.induct) (auto split: bind_splits)

lemma next_filled_ok:
  assumes "pool_ok N n w BFlush"
  shows "next_filled w = (w', pc') \<Longrightarrow> pool_ok N n w' pc' \<and> pending w' pc' = pending w BFlush \<and> lw_output w' = lw_output w"
  using assms by (auto simp: next_filled_def pool_ok_def buffers_def pending_def split: list.splits)

text \<open>Whatever the threads do, no buffer is lost or shared.\<close>

lemma threadFunc_pool:
  assumes "pool_ok N n w pc" and "threadFunc_step app sync (w, pc) = Some (w', pc')"
  shows "pool_ok N n w' pc'"
proof (cases pc)
  case BWait
  let ?w = "if lw_stop w then push_current w else w"
  have p: "pool_ok N n ?w BFlush" using assms(1) push_current_ok(1) [OF assms(1)] BWait
    by (auto simp: pool_ok_def buffers_def)
  show ?thesis
  proof (cases "lw_filled ?w")
    case Nil
    then show ?thesis using assms(2) p BWait
      by (auto simp: Let_def pool_ok_def buffers_def split: option.splits if_splits)
  next
    case (Cons b bs)
    then show ?thesis using assms(2) next_filled_ok [OF p] BWait by (auto simp: Let_def)
  qed
next
  case (BWrite lp b)
  then show ?thesis using assms by (auto simp: pool_ok_def buffers_def split: bind_splits)
next
  case (BWrote lp b)
  let ?w = "w\<lparr>lw_available := lw_available w @ [b]\<rparr>"
  have "pool_ok N n ?w BFlush" using assms(1) BWrote by (auto simp: pool_ok_def buffers_def)
  then show ?thesis using assms(2) next_filled_ok [of N n ?w] BWrote by (auto simp: Let_def split: if_splits)
next
  case BFlush
  then show ?thesis using assms by (cases "lw_stop w") (auto simp: pool_ok_def buffers_def bind_eq_Some_conv)
qed (use assms in simp)

lemma wstep_pool: "wstep app sync fl s s' \<Longrightarrow> pool_ok N n (fst s) (fst (snd s)) \<Longrightarrow> pool_ok N n (fst s') (fst (snd s'))"
proof (induction rule: wstep.induct)
  case (produce w d ok w' pc acc)
  then show ?case using append_async_ok [of N n w pc d] by auto
next
  case (flush w w' pc acc)
  then have p: "pool_ok N n (push_current w) pc" using push_current_ok by simp
  from flush(2) have "lw_filled w' = [] \<and> lw_buffer w' = lw_buffer (push_current w) \<and>
      lw_available w' = lw_available (push_current w) @ map fb_reset (lw_filled (push_current w))"
    by (auto simp: lw_flush_def Let_def bind_eq_Some_conv dest!: drain_frame)
  then show ?case using p by (auto simp: pool_ok_def buffers_def)
next
  case (backend w pc w' pc' acc)
  then show ?case using threadFunc_pool by auto
qed (auto simp: pool_ok_def buffers_def)

lemma wreach_pool: "wreach app sync fl s0 s \<Longrightarrow> pool_ok N n (fst s0) (fst (snd s0)) \<Longrightarrow> pool_ok N n (fst s) (fst (snd s))"
  by (induction rule: wreach.induct) (auto intro: wstep_pool)

lemma pending_idle: "pending w BWait = pending w BFlush" "pending w BDone = pending w BFlush"
  by (simp_all add: pending_def)

text \<open>Without calls of \<^verbatim>\<open>flush\<close> the log file and what is still in memory are, in order, the stored messages.\<close>

context durable_sink
begin

definition in_order :: "'f \<Rightarrow> 'f wsys \<Rightarrow> bool" where
  "in_order f0 s \<longleftrightarrow> (case s of (w, pc, acc) \<Rightarrow> ok (lw_output w) \<and> cap (lw_output w) = cap f0 \<and>
     logged (lw_output w) @ pending w pc = logged f0 @ concat acc)"

lemma threadFunc_in_order:
  assumes "in_order f0 (w, pc, acc)" and "pool_ok N n w pc" and "length (logged f0) + length (concat acc) \<le> cap f0" and "pc \<noteq> BDone"
  shows "\<exists>w' pc'. threadFunc_step app sync (w, pc) = Some (w', pc') \<and> in_order f0 (w', pc', acc)"
proof (cases pc)
  case BWait
  let ?w = "if lw_stop w then push_current w else w"
  have p: "pool_ok N n ?w BFlush" "pending ?w BFlush = pending w pc" "lw_output ?w = lw_output w"
    using push_current_ok [OF assms(2)] assms(2) BWait by (auto simp: pool_ok_def buffers_def pending_def)
  show ?thesis
  proof (cases "lw_filled ?w")
    case Nil
    show ?thesis
    proof (cases "lw_buffer ?w")
      case None
      then show ?thesis using Nil BWait p assms(1) by (simp add: Let_def in_order_def pending_idle)
    next
      case (Some b)
      moreover have "\<not> lw_stop w" using Some push_current_ok(3) [OF assms(2)] by (auto split: if_splits)
      ultimately show ?thesis using Nil BWait p assms(1) by (auto simp: Let_def in_order_def pending_def)
    qed
  next
    case (Cons b bs)
    obtain w' pc' where nf: "next_filled ?w = (w', pc')" by fastforce
    then show ?thesis using Cons BWait next_filled_ok [OF p(1) nf] p assms(1) by (auto simp: Let_def in_order_def)
  qed
next
  case (BWrite lp b)
  have b: "fb_bytes b = Some (fb_content b)" using assms(2) BWrite fb_bytes_content [of N b] by (simp add: pool_ok_def buffers_def)
  have p: "pending w pc = fb_content b @ pending w BFlush" using BWrite by (simp add: pending_def)
  have "length (logged (lw_output w)) + length (fb_content b) \<le> cap (lw_output w)"
    using assms(1,3) p by (auto simp: in_order_def dest!: arg_cong [of _ _ length])
  then obtain f where "app (lw_output w) (fb_content b) = Some f" "ok f" "logged f = logged (lw_output w) @ fb_content b" "cap f = cap (lw_output w)"
    using appE assms(1) unfolding in_order_def by blast
  then show ?thesis using BWrite b p assms(1) by (simp add: in_order_def pending_def)
next
  case (BWrote lp b)
  let ?w = "w\<lparr>lw_available := lw_available w @ [b]\<rparr>"
  have p: "pool_ok N n ?w BFlush" "pending ?w BFlush = pending w pc" using assms(2) BWrote by (auto simp: pool_ok_def buffers_def pending_def)
  obtain w' pc' where nf: "next_filled ?w = (w', pc')" by fastforce
  show ?thesis using BWrote next_filled_ok [OF p(1) nf] nf p assms(1) by (auto simp: Let_def in_order_def)
next
  case BFlush
  then obtain f where "sync (lw_output w) = Some f" "ok f" "logged f = logged (lw_output w)" "cap f = cap (lw_output w)"
    using syncE assms(1) unfolding in_order_def by blast
  then show ?thesis using BFlush assms(1) by (simp add: in_order_def pending_def)
qed (use assms in simp)

lemma wstep_in_order:
  assumes "wstep app sync False s s'" and "in_order f0 s" and "pool_ok N n (fst s) (fst (snd s))"
    and "length (logged f0) + length (concat (snd (snd s'))) \<le> cap f0"
  shows "in_order f0 s'"
  using assms
proof (induction rule: wstep.induct)
  case (produce w d ok w' pc acc)
  then show ?case using append_async_ok [of N n w pc d] by (auto simp: in_order_def)
next
  case (stop w pc acc)
  then show ?case by (simp add: in_order_def pending_def)
next
  case (backend w pc w' pc' acc)
  then have "pc \<noteq> BDone" by auto
  from threadFunc_in_order [OF backend(2) _ _ this] backend show ?case by auto
qed simp

lemma wreach_in_order:
  assumes "wreach app sync False s0 s" and "in_order f0 s0" and "pool_ok N n (fst s0) (fst (snd s0))"
    and "length (logged f0) + length (concat (snd (snd s))) \<le> cap f0"
  shows "in_order f0 s"
  using assms
proof (induction rule: wreach.induct)
  case (step s s')
  have "length (concat (snd (snd s))) \<le> length (concat (snd (snd s')))"
    using step(2) by (induction rule: wstep.induct) auto
  then have "in_order f0 s" using step by simp
  then show ?case using wstep_in_order [OF step(2)] wreach_pool [OF step(1) step.prems(2)] step.prems(3) by blast
qed simp

end

section \<open>Shutdown\<close>

text \<open>The destructor sets \<^verbatim>\<open>_stop\<close> and joins the backend, which runs alone from there; then the members are destroyed,
  the output among them (\<open>close\<close>). A backend that never returns is \<open>None\<close>.\<close>

partial_function (option) join_backend :: "('f \<Rightarrow> bytes \<Rightarrow> 'f option) \<Rightarrow> ('f \<Rightarrow> 'f option) \<Rightarrow> 'f LogWorker \<Rightarrow> backend_pc \<Rightarrow> 'f LogWorker option" where
  "join_backend app sync w pc =
     (if pc = BDone then Some w
      else do { s \<leftarrow> threadFunc_step app sync (w, pc); join_backend app sync (fst s) (snd s) })"

definition delete_LogWorker :: "('f \<Rightarrow> bytes \<Rightarrow> 'f option) \<Rightarrow> ('f \<Rightarrow> 'f option) \<Rightarrow> ('f \<Rightarrow> 'f option) \<Rightarrow> 'f LogWorker \<Rightarrow> backend_pc \<Rightarrow>
    'f option" where
  "delete_LogWorker app sync close w pc =
     do { w \<leftarrow> join_backend app sync (w\<lparr>lw_stop := True\<rparr>) pc; close (lw_output w) }"

lemma join_step [simp]:
  "threadFunc_step app sync (w, pc) = Some (w1, pc1) \<Longrightarrow> join_backend app sync w pc = join_backend app sync w1 pc1"
  by (cases pc) (subst join_backend.simps, simp)+

lemma join_done [simp]: "join_backend app sync w BDone = Some w"
  by (simp add: join_backend.simps)

text \<open>What the destructor waits for is a run of the backend.\<close>

lemma join_reach:
  assumes "join_backend app sync w pc = Some w'"
  shows "wreach app sync fl s0 (w, pc, acc) \<Longrightarrow> wreach app sync fl s0 (w', BDone, acc)"
proof -
  have "wreach app sync fl s0 (w, pc, acc) \<longrightarrow> wreach app sync fl s0 (w', BDone, acc)"
    by (rule join_backend.raw_induct
        [where P = "\<lambda>app sync w pc w'. wreach app sync fl s0 (w, pc, acc) \<longrightarrow> wreach app sync fl s0 (w', BDone, acc)", OF _ assms])
      (auto simp: bind_eq_Some_conv split: if_splits dest: wstep.backend wreach.step)
  then show "wreach app sync fl s0 (w, pc, acc) \<Longrightarrow> wreach app sync fl s0 (w', BDone, acc)" by blast
qed

context durable_sink
begin

lemma join_filled:
  assumes "lw_stop w" and "lw_buffer w = None" and "lw_filled w = bs" and "\<forall>x \<in> set (b # bs). good_buffer N x"
    and "ok (lw_output w)" and "length (logged (lw_output w)) + length (concat (map fb_content (b # bs))) \<le> cap (lw_output w)"
  shows "\<exists>w'. join_backend app sync w (BWrite True b) = Some w' \<and> pending w' BDone = [] \<and> ok (lw_output w') \<and>
    logged (lw_output w') = logged (lw_output w) @ concat (map fb_content (b # bs))"
  using assms
proof (induction bs arbitrary: w b)
  case Nil
  obtain f where f: "app (lw_output w) (fb_content b) = Some f" "ok f" "logged f = logged (lw_output w) @ fb_content b"
    using appE [OF Nil.prems(5), of "fb_content b"] Nil.prems(6) by auto
  obtain g where g: "sync f = Some g" "ok g" "logged g = logged f" using syncE [OF f(2)] by blast
  have b: "fb_bytes b = Some (fb_content b)" using Nil.prems(4) by simp
  let ?w = "w\<lparr>lw_output := f\<rparr>" and ?v = "w\<lparr>lw_output := f, lw_available := lw_available w @ [fb_reset b]\<rparr>"
  have "threadFunc_step app sync (w, BWrite True b) = Some (?w, BWrote True (fb_reset b))" using f b by simp
  moreover have "threadFunc_step app sync (?w, BWrote True (fb_reset b)) = Some (?v, BFlush)" using Nil.prems by (simp add: next_filled_def)
  moreover have "threadFunc_step app sync (?v, BFlush) = Some (?v\<lparr>lw_output := g\<rparr>, BDone)" using g Nil.prems by simp
  ultimately show ?case using Nil.prems f g by (simp add: pending_def)
next
  case (Cons c bs)
  obtain f where f: "app (lw_output w) (fb_content b) = Some f" "ok f" "logged f = logged (lw_output w) @ fb_content b"
    "cap f = cap (lw_output w)"
    using appE [OF Cons.prems(5), of "fb_content b"] Cons.prems(6) by auto
  let ?w = "w\<lparr>lw_output := f\<rparr>" and ?v = "w\<lparr>lw_output := f, lw_available := lw_available w @ [fb_reset b], lw_filled := bs\<rparr>"
  have b: "fb_bytes b = Some (fb_content b)" using Cons.prems(4) fb_bytes_content [of N b] by simp
  have "threadFunc_step app sync (w, BWrite True b) = Some (?w, BWrote True (fb_reset b))" using f b by simp
  moreover have "threadFunc_step app sync (?w, BWrote True (fb_reset b)) = Some (?v, BWrite True c)"
    using Cons.prems by (simp add: next_filled_def)
  ultimately show ?case using Cons.IH [of ?v c] Cons.prems f by (auto simp: add.assoc)
qed

lemma delete_from_wait:
  assumes "pool_ok N n w BWait" and "lw_buffer w \<noteq> None \<or> lw_filled w \<noteq> []"
    and "ok (lw_output w)" and "length (logged (lw_output w)) + length (pending w BWait) \<le> cap (lw_output w)"
  shows "\<exists>f. delete_LogWorker app sync close w BWait = Some f \<and> disk f = logged (lw_output w) @ pending w BWait"
proof -
  let ?p = "push_current (w\<lparr>lw_stop := True\<rparr>)"
  have "pool_ok N n (w\<lparr>lw_stop := True\<rparr>) BWait" "pending (w\<lparr>lw_stop := True\<rparr>) BWait = pending w BWait"
    using assms(1) by (simp_all add: pool_ok_def buffers_def pending_def)
  note p = push_current_ok [OF this(1), unfolded this(2)]
  obtain b bs where bs: "lw_filled ?p = b # bs"
    using assms(2) by (cases "lw_filled ?p") (auto simp: push_current_def split: option.splits)
  have c: "pending w BWait = concat (map fb_content (b # bs))" using p(2,3) bs by (auto simp: pending_def)
  have g: "\<forall>x \<in> set (b # bs). good_buffer N x" using p(1) bs by (auto simp: pool_ok_def buffers_def)
  obtain w' where w': "join_backend app sync (?p\<lparr>lw_filled := bs\<rparr>) (BWrite True b) = Some w'" "ok (lw_output w')"
    "logged (lw_output w') = logged (lw_output w) @ pending w BWait"
    using join_filled [of "?p\<lparr>lw_filled := bs\<rparr>" bs b N] assms(3,4) p g c by auto
  have "threadFunc_step app sync (w\<lparr>lw_stop := True\<rparr>, BWait) = Some (?p\<lparr>lw_filled := bs\<rparr>, BWrite True b)"
    using bs by (simp add: next_filled_def Let_def)
  then have "join_backend app sync (w\<lparr>lw_stop := True\<rparr>) BWait = Some w'" using w'(1) by simp
  then show ?thesis using close_law [OF w'(2)] w'(3) by (auto simp: delete_LogWorker_def)
qed

end

text \<open>Once the backend waits with nothing to write after \<^verbatim>\<open>_stop\<close>, it goes round for ever.\<close>

lemma idle_stays:
  assumes "wreach app sync fl (w0, BWait, acc0) s" and "lw_stop w0" "lw_buffer w0 = None" "lw_filled w0 = []"
  shows "\<exists>w. s = (w, BWait, acc0) \<and> lw_stop w \<and> lw_buffer w = None \<and> lw_filled w = []"
  using assms
proof (induction rule: wreach.induct)
  case (step s s')
  then obtain w where "s = (w, BWait, acc0)" "lw_stop w" "lw_buffer w = None" "lw_filled w = []" by blast
  with step(2) show ?case
    by (cases rule: wstep.cases) (auto simp: append_async_def lw_flush_def push_current_def Let_def bind_eq_Some_conv)
qed simp

text \<open>A schedule of the threads, to exhibit runs.\<close>

datatype act = AProduce bytes | AFlush | AStop | ABackend

fun do_act :: "('f \<Rightarrow> bytes \<Rightarrow> 'f option) \<Rightarrow> ('f \<Rightarrow> 'f option) \<Rightarrow> act \<Rightarrow> 'f wsys \<Rightarrow> 'f wsys option" where
  "do_act app sync (AProduce d) (w, pc, acc) =
     map_option (\<lambda>(ok, w'). (w', pc, if ok then acc @ [d] else acc)) (append_async w d)"
| "do_act app sync AFlush (w, pc, acc) = map_option (\<lambda>w'. (w', pc, acc)) (lw_flush app sync w)"
| "do_act app sync AStop (w, pc, acc) = Some (w\<lparr>lw_stop := True\<rparr>, pc, acc)"
| "do_act app sync ABackend (w, pc, acc) = map_option (\<lambda>(w', pc'). (w', pc', acc)) (threadFunc_step app sync (w, pc))"

fun run_acts :: "('f \<Rightarrow> bytes \<Rightarrow> 'f option) \<Rightarrow> ('f \<Rightarrow> 'f option) \<Rightarrow> act list \<Rightarrow> 'f wsys \<Rightarrow> 'f wsys option" where
  "run_acts app sync [] s = Some s"
| "run_acts app sync (a # as) s = do { s1 \<leftarrow> do_act app sync a s; run_acts app sync as s1 }"

lemma do_act_step: "do_act app sync a s = Some s' \<Longrightarrow> a = AFlush \<longrightarrow> fl \<Longrightarrow> wstep app sync fl s s'"
  by (cases "(app, sync, a, s)" rule: do_act.cases) (auto intro: wstep.intros)

lemma run_acts_reach:
  "run_acts app sync as s = Some s' \<Longrightarrow> wreach app sync fl s0 s \<Longrightarrow> AFlush \<in> set as \<longrightarrow> fl \<Longrightarrow> wreach app sync fl s0 s'"
proof (induction as arbitrary: s)
  case (Cons a as)
  then obtain s1 where "do_act app sync a s = Some s1" "run_acts app sync as s1 = Some s'" by (auto split: bind_splits)
  moreover have "wreach app sync fl s0 s1"
    using Cons.prems(2,3) do_act_step [OF \<open>do_act app sync a s = Some s1\<close>, of fl] by (auto intro: wreach.step)
  ultimately show ?case using Cons.IH Cons.prems(3) by simp
qed simp

lemma new_LogWorker_ok:
  assumes "length junk < 2 ^ 63"
  shows "pool_ok (length junk) (Suc k) (new_LogWorker junk k out) BWait" "pending (new_LogWorker junk k out) BWait = []"
proof -
  have "int (length junk) < 2 ^ 63" using assms by simp
  then have "good_buffer (length junk) (new_FixedBuffer junk)" "fb_content (new_FixedBuffer junk) = []"
    using new_FixedBuffer_ok [of junk] by (auto simp: good_buffer_def new_FixedBuffer_def)
  then show "pool_ok (length junk) (Suc k) (new_LogWorker junk k out) BWait" "pending (new_LogWorker junk k out) BWait = []"
    by (auto simp: pool_ok_def buffers_def new_LogWorker_def pending_def)
qed

text \<open>An empty log in an empty file system and a worker with three spare buffers, for the examples.\<close>

definition demo_log :: log_state where
  "demo_log = the (new_LogFile demo_fs ''d'' ''n'' 100 ''log'')"

definition demo_worker :: "log_state wsys" where
  "demo_worker = (new_LogWorker (replicate 16 CHR ''.'') 3 demo_log, BWait, [])"

lemma demo_log_ok: "log_ok demo_log" "log_text demo_log = []" "log_cap demo_log = 429496729300"
  using new_LogFile_ok [of demo_fs "''d''" "''n''" "''log''" 100] by (auto simp: demo_log_def log_cap_def)

section \<open>Properties\<close>

text \<open>C11: under every interleaving of producers, the destructor and the backend thread, without calls of \<^verbatim>\<open>LogWorker::flush\<close>, which only
  fatal statements make before they abort and which can write past the buffer the backend holds, what the log file holds followed by what is still in memory is the stored messages in the
  order they were stored; what has reached the disk, and survives a crash, is a beginning of that; no buffer is lost or in two
  places, and the backend is never stuck on an undefined operation.\<close>

theorem async_log_in_order:
  assumes "log_ok out" and "length junk < 2 ^ 63"
    and "wreach log_append log_flush False (new_LogWorker junk k out, BWait, []) (w, pc, acc)"
    and "length (log_text out) + length (concat acc) \<le> log_cap out"
  shows "log_text (lw_output w) @ pending w pc = log_text out @ concat acc \<and> prefix (disk_text (lw_output w)) (log_text out @ concat acc) \<and>
    pool_ok (length junk) (Suc k) w pc \<and>
    (pc \<noteq> BDone \<longrightarrow> threadFunc_step log_append log_flush (w, pc) \<noteq> None)"
proof -
  note n = new_LogWorker_ok [OF assms(2), of k out]
  have "lf.in_order out (new_LogWorker junk k out, BWait, [])"
    using assms(1) n(2) by (simp add: lf.in_order_def) (simp add: new_LogWorker_def)
  then have o: "lf.in_order out (w, pc, acc)" using lf.wreach_in_order [OF assms(3)] n(1) assms(4) by simp
  then have t: "log_ok (lw_output w)" "log_text (lw_output w) @ pending w pc = log_text out @ concat acc" by (simp_all add: lf.in_order_def)
  have p: "pool_ok (length junk) (Suc k) w pc" using wreach_pool [OF assms(3)] n(1) by simp
  have "prefix (disk_text (lw_output w)) (log_text out @ concat acc)"
    unfolding t(2) [symmetric] using lf.disk_law [OF t(1)] by (rule prefix_prefix)
  then show ?thesis using lf.threadFunc_in_order [OF o p assms(4)] p t(2) by auto
qed

theorem async_log_in_order_witness:
  "\<exists>w pc acc. wreach log_append log_flush False demo_worker (w, pc, acc) \<and> concat acc = ''abcd'' \<and>
     log_text (lw_output w) @ pending w pc = ''abcd'' \<and> log_text (lw_output w) = ''ab''"
proof -
  let ?as = "[AProduce ''ab'', ABackend, AProduce ''cd'', ABackend]"
  have v: "map_option (\<lambda>(w, pc, acc). concat acc = ''abcd'' \<and> log_text (lw_output w) = ''ab'') (run_acts log_append log_flush ?as demo_worker) = Some True"
    by code_simp
  then obtain w pc acc where r: "run_acts log_append log_flush ?as demo_worker = Some (w, pc, acc)" by auto
  then have reach: "wreach log_append log_flush False demo_worker (w, pc, acc)" by (rule run_acts_reach [OF _ wreach.start]) simp
  have "concat acc = ''abcd''" "log_text (lw_output w) = ''ab''" using v r by auto
  moreover have "log_text (lw_output w) @ pending w pc = concat acc"
    using async_log_in_order [OF demo_log_ok(1), of "replicate 16 CHR ''.''" 3 w pc acc] reach demo_log_ok calculation(1)
    by (simp add: demo_worker_def)
  ultimately show ?thesis using reach by metis
qed

text \<open>A producer's call is always defined; its message goes behind everything stored before, or is
  dropped: only after \<^verbatim>\<open>_stop\<close>, when no spare buffer is left, or when it is longer than a buffer.\<close>

theorem append_async_contract:
  assumes "pool_ok N n w pc"
  shows "\<exists>ok w'. append_async w d = Some (ok, w') \<and> pool_ok N n w' pc \<and>
    pending w' pc = pending w pc @ (if ok then d else []) \<and> lw_output w' = lw_output w \<and>
    (\<not> ok \<longrightarrow> lw_stop w \<or> lw_available w = [] \<or> N < length d)"
  by (rule append_async_ok [OF assms])

theorem append_async_contract_witness:
  "\<exists>ok w'. append_async (new_LogWorker (replicate 16 CHR ''.'') 3 (0 :: nat)) ''abc'' = Some (ok, w') \<and> ok \<and>
     pending w' BWait = ''abc''"
  using append_async_contract [OF new_LogWorker_ok(1) [of "replicate 16 CHR ''.''" 3 "0 :: nat"], of "''abc''"]
    new_LogWorker_ok(2) [of "replicate 16 CHR ''.''" 3 "0 :: nat"]
  by (auto simp: new_LogWorker_def)

text \<open>C32: when the destructor sets \<^verbatim>\<open>_stop\<close> while the backend waits and a current or full buffer is
  there, the backend returns, the destructor too, and everything that was stored is on disk, in order.\<close>

theorem shutdown_drains:
  assumes "log_ok (lw_output w)" and "pool_ok N n w BWait" and "lw_buffer w \<noteq> None \<or> lw_filled w \<noteq> []"
    and "length (log_text (lw_output w)) + length (pending w BWait) \<le> log_cap (lw_output w)"
  shows "\<exists>out. delete_LogWorker log_append log_flush log_close w BWait = Some out \<and>
    disk_text out = log_text (lw_output w) @ pending w BWait"
  by (rule lf.delete_from_wait [OF assms(2,3,1,4)])

theorem shutdown_drains_witness:
  "\<exists>w acc out. wreach log_append log_flush False demo_worker (w, BWait, acc) \<and>
     delete_LogWorker log_append log_flush log_close w BWait = Some out \<and> disk_text out = ''abcd''"
proof -
  let ?as = "[AProduce ''ab'', ABackend, AProduce ''cd'', ABackend, ABackend, ABackend]"
  have v: "map_option (\<lambda>(w, pc, acc). pc = BWait \<and> lw_buffer w \<noteq> None \<and> log_text (lw_output w) = ''ab'' \<and> pending w BWait = ''cd'' \<and>
      concat acc = ''abcd'') (run_acts log_append log_flush ?as demo_worker) = Some True" by code_simp
  then obtain w acc where r: "run_acts log_append log_flush ?as demo_worker = Some (w, BWait, acc)" "lw_buffer w \<noteq> None"
    "log_text (lw_output w) = ''ab''" "pending w BWait = ''cd''" "concat acc = ''abcd''" by auto
  then have reach: "wreach log_append log_flush False demo_worker (w, BWait, acc)" by (intro run_acts_reach [OF r(1) wreach.start]) simp
  have n: "pool_ok 16 4 (new_LogWorker (replicate 16 CHR ''.'') 3 demo_log) BWait" "pending (new_LogWorker (replicate 16 CHR ''.'') 3 demo_log) BWait = []"
    using new_LogWorker_ok [of "replicate 16 CHR ''.''" 3 demo_log] by simp_all
  have "pool_ok 16 4 w BWait" using wreach_pool [OF reach] n(1) by (simp add: demo_worker_def)
  moreover have "lf.in_order demo_log (w, BWait, acc)"
    using lf.wreach_in_order [OF reach, of demo_log 16 4] n demo_log_ok r(5)
    by (simp add: demo_worker_def lf.in_order_def) (simp add: new_LogWorker_def)
  then have "log_ok (lw_output w)" "log_cap (lw_output w) = 429496729300" using demo_log_ok by (simp_all add: lf.in_order_def)
  ultimately show ?thesis using shutdown_drains [of w 16 4] r reach by fastforce
qed

text \<open>Otherwise the destructor never returns: one message is stored and written when \<^verbatim>\<open>wait_for\<close>
  times out, so that the backend holds no current buffer, and nothing is logged before the
  destructor sets \<^verbatim>\<open>_stop\<close>. From that reachable state no schedule leads to the end of the
  backend, which \<^verbatim>\<open>Join\<close> waits for: its loop takes the branch \<^verbatim>\<open>continue\<close> for ever.\<close>

theorem shutdown_hangs:
  "\<exists>w acc. wreach log_append log_flush False demo_worker (w, BWait, acc) \<and> lw_stop w \<and> pending w BWait = [] \<and>
     log_text (lw_output w) = ''hello'' \<and>
     (\<nexists>w' acc'. wreach log_append log_flush fl (w, BWait, acc) (w', BDone, acc')) \<and>
     delete_LogWorker log_append log_flush log_close w BWait = None"
proof -
  let ?as = "[AProduce ''hello'', ABackend, ABackend, ABackend, ABackend, AStop]"
  have v: "map_option (\<lambda>(w, pc, acc). pc = BWait \<and> lw_stop w \<and> lw_buffer w = None \<and> lw_filled w = [] \<and>
      log_text (lw_output w) = ''hello'') (run_acts log_append log_flush ?as demo_worker) = Some True"
    by code_simp
  then obtain w acc where r: "run_acts log_append log_flush ?as demo_worker = Some (w, BWait, acc)" "lw_stop w" "lw_buffer w = None"
    "lw_filled w = []" "log_text (lw_output w) = ''hello''" by auto
  from r(1) have "wreach log_append log_flush False demo_worker (w, BWait, acc)" by (rule run_acts_reach [OF _ wreach.start]) simp
  moreover have never: "pc = BWait" if "wreach log_append log_flush fl (w, BWait, acc) (w', pc, acc')" for w' pc acc'
    using idle_stays [OF that r(2,3,4)] by simp
  moreover have "pending w BWait = []" using r(3,4) by (simp add: pending_def)
  moreover have "w\<lparr>lw_stop := True\<rparr> = w" using r(2) by simp
  then have "delete_LogWorker log_append log_flush log_close w BWait = None"
    using join_reach [of log_append log_flush w BWait _ fl "(w, BWait, acc)" acc] never wreach.start
    by (cases "join_backend log_append log_flush w BWait") (fastforce simp: delete_LogWorker_def)+
  ultimately show ?thesis using r(2,5) by blast
qed

text \<open>And messages can be lost: when \<^verbatim>\<open>_stop\<close> is set while the backend writes the current buffer
  with the lock released, a message stored in the meantime is never written; the backend returns
  with it in memory. A \<^verbatim>\<open>flush\<close> at that point writes the later message before the earlier one.\<close>

theorem shutdown_loses_messages:
  "(\<exists>w. wreach log_append log_flush False demo_worker (w, BDone, [''first'', ''second'']) \<and> log_text (lw_output w) = ''first'' \<and>
      pending w BDone = ''second'') \<and>
   (\<exists>w. wreach log_append log_flush True demo_worker (w, BWait, [''first'', ''second'']) \<and> log_text (lw_output w) = ''secondfirst'')"
proof -
  let ?as = "[AProduce ''first'', ABackend, AProduce ''second'', AStop, ABackend, ABackend, ABackend]"
  let ?bs = "[AProduce ''first'', ABackend, AProduce ''second'', AFlush, ABackend, ABackend, ABackend]"
  have v: "map_option (\<lambda>(w, pc, acc). pc = BDone \<and> acc = [''first'', ''second''] \<and> log_text (lw_output w) = ''first'' \<and>
      pending w BDone = ''second'') (run_acts log_append log_flush ?as demo_worker) = Some True" by code_simp
  have u: "map_option (\<lambda>(w, pc, acc). pc = BWait \<and> acc = [''first'', ''second''] \<and> log_text (lw_output w) = ''secondfirst'')
      (run_acts log_append log_flush ?bs demo_worker) = Some True" by code_simp
  from v obtain w where "run_acts log_append log_flush ?as demo_worker = Some (w, BDone, [''first'', ''second''])"
    "log_text (lw_output w) = ''first''" "pending w BDone = ''second''" by auto
  moreover from this(1) have "wreach log_append log_flush False demo_worker (w, BDone, [''first'', ''second''])"
    by (rule run_acts_reach [OF _ wreach.start]) simp
  moreover from u obtain w' where "run_acts log_append log_flush ?bs demo_worker = Some (w', BWait, [''first'', ''second''])"
    "log_text (lw_output w') = ''secondfirst''" by auto
  moreover from this(1) have "wreach log_append log_flush True demo_worker (w', BWait, [''first'', ''second''])"
    by (rule run_acts_reach [OF _ wreach.start]) simp
  ultimately show ?thesis by blast
qed

end
