(* ===== verification/Stack_Trace.thy ===== *)
theory Stack_Trace
  imports C_Strings
begin

text \<open>
  Stack traces (\<^verbatim>\<open>src/log/debug/stacktrace.cpp\<close>): the state machine that takes a symbol of
  \<^verbatim>\<open>backtrace_symbols\<close> apart and the routine that formats the frames into a caller's array. The
  group \<^verbatim>\<open>s\<close> of \<^verbatim>\<open>stacktrace_write\<close> is never initialised; what its storage holds is an
  argument. The frames of \<^verbatim>\<open>backtrace\<close> and the demangler are arguments too. The theory proves that
  a symbol of the documented form is split into its parts, that a trace that fits is written
  exactly, and what happens when it does not fit or the group holds something else.
\<close>

section \<open>Symbols\<close>

definition is_space_char :: "char \<Rightarrow> bool" where
  "is_space_char c \<longleftrightarrow> c = CHR '' '' \<or> c = CR \<or> c = CHR 0x09 \<or> c = LF"

record symbol_group =
  sg_state :: int
  file_start :: nat
  file_end :: nat
  func_end :: nat
  offset_end :: nat
  addr_start :: nat
  addr_end :: nat
  symbol_str :: string
  sg_pos :: nat
  sg_last :: nat

definition sw_start :: int where "sw_start = 0"
definition sw_file :: int where "sw_file = 1"
definition sw_func :: int where "sw_func = 2"
definition sw_offset :: int where "sw_offset = 3"
definition sw_addr :: int where "sw_addr = 4"
definition sw_done :: int where "sw_done = 5"

lemmas sw_defs = sw_start_def sw_file_def sw_func_def sw_offset_def sw_addr_def sw_done_def

datatype parse_rc = AGAIN | OK

text \<open>The loop of \<^verbatim>\<open>stacktrace_parse_symbol_info\<close> on the characters from \<open>pi\<close> on. A state that is
  none of the enumeration matches no case. Only the exit of the loop stores the position and the state.\<close>

fun parse_chars :: "string \<Rightarrow> nat \<Rightarrow> int \<Rightarrow> symbol_group \<Rightarrow> parse_rc \<times> symbol_group" where
  "parse_chars [] pi st s = (AGAIN, s\<lparr>sg_pos := pi, sg_state := st\<rparr>)"
| "parse_chars (ch # cs) pi st s =
     (if is_space_char ch then parse_chars cs (Suc pi) st s
      else if st = sw_start then parse_chars cs (Suc pi) sw_file (s\<lparr>file_start := pi\<rparr>)
      else if st = sw_file then
        (if ch = CHR ''('' then parse_chars cs (Suc pi) sw_func (s\<lparr>file_end := pi\<rparr>) else parse_chars cs (Suc pi) st s)
      else if st = sw_func then
        (if ch = CHR ''+'' then parse_chars cs (Suc pi) sw_offset (s\<lparr>func_end := pi\<rparr>) else parse_chars cs (Suc pi) st s)
      else if st = sw_offset then
        (if ch = CHR '')'' then parse_chars cs (Suc pi) sw_addr (s\<lparr>offset_end := pi\<rparr>) else parse_chars cs (Suc pi) st s)
      else if st = sw_addr then
        (let s = (if ch = CHR ''['' then s\<lparr>addr_start := Suc pi\<rparr> else s)
         in if ch = CHR '']'' then (OK, s\<lparr>addr_end := pi\<rparr>) else parse_chars cs (Suc pi) st s)
      else if st = sw_done then (OK, s)
      else parse_chars cs (Suc pi) st s)"

definition stacktrace_parse_symbol_info :: "symbol_group \<Rightarrow> parse_rc \<times> symbol_group" where
  "stacktrace_parse_symbol_info s =
     parse_chars (take (sg_last s - sg_pos s) (drop (sg_pos s) (symbol_str s))) (sg_pos s) (sg_state s) s"

section \<open>Frames\<close>

record stacktrace_options =
  skip_start_frames :: nat
  skip_end_frames :: nat
  max_frames :: nat

definition default_stacktrace_options :: stacktrace_options where
  "default_stacktrace_options = \<lparr>skip_start_frames = 0, skip_end_frames = 0, max_frames = 0\<rparr>"

text \<open>\<^verbatim>\<open>std::string(base + i, base + j)\<close>.\<close>

definition substring :: "string \<Rightarrow> nat \<Rightarrow> nat \<Rightarrow> string option" where
  "substring str i j = (if i \<le> j \<and> j \<le> length str then Some (take (j - i) (drop i str)) else None)"

text \<open>Reading \<^verbatim>\<open>func_name[1]\<close> of a string of one character gives the null character.\<close>

definition char_at :: "string \<Rightarrow> nat \<Rightarrow> char" where
  "char_at str i = (if i < length str then str ! i else CHR 0x00)"

definition readable_name :: "(string \<Rightarrow> string option) \<Rightarrow> string \<Rightarrow> string" where
  "readable_name demangle func_name =
     (if func_name = [] then func_name
      else if char_at func_name 0 = CHR ''_'' \<and> char_at func_name 1 \<noteq> CHR ''_''
      then (case demangle func_name of Some real \<Rightarrow> real | None \<Rightarrow> func_name)
      else if char_at func_name 0 = CHR ''_'' \<and> char_at func_name 1 = CHR ''_'' then func_name
      else func_name @ ''()'')"

definition frame_text :: "int \<Rightarrow> string \<Rightarrow> string \<Rightarrow> string \<Rightarrow> string" where
  "frame_text frame_id func_address func_name func_offset =
     ''#'' @ show_int frame_id @ '': '' @ func_address @ '' '' @ func_name @ func_offset @ [CR, LF]"

text \<open>The loop of \<^verbatim>\<open>stacktrace_write\<close> over the frames, each a symbol (\<open>None\<close> the null pointer) and an address.
  \<open>arr\<close> is the array \<^verbatim>\<open>buf\<close> pointed to at the call, \<open>pos\<close> how far the pointer has moved.\<close>

fun write_frames :: "(string \<Rightarrow> string option) \<Rightarrow> nat \<Rightarrow> (string option \<times> int) list \<Rightarrow> int \<Rightarrow> symbol_group \<Rightarrow>
    bytes \<Rightarrow> int \<Rightarrow> int \<Rightarrow> int \<Rightarrow> (int \<times> bytes) option" where
  "write_frames demangle mx [] frame_id s arr pos bufsz ret = Some (ret, arr)"
| "write_frames demangle mx ((symb, adr) # frs) frame_id s arr pos bufsz ret =
     (if mx \<noteq> 0 \<and> frame_id \<ge> int mx then Some (ret, arr)
      else case symb of
        None \<Rightarrow> Some (ret, arr)
      | Some str \<Rightarrow>
          (if adr = 0 \<or> adr = 1 then Some (ret, arr)
           else let (rc, s) = stacktrace_parse_symbol_info (s\<lparr>symbol_str := str, sg_pos := 0, sg_last := length str\<rparr>) in
             if rc \<noteq> OK then Some (ret, arr)
             else do {
               func_name \<leftarrow> substring str (file_end s + 1) (func_end s);
               func_offset \<leftarrow> substring str (func_end s) (offset_end s);
               func_address \<leftarrow> substring str (addr_start s) (addr_end s);
               file_name \<leftarrow> substring str (file_start s) (file_end s);
               (res, arr) \<leftarrow> snprintf_at arr pos (nat bufsz)
                  (frame_text frame_id func_address (readable_name demangle func_name) func_offset);
               (if res \<le> 0 then Some (ret, arr)
                else write_frames demangle mx frs (frame_id + 1) s arr (pos + res) (culong (bufsz - res)) (culong (ret + res)))
             }))"

text \<open>\<open>stack\<close> is what \<^verbatim>\<open>backtrace\<close> and \<^verbatim>\<open>backtrace_symbols\<close> report, \<open>g\<close> the storage of \<^verbatim>\<open>s\<close>,
  \<open>arr\<close> the array at \<^verbatim>\<open>buf\<close>.\<close>

definition stacktrace_write :: "(string \<Rightarrow> string option) \<Rightarrow> (string option \<times> int) list \<Rightarrow> symbol_group \<Rightarrow>
    bytes option \<Rightarrow> int \<Rightarrow> stacktrace_options option \<Rightarrow> (int \<times> bytes option) option" where
  "stacktrace_write demangle stack g arr bufsz options =
     (case arr of
        None \<Rightarrow> Some (0, None)
      | Some arr \<Rightarrow>
          (if bufsz \<le> 0 then Some (0, Some arr)
           else
             let opts = (case options of None \<Rightarrow> default_stacktrace_options | Some opts \<Rightarrow> opts);
                 skip = skip_start_frames opts;
                 count = (if length stack \<le> skip + skip_end_frames opts then 0
                          else if skip_end_frames opts > 0 then length stack - skip_end_frames opts else length stack)
             in do {
               (ret, arr) \<leftarrow> write_frames demangle (max_frames opts) (drop skip (take count stack)) 0 g arr 0 bufsz 0;
               Some (ret, Some arr)
             }))"

definition stacktrace :: "(string \<Rightarrow> string option) \<Rightarrow> (string option \<times> int) list \<Rightarrow> symbol_group \<Rightarrow>
    bytes \<Rightarrow> stacktrace_options option \<Rightarrow> string option" where
  "stacktrace demangle stack g junk options =
     do {
       (n, arr) \<leftarrow> stacktrace_write demangle stack g (Some junk) (int (length junk)) options;
       (if n > 0 then (case arr of None \<Rightarrow> None | Some arr \<Rightarrow> read_at arr 0 n) else Some [])
     }"

section \<open>The form of a symbol\<close>

text \<open>\<^verbatim>\<open>file(func+offset) [address]\<close>.\<close>

record symbol =
  sy_file :: string
  sy_func :: string
  sy_offset :: string
  sy_addr :: string

definition symbol_text :: "symbol \<Rightarrow> string" where
  "symbol_text y = sy_file y @ ''('' @ sy_func y @ ''+'' @ sy_offset y @ '') ['' @ sy_addr y @ '']''"

definition symbol_ok :: "symbol \<Rightarrow> bool" where
  "symbol_ok y \<longleftrightarrow> sy_file y \<noteq> [] \<and> \<not> is_space_char (hd (sy_file y)) \<and> CHR ''('' \<notin> set (tl (sy_file y)) \<and>
     CHR ''+'' \<notin> set (sy_func y) \<and> CHR '')'' \<notin> set (sy_offset y) \<and> CHR ''['' \<notin> set (sy_addr y) \<and> CHR '']'' \<notin> set (sy_addr y)"

section \<open>Lemmas\<close>

text \<open>Each of the middle states waits for one character.\<close>

fun awaited :: "int \<Rightarrow> char list" where
  "awaited st = (if st = sw_file then ''('' else if st = sw_func then ''+'' else if st = sw_offset then '')''
     else if st = sw_addr then ''[]'' else [])"

lemma parse_chars_skip1:
  "st \<noteq> sw_start \<Longrightarrow> st \<noteq> sw_done \<Longrightarrow> ch \<notin> set (awaited st) \<Longrightarrow>
   parse_chars (ch # cs) pi st s = parse_chars cs (Suc pi) st s"
  by (simp split: if_split_asm add: Let_def) blast

declare parse_chars.simps(2) [simp del] awaited.simps [simp del]

lemma parse_chars_skip:
  assumes "st \<noteq> sw_start" "st \<noteq> sw_done" "set cs \<inter> set (awaited st) = {}"
  shows "parse_chars (cs @ rest) pi st s = parse_chars rest (pi + length cs) st s"
  using assms(3) by (induction cs arbitrary: pi) (simp_all add: parse_chars_skip1 assms(1,2))

lemma parse_chars_unknown:
  assumes "st \<notin> {0..5}"
  shows "parse_chars cs pi st s = (AGAIN, s\<lparr>sg_pos := pi + length cs, sg_state := st\<rparr>)"
proof -
  have "awaited st = []" "st \<noteq> sw_start" "st \<noteq> sw_done" using assms by (auto simp: awaited.simps sw_defs)
  then show ?thesis using parse_chars_skip [of st cs "[]" pi s] by simp
qed

text \<open>From the start state, a well-formed symbol is taken apart and the stored state stays as it was.\<close>

definition parsed :: "symbol \<Rightarrow> symbol_group \<Rightarrow> symbol_group" where
  "parsed y s =
     (let a = length (sy_file y); b = a + 1 + length (sy_func y); c = b + 1 + length (sy_offset y)
      in s\<lparr>file_start := 0, file_end := a, func_end := b, offset_end := c, addr_start := c + 3,
           addr_end := c + 3 + length (sy_addr y)\<rparr>)"

lemma parse_file:
  assumes "symbol_ok y"
  shows "parse_chars (sy_file y @ CHR ''('' # rest) 0 sw_start s =
    parse_chars rest (Suc (length (sy_file y))) sw_func (s\<lparr>file_start := 0, file_end := length (sy_file y)\<rparr>)"
proof -
  obtain c cs where f: "sy_file y = c # cs" using assms by (cases "sy_file y") (auto simp: symbol_ok_def)
  have "parse_chars (sy_file y @ CHR ''('' # rest) 0 sw_start s =
      parse_chars (cs @ CHR ''('' # rest) 1 sw_file (s\<lparr>file_start := 0\<rparr>)"
    using assms by (simp add: f parse_chars.simps(2) symbol_ok_def)
  also have "\<dots> = parse_chars (CHR ''('' # rest) (1 + length cs) sw_file (s\<lparr>file_start := 0\<rparr>)"
    using assms by (intro parse_chars_skip) (auto simp: f symbol_ok_def awaited.simps sw_defs)
  finally show ?thesis by (simp add: f parse_chars.simps(2) is_space_char_def sw_defs)
qed

lemma parse_func:
  assumes "CHR ''+'' \<notin> set cs"
  shows "parse_chars (cs @ CHR ''+'' # rest) pi sw_func s =
    parse_chars rest (Suc (pi + length cs)) sw_offset (s\<lparr>func_end := pi + length cs\<rparr>)"
  using assms by (subst parse_chars_skip) (simp_all add: awaited.simps parse_chars.simps(2) is_space_char_def sw_defs)

lemma parse_offset:
  assumes "CHR '')'' \<notin> set cs"
  shows "parse_chars (cs @ CHR '')'' # rest) pi sw_offset s =
    parse_chars rest (Suc (pi + length cs)) sw_addr (s\<lparr>offset_end := pi + length cs\<rparr>)"
  using assms by (subst parse_chars_skip) (simp_all add: awaited.simps parse_chars.simps(2) is_space_char_def sw_defs)

lemma parse_addr:
  assumes "CHR ''['' \<notin> set cs" "CHR '']'' \<notin> set cs"
  shows "parse_chars (CHR '' '' # CHR ''['' # cs @ CHR '']'' # rest) pi sw_addr s =
    (OK, s\<lparr>addr_start := pi + 2, addr_end := pi + 2 + length cs\<rparr>)"
proof -
  have "parse_chars (CHR '' '' # CHR ''['' # cs @ CHR '']'' # rest) pi sw_addr s =
      parse_chars (cs @ CHR '']'' # rest) (pi + 2) sw_addr (s\<lparr>addr_start := pi + 2\<rparr>)"
    by (simp add: parse_chars.simps(2) is_space_char_def sw_defs)
  also have "\<dots> = parse_chars (CHR '']'' # rest) (pi + 2 + length cs) sw_addr (s\<lparr>addr_start := pi + 2\<rparr>)"
    using assms by (intro parse_chars_skip) (auto simp: awaited.simps sw_defs)
  finally show ?thesis by (simp add: parse_chars.simps(2) is_space_char_def sw_defs)
qed

lemma parse_symbol:
  assumes "symbol_ok y" "sg_state s = sw_start" "symbol_str s = symbol_text y @ rest" "sg_pos s = 0" "sg_last s = length (symbol_str s)"
  shows "stacktrace_parse_symbol_info s = (OK, parsed y s)"
proof -
  have "symbol_str s = sy_file y @ CHR ''('' # sy_func y @ CHR ''+'' # sy_offset y @ CHR '')'' # CHR '' '' # CHR ''['' # sy_addr y @ CHR '']'' # rest"
    by (simp add: assms(3) symbol_text_def)
  then show ?thesis using assms(1)
    by (simp add: stacktrace_parse_symbol_info_def assms(2,4,5) parse_file parse_func parse_offset parse_addr symbol_ok_def parsed_def
        Let_def ac_simps)
qed

lemma substring_mid: "str = a @ b @ c \<Longrightarrow> i = length a \<Longrightarrow> j = i + length b \<Longrightarrow> substring str i j = Some b"
  by (simp add: substring_def)

lemma symbol_parts:
  "symbol_text y = str \<Longrightarrow>
   substring str (Suc (length (sy_file y))) (length (sy_file y) + 1 + length (sy_func y)) = Some (sy_func y) \<and>
   substring str (length (sy_file y) + 1 + length (sy_func y)) (length (sy_file y) + 1 + length (sy_func y) + 1 + length (sy_offset y)) =
     Some (CHR ''+'' # sy_offset y) \<and>
   substring str (length (sy_file y) + 1 + length (sy_func y) + 1 + length (sy_offset y) + 3)
     (length (sy_file y) + 1 + length (sy_func y) + 1 + length (sy_offset y) + 3 + length (sy_addr y)) = Some (sy_addr y) \<and>
   substring str 0 (length (sy_file y)) = Some (sy_file y)"
  by (intro conjI
      substring_mid [of str "sy_file y @ ''(''" "sy_func y" "CHR ''+'' # sy_offset y @ '') ['' @ sy_addr y @ '']''"]
      substring_mid [of str "sy_file y @ ''('' @ sy_func y" "CHR ''+'' # sy_offset y" "'') ['' @ sy_addr y @ '']''"]
      substring_mid [of str "sy_file y @ ''('' @ sy_func y @ CHR ''+'' # sy_offset y @ '') [''" "sy_addr y" "'']''"]
      substring_mid [of str "[]" "sy_file y" "''('' @ sy_func y @ CHR ''+'' # sy_offset y @ '') ['' @ sy_addr y @ '']''"])
    (simp_all add: symbol_text_def)

section \<open>The text of a trace\<close>

definition line_text :: "(string \<Rightarrow> string option) \<Rightarrow> int \<Rightarrow> symbol \<Rightarrow> string" where
  "line_text demangle i y = frame_text i (sy_addr y) (readable_name demangle (sy_func y)) (CHR ''+'' # sy_offset y)"

fun trace_text :: "(string \<Rightarrow> string option) \<Rightarrow> int \<Rightarrow> symbol list \<Rightarrow> string" where
  "trace_text demangle i [] = []"
| "trace_text demangle i (y # ys) = line_text demangle i y @ trace_text demangle (i + 1) ys"

definition frames_of :: "(symbol \<times> int) list \<Rightarrow> (string option \<times> int) list" where
  "frames_of fs = map (\<lambda>(y, a). (Some (symbol_text y), a)) fs"

definition frames_ok :: "(symbol \<times> int) list \<Rightarrow> bool" where
  "frames_ok fs \<longleftrightarrow> (\<forall>(y, a) \<in> set fs. symbol_ok y \<and> a \<noteq> 0 \<and> a \<noteq> 1)"

lemma frames_simps [simp]:
  "frames_of [] = []" "frames_of ((y, a) # fs) = (Some (symbol_text y), a) # frames_of fs"
  "frames_ok ((y, a) # fs) \<longleftrightarrow> symbol_ok y \<and> a \<noteq> 0 \<and> a \<noteq> 1 \<and> frames_ok fs"
  by (auto simp: frames_of_def frames_ok_def)

lemma line_text_pos [simp]: "0 < length (line_text demangle i y)"
  by (simp add: line_text_def frame_text_def)

text \<open>One round of the loop on a well-formed frame.\<close>

lemma write_frame:
  assumes "symbol_ok y" "a \<noteq> 0" "a \<noteq> 1" "sg_state s = sw_start" "mx = 0 \<or> i < int mx"
  shows "\<exists>s'. sg_state s' = sw_start \<and>
    write_frames demangle mx ((Some (symbol_text y), a) # frs) i s arr pos bufsz ret =
      do {
        (res, arr) \<leftarrow> snprintf_at arr pos (nat bufsz) (line_text demangle i y);
        write_frames demangle mx frs (i + 1) s' arr (pos + int (length (line_text demangle i y)))
          (culong (bufsz - int (length (line_text demangle i y)))) (culong (ret + int (length (line_text demangle i y))))
      }"
proof -
  let ?s = "s\<lparr>symbol_str := symbol_text y, sg_pos := 0, sg_last := length (symbol_text y)\<rparr>"
  have p: "stacktrace_parse_symbol_info ?s = (OK, parsed y ?s)" by (rule parse_symbol [of _ _ "[]"]) (simp_all add: assms)
  have go: "\<not> (mx \<noteq> 0 \<and> i \<ge> int mx)" using assms(5) by auto
  have "sg_state (parsed y ?s) = sw_start" by (simp add: parsed_def Let_def assms)
  moreover have "write_frames demangle mx ((Some (symbol_text y), a) # frs) i s arr pos bufsz ret =
      do {
        (res, arr) \<leftarrow> snprintf_at arr pos (nat bufsz) (line_text demangle i y);
        write_frames demangle mx frs (i + 1) (parsed y ?s) arr (pos + int (length (line_text demangle i y)))
          (culong (bufsz - int (length (line_text demangle i y)))) (culong (ret + int (length (line_text demangle i y))))
      }"
    unfolding write_frames.simps(2) if_not_P [OF go]
    using symbol_parts [of y, OF refl] line_text_pos [of demangle i y]
    by (auto simp: assms(2,3) p parsed_def Let_def line_text_def snprintf_at_def split: bind_splits)
  ultimately show ?thesis by blast
qed

lemma write_frames_take:
  "mx \<noteq> 0 \<Longrightarrow> write_frames demangle mx frs (int k) s arr pos bufsz ret =
     write_frames demangle mx (take (mx - k) frs) (int k) s arr pos bufsz ret"
proof (induction frs arbitrary: k s arr pos bufsz ret)
  case (Cons fr frs)
  show ?case
  proof (cases "k < mx")
    case True
    then have t: "take (mx - k) (fr # frs) = fr # take (mx - Suc k) frs" by (simp add: Suc_diff_Suc [symmetric])
    have "write_frames demangle mx frs (int k + 1) s arr pos bufsz ret =
        write_frames demangle mx (take (mx - Suc k) frs) (int k + 1) s arr pos bufsz ret" for s arr pos bufsz ret
      using Cons.IH [OF Cons.prems, of "Suc k"] by (simp add: add.commute)
    then show ?thesis unfolding t by (cases fr) (simp only: write_frames.simps(2))
  next
    case False
    then show ?thesis using Cons.prems by (cases fr) simp
  qed
qed simp

declare write_frames.simps(2) [simp del]

lemma snprintf_at_length: "snprintf_at arr pos n str = Some (r, v) \<Longrightarrow> length v = length arr"
  by (auto simp: snprintf_at_def write_at_def split: if_splits bind_splits)

lemma write_frames_length:
  assumes "frames_ok fs" "sg_state s = sw_start" "mx = 0 \<or> i + int (length fs) \<le> int mx" "0 \<le> ret"
    "ret + int (length (trace_text demangle i (map fst fs))) < 2 ^ 64"
    "write_frames demangle mx (frames_of fs) i s arr pos bufsz ret = Some (r, v)"
  shows "r = ret + int (length (trace_text demangle i (map fst fs))) \<and> length v = length arr"
  using assms
proof (induction fs arbitrary: i s arr pos bufsz ret)
  case (Cons f fs)
  obtain y a where f: "f = (y, a)" by force
  let ?l = "int (length (line_text demangle i y))"
  obtain s' where s': "sg_state s' = sw_start" and
    w: "write_frames demangle mx (frames_of (f # fs)) i s arr pos bufsz ret = do {
        (res, arr) \<leftarrow> snprintf_at arr pos (nat bufsz) (line_text demangle i y);
        write_frames demangle mx (frames_of fs) (i + 1) s' arr (pos + ?l) (culong (bufsz - ?l)) (culong (ret + ?l))
      }"
    using write_frame [of y a s mx i demangle "frames_of fs" arr pos bufsz ret] Cons.prems(1-3) by (auto simp: f)
  obtain res v1 where sn: "snprintf_at arr pos (nat bufsz) (line_text demangle i y) = Some (res, v1)"
      and rest: "write_frames demangle mx (frames_of fs) (i + 1) s' v1 (pos + ?l) (culong (bufsz - ?l)) (ret + ?l) = Some (r, v)"
    using Cons.prems(4,5,6) w by (auto simp: f culong_id split: bind_splits)
  have "r = (ret + ?l) + int (length (trace_text demangle (i + 1) (map fst fs))) \<and> length v = length v1"
    using Cons.prems by (intro Cons.IH [OF _ s' _ _ _ rest]) (auto simp: f)
  then show ?case using snprintf_at_length [OF sn] by (simp add: f)
qed simp

lemma write_frames_fits:
  assumes "frames_ok fs" "sg_state s = sw_start" "mx = 0 \<or> i + int (length fs) \<le> int mx" "int (length arr) < 2 ^ 64"
    "pos + length (trace_text demangle i (map fst fs)) < length arr"
  shows "\<exists>v. write_frames demangle mx (frames_of fs) i s arr (int pos) (int (length arr) - int pos) (int pos) =
      Some (int (pos + length (trace_text demangle i (map fst fs))), v) \<and>
    take (pos + length (trace_text demangle i (map fst fs))) v = take pos arr @ trace_text demangle i (map fst fs)"
  using assms
proof (induction fs arbitrary: i s arr pos)
  case (Cons f fs)
  obtain y a where f: "f = (y, a)" by force
  let ?t = "line_text demangle i y" and ?u = "trace_text demangle (i + 1) (map fst fs)"
  define v1 where "v1 = take pos arr @ ?t @ [CHR 0x00] @ drop (pos + length ?t + 1) arr"
  have fit: "pos + length ?t + length ?u < length arr" using Cons.prems(5) by (simp add: f)
  obtain s' where s': "sg_state s' = sw_start" and
    w: "write_frames demangle mx (frames_of (f # fs)) i s arr (int pos) (int (length arr) - int pos) (int pos) = do {
        (res, arr') \<leftarrow> snprintf_at arr (int pos) (nat (int (length arr) - int pos)) ?t;
        write_frames demangle mx (frames_of fs) (i + 1) s' arr' (int pos + int (length ?t))
          (culong (int (length arr) - int pos - int (length ?t))) (culong (int pos + int (length ?t)))
      }"
    using write_frame [of y a s mx i demangle "frames_of fs" arr "int pos" "int (length arr) - int pos" "int pos"] Cons.prems(1-3)
    by (auto simp: f)
  have sn: "snprintf_at arr (int pos) (nat (int (length arr) - int pos)) ?t = Some (int (length ?t), v1)"
    using fit by (subst snprintf_at_Some) (auto simp: v1_def)
  have l1: "length v1 = length arr" using fit by (simp add: v1_def)
  have "\<exists>v. write_frames demangle mx (frames_of fs) (i + 1) s' v1 (int (pos + length ?t)) (int (length v1) - int (pos + length ?t))
        (int (pos + length ?t)) = Some (int (pos + length ?t + length ?u), v) \<and>
      take (pos + length ?t + length ?u) v = take (pos + length ?t) v1 @ ?u"
    using Cons.prems fit by (intro Cons.IH) (auto simp: f s' l1)
  moreover have "take (pos + length ?t) v1 = take pos arr @ ?t" using fit by (simp add: v1_def)
  moreover have "culong (int (length arr) - int pos - int (length ?t)) = int (length v1) - int (pos + length ?t)"
      "culong (int pos + int (length ?t)) = int (pos + length ?t)"
    using fit Cons.prems(4) by (simp_all add: culong_id l1)
  ultimately show ?case unfolding w sn by (simp add: f add.assoc)
qed simp

text \<open>The frames the options leave.\<close>

definition shown :: "stacktrace_options \<Rightarrow> 'a list \<Rightarrow> 'a list" where
  "shown opts fs =
     (let n = (if length fs \<le> skip_start_frames opts + skip_end_frames opts then 0 else length fs - skip_end_frames opts);
          xs = drop (skip_start_frames opts) (take n fs)
      in if max_frames opts = 0 then xs else take (max_frames opts) xs)"

lemma write_frames_max:
  "write_frames demangle mx frs 0 s arr pos bufsz ret =
   write_frames demangle mx (if mx = 0 then frs else take mx frs) 0 s arr pos bufsz ret"
  using write_frames_take [of mx demangle frs 0] by simp

lemma frames_of_shown: "frames_of (shown opts fs) = shown opts (frames_of fs)"
  by (simp add: frames_of_def shown_def Let_def take_map drop_map)

lemma stacktrace_write_shown:
  assumes "arr \<noteq> []"
  shows "stacktrace_write demangle stack g (Some arr) (int (length arr)) (Some opts) =
    do { (ret, v) \<leftarrow> write_frames demangle (max_frames opts) (shown opts stack) 0 g arr 0 (int (length arr)) 0; Some (ret, Some v) }"
proof -
  have "(if length stack \<le> skip_start_frames opts + skip_end_frames opts then 0
      else if skip_end_frames opts > 0 then length stack - skip_end_frames opts else length stack) =
    (if length stack \<le> skip_start_frames opts + skip_end_frames opts then 0 else length stack - skip_end_frames opts)" by simp
  then show ?thesis unfolding shown_def stacktrace_write_def Let_def option.case
    using assms by (subst write_frames_max) simp
qed

lemma shown_ok: "frames_ok fs \<Longrightarrow> frames_ok (shown opts fs)"
  by (auto simp: frames_ok_def shown_def Let_def dest: in_set_takeD in_set_dropD split: if_splits)

lemma length_shown: "max_frames opts = 0 \<or> length (shown opts fs) \<le> max_frames opts"
  by (simp add: shown_def Let_def)

text \<open>A group whose state is none of the enumeration, which its uninitialised storage may hold: no frame is written.\<close>

lemma write_frames_unknown: "sg_state g \<notin> {0..5} \<Longrightarrow> write_frames demangle mx frs i g arr 0 n 0 = Some (0, arr)"
proof (cases frs)
  case (Cons fr frs')
  then show "sg_state g \<notin> {0..5} \<Longrightarrow> ?thesis"
    by (cases fr) (simp add: write_frames.simps(2) stacktrace_parse_symbol_info_def parse_chars_unknown split: option.split)
qed simp

lemma stacktrace_write_unknown:
  "sg_state g \<notin> {0..5} \<Longrightarrow> arr \<noteq> [] \<Longrightarrow> stacktrace_write demangle stack g (Some arr) (int (length arr)) opts = Some (0, Some arr)"
  by (simp add: stacktrace_write_def write_frames_unknown Let_def)

section \<open>Properties\<close>

text \<open>C27: the parser starts from the group's state, which \<^verbatim>\<open>stacktrace_write\<close> never initialises. Where the storage happens to
  hold the first state, 0, then on a stack whose symbols have the documented form \<^verbatim>\<open>stacktrace\<close> returns exactly the
  lines of the frames the options leave when they fit its array, and is undefined when they are longer: the result
  of \<^verbatim>\<open>snprintf\<close> is taken for the number of characters stored. Where it holds none of the states, the result is empty on every
  stack.\<close>

theorem stacktrace_exact_or_overruns:
  assumes "frames_ok fs" and "length junk = 10000" and "str = trace_text demangle 0 (map fst (shown opts fs))" and "int (length str) < 2 ^ 64"
  shows "(sg_state g = sw_start \<and> length str < 10000 \<longrightarrow> stacktrace demangle (frames_of fs) g junk (Some opts) = Some str) \<and>
    (sg_state g = sw_start \<and> 10000 < length str \<longrightarrow> stacktrace demangle (frames_of fs) g junk (Some opts) = None) \<and>
    (sg_state g \<notin> {0..5} \<longrightarrow> stacktrace demangle stack g junk options = Some [])"
proof -
  have j: "junk \<noteq> []" using assms(2) by auto
  then have w: "stacktrace_write demangle (frames_of fs) g (Some junk) 10000 (Some opts) = do {
      (ret, v) \<leftarrow> write_frames demangle (max_frames opts) (frames_of (shown opts fs)) 0 g junk 0 10000 0; Some (ret, Some v) }"
    using stacktrace_write_shown [of junk demangle "frames_of fs" g opts] assms(2) by (simp add: frames_of_shown)
  have m: "max_frames opts = 0 \<or> 0 + int (length (shown opts fs)) \<le> int (max_frames opts)"
    using length_shown [of opts fs] by auto
  have "stacktrace demangle (frames_of fs) g junk (Some opts) = Some str" if s: "sg_state g = sw_start" and fits: "length str < 10000"
  proof -
    obtain v where v: "write_frames demangle (max_frames opts) (frames_of (shown opts fs)) 0 g junk 0 10000 0 = Some (int (length str), v)"
        "take (length str) v = str"
      using write_frames_fits [OF shown_ok [OF assms(1)] s m, of junk 0 demangle] assms(2) fits [unfolded assms(3)]
      unfolding assms(3) by auto
    then have "length str \<le> length v" by (metis length_take min.bounded_iff order_refl)
    then show ?thesis using v by (simp add: stacktrace_def w assms(2) read_at_def)
  qed
  moreover have "stacktrace demangle (frames_of fs) g junk (Some opts) = None" if s: "sg_state g = sw_start" and long: "10000 < length str"
  proof (cases "write_frames demangle (max_frames opts) (frames_of (shown opts fs)) 0 g junk 0 10000 0")
    case None
    then show ?thesis by (simp add: stacktrace_def w assms(2))
  next
    case (Some p)
    obtain r v where p: "p = (r, v)" by force
    have "r = int (length str) \<and> length v = 10000"
      using write_frames_length [OF shown_ok [OF assms(1)] s m _ _ Some [unfolded p]] assms(2,4) by (simp add: assms(3))
    then show ?thesis using long by (cases "str = []") (simp_all add: stacktrace_def w assms(2) Some p read_at_def)
  qed
  moreover have "stacktrace demangle stack g junk options = Some []" if "sg_state g \<notin> {0..5}"
    using stacktrace_write_unknown [OF that j, of demangle stack options] by (simp add: stacktrace_def assms(2))
  ultimately show ?thesis by blast
qed

definition demo_symbol :: symbol where
  "demo_symbol = \<lparr>sy_file = ''./a.out'', sy_func = ''main'', sy_offset = ''0x1f'', sy_addr = ''0x4005d4''\<rparr>"

definition zero_group :: symbol_group where
  "zero_group = \<lparr>sg_state = 0, file_start = 0, file_end = 0, func_end = 0, offset_end = 0, addr_start = 0, addr_end = 0,
     symbol_str = [], sg_pos = 0, sg_last = 0\<rparr>"

theorem stacktrace_exact_or_overruns_witness:
  "stacktrace (\<lambda>_. None) [(Some ''./a.out(main+0x1f) [0x4005d4]'', 4195796)] zero_group (replicate 10000 (CHR 0x00))
     (Some default_stacktrace_options) = Some (''#0: 0x4005d4 main()+0x1f'' @ [CR, LF])"
proof -
  have f: "frames_ok [(demo_symbol, 4195796)]" by (simp add: frames_ok_def symbol_ok_def demo_symbol_def is_space_char_def)
  have s: "sg_state zero_group = sw_start" by (simp add: zero_group_def sw_start_def)
  have tr: "trace_text (\<lambda>_. None) 0 (map fst (shown default_stacktrace_options [(demo_symbol, 4195796 :: int)])) =
      ''#0: 0x4005d4 main()+0x1f'' @ [CR, LF]"
    by (simp add: shown_def default_stacktrace_options_def demo_symbol_def line_text_def frame_text_def readable_name_def char_at_def
        show_int_def show_nat.simps digit_char_def)
  have "frames_of [(demo_symbol, 4195796)] = [(Some ''./a.out(main+0x1f) [0x4005d4]'', 4195796)]"
    by (simp add: symbol_text_def demo_symbol_def)
  then show ?thesis
    using stacktrace_exact_or_overruns [OF f, of "replicate 10000 (CHR 0x00)", OF _ refl, of "\<lambda>_. None" default_stacktrace_options zero_group] s
    by (simp add: tr)
qed

end
