(* ===== verification/Logging.thy ===== *)
theory Logging
  imports Async_Logging Stack_Trace
begin

text \<open>
  The logging front end (\<^verbatim>\<open>src/log/logging.cpp\<close>, \<^verbatim>\<open>src/log/utilities.cpp\<close> and the global functions of
  \<^verbatim>\<open>src/log/asynclogging.cpp\<close>): a \<^verbatim>\<open>LOG\<close> statement builds a \<^verbatim>\<open>LogCapture\<close>, whose
  constructor writes the prefix and whose destructor hands the line to the current save function; a
  fatal one adds a stack trace, flushes and aborts. The clock, the thread id and what uninitialised
  storage holds are arguments. The theory composes the log stream, the stack trace, the asynchronous
  worker and the log file: what exactly a statement stores, and what a fatal one leaves in the file.
\<close>

section \<open>Utilities\<close>

text \<open>The calendar of \<^verbatim>\<open>gmtime_r\<close>: years are counted in eras of 400 from March.\<close>

record ReadableTime =
  tm_sec :: int
  tm_min :: int
  tm_hour :: int
  tm_mday :: int
  tm_mon :: int
  tm_year :: int

definition gmtime :: "int \<Rightarrow> ReadableTime" where
  "gmtime t =
     (let z = t div 86400 + 719468; s = t mod 86400;
          era = z div 146097; doe = z mod 146097;
          yoe = (doe - doe div 1460 + doe div 36524 - doe div 146096) div 365;
          doy = doe - (365 * yoe + yoe div 4 - yoe div 100);
          mp = (5 * doy + 2) div 153;
          m = (if mp < 10 then mp + 2 else mp - 10)
      in \<lparr>tm_sec = s mod 60, tm_min = s div 60 mod 60, tm_hour = s div 3600,
          tm_mday = doy - (153 * mp + 2) div 5 + 1, tm_mon = m,
          tm_year = yoe + era * 400 + (if m < 2 then 1 else 0) - 1900\<rparr>)"

record timeval =
  tv_sec :: int
  tv_usec :: int
  tz_minuteswest :: int

definition nowTime :: "timeval \<Rightarrow> int \<times> ReadableTime" where
  "nowTime tv = (culong (tv_sec tv * 1000000 + tv_usec tv), gmtime (tv_sec tv - tz_minuteswest tv * 60))"

text \<open>\<^verbatim>\<open>strncpy\<close> into an array of \<open>n\<close> characters, and reading a C string from an array, which has to be
  terminated inside it.\<close>

definition strncpy :: "string \<Rightarrow> nat \<Rightarrow> bytes" where
  "strncpy src n = take n (src @ replicate n (CHR 0x00))"

definition cstring :: "bytes \<Rightarrow> string option" where
  "cstring arr = (let s = takeWhile (\<lambda>c. c \<noteq> CHR 0x00) arr in if length s < length arr then Some s else None)"

definition last_slash :: "string \<Rightarrow> nat option" where
  "last_slash s = (if CHR ''/'' \<in> set s then Some (length s - 1 - length (takeWhile (\<lambda>c. c \<noteq> CHR ''/'') (rev s))) else None)"

record project =
  g_projectName :: bytes
  g_projectDirname :: bytes

definition initUtilities :: "string \<Rightarrow> project option" where
  "initUtilities argv0 =
     do {
       let dirname = strncpy argv0 1024;
       str \<leftarrow> cstring dirname;
       slash \<leftarrow> last_slash str;
       Some \<lparr>g_projectName = strncpy (drop (slash + 1) str) 256, g_projectDirname = dirname[slash + 1 := CHR 0x00]\<rparr>
     }"

section \<open>Where lines go\<close>

text \<open>The program is built with \<^verbatim>\<open>ASYNC_LOGGING\<close>, which the header defines; the other way, compiled with
  \<^verbatim>\<open>SYNC_LOGGING\<close>, writes every line from the statement itself.\<close>

datatype save_func = defaultLogging | syncLogging | asyncLogging

record logging =
  g_loggingFunc :: save_func
  g_syncLoggingStarted :: bool
  g_logfileptr :: "log_state option"
  g_asyncLoggingStarted :: bool
  g_logworkerptr :: "log_state LogWorker option"
  stderr :: bytes

definition initial_logging :: logging where
  "initial_logging = \<lparr>g_loggingFunc = defaultLogging, g_syncLoggingStarted = False, g_logfileptr = None,
     g_asyncLoggingStarted = False, g_logworkerptr = None, stderr = []\<rparr>"

definition kMaxRollSize :: int where "kMaxRollSize = 2 * 1024 * 1024 * 1024"

definition kMaxLogBufferLen :: nat where "kMaxLogBufferLen = 3000000"

text \<open>\<open>fs\<close> is the file system, \<open>junk\<close> what the storage of a buffer holds.\<close>

definition initAsyncLogging :: "fs \<Rightarrow> bytes \<Rightarrow> project \<Rightarrow> logging \<Rightarrow> logging option" where
  "initAsyncLogging fs junk pr g =
     do {
       dir \<leftarrow> cstring (g_projectDirname pr);
       name \<leftarrow> cstring (g_projectName pr);
       out \<leftarrow> new_LogFile fs dir name kMaxRollSize ''log'';
       Some (g\<lparr>g_logworkerptr := Some (new_LogWorker junk 3 out),
              g_asyncLoggingStarted := True, g_loggingFunc := asyncLogging\<rparr>)
     }"

definition asyncLoggingSave :: "bytes \<Rightarrow> logging \<Rightarrow> logging option" where
  "asyncLoggingSave msg g =
     (if g_asyncLoggingStarted g
      then do {
        w \<leftarrow> g_logworkerptr g;
        (ok, w) \<leftarrow> append_async w msg;
        Some (g\<lparr>g_logworkerptr := Some w\<rparr>)
      }
      else Some g)"

definition asyncLoggingFlush :: "logging \<Rightarrow> logging option" where
  "asyncLoggingFlush g =
     (if g_asyncLoggingStarted g
      then do {
        w \<leftarrow> g_logworkerptr g;
        w \<leftarrow> lw_flush log_append log_flush w;
        Some (g\<lparr>g_logworkerptr := Some w\<rparr>)
      }
      else Some g)"

text \<open>The backend stands at \<open>pc\<close>; the first result is what the log leaves.\<close>

definition shutdownAsyncLogging :: "backend_pc \<Rightarrow> logging \<Rightarrow> (log_state option \<times> logging) option" where
  "shutdownAsyncLogging pc g =
     (case g_logworkerptr g of
        None \<Rightarrow> Some (None, g)
      | Some w \<Rightarrow> do {
          out \<leftarrow> delete_LogWorker log_append log_flush log_close w pc;
          Some (Some out, g\<lparr>g_logworkerptr := None\<rparr>)
        })"

definition initSyncLogging :: "fs \<Rightarrow> project \<Rightarrow> logging \<Rightarrow> logging option" where
  "initSyncLogging fs pr g =
     do {
       dir \<leftarrow> cstring (g_projectDirname pr);
       name \<leftarrow> cstring (g_projectName pr);
       out \<leftarrow> new_LogFile fs dir name kMaxRollSize ''log'';
       Some (g\<lparr>g_logfileptr := Some out, g_syncLoggingStarted := True, g_loggingFunc := syncLogging\<rparr>)
     }"

definition syncLoggingSave :: "bytes \<Rightarrow> logging \<Rightarrow> logging option" where
  "syncLoggingSave msg g =
     (if g_syncLoggingStarted g
      then do { f \<leftarrow> g_logfileptr g; f \<leftarrow> log_append f msg; Some (g\<lparr>g_logfileptr := Some f\<rparr>) }
      else Some g)"

definition syncLoggingFlush :: "logging \<Rightarrow> logging option" where
  "syncLoggingFlush g =
     (if g_syncLoggingStarted g
      then do { f \<leftarrow> g_logfileptr g; f \<leftarrow> log_flush f; Some (g\<lparr>g_logfileptr := Some f\<rparr>) }
      else Some g)"

definition loggingSave :: "bytes \<Rightarrow> logging \<Rightarrow> logging option" where
  "loggingSave msg g =
     (case g_loggingFunc g of
        defaultLogging \<Rightarrow> Some (g\<lparr>stderr := stderr g @ msg\<rparr>)
      | syncLogging \<Rightarrow> syncLoggingSave msg g
      | asyncLogging \<Rightarrow> asyncLoggingSave msg g)"

definition loggingFlush :: "logging \<Rightarrow> logging option" where
  "loggingFlush g =
     (case g_loggingFunc g of
        defaultLogging \<Rightarrow> Some g | syncLogging \<Rightarrow> syncLoggingFlush g | asyncLogging \<Rightarrow> asyncLoggingFlush g)"

text \<open>\<^verbatim>\<open>shutdownLogging\<close> does nothing.\<close>

definition shutdownLogging :: "logging \<Rightarrow> bool \<times> logging" where
  "shutdownLogging g = (True, g)"

section \<open>Log statements\<close>

definition LOG_FATAL :: nat where "LOG_FATAL = 4"

definition LogLevelNames :: "string list" where
  "LogLevelNames = [''TRACE'', ''INFO'', ''WARNING'', ''ERROR'', ''FATAL'']"

definition time_text :: "timeval \<Rightarrow> string" where
  "time_text tv =
     (let (now, tm) = nowTime tv; microSeconds = now mod 1000000
      in show_padded 2 (tm_year tm) @ show_padded 2 (tm_mon tm) @ show_padded 2 (tm_mday tm) @ '' '' @
         show_padded 2 (tm_hour tm) @ '':'' @ show_padded 2 (tm_min tm) @ '':'' @ show_padded 2 (tm_sec tm) @ ''.'' @
         show_padded 6 microSeconds)"

definition format_time :: "timeval \<Rightarrow> bytes \<Rightarrow> int \<Rightarrow> (int \<times> bytes) option" where
  "format_time tv arr pos = do { (n, arr) \<leftarrow> snprintf_at arr pos 22 (time_text tv); Some (22, arr) }"

text \<open>The arguments of a statement: level, thread id, file and line.\<close>

record capture =
  lc_level :: nat
  lc_tid :: int
  lc_file :: string
  lc_line :: int
  lc_time :: timeval

definition formatPrefix :: "capture \<Rightarrow> FixedBuffer \<Rightarrow> FixedBuffer option" where
  "formatPrefix c b =
     do {
       b \<leftarrow> put_bytes b (take 1 (LogLevelNames ! lc_level c));
       b \<leftarrow> (if fb_remain b \<ge> 22
             then do {
               (len, arr) \<leftarrow> format_time (lc_time c) (fb_data b) (fb_cur b);
               Some (fb_offset (b\<lparr>fb_data := arr\<rparr>) (len - 1))
             }
             else Some b);
       insert_items b [LCstr (Some '' ''), LInteger (lc_tid c), LCstr (Some '' ''), LCstr (Some (lc_file c)),
         LCstr (Some '':''), LInteger (lc_line c), LCstr (Some ''] '')]
     }"

definition new_LogCapture :: "bytes \<Rightarrow> capture \<Rightarrow> FixedBuffer option" where
  "new_LogCapture junk c = formatPrefix c (new_FixedBuffer junk)"

text \<open>What \<^verbatim>\<open>stacktrace_write\<close> works on: demangler, stack, storage of its group and of its array.\<close>

record trace_env =
  te_demangle :: "string \<Rightarrow> string option"
  te_stack :: "(string option \<times> int) list"
  te_group :: symbol_group
  te_junk :: bytes

text \<open>\<^verbatim>\<open>append(buf, n)\<close> reads the array only when there is room.\<close>

definition append_trace :: "trace_env \<Rightarrow> FixedBuffer \<Rightarrow> FixedBuffer option" where
  "append_trace te b =
     do {
       (n, arr) \<leftarrow> stacktrace_write (te_demangle te) (te_stack te) (te_group te) (Some (te_junk te)) (int (length (te_junk te))) None;
       (if fb_remain b < n then Some b
        else do { arr \<leftarrow> arr; d \<leftarrow> read_at arr 0 n; put_bytes b d })
     }"

text \<open>The destructor; the flag of the result says that the process has been aborted.\<close>

definition end_LogCapture :: "trace_env \<Rightarrow> capture \<Rightarrow> FixedBuffer \<Rightarrow> logging \<Rightarrow> (bool \<times> logging) option" where
  "end_LogCapture te c b g =
     do {
       b \<leftarrow> put_bytes b [LF];
       b \<leftarrow> (if lc_level c = LOG_FATAL then append_trace te b else Some b);
       msg \<leftarrow> fb_bytes b;
       g \<leftarrow> loggingSave msg g;
       (if lc_level c = LOG_FATAL then do { g \<leftarrow> loggingFlush g; Some (True, g) } else Some (False, g))
     }"

definition log_statement :: "bytes \<Rightarrow> trace_env \<Rightarrow> capture \<Rightarrow> log_item list \<Rightarrow> logging \<Rightarrow> (bool \<times> logging) option" where
  "log_statement junk te c items g =
     do {
       b \<leftarrow> new_LogCapture junk c;
       b \<leftarrow> insert_items b items;
       end_LogCapture te c b g
     }"

text \<open>The line a statement is meant to write.\<close>

definition prefix_text :: "capture \<Rightarrow> string" where
  "prefix_text c = take 1 (LogLevelNames ! lc_level c) @ take 21 (time_text (lc_time c)) @ '' '' @ show_int (lc_tid c) @ '' '' @
     lc_file c @ '':'' @ show_int (lc_line c) @ ''] ''"

definition line_of :: "capture \<Rightarrow> log_item list \<Rightarrow> string" where
  "line_of c items = prefix_text c @ concat (map item_text items) @ [LF]"

definition capture_ok :: "capture \<Rightarrow> bool" where
  "capture_ok c \<longleftrightarrow> lc_level c < 5 \<and> - (2 ^ 31) \<le> lc_tid c \<and> lc_tid c < 2 ^ 31 \<and> - (2 ^ 31) \<le> lc_line c \<and> lc_line c < 2 ^ 31"

text \<open>The set-up; \<open>sjunk\<close> and \<open>te\<close> are for its own log statement, whose place in the source is in \<open>c\<close>.\<close>

definition initLogging :: "fs \<Rightarrow> bytes \<Rightarrow> bytes \<Rightarrow> trace_env \<Rightarrow> capture \<Rightarrow> string \<Rightarrow> logging \<Rightarrow> (project \<times> logging) option" where
  "initLogging fs junk sjunk te c argv0 g =
     do {
       pr \<leftarrow> initUtilities argv0;
       g \<leftarrow> initAsyncLogging fs junk pr g;
       (aborted, g) \<leftarrow> log_statement sjunk te (c\<lparr>lc_level := 2\<rparr>) [LCstr (Some ''init log with async mode'')] g;
       Some (pr, g)
     }"

section \<open>Lemmas\<close>

lemma cstring_append: "CHR 0x00 \<notin> set s \<Longrightarrow> cstring (s @ CHR 0x00 # rest) = Some s"
proof -
  assume "CHR 0x00 \<notin> set s"
  then have "takeWhile (\<lambda>c. c \<noteq> CHR 0x00) (s @ CHR 0x00 # rest) = s" by (subst takeWhile_append2) auto
  then show ?thesis by (simp add: cstring_def Let_def)
qed

lemma strncpy_short: "length s < n \<Longrightarrow> strncpy s n = s @ CHR 0x00 # replicate (n - length s - 1) (CHR 0x00)"
  by (simp add: strncpy_def Suc_diff_Suc flip: replicate_Suc)

lemma last_slash_append: "CHR ''/'' \<notin> set nm \<Longrightarrow> last_slash (d @ ''/'' @ nm) = Some (length d)"
proof -
  assume "CHR ''/'' \<notin> set nm"
  then have "takeWhile (\<lambda>c. c \<noteq> CHR ''/'') (rev nm @ CHR ''/'' # rev d) = rev nm" by (subst takeWhile_append2) auto
  then show ?thesis by (simp add: last_slash_def)
qed

lemma length_show_padded_ge: "w \<le> length (show_padded w z)"
  by (simp add: show_padded_def Let_def)

lemma length_time_text: "22 \<le> length (time_text tv)"
proof -
  let ?tm = "snd (nowTime tv)"
  note l = length_show_padded_ge
  show ?thesis
    using l [of 2 "tm_year ?tm"] l [of 2 "tm_mon ?tm"] l [of 2 "tm_mday ?tm"] l [of 2 "tm_hour ?tm"] l [of 2 "tm_min ?tm"]
      l [of 2 "tm_sec ?tm"] l [of 6 "fst (nowTime tv) mod 1000000"]
    by (simp add: time_text_def split_beta Let_def)
qed

text \<open>An operation appends exactly \<open>t\<close> to the buffer.\<close>

abbreviation adds :: "FixedBuffer \<Rightarrow> FixedBuffer option \<Rightarrow> bytes \<Rightarrow> bool" where
  "adds b r t \<equiv> puts b r True t"

lemma remain_content: "fb_ok b \<Longrightarrow> fb_remain b = int (length (fb_data b)) - int (length (fb_content b))"
  by (simp add: fb_remain_eq length_fb_content)

lemma adds_bind:
  assumes "adds b r t"
    and "\<And>b'. r = Some b' \<Longrightarrow> fb_ok b' \<Longrightarrow> length (fb_data b') = length (fb_data b) \<Longrightarrow> fb_content b' = fb_content b @ t \<Longrightarrow>
      adds b' (f b') u"
  shows "adds b (Option.bind r f) (t @ u)"
  using assms by (fastforce simp: puts_def)

lemma puts_adds: "puts b r fits t \<Longrightarrow> fits \<Longrightarrow> adds b r t"
  by (simp add: puts_def)

lemma item_room_le: "item_ok x \<Longrightarrow> item_room x \<le> int (length (item_text x)) + 35"
  by (cases x) auto

lemma insert_items_adds:
  "fb_ok b \<Longrightarrow> list_all item_ok xs \<Longrightarrow> length (fb_content b) + length (concat (map item_text xs)) + 35 \<le> length (fb_data b) \<Longrightarrow>
   adds b (insert_items b xs) (concat (map item_text xs))"
proof (induction xs arbitrary: b)
  case (Cons x xs)
  have "adds b (insert_item b x) (item_text x)"
    using puts_adds [OF insert_item_ok [OF Cons.prems(1), of x]] Cons.prems item_room_le [of x] remain_content [OF Cons.prems(1)] by simp
  then have "adds b (Option.bind (insert_item b x) (\<lambda>b1. insert_items b1 xs)) (item_text x @ concat (map item_text xs))"
    by (rule adds_bind) (use Cons in auto)
  then show ?case by simp
qed (simp add: puts_def)

lemma time_adds:
  assumes "fb_ok b" "length (fb_content b) + 22 \<le> length (fb_data b)"
  shows "adds b (if fb_remain b \<ge> 22 then do { (len, arr) \<leftarrow> format_time tv (fb_data b) (fb_cur b); Some (fb_offset (b\<lparr>fb_data := arr\<rparr>) (len - 1)) }
     else Some b) (take 21 (time_text tv))"
proof -
  let ?s = "take 21 (time_text tv)"
  have l: "length ?s = 21" using length_time_text [of tv] by simp
  have "fb_cur b + int (length (?s @ [CHR 0x00])) \<le> int (length (fb_data b))"
    using assms l length_fb_content [of b] by simp
  from store_ok [OF assms(1) this] obtain v where "write_at (fb_data b) (fb_cur b) (?s @ [CHR 0x00]) = Some v"
    "length v = length (fb_data b)" "fb_ok (fb_offset (b\<lparr>fb_data := v\<rparr>) 21)" "fb_content (fb_offset (b\<lparr>fb_data := v\<rparr>) 21) = fb_content b @ ?s"
    unfolding l by auto
  then show ?thesis using assms(2) remain_content [OF assms(1)]
    by (simp add: puts_def format_time_def snprintf_at_def fb_offset_def)
qed

lemma prefix_adds:
  assumes "fb_ok b" "capture_ok c" "length (fb_content b) + length (prefix_text c) + 35 \<le> length (fb_data b)"
  shows "adds b (formatPrefix c b) (prefix_text c)"
proof -
  let ?items = "[LCstr (Some '' ''), LInteger (lc_tid c), LCstr (Some '' ''), LCstr (Some (lc_file c)),
         LCstr (Some '':''), LInteger (lc_line c), LCstr (Some ''] '')]"
  have i: "list_all item_ok ?items" using assms(2) by (auto simp: capture_ok_def)
  have tx: "concat (map item_text ?items) = '' '' @ show_int (lc_tid c) @ '' '' @ lc_file c @ '':'' @ show_int (lc_line c) @ ''] ''" by simp
  show ?thesis unfolding formatPrefix_def prefix_text_def tx [symmetric]
  proof (rule adds_bind)
    show "adds b (put_bytes b (take 1 (LogLevelNames ! lc_level c))) (take 1 (LogLevelNames ! lc_level c))"
      using assms(3) remain_content [OF assms(1)] by (intro puts_adds [OF put_bytes_ok [OF assms(1)]]) (simp add: prefix_text_def)
  next
    fix b1
    assume b1: "fb_ok b1" "length (fb_data b1) = length (fb_data b)" "fb_content b1 = fb_content b @ take 1 (LogLevelNames ! lc_level c)"
    show "adds b1 ((if 22 \<le> fb_remain b1
         then do { (len, arr) \<leftarrow> format_time (lc_time c) (fb_data b1) (fb_cur b1); Some (fb_offset (b1\<lparr>fb_data := arr\<rparr>) (len - 1)) }
         else Some b1) \<bind> (\<lambda>b. insert_items b ?items)) (take 21 (time_text (lc_time c)) @ concat (map item_text ?items))"
      using assms(3) b1 i
      by (intro adds_bind [OF time_adds] insert_items_adds) (auto simp: prefix_text_def)
  qed
qed

text \<open>The stack trace of a fatal statement: \<open>tr\<close> is what \<^verbatim>\<open>stacktrace_write\<close> gives. Its array is read only when the text is
  short enough for the message.\<close>

definition trace_is :: "trace_env \<Rightarrow> bytes \<Rightarrow> bool" where
  "trace_is te tr \<longleftrightarrow>
     (\<exists>v. stacktrace_write (te_demangle te) (te_stack te) (te_group te) (Some (te_junk te)) (int (length (te_junk te))) None =
            Some (int (length tr), Some v) \<and>
          (length tr \<le> kMaxLogMessageLen \<longrightarrow> length tr \<le> length v \<and> take (length tr) v = tr))"

lemma trace_exact:
  assumes "frames_ok fs" "te_stack te = frames_of fs" "sg_state (te_group te) = sw_start" "length (te_junk te) = 10000"
    "length (trace_text (te_demangle te) 0 (map fst fs)) < 10000"
  shows "trace_is te (trace_text (te_demangle te) 0 (map fst fs))"
proof -
  let ?t = "trace_text (te_demangle te) 0 (map fst fs)"
  have j: "te_junk te \<noteq> []" using assms(4) by auto
  obtain v where w: "write_frames (te_demangle te) 0 (frames_of fs) 0 (te_group te) (te_junk te) 0 10000 0 = Some (int (length ?t), v)"
      and v: "take (length ?t) v = ?t"
    using write_frames_fits [OF assms(1,3), of 0 0 "te_junk te" 0 "te_demangle te"] assms(4,5) by auto
  have "shown default_stacktrace_options (frames_of fs) = frames_of fs"
    by (simp add: shown_def default_stacktrace_options_def)
  then have "stacktrace_write (te_demangle te) (te_stack te) (te_group te) (Some (te_junk te)) 10000 None = Some (int (length ?t), Some v)"
    using stacktrace_write_shown [OF j, of "te_demangle te" "te_stack te" "te_group te" default_stacktrace_options] w assms(2,4)
    by (simp add: stacktrace_write_def default_stacktrace_options_def)
  moreover have "length ?t \<le> length v" using v by (metis length_take min.bounded_iff order_refl)
  ultimately show ?thesis using v assms(4) by (auto simp: trace_is_def)
qed

lemma trace_none: "sg_state (te_group te) \<notin> {0..5} \<Longrightarrow> te_junk te \<noteq> [] \<Longrightarrow> trace_is te []"
  using stacktrace_write_unknown [of "te_group te" "te_junk te"] by (simp add: trace_is_def)

lemma trace_puts:
  assumes "fb_ok b" "trace_is te tr" "length (fb_data b) \<le> kMaxLogMessageLen"
  shows "puts b (append_trace te b) (int (length tr) \<le> fb_remain b) tr"
proof -
  obtain v where v: "stacktrace_write (te_demangle te) (te_stack te) (te_group te) (Some (te_junk te)) (int (length (te_junk te))) None =
      Some (int (length tr), Some v)" "length tr \<le> kMaxLogMessageLen \<longrightarrow> length tr \<le> length v \<and> take (length tr) v = tr"
    using assms(2) unfolding trace_is_def by blast
  show ?thesis
  proof (cases "int (length tr) \<le> fb_remain b")
    case True
    then have "length tr \<le> kMaxLogMessageLen" using remain_content [OF assms(1)] assms(3) by linarith
    then have "read_at v 0 (int (length tr)) = Some tr" using v(2) by (simp add: read_at_def)
    then show ?thesis using True put_bytes_ok [OF assms(1), of tr] by (simp add: append_trace_def v(1))
  next
    case False
    then show ?thesis using assms(1) by (auto simp: append_trace_def v(1) puts_def)
  qed
qed

text \<open>The line of a fatal statement has the trace behind it, if there is room for the whole of it.\<close>

definition message_of :: "bytes \<Rightarrow> capture \<Rightarrow> log_item list \<Rightarrow> string" where
  "message_of tr c items =
     (if lc_level c = LOG_FATAL \<and> length (line_of c items) + length tr \<le> kMaxLogMessageLen then line_of c items @ tr else line_of c items)"

text \<open>A statement whose line fits: the last number inserted needs 35 free bytes, whatever its length.\<close>

definition line_ok :: "bytes \<Rightarrow> capture \<Rightarrow> log_item list \<Rightarrow> bool" where
  "line_ok junk c items \<longleftrightarrow> length junk = kMaxLogMessageLen \<and> capture_ok c \<and> list_all item_ok items \<and>
     length (line_of c items) + 35 \<le> kMaxLogMessageLen"

lemma length_message_of: "line_ok junk c items \<Longrightarrow> length (message_of tr c items) \<le> kMaxLogMessageLen"
  by (simp add: message_of_def line_ok_def)

lemma log_statement_message:
  assumes "line_ok junk c items" and tr: "lc_level c = LOG_FATAL \<Longrightarrow> trace_is te tr"
  shows "log_statement junk te c items g =
    do {
      g \<leftarrow> loggingSave (message_of tr c items) g;
      (if lc_level c = LOG_FATAL then do { g \<leftarrow> loggingFlush g; Some (True, g) } else Some (False, g))
    }"
proof -
  note ok = assms(1) [unfolded line_ok_def]
  let ?b0 = "new_FixedBuffer junk"
  have b0: "fb_ok ?b0" "fb_content ?b0 = []" "length (fb_data ?b0) = 3000"
    using ok new_FixedBuffer_ok [of junk] by (auto simp: kMaxLogMessageLen_def new_FixedBuffer_def)
  have len: "length (prefix_text c) + length (concat (map item_text items)) + 36 \<le> 3000"
    using ok by (simp add: line_of_def kMaxLogMessageLen_def)
  have "adds ?b0 (new_LogCapture junk c) (prefix_text c)"
    unfolding new_LogCapture_def using b0 ok len by (intro prefix_adds) auto
  then have "adds ?b0 (new_LogCapture junk c \<bind> (\<lambda>b. insert_items b items \<bind> (\<lambda>b. put_bytes b [LF]))) (line_of c items)"
    unfolding line_of_def
    by (intro adds_bind insert_items_adds puts_adds [OF put_bytes_ok]) (use b0 ok len in \<open>auto simp: remain_content\<close>)
  then obtain b1 b2 b where b: "new_LogCapture junk c = Some b1" "insert_items b1 items = Some b2" "put_bytes b2 [LF] = Some b"
    "fb_ok b" "length (fb_data b) = 3000" "fb_content b = line_of c items"
    using b0 by (auto simp: puts_def bind_eq_Some_conv)
  have r: "fb_remain b = 3000 - int (length (line_of c items))" using remain_content [OF b(4)] b(5,6) by simp
  have "\<exists>b'. (if lc_level c = LOG_FATAL then append_trace te b else Some b) = Some b' \<and> good_buffer 3000 b' \<and>
      fb_content b' = message_of tr c items"
    using trace_puts [OF b(4), of te tr] tr b r
    by (auto simp: puts_def good_buffer_def message_of_def kMaxLogMessageLen_def split: if_splits)
  then show ?thesis using b fb_bytes_content by (auto simp: log_statement_def end_LogCapture_def)
qed

lemma log_statement_line:
  "line_ok junk c items \<Longrightarrow> lc_level c \<noteq> LOG_FATAL \<Longrightarrow>
   log_statement junk te c items g = map_option (Pair False) (loggingSave (line_of c items) g)"
  using log_statement_message [of junk c items te "[]" g] by (cases "loggingSave (line_of c items) g") (simp_all add: message_of_def)

context durable_sink
begin

lemma drain_ok:
  "ok (lw_output w) \<Longrightarrow> \<forall>b \<in> set bs. good_buffer N b \<Longrightarrow>
   length (logged (lw_output w)) + length (concat (map fb_content bs)) \<le> cap (lw_output w) \<Longrightarrow>
   \<exists>w'. drain app bs w = Some w' \<and> ok (lw_output w') \<and> logged (lw_output w') = logged (lw_output w) @ concat (map fb_content bs)"
proof (induction bs arbitrary: w)
  case (Cons b bs)
  then obtain f where f: "app (lw_output w) (fb_content b) = Some f" "ok f" "logged f = logged (lw_output w) @ fb_content b"
      "cap f = cap (lw_output w)"
    using appE [of "lw_output w" "fb_content b"] by auto
  have "fb_bytes b = Some (fb_content b)" using Cons.prems(2) fb_bytes_content [of N b] by simp
  with f Cons.IH [of "w\<lparr>lw_output := f, lw_available := lw_available w @ [fb_reset b]\<rparr>"] Cons.prems show ?case by auto
qed simp

lemma lw_flush_ok:
  assumes "pool_ok N n w BWait" and "ok (lw_output w)" and "length (logged (lw_output w)) + length (pending w BWait) \<le> cap (lw_output w)"
  shows "\<exists>w'. lw_flush app sync w = Some w' \<and> logged (lw_output w') = logged (lw_output w) @ pending w BWait \<and>
    disk (lw_output w') = logged (lw_output w') \<and> pending w' BWait = []"
proof -
  let ?p = "push_current w"
  note p = push_current_ok [OF assms(1)]
  have c: "concat (map fb_content (lw_filled ?p)) = pending w BWait" using p(2,3) by (simp add: pending_def)
  have "\<forall>b \<in> set (lw_filled ?p). good_buffer N b" using p(1) by (auto simp: pool_ok_def buffers_def)
  from drain_ok [of "?p\<lparr>lw_filled := []\<rparr>", OF _ this] obtain w' where
    w': "drain app (lw_filled ?p) (?p\<lparr>lw_filled := []\<rparr>) = Some w'" "ok (lw_output w')" "logged (lw_output w') = logged (lw_output w) @ pending w BWait"
    using assms p c by auto
  obtain f where "sync (lw_output w') = Some f" "logged f = logged (lw_output w')" "disk f = logged (lw_output w')" using syncE [OF w'(2)] by blast
  then show ?thesis using drain_frame [OF w'(1)] p(3) w' by (simp add: lw_flush_def pending_def)
qed

end

section \<open>Properties\<close>

definition demo_junk :: bytes where "demo_junk = replicate 3000 (CHR ''.'')"

definition demo_capture :: capture where
  "demo_capture = \<lparr>lc_level = 1, lc_tid = 7, lc_file = ''a.cpp'', lc_line = 12,
     lc_time = \<lparr>tv_sec = 1499090645, tv_usec = 242153, tz_minuteswest = - 480\<rparr>\<rparr>"

definition demo_trace :: trace_env where
  "demo_trace = \<lparr>te_demangle = (\<lambda>_. None), te_stack = [(Some ''./a.out(main+0x1f) [0x4005d4]'', 4195796)], te_group = zero_group,
     te_junk = replicate 10000 (CHR 0x00)\<rparr>"

definition demo_logging :: logging where
  "demo_logging = \<lparr>g_loggingFunc = asyncLogging, g_syncLoggingStarted = False, g_logfileptr = None, g_asyncLoggingStarted = True,
     g_logworkerptr = Some (new_LogWorker demo_junk 3 demo_log), stderr = []\<rparr>"

lemma demo_fields:
  "show_padded 2 117 = ''117''" "show_padded 2 6 = ''06''" "show_padded 2 3 = ''03''" "show_padded 2 22 = ''22''"
  "show_padded 2 4 = ''04''" "show_padded 2 5 = ''05''" "show_padded 6 242153 = ''242153''" "show_int 7 = ''7''" "show_int 12 = ''12''"
  by (simp_all add: show_padded_def show_int_def show_nat.simps digit_char_def)

lemma demo_time: "time_text (lc_time demo_capture) = ''1170603 22:04:05.242153''"
proof -
  have "gmtime 1499119445 = \<lparr>tm_sec = 5, tm_min = 4, tm_hour = 22, tm_mday = 3, tm_mon = 6, tm_year = 117\<rparr>"
    unfolding gmtime_def Let_def by simp
  then have "nowTime (lc_time demo_capture) =
      (1499090645242153, \<lparr>tm_sec = 5, tm_min = 4, tm_hour = 22, tm_mday = 3, tm_mon = 6, tm_year = 117\<rparr>)"
    by (simp add: nowTime_def demo_capture_def culong_id)
  then show ?thesis by (simp add: time_text_def demo_fields)
qed

lemma demo_line:
  "line_of demo_capture [LCstr (Some ''hi'')] = ''I1170603 22:04:05.2421 7 a.cpp:12] hi'' @ [LF]"
  "line_of (demo_capture\<lparr>lc_level := 4\<rparr>) [LCstr (Some ''hi'')] = ''F1170603 22:04:05.2421 7 a.cpp:12] hi'' @ [LF]"
  using demo_time
  by (simp_all add: line_of_def prefix_text_def) (simp_all add: demo_capture_def LogLevelNames_def demo_fields)

lemma demo_tr: "trace_text (te_demangle demo_trace) 0 [demo_symbol] = ''#0: 0x4005d4 main()+0x1f'' @ [CR, LF]"
  by (simp add: demo_trace_def demo_symbol_def line_text_def frame_text_def readable_name_def char_at_def
      show_int_def show_nat.simps digit_char_def)

lemma demo_trace_is: "trace_is demo_trace (''#0: 0x4005d4 main()+0x1f'' @ [CR, LF])"
proof -
  have "length (trace_text (\<lambda>_. None) 0 [demo_symbol]) = 26" using demo_tr by (simp add: demo_trace_def)
  then have "trace_is demo_trace (trace_text (te_demangle demo_trace) 0 (map fst [(demo_symbol, 4195796 :: int)]))"
    by (intro trace_exact) (simp_all add: demo_trace_def zero_group_def sw_start_def
        symbol_ok_def is_space_char_def demo_symbol_def symbol_text_def frames_of_def frames_ok_def)
  then show ?thesis using demo_tr by simp
qed

lemma demo_statement: "line_ok demo_junk demo_capture [LCstr (Some ''hi'')]"
  by (simp add: line_ok_def demo_line capture_ok_def demo_junk_def kMaxLogMessageLen_def) (simp add: demo_capture_def)

lemma demo_worker_ok:
  "pool_ok 3000 4 (new_LogWorker demo_junk 3 demo_log) BWait" "pending (new_LogWorker demo_junk 3 demo_log) BWait = []"
  "\<not> lw_stop (new_LogWorker demo_junk 3 demo_log)" "lw_available (new_LogWorker demo_junk 3 demo_log) \<noteq> []"
  "lw_output (new_LogWorker demo_junk 3 demo_log) = demo_log"
  using new_LogWorker_ok [of demo_junk 3 demo_log] by (simp_all add: demo_junk_def) (simp_all add: new_LogWorker_def)

lemma initUtilities_paths:
  assumes "CHR ''/'' \<notin> set nm" and "CHR 0x00 \<notin> set (d @ nm)" and "length d + length nm < 1023" and "length nm < 256"
  shows "\<exists>pr. initUtilities (d @ ''/'' @ nm) = Some pr \<and> cstring (g_projectDirname pr) = Some (d @ ''/'') \<and> cstring (g_projectName pr) = Some nm"
proof -
  let ?a = "d @ ''/'' @ nm"
  define k where "k = 1024 - length ?a - 1"
  have s: "strncpy ?a 1024 = ?a @ CHR 0x00 # replicate k (CHR 0x00)" using assms(3) unfolding k_def by (intro strncpy_short) simp
  have "cstring (strncpy ?a 1024) = Some ?a" unfolding s using assms(2) by (intro cstring_append) auto
  moreover have "(strncpy ?a 1024)[length d + 1 := CHR 0x00] = (d @ ''/'') @ CHR 0x00 # tl (nm @ CHR 0x00 # replicate k (CHR 0x00))"
    unfolding s by (cases nm) (simp_all add: list_update_append)
  moreover have "cstring ((d @ ''/'') @ CHR 0x00 # tl (nm @ CHR 0x00 # replicate k (CHR 0x00))) = Some (d @ ''/'')"
    using assms(2) by (intro cstring_append) auto
  moreover have "cstring (strncpy nm 256) = Some nm" using assms by (simp add: strncpy_short cstring_append)
  ultimately show ?thesis using last_slash_append [OF assms(1), of d] by (simp add: initUtilities_def Let_def)
qed

text \<open>\<^verbatim>\<open>initUtilities\<close> splits the path of the program at its last slash into directory and name, as C strings that fit
  their arrays; a path without a slash, which the shell passes for a program found through \<^verbatim>\<open>PATH\<close>, is undefined.\<close>

theorem initUtilities_splits:
  assumes "CHR ''/'' \<notin> set nm" and "CHR 0x00 \<notin> set (d @ nm)" and "length d + length nm < 1023" and "length nm < 256"
  shows "\<exists>pr. initUtilities (d @ ''/'' @ nm) = Some pr \<and> cstring (g_projectDirname pr) = Some (d @ ''/'') \<and>
    cstring (g_projectName pr) = Some nm \<and> initUtilities nm = None"
proof -
  have "cstring (strncpy nm 1024) = Some nm" using assms by (simp add: strncpy_short cstring_append)
  then show ?thesis using initUtilities_paths [OF assms] assms(1) by (simp add: initUtilities_def last_slash_def Let_def)
qed

theorem initUtilities_splits_witness:
  "\<exists>pr. initUtilities ''/opt/yamq'' = Some pr \<and> cstring (g_projectDirname pr) = Some ''/opt/'' \<and> initUtilities ''yamq'' = None"
  using initUtilities_splits [of "''yamq''" "''/opt''"] by auto

text \<open>C26: a log statement below fatal, with asynchronous logging started, wherever the backend stands, stores exactly one line behind
  everything stored before, or drops it, and that only when the worker is stopped or its pool of buffers is empty. The line is
  the level's letter (one of TIWEF), the first 21 characters of the time, thread id, file and line number, the
  text of the inserted items and a newline. The comments in the source show another time, \<^verbatim>\<open>170703 22:04:05.242153\<close>: the code
  prints the year as \<^verbatim>\<open>tm_year\<close> has it, 117 for 2017, counts months from 0, and cuts the result, so that moment
  is \<^verbatim>\<open>1170603 22:04:05.2421\<close>. The process goes on.\<close>

theorem log_line_stored:
  assumes "line_ok junk c items" and "lc_level c \<noteq> LOG_FATAL"
    and "g_loggingFunc g = asyncLogging" and "g_asyncLoggingStarted g" and "g_logworkerptr g = Some w"
    and "pool_ok N n w pc" and "kMaxLogMessageLen \<le> N"
  shows "\<exists>stored w'. log_statement junk te c items g = Some (False, g\<lparr>g_logworkerptr := Some w'\<rparr>) \<and> pool_ok N n w' pc \<and>
    pending w' pc = pending w pc @ (if stored then line_of c items else []) \<and> lw_output w' = lw_output w \<and>
    (\<not> stored \<longrightarrow> lw_stop w \<or> lw_available w = [])"
proof -
  have l: "\<not> N < length (line_of c items)" using assms(1,7) by (simp add: line_ok_def)
  obtain stored w' where w': "append_async w (line_of c items) = Some (stored, w')" "pool_ok N n w' pc"
      "pending w' pc = pending w pc @ (if stored then line_of c items else [])" "lw_output w' = lw_output w"
      "\<not> stored \<longrightarrow> lw_stop w \<or> lw_available w = []"
    using append_async_ok [OF assms(6), of "line_of c items"] l by blast
  have "log_statement junk te c items g = Some (False, g\<lparr>g_logworkerptr := Some w'\<rparr>)"
    using w'(1) assms(3,4,5) by (simp add: log_statement_line [OF assms(1,2)] loggingSave_def asyncLoggingSave_def)
  then show ?thesis using w'(2-5) by blast
qed

theorem log_line_stored_witness:
  "\<exists>w'. log_statement demo_junk demo_trace demo_capture [LCstr (Some ''hi'')] demo_logging =
       Some (False, demo_logging\<lparr>g_logworkerptr := Some w'\<rparr>) \<and>
     pending w' BWait = ''I1170603 22:04:05.2421 7 a.cpp:12] hi'' @ [LF]"
proof -
  let ?w = "new_LogWorker demo_junk 3 demo_log" and ?L = "line_of demo_capture [LCstr (Some ''hi'')]"
  have h: "lc_level demo_capture \<noteq> LOG_FATAL" "g_loggingFunc demo_logging = asyncLogging" "g_asyncLoggingStarted demo_logging"
    "g_logworkerptr demo_logging = Some ?w" "kMaxLogMessageLen \<le> 3000"
    by (simp_all add: LOG_FATAL_def demo_capture_def demo_logging_def kMaxLogMessageLen_def)
  obtain stored w' where w': "log_statement demo_junk demo_trace demo_capture [LCstr (Some ''hi'')] demo_logging =
      Some (False, demo_logging\<lparr>g_logworkerptr := Some w'\<rparr>)" "pending w' BWait = (if stored then ?L else [])"
      "\<not> stored \<longrightarrow> lw_stop ?w \<or> lw_available ?w = []"
    using log_line_stored [OF demo_statement h(1-4) demo_worker_ok(1) h(5), of demo_trace] unfolding demo_worker_ok(2) append_Nil by blast
  then have "stored" using demo_worker_ok by simp
  then show ?thesis using w' demo_line by auto
qed



text \<open>With the synchronous functions every statement writes its line to the log file before it ends; a fatal one leaves all of it on disk.\<close>

theorem sync_line_written:
  assumes "line_ok junk c items" and "lc_level c = LOG_FATAL \<longrightarrow> trace_is te tr" and "g_loggingFunc g = syncLogging" and "g_syncLoggingStarted g" and "g_logfileptr g = Some f"
    and "log_ok f" and "length (log_text f) + kMaxLogMessageLen \<le> log_cap f"
  shows "\<exists>f'. log_statement junk te c items g = Some (lc_level c = LOG_FATAL, g\<lparr>g_logfileptr := Some f'\<rparr>) \<and> log_ok f' \<and>
    log_text f' = log_text f @ message_of tr c items \<and> (lc_level c = LOG_FATAL \<longrightarrow> disk_text f' = log_text f')"
proof -
  let ?m = "message_of tr c items"
  have "length ?m \<le> kMaxLogMessageLen" using assms(1) by (rule length_message_of)
  then obtain f1 where f1: "log_append f ?m = Some f1" "log_ok f1" "log_text f1 = log_text f @ ?m"
    using log_append_law [OF assms(6), of ?m] assms(7) by auto
  obtain f2 where "log_flush f1 = Some f2" "log_ok f2" "log_text f2 = log_text f1" "disk_text f2 = log_text f1" using lf.syncE [OF f1(2)] by blast
  then show ?thesis using f1 assms(1-5)
    by (intro exI [of _ "if lc_level c = LOG_FATAL then f2 else f1"]) (simp add: log_statement_message [where tr = tr] loggingSave_def syncLoggingSave_def loggingFlush_def syncLoggingFlush_def)
qed

text \<open>After \<^verbatim>\<open>shutdownAsyncLogging\<close> the next statement follows a null pointer.\<close>

lemma log_after_shutdown:
  assumes "line_ok junk c items" and "lc_level c = LOG_FATAL \<longrightarrow> trace_is te tr" and "g_loggingFunc g = asyncLogging" and "g_asyncLoggingStarted g"
    and "shutdownAsyncLogging pc g = Some (out, g')"
  shows "log_statement junk te c items g' = None"
  using assms by (auto simp: log_statement_message [where tr = tr] loggingSave_def asyncLoggingSave_def shutdownAsyncLogging_def bind_eq_Some_conv split: option.splits)

end
