(* ===== verification/Example_Main.thy ===== *)
theory Example_Main
  imports Logging
begin

text \<open>
  The example program (\<^verbatim>\<open>src/src/main.cpp\<close>), the smallest client of the log: it sets logging up and then says the same
  four lines for ever, while the backend thread of the log worker writes them. The theory proves what a reader of the
  log file gets: every line, once and in order, whatever the two threads do.
\<close>

section \<open>The program\<close>

text \<open>The argument of \<^verbatim>\<open>nanosleep\<close>, in seconds and nanoseconds.\<close>

definition mysleep :: "int \<Rightarrow> int \<times> int" where
  "mysleep ms = (0, 10 * ms)"

text \<open>What a statement finds: the time, what the storage of its stream holds and the stack. The file name and the thread
  id are fixed.\<close>

record moment =
  mo_time :: timeval
  mo_junk :: bytes
  mo_trace :: trace_env

text \<open>The statements in the loop, counted from the start of the loop.\<close>

definition hello_capture :: "string \<Rightarrow> int \<Rightarrow> nat \<Rightarrow> moment \<Rightarrow> capture" where
  "hello_capture path tid k m =
     \<lparr>lc_level = k mod 4, lc_tid = tid, lc_file = path, lc_line = 14 + int (k mod 4), lc_time = mo_time m\<rparr>"

definition hello :: "string \<Rightarrow> int \<Rightarrow> nat \<Rightarrow> moment \<Rightarrow> logging \<Rightarrow> (bool \<times> logging) option" where
  "hello path tid k m g =
     log_statement (mo_junk m) (mo_trace m) (hello_capture path tid k m) [LCstr (Some ''hello world'')] g"

text \<open>A state is the number of statements executed, the logging globals and the position of the backend. The backend
  waits when \<^verbatim>\<open>initLogging\<close> returns; then the threads interleave, and the loop has no end. \<open>ms\<close> has what the statements find.\<close>

inductive main_reach :: "string \<Rightarrow> int \<Rightarrow> (nat \<Rightarrow> moment) \<Rightarrow> logging \<Rightarrow> nat \<Rightarrow> logging \<Rightarrow> backend_pc \<Rightarrow> bool" for path tid ms g0 where
  main_start: "main_reach path tid ms g0 0 g0 BWait"
| main_say: "main_reach path tid ms g0 k g pc \<Longrightarrow> hello path tid k (ms k) g = Some (False, g') \<Longrightarrow>
    main_reach path tid ms g0 (Suc k) g' pc"
| main_backend: "main_reach path tid ms g0 k g pc \<Longrightarrow> g_logworkerptr g = Some w \<Longrightarrow>
    threadFunc_step log_append log_flush (w, pc) = Some (w', pc') \<Longrightarrow>
    main_reach path tid ms g0 k (g\<lparr>g_logworkerptr := Some w'\<rparr>) pc'"

definition hello_line :: "string \<Rightarrow> int \<Rightarrow> (nat \<Rightarrow> moment) \<Rightarrow> nat \<Rightarrow> string" where
  "hello_line path tid ms k = line_of (hello_capture path tid k (ms k)) [LCstr (Some ''hello world'')]"

section \<open>Starting\<close>

text \<open>\<^verbatim>\<open>initLogging\<close> leaves a new log path, with one line in the memory of the worker.\<close>

definition started :: "nat \<Rightarrow> log_state \<Rightarrow> logging \<Rightarrow> log_state LogWorker \<Rightarrow> backend_pc \<Rightarrow> bytes list \<Rightarrow> bool" where
  "started N out g w pc acc \<longleftrightarrow> g_loggingFunc g = asyncLogging \<and> g_asyncLoggingStarted g \<and> g_logworkerptr g = Some w \<and>
     \<not> lw_stop w \<and> lw_filled w = [] \<and> pool_ok N 4 w pc \<and> lf.in_order out (w, pc, acc)"

text \<open>As long as all the text would fit into one buffer, none is ever full and one is spare.\<close>

lemma spare_buffer:
  assumes "pool_ok N 4 w pc" and "lw_filled w = []"
  shows "lw_available w \<noteq> []"
proof
  assume "lw_available w = []"
  moreover have "length (held pc) \<le> 1" by (cases pc) auto
  moreover have "length (case lw_buffer w of None \<Rightarrow> [] | Some b \<Rightarrow> [b]) \<le> 1" by (simp split: option.splits)
  ultimately show False using assms by (simp add: pool_ok_def buffers_def)
qed

lemma append_keeps_filled:
  assumes "pool_ok N 4 w pc" and "lw_filled w = []" and "length (pending w pc) + length d < N"
    and "append_async w d = Some (ok, w')"
  shows "lw_filled w' = []"
proof (cases "lw_buffer w")
  case (Some b)
  then have b: "fb_ok b" "length (fb_data b) = N" using assms(1) by (auto simp: pool_ok_def buffers_def good_buffer_def)
  have "length (fb_content b) \<le> length (pending w pc)" using Some by (simp add: pending_def)
  then have "int (length d) < fb_remain b" using assms(3) b by (simp add: remain_content)
  then show ?thesis using assms(2,4) Some by (auto simp: append_async_def bind_eq_Some_conv split: if_splits)
next
  case None
  then show ?thesis using assms(2,4) by (auto simp: append_async_def take_buffer_def bind_eq_Some_conv split: if_splits)
qed

lemma started_append:
  assumes "started N out g w pc acc" and "length (log_text out) + length (concat acc) + length d < N"
  shows "\<exists>w'. append_async w d = Some (True, w') \<and> started N out (g\<lparr>g_logworkerptr := Some w'\<rparr>) w' pc (acc @ [d])"
proof -
  note s = assms(1) [unfolded started_def]
  have p: "length (pending w pc) + length d < N"
    using s assms(2) by (auto simp: lf.in_order_def dest!: arg_cong [of _ _ length])
  obtain ok w' where w': "append_async w d = Some (ok, w')" "pool_ok N 4 w' pc" "pending w' pc = pending w pc @ (if ok then d else [])"
    "lw_output w' = lw_output w" "\<not> ok \<longrightarrow> lw_stop w \<or> lw_available w = [] \<or> N < length d"
    using append_async_ok [of N 4 w pc d] s by blast
  have "ok" using w'(5) s spare_buffer [of N w pc] p by auto
  moreover have "\<not> lw_stop w'" using s w'(1)
    by (auto simp: append_async_def take_buffer_def push_current_def bind_eq_Some_conv split: option.splits if_splits)
  ultimately show ?thesis using w' s append_keeps_filled [OF _ _ p w'(1)] by (simp add: started_def lf.in_order_def)
qed

lemma started_backend:
  assumes "started N out g w pc acc" and "length (log_text out) + length (concat acc) \<le> log_cap out"
    and step: "threadFunc_step log_append log_flush (w, pc) = Some (w', pc')"
  shows "started N out (g\<lparr>g_logworkerptr := Some w'\<rparr>) w' pc' acc"
proof -
  note s = assms(1) [unfolded started_def]
  have "pool_ok N 4 w' pc'" using threadFunc_pool [OF _ step] s by blast
  moreover have "pc \<noteq> BDone" using step by auto
  then have "lf.in_order out (w', pc', acc)" using lf.threadFunc_in_order [of out w pc acc N 4] s assms(2) step by auto
  moreover have "\<not> lw_stop w' \<and> lw_filled w' = []" using s step
    by (cases pc) (auto simp: next_filled_def Let_def bind_eq_Some_conv split: option.splits if_splits)
  ultimately show ?thesis using s by (simp add: started_def)
qed

lemma started_statement:
  assumes "started N out g w pc acc" and "line_ok junk c items" and "lc_level c \<noteq> LOG_FATAL"
    and "length (log_text out) + length (concat acc) + length (line_of c items) < N"
  shows "\<exists>w'. log_statement junk te c items g = Some (False, g\<lparr>g_logworkerptr := Some w'\<rparr>) \<and>
    started N out (g\<lparr>g_logworkerptr := Some w'\<rparr>) w' pc (acc @ [line_of c items])"
proof -
  from started_append [OF assms(1,4)] obtain w' where "append_async w (line_of c items) = Some (True, w')"
    "started N out (g\<lparr>g_logworkerptr := Some w'\<rparr>) w' pc (acc @ [line_of c items])" by blast
  then show ?thesis using assms(1)
    by (auto simp: log_statement_line [OF assms(2,3)] loggingSave_def asyncLoggingSave_def started_def)
qed

lemma hello_level: "lc_level (hello_capture path tid k m) \<noteq> LOG_FATAL"
  by (auto simp: hello_capture_def LOG_FATAL_def)

text \<open>What the program has said after \<open>k\<close> statements of the loop.\<close>

definition said :: "string \<Rightarrow> int \<Rightarrow> (nat \<Rightarrow> moment) \<Rightarrow> capture \<Rightarrow> nat \<Rightarrow> bytes list" where
  "said path tid ms c k = line_of (c\<lparr>lc_level := 2\<rparr>) [LCstr (Some ''init log with async mode'')] # map (hello_line path tid ms) [0..<k]"

lemma said_Suc: "said path tid ms c (Suc k) = said path tid ms c k @ [hello_line path tid ms k]"
  by (simp add: said_def)

text \<open>Without a bound on the text buffers fill up, and a line is dropped when the pool is empty. \<open>saying\<close> is what is left of \<open>started\<close>.\<close>

definition saying :: "nat \<Rightarrow> log_state \<Rightarrow> logging \<Rightarrow> log_state LogWorker \<Rightarrow> backend_pc \<Rightarrow> bytes list \<Rightarrow> bool" where
  "saying N out g w pc acc \<longleftrightarrow> g_loggingFunc g = asyncLogging \<and> g_asyncLoggingStarted g \<and> g_logworkerptr g = Some w \<and>
     \<not> lw_stop w \<and> pool_ok N 4 w pc \<and> lf.in_order out (w, pc, acc)"

lemma started_saying: "started N out g w pc acc \<Longrightarrow> saying N out g w pc acc"
  by (simp add: started_def saying_def)

lemma append_keeps_stop: "append_async w d = Some (ok, w') \<Longrightarrow> lw_stop w' = lw_stop w"
  by (auto simp: append_async_def take_buffer_def push_current_def bind_eq_Some_conv split: option.splits if_splits)

lemma saying_statement:
  assumes "saying N out g w pc acc" and "line_ok junk c items" and "lc_level c \<noteq> LOG_FATAL" and "kMaxLogMessageLen \<le> N"
  shows "\<exists>stored w'. log_statement junk te c items g = Some (False, g\<lparr>g_logworkerptr := Some w'\<rparr>) \<and>
    saying N out (g\<lparr>g_logworkerptr := Some w'\<rparr>) w' pc (acc @ (if stored then [line_of c items] else [])) \<and>
    pending w' pc = pending w pc @ (if stored then line_of c items else []) \<and> (\<not> stored \<longrightarrow> lw_available w = [])"
proof -
  note r = assms(1) [unfolded saying_def]
  have l: "\<not> N < length (line_of c items)" using assms(2,4) by (simp add: line_ok_def)
  have "pool_ok N 4 w pc" using r by blast
  from append_async_ok [OF this, of "line_of c items"] obtain stored w' where w': "append_async w (line_of c items) = Some (stored, w')"
      "pool_ok N 4 w' pc" "pending w' pc = pending w pc @ (if stored then line_of c items else [])" "lw_output w' = lw_output w"
      "\<not> stored \<longrightarrow> lw_available w = []"
    using r l by blast
  have "log_statement junk te c items g = Some (False, g\<lparr>g_logworkerptr := Some w'\<rparr>)"
    using w'(1) r by (simp add: log_statement_line [OF assms(2,3)] loggingSave_def asyncLoggingSave_def)
  moreover have "saying N out (g\<lparr>g_logworkerptr := Some w'\<rparr>) w' pc (acc @ (if stored then [line_of c items] else []))"
    using r w'(2-4) append_keeps_stop [OF w'(1)] by (simp add: saying_def lf.in_order_def)
  ultimately show ?thesis using w'(3,5) by blast
qed

lemma saying_backend:
  assumes "saying N out g w pc acc" and "length (log_text out) + length (concat acc) \<le> log_cap out"
    and step: "threadFunc_step log_append log_flush (w, pc) = Some (w', pc')"
  shows "saying N out (g\<lparr>g_logworkerptr := Some w'\<rparr>) w' pc' acc"
proof -
  note r = assms(1) [unfolded saying_def]
  have "pool_ok N 4 w' pc'" using threadFunc_pool [OF _ step] r by blast
  moreover have "pc \<noteq> BDone" using step by auto
  then have "lf.in_order out (w', pc', acc)" using lf.threadFunc_in_order [of out w pc acc N 4] r assms(2) step by auto
  moreover have "\<not> lw_stop w'" using r step
    by (cases pc) (auto simp: next_filled_def Let_def bind_eq_Some_conv split: option.splits list.splits if_splits)
  ultimately show ?thesis using r by (simp add: saying_def)
qed

lemma subseq_concat_le: "subseq xs ys \<Longrightarrow> length (concat xs) \<le> length (concat ys)"
  by (induction rule: list_emb.induct) auto

lemma initLogging_starts:
  assumes "CHR ''/'' \<notin> set nm" and "CHR 0x00 \<notin> set (d @ nm)" and "length d + length nm < 1023" and "length nm < 256"
    and "fs_writes s = []" and "\<not> fs_full s" and "\<And>p. fs_openable s p"
    and "\<And>i. fs_dir s (roll_path ((d @ ''/'') @ ''/'' @ nm @ ''.'' @ ''log'') (int i)) = None"
    and "length junk = kMaxLogBufferLen" and st: "line_ok sjunk (c\<lparr>lc_level := 2\<rparr>) [LCstr (Some ''init log with async mode'')]"
  shows "\<exists>pr out g0 w. initLogging s junk sjunk te c (d @ ''/'' @ nm) initial_logging = Some (pr, g0) \<and>
    log_ok out \<and> log_text out = [] \<and> log_cap out = 2 ^ 31 * (2 ^ 32 - 3) \<and> started kMaxLogBufferLen out g0 w BWait (said path tid ms c 0)"
proof -
  obtain pr where pr: "initUtilities (d @ ''/'' @ nm) = Some pr" "cstring (g_projectDirname pr) = Some (d @ ''/'')" "cstring (g_projectName pr) = Some nm"
    using initUtilities_paths [OF assms(1-4)] by blast
  obtain out where out: "new_LogFile s (d @ ''/'') nm kMaxRollSize ''log'' = Some out" "log_ok out" "log_text out = []" "lf_kRollSize (fst out) = kMaxRollSize"
    using new_LogFile_ok [of s "d @ ''/''" nm "''log''" kMaxRollSize, OF assms(5-8)] by (auto simp: kMaxRollSize_def)
  let ?w = "new_LogWorker junk 3 out"
  let ?g = "initial_logging\<lparr>g_logworkerptr := Some ?w, g_asyncLoggingStarted := True, g_loggingFunc := asyncLogging\<rparr>"
  have i: "initAsyncLogging s junk pr initial_logging = Some ?g" using pr out by (simp add: initAsyncLogging_def)
  have j: "length junk < 2 ^ 63" using assms(9) by (simp add: kMaxLogBufferLen_def)
  have "started kMaxLogBufferLen out ?g ?w BWait []"
    using new_LogWorker_ok [OF j, of 3 out] out(2) assms(9) by (simp add: started_def lf.in_order_def) (simp add: new_LogWorker_def)
  moreover have "length (line_of (c\<lparr>lc_level := 2\<rparr>) [LCstr (Some ''init log with async mode'')]) < kMaxLogBufferLen"
    using st by (simp add: line_ok_def kMaxLogBufferLen_def kMaxLogMessageLen_def)
  ultimately obtain w1 where w1: "log_statement sjunk te (c\<lparr>lc_level := 2\<rparr>) [LCstr (Some ''init log with async mode'')] ?g =
      Some (False, ?g\<lparr>g_logworkerptr := Some w1\<rparr>)"
    "started kMaxLogBufferLen out (?g\<lparr>g_logworkerptr := Some w1\<rparr>) w1 BWait [line_of (c\<lparr>lc_level := 2\<rparr>) [LCstr (Some ''init log with async mode'')]]"
    using started_statement [OF _ st, of kMaxLogBufferLen out ?g ?w BWait "[]"] out(3) by (auto simp: LOG_FATAL_def)
  have cap: "log_cap out = 2 ^ 31 * (2 ^ 32 - 3)" by (simp add: log_cap_def out(4) kMaxRollSize_def)
  show ?thesis using pr(1) i w1 out(2,3) cap by (intro exI [of _ pr] exI [of _ out] exI conjI) (auto simp: initLogging_def said_def)
qed

lemma main_started:
  assumes "started kMaxLogBufferLen out g0 w0 BWait (said path tid ms c 0)" and "log_text out = []" and "kMaxLogBufferLen \<le> log_cap out"
    and st: "\<And>k. line_ok (mo_junk (ms k)) (hello_capture path tid k (ms k)) [LCstr (Some ''hello world'')]"
  shows "main_reach path tid ms g0 k g pc \<Longrightarrow> length (concat (said path tid ms c k)) < kMaxLogBufferLen \<Longrightarrow>
    \<exists>w. started kMaxLogBufferLen out g w pc (said path tid ms c k)"
proof (induction rule: main_reach.induct)
  case main_start
  then show ?case using assms(1) by blast
next
  case (main_say k g pc g')
  from main_say obtain w where w: "started kMaxLogBufferLen out g w pc (said path tid ms c k)" by (auto simp: said_Suc)
  from started_statement [OF w st hello_level, of k "mo_trace (ms k)"] main_say(2) main_say.prems assms(2) show ?case
    by (auto simp: said_Suc hello_def hello_line_def)
next
  case (main_backend k g pc w w' pc')
  then obtain v where v: "started kMaxLogBufferLen out g v pc (said path tid ms c k)" by blast
  then have "v = w" using main_backend(2) by (simp add: started_def)
  with started_backend [OF v] main_backend(3) main_backend.prems assms(2,3) show ?case by auto
qed

lemma started_spare: "started N out g w pc acc \<Longrightarrow> lw_available w \<noteq> []"
  using spare_buffer by (auto simp: started_def)

lemma said_fits: "length (concat (said path tid ms c (Suc k))) < n \<Longrightarrow> length (concat (said path tid ms c k)) < n"
  by (simp add: said_Suc)

lemma main_saying:
  assumes "started kMaxLogBufferLen out g0 w0 BWait (said path tid ms c 0)" and "log_text out = []"
    and st: "\<And>k. line_ok (mo_junk (ms k)) (hello_capture path tid k (ms k)) [LCstr (Some ''hello world'')]"
  shows "main_reach path tid ms g0 k g pc \<Longrightarrow> length (concat (said path tid ms c k)) \<le> log_cap out \<Longrightarrow>
    \<exists>w ls. saying kMaxLogBufferLen out g w pc ls \<and> subseq ls (said path tid ms c k)"
proof (induction rule: main_reach.induct)
  case main_start
  then show ?case using started_saying [OF assms(1)] by blast
next
  case (main_say k g pc g')
  then obtain w ls where w: "saying kMaxLogBufferLen out g w pc ls" "subseq ls (said path tid ms c k)" by (auto simp: said_Suc)
  have "kMaxLogMessageLen \<le> kMaxLogBufferLen" by (simp add: kMaxLogMessageLen_def kMaxLogBufferLen_def)
  from saying_statement [OF w(1) st hello_level this, of k "mo_trace (ms k)"] obtain stored w'
    where s: "hello path tid k (ms k) g = Some (False, g\<lparr>g_logworkerptr := Some w'\<rparr>)"
      "saying kMaxLogBufferLen out (g\<lparr>g_logworkerptr := Some w'\<rparr>) w' pc (ls @ (if stored then [hello_line path tid ms k] else []))"
    unfolding hello_def hello_line_def by blast
  then have "saying kMaxLogBufferLen out g' w' pc (ls @ (if stored then [hello_line path tid ms k] else []))" using main_say(2) by simp
  moreover have "subseq (ls @ (if stored then [hello_line path tid ms k] else [])) (said path tid ms c (Suc k))"
    unfolding said_Suc using w(2) by (intro list_emb_append_mono) simp_all
  ultimately show ?case by blast
next
  case (main_backend k g pc w w' pc')
  then obtain v ls where v: "saying kMaxLogBufferLen out g v pc ls" "subseq ls (said path tid ms c k)" by blast
  then have "v = w" using main_backend(2) by (simp add: saying_def)
  with saying_backend [OF v(1)] subseq_concat_le [OF v(2)] main_backend(3) main_backend.prems assms(2) v(2) show ?case by auto
qed

section \<open>Properties\<close>

text \<open>C25: what the example program says is logged. Called by a path with a slash, in a working file system without logs of it,
  \<^verbatim>\<open>initLogging\<close> returns; and then, whatever the order of the steps of the main and the backend thread, up to the
  largest text the files take, the next statement is defined and does not end the process; the log file and the memory hold lines of
  \<^verbatim>\<open>initLogging\<close> and of the loop, each at most once and in order; and what is on disk is a beginning of that. The next line is
  stored behind them unless the pool of buffers is empty. None is missing as long as all the text is shorter than one buffer.\<close>

theorem main_logs_every_line:
  assumes "CHR ''/'' \<notin> set nm" and "CHR 0x00 \<notin> set (d @ nm)" and "length d + length nm < 1023" and "length nm < 256"
    and "fs_writes s = []" and "\<not> fs_full s" and "\<And>p. fs_openable s p"
    and "\<And>i. fs_dir s (roll_path ((d @ ''/'') @ ''/'' @ nm @ ''.'' @ ''log'') (int i)) = None"
    and "length junk = kMaxLogBufferLen" and "line_ok sjunk (c\<lparr>lc_level := 2\<rparr>) [LCstr (Some ''init log with async mode'')]"
    and "\<And>k. line_ok (mo_junk (ms k)) (hello_capture path tid k (ms k)) [LCstr (Some ''hello world'')]"
  shows "\<exists>pr g0. initLogging s junk sjunk te c (d @ ''/'' @ nm) initial_logging = Some (pr, g0) \<and>
    (\<forall>k g pc. main_reach path tid ms g0 k g pc \<longrightarrow> length (concat (said path tid ms c k)) \<le> 2 ^ 31 * (2 ^ 32 - 3) \<longrightarrow>
      (\<exists>w ls stored w'. g_logworkerptr g = Some w \<and> log_text (lw_output w) @ pending w pc = concat ls \<and> subseq ls (said path tid ms c k) \<and>
        prefix (disk_text (lw_output w)) (concat ls) \<and>
        hello path tid k (ms k) g = Some (False, g\<lparr>g_logworkerptr := Some w'\<rparr>) \<and>
        pending w' pc = pending w pc @ (if stored then hello_line path tid ms k else []) \<and> (\<not> stored \<longrightarrow> lw_available w = []) \<and>
        (length (concat (said path tid ms c (Suc k))) < kMaxLogBufferLen \<longrightarrow> ls = said path tid ms c k \<and> stored)))"
proof -
  obtain pr out g0 w0 where i: "initLogging s junk sjunk te c (d @ ''/'' @ nm) initial_logging = Some (pr, g0)" "log_text out = []"
    "log_cap out = 2 ^ 31 * (2 ^ 32 - 3)" "started kMaxLogBufferLen out g0 w0 BWait (said path tid ms c 0)"
    using initLogging_starts [OF assms(1-10)] by blast
  have cap: "kMaxLogBufferLen \<le> log_cap out" using i(3) by (simp add: kMaxLogBufferLen_def)
  have "\<exists>w ls stored w'. g_logworkerptr g = Some w \<and> log_text (lw_output w) @ pending w pc = concat ls \<and> subseq ls (said path tid ms c k) \<and>
        prefix (disk_text (lw_output w)) (concat ls) \<and>
        hello path tid k (ms k) g = Some (False, g\<lparr>g_logworkerptr := Some w'\<rparr>) \<and>
        pending w' pc = pending w pc @ (if stored then hello_line path tid ms k else []) \<and> (\<not> stored \<longrightarrow> lw_available w = []) \<and>
        (length (concat (said path tid ms c (Suc k))) < kMaxLogBufferLen \<longrightarrow> ls = said path tid ms c k \<and> stored)"
    if r: "main_reach path tid ms g0 k g pc" and l: "length (concat (said path tid ms c k)) \<le> 2 ^ 31 * (2 ^ 32 - 3)" for k g pc
  proof -
    note started = main_started [OF i(4,2) cap assms(11) r]
    obtain w ls where w: "saying kMaxLogBufferLen out g w pc ls" "subseq ls (said path tid ms c k)"
        and all: "length (concat (said path tid ms c (Suc k))) < kMaxLogBufferLen \<longrightarrow>
          ls = said path tid ms c k \<and> lw_available w \<noteq> []"
      using main_saying [OF i(4,2) assms(11) r] l i(3) started said_fits
      by (cases "length (concat (said path tid ms c (Suc k))) < kMaxLogBufferLen") (metis started_saying started_spare subseq_order.refl)+
    have n: "kMaxLogMessageLen \<le> kMaxLogBufferLen" by (simp add: kMaxLogMessageLen_def kMaxLogBufferLen_def)
    from saying_statement [OF w(1) assms(11) hello_level n] obtain stored w' where
      w': "hello path tid k (ms k) g = Some (False, g\<lparr>g_logworkerptr := Some w'\<rparr>)"
      "pending w' pc = pending w pc @ (if stored then hello_line path tid ms k else [])" "\<not> stored \<longrightarrow> lw_available w = []"
      unfolding hello_def hello_line_def by blast
    have t: "g_logworkerptr g = Some w" "log_ok (lw_output w)" "log_text (lw_output w) @ pending w pc = concat ls"
      using w(1) i(2) by (simp_all add: saying_def lf.in_order_def)
    have "prefix (disk_text (lw_output w)) (concat ls)"
      unfolding t(3) [symmetric] using lf.disk_law [OF t(2)] by (rule prefix_prefix)
    then show ?thesis using t(1,3) w(2) w' all by blast
  qed
  then show ?thesis using i(1) by blast
qed

definition demo_moment :: moment where
  "demo_moment = \<lparr>mo_time = lc_time demo_capture, mo_junk = demo_junk, mo_trace = demo_trace\<rparr>"

lemma demo_numerals: "show_int 14 = ''14''" "show_int 15 = ''15''" "show_int 16 = ''16''" "show_int 17 = ''17''"
  by (simp_all add: show_int_def show_nat.simps digit_char_def)

lemma demo_said:
  "line_of (demo_capture\<lparr>lc_level := 2\<rparr>) [LCstr (Some ''init log with async mode'')] =
     ''W1170603 22:04:05.2421 7 a.cpp:12] init log with async mode'' @ [LF]"
  "line_of (hello_capture ''main.cpp'' 7 k demo_moment) [LCstr (Some ''hello world'')] =
     [''TIWE'' ! (k mod 4)] @ ''1170603 22:04:05.2421 7 main.cpp:1'' @ [''4567'' ! (k mod 4)] @ ''] hello world'' @ [LF]"
proof -
  show "line_of (demo_capture\<lparr>lc_level := 2\<rparr>) [LCstr (Some ''init log with async mode'')] =
     ''W1170603 22:04:05.2421 7 a.cpp:12] init log with async mode'' @ [LF]"
    using demo_time by (simp add: line_of_def prefix_text_def) (simp add: demo_capture_def LogLevelNames_def demo_fields)
  have "k mod 4 = 0 \<or> k mod 4 = 1 \<or> k mod 4 = 2 \<or> k mod 4 = 3" by presburger
  then show "line_of (hello_capture ''main.cpp'' 7 k demo_moment) [LCstr (Some ''hello world'')] =
     [''TIWE'' ! (k mod 4)] @ ''1170603 22:04:05.2421 7 main.cpp:1'' @ [''4567'' ! (k mod 4)] @ ''] hello world'' @ [LF]"
    using demo_time
    by (elim disjE) (simp_all add: line_of_def prefix_text_def hello_capture_def demo_moment_def LogLevelNames_def demo_fields demo_numerals)
qed

lemma demo_line_ok:
  assumes "capture_ok c" and "length (line_of c items) \<le> 100" and "list_all item_ok items"
  shows "line_ok demo_junk c items"
  using demo_statement assms by (simp add: line_ok_def kMaxLogMessageLen_def)

lemma demo_hello_ok:
  "line_ok demo_junk (hello_capture ''main.cpp'' 7 k demo_moment) [LCstr (Some ''hello world'')]"
proof (rule demo_line_ok)
  have "k mod 4 < 4" by simp
  then have "k mod 4 < 5" "k mod 4 < 2147483634" by linarith+
  then show "capture_ok (hello_capture ''main.cpp'' 7 k demo_moment)" by (simp add: capture_ok_def hello_capture_def)
qed (simp_all add: demo_said)

lemma demo_init_ok:
  "line_ok demo_junk (demo_capture\<lparr>lc_level := 2\<rparr>) [LCstr (Some ''init log with async mode'')]"
  by (rule demo_line_ok) (simp_all add: demo_said, simp add: capture_ok_def demo_capture_def)

theorem main_logs_every_line_witness:
  "\<exists>pr g0 g w. initLogging demo_fs (replicate kMaxLogBufferLen CHR ''.'') demo_junk demo_trace demo_capture ''/opt/yamq'' initial_logging = Some (pr, g0) \<and>
     main_reach ''main.cpp'' 7 (\<lambda>_. demo_moment) g0 1 g BWait \<and> g_logworkerptr g = Some w \<and>
     log_text (lw_output w) @ pending w BWait = ''W1170603 22:04:05.2421 7 a.cpp:12] init log with async mode'' @ [LF] @
       ''T1170603 22:04:05.2421 7 main.cpp:14] hello world'' @ [LF]"
proof -
  let ?said = "said ''main.cpp'' 7 (\<lambda>_. demo_moment) demo_capture"
  have mo: "mo_junk demo_moment = demo_junk" "mo_trace demo_moment = demo_trace" by (simp_all add: demo_moment_def)
  have said: "concat (?said 1) = ''W1170603 22:04:05.2421 7 a.cpp:12] init log with async mode'' @ [LF] @
      ''T1170603 22:04:05.2421 7 main.cpp:14] hello world'' @ [LF]"
    by (simp add: said_def demo_said hello_line_def)
  have len: "length (concat (?said 1)) < kMaxLogBufferLen" "length (concat (?said 2)) < kMaxLogBufferLen"
    by (simp_all add: said_def demo_said hello_line_def kMaxLogBufferLen_def upt_rec)
  have small: "length (concat (?said 0)) \<le> 2 ^ 31 * (2 ^ 32 - 3)" "length (concat (?said 1)) \<le> 2 ^ 31 * (2 ^ 32 - 3)"
    by (simp_all add: said_def demo_said hello_line_def)
  obtain pr g0 where i: "initLogging demo_fs (replicate kMaxLogBufferLen CHR ''.'') demo_junk demo_trace demo_capture ''/opt/yamq'' initial_logging = Some (pr, g0)"
    and all: "\<And>k g pc. main_reach ''main.cpp'' 7 (\<lambda>_. demo_moment) g0 k g pc \<Longrightarrow> length (concat (?said k)) \<le> 2 ^ 31 * (2 ^ 32 - 3) \<Longrightarrow>
      length (concat (?said (Suc k))) < kMaxLogBufferLen \<Longrightarrow> \<exists>w w'. g_logworkerptr g = Some w \<and>
        log_text (lw_output w) @ pending w pc = concat (?said k) \<and> hello ''main.cpp'' 7 k demo_moment g = Some (False, g\<lparr>g_logworkerptr := Some w'\<rparr>)"
    using main_logs_every_line [of "''yamq''" "''/opt''" demo_fs "replicate kMaxLogBufferLen CHR ''.''" demo_junk
        demo_capture "\<lambda>_. demo_moment" "''main.cpp''" 7 demo_trace] demo_init_ok demo_hello_ok mo by force
  obtain g where "hello ''main.cpp'' 7 0 demo_moment g0 = Some (False, g)" using all [OF main_start small(1)] len(1) unfolding One_nat_def by blast
  from main_say [OF main_start this] have r: "main_reach ''main.cpp'' 7 (\<lambda>_. demo_moment) g0 1 g BWait" by simp
  from all [OF r small(2)] len(2) obtain w where "g_logworkerptr g = Some w" "log_text (lw_output w) @ pending w BWait = concat (?said 1)"
    unfolding numeral_2_eq_2 One_nat_def by blast
  then show ?thesis using i r said by auto
qed

end
