(* ===== verification/Tcp_Server.thy ===== *)
theory Tcp_Server
  imports Connection
begin

text \<open>
  The acceptor (\<^verbatim>\<open>src/rpc/tcp/acceptor.cpp\<close>) and the TCP server with one event loop
  (\<^verbatim>\<open>src/rpc/tcp/server.cpp\<close>): connection ids, the table of connections, registration and
  removal. System calls enter by their results. A connection object is named by the handle of its
  channel; the table holds the connections themselves.
\<close>

section \<open>Acceptor\<close>

datatype ip_type = inet_ipv4 | inet_ipv6

text \<open>\<^verbatim>\<open>_create_accept_socket\<close>: \<open>sock\<close> is what \<^verbatim>\<open>socket\<close> returns for the address family, \<open>bnd\<close> what
  \<^verbatim>\<open>bind\<close> returns.\<close>

definition create_accept_socket :: "(ip_type \<Rightarrow> int) \<Rightarrow> (ip_type \<Rightarrow> int \<Rightarrow> int) \<Rightarrow> ip_type \<Rightarrow> int or_abort" where
  "create_accept_socket sock bnd addr =
     (let sockfd = (if addr = inet_ipv4 then sock inet_ipv4 else sock inet_ipv6)
      in if sockfd < 0 then Aborted
         else if bnd addr sockfd < 0 then Aborted
         else Done sockfd)"

definition listen_or_die :: "(int \<Rightarrow> int) \<Rightarrow> int \<Rightarrow> int or_abort" where
  "listen_or_die lst fd = (let ret = lst fd in if ret < 0 then Aborted else Done ret)"

record Acceptor =
  acc_chan :: Channel
  acc_listening :: bool
  acc_addr :: ip_type

definition new_Acceptor :: "(ip_type \<Rightarrow> int) \<Rightarrow> (ip_type \<Rightarrow> int \<Rightarrow> int) \<Rightarrow> chan \<Rightarrow> ip_type \<Rightarrow> Acceptor or_abort" where
  "new_Acceptor sock bnd self addr =
     (case create_accept_socket sock bnd addr of
        Aborted \<Rightarrow> Aborted
      | Done fd \<Rightarrow> Done \<lparr>acc_chan = \<lparr>ch_fd = fd, ch_events = EV_NONE, ch_attached = False, ch_self = self\<rparr>,
                        acc_listening = False, acc_addr = addr\<rparr>)"

definition Listen :: "(epoll_op \<Rightarrow> int \<Rightarrow> int \<Rightarrow> 'k \<Rightarrow> int \<times> 'k) \<Rightarrow> (int \<Rightarrow> int) \<Rightarrow> 'k EventDispatcher \<Rightarrow> Acceptor \<Rightarrow>
    ('k EventDispatcher \<times> Acceptor) or_abort" where
  "Listen ctl lst d a =
     (case listen_or_die lst (ch_fd (acc_chan a)) of
        Aborted \<Rightarrow> Aborted
      | Done _ \<Rightarrow>
          (case EnableRead ctl d (acc_chan a) of
             Aborted \<Rightarrow> Aborted
           | Done (d, c) \<Rightarrow> Done (d, a\<lparr>acc_listening := True, acc_chan := c\<rparr>)))"

text \<open>The result of \<^verbatim>\<open>accept4\<close>: a descriptor or an error number.\<close>

datatype accept_result = Accepted int | Accept_failed int

definition EPERM :: int where "EPERM = 1"
definition EINTR :: int where "EINTR = 4"
definition EAGAIN :: int where "EAGAIN = 11"
definition EMFILE :: int where "EMFILE = 24"
definition EPROTO :: int where "EPROTO = 71"
definition ECONNABORTED :: int where "ECONNABORTED = 103"

definition expected_errnos :: "int list" where
  "expected_errnos = [EAGAIN, ECONNABORTED, EINTR, EPROTO, EPERM, EMFILE]"

text \<open>After an expected error the function goes on and returns the negative descriptor.\<close>

definition accept_connect :: "accept_result \<Rightarrow> int or_abort" where
  "accept_connect r =
     (case r of
        Accepted fd \<Rightarrow> Done fd
      | Accept_failed savedErrno \<Rightarrow> (if savedErrno \<in> set expected_errnos then Done (- 1) else Aborted))"

definition acceptor_HandleRead :: "(int \<Rightarrow> 's \<Rightarrow> 's or_abort option) option \<Rightarrow> (int \<Rightarrow> 's \<Rightarrow> 's) \<Rightarrow> accept_result \<Rightarrow> 's \<Rightarrow> 's or_abort option" where
  "acceptor_HandleRead new_conn_cb close r s =
     (case accept_connect r of
        Aborted \<Rightarrow> Some Aborted
      | Done newfd \<Rightarrow> (case new_conn_cb of Some cb \<Rightarrow> cb newfd s | None \<Rightarrow> Some (Done (close newfd s))))"

section \<open>Connection ids\<close>

text \<open>The loop of \<^verbatim>\<open>nextId\<close>, with the value \<open>low\<close> a negative id is replaced by (0 in \<^verbatim>\<open>Server\<close>, 1 in
  \<^verbatim>\<open>multi::Server\<close>); incrementing the largest 64-bit integer is undefined.\<close>

function next_id_loop :: "int \<Rightarrow> (int \<rightharpoonup> 'c) \<Rightarrow> int \<Rightarrow> int option" where
  "next_id_loop low conns i =
     (if 2 ^ 63 \<le> i \<or> low < 0 then None
      else let i = (if i < 0 then low else i)
           in if conns i \<noteq> None then next_id_loop low conns (i + 1) else Some i)"
  by pat_completeness auto
termination
  by (relation "measure (\<lambda>(low, conns, i). nat (2 ^ 63 - i))") (auto split: if_splits)

declare next_id_loop.simps [simp del]

section \<open>Server\<close>

record ('k, 'x) Server =
  srv_next_id :: int
  srv_connections :: "int \<rightharpoonup> 'x Connection"
  srv_evd :: "'k EventDispatcher"

definition new_Server :: "'k EventDispatcher \<Rightarrow> ('k, 'x) Server" where
  "new_Server d = \<lparr>srv_next_id = 0, srv_connections = Map.empty, srv_evd = d\<rparr>"

definition srv_nextId :: "('k, 'x) Server \<Rightarrow> (int \<times> ('k, 'x) Server) option" where
  "srv_nextId s = do { i \<leftarrow> next_id_loop 0 (srv_connections s) (srv_next_id s); Some (i, s\<lparr>srv_next_id := i\<rparr>) }"

text \<open>\<open>self\<close> is the handle of the new object, \<open>connect_cb\<close> the user's callback on the connection with an id.
  The object in the table is the one \<^verbatim>\<open>establish\<close> changes.\<close>

definition srv_newConnect :: "(epoll_op \<Rightarrow> int \<Rightarrow> int \<Rightarrow> 'k \<Rightarrow> int \<times> 'k) \<Rightarrow>
    (int \<Rightarrow> ('k, 'x) Server \<Rightarrow> ('k, 'x) Server or_abort option) option \<Rightarrow> chan \<Rightarrow> int \<Rightarrow>
    ('k, 'x) Server \<Rightarrow> ('k, 'x) Server or_abort option" where
  "srv_newConnect ctl connect_cb self sockfd s =
     do {
       (i, s) \<leftarrow> srv_nextId s;
       let con = new_Connection i self sockfd;
       (case SetEvents ctl (srv_evd s) (con_chan con) EV_READ of
          Aborted \<Rightarrow> Some Aborted
        | Done (d, c) \<Rightarrow>
            (case EnableRead ctl d c of
               Aborted \<Rightarrow> Some Aborted
             | Done (d, c) \<Rightarrow>
                 (let s = s\<lparr>srv_evd := d, srv_connections := (srv_connections s)(i \<mapsto> con\<lparr>con_chan := c, con_status := CONNECTED\<rparr>)\<rparr>
                  in case connect_cb of Some cb \<Rightarrow> cb i s | None \<Rightarrow> Some (Done s))))
     }"

text \<open>\<^verbatim>\<open>closeConnect\<close> with \<^verbatim>\<open>removeConnect\<close>, for the connection \<open>con\<close>.\<close>

definition srv_removeConnect :: "(epoll_op \<Rightarrow> int \<Rightarrow> int \<Rightarrow> 'k \<Rightarrow> int \<times> 'k) \<Rightarrow> 'x Connection \<Rightarrow> ('k, 'x) Server \<Rightarrow> ('k, 'x) Server or_abort" where
  "srv_removeConnect ctl con s =
     (case RemoveChannel ctl (srv_evd s) (con_chan con) of
        Aborted \<Rightarrow> Aborted
      | Done d \<Rightarrow> Done (s\<lparr>srv_evd := d, srv_connections := (srv_connections s)(con_id con := None)\<rparr>))"

definition srv_closeConnect :: "(epoll_op \<Rightarrow> int \<Rightarrow> int \<Rightarrow> 'k \<Rightarrow> int \<times> 'k) \<Rightarrow> ('x Connection \<Rightarrow> ('k, 'x) Server \<Rightarrow> ('k, 'x) Server) \<Rightarrow>
    'x Connection \<Rightarrow> ('k, 'x) Server \<Rightarrow> ('k, 'x) Server or_abort" where
  "srv_closeConnect ctl close_cb con s =
     (case SetEvents ctl (srv_evd s) (con_chan con) EV_NONE of
        Aborted \<Rightarrow> Aborted
      | Done (d, c) \<Rightarrow>
          (let con = con\<lparr>con_chan := c\<rparr>;
               s = s\<lparr>srv_evd := d, srv_connections := (srv_connections s)(con_id con \<mapsto> con)\<rparr>
           in srv_removeConnect ctl con (close_cb con s)))"

section \<open>Lemmas\<close>

lemma next_id_loop_Some:
  "next_id_loop low conns n = Some i \<Longrightarrow> conns i = None \<and> n \<le> i \<and> 0 \<le> i"
proof (induction low conns n rule: next_id_loop.induct)
  case (1 low conns n)
  let ?n = "if n < 0 then low else n"
  have d: "\<not> (2 ^ 63 \<le> n \<or> low < 0)" using 1(2) by (subst (asm) next_id_loop.simps) (auto split: if_splits)
  show ?case
  proof (cases "conns ?n = None")
    case True
    then have "i = ?n" using 1(2) d by (subst (asm) next_id_loop.simps) (auto simp: Let_def split: if_splits)
    then show ?thesis using True d by auto
  next
    case False
    then have "next_id_loop low conns (?n + 1) = Some i"
      using 1(2) d by (subst (asm) next_id_loop.simps) (auto simp: Let_def split: if_splits)
    from 1(1) [OF d refl False this] d show ?thesis by (auto split: if_splits)
  qed
qed

lemma next_id_loop_exists:
  "conns i = None \<Longrightarrow> max low n \<le> i \<Longrightarrow> i < 2 ^ 63 \<Longrightarrow> 0 \<le> low \<Longrightarrow> next_id_loop low conns n \<noteq> None"
proof (induction low conns n rule: next_id_loop.induct)
  case (1 low conns n)
  let ?n = "if n < 0 then low else n"
  have d: "\<not> (2 ^ 63 \<le> n \<or> low < 0)" using 1(3,4,5) by auto
  show ?case
  proof (cases "conns ?n = None")
    case True
    then show ?thesis using d by (subst next_id_loop.simps) (simp add: Let_def)
  next
    case False
    then have "max low (?n + 1) \<le> i" using 1(2,3) by (cases "i = ?n") (auto split: if_splits)
    from 1(1) [OF d refl False 1(2) this 1(4,5)] show ?thesis using d False by (subst next_id_loop.simps) (simp add: Let_def)
  qed
qed

text \<open>The table, the channels of the dispatcher and the kernel agree: every connection is up under its own
  id, with a channel of its own that asks for input.\<close>

definition server_ok :: "('k \<Rightarrow> int \<rightharpoonup> int) \<Rightarrow> (chan \<rightharpoonup> Channel) \<Rightarrow> ('k, 'x) Server \<Rightarrow> bool" where
  "server_ok tab cs s \<longleftrightarrow> in_sync tab (srv_evd s) cs \<and>
     (\<forall>i con. srv_connections s i = Some con \<longrightarrow> con_id con = i \<and> con_status con = CONNECTED \<and>
        cs (ch_self (con_chan con)) = Some (con_chan con) \<and> ch_attached (con_chan con)) \<and>
     (\<forall>i j c e. srv_connections s i = Some c \<and> srv_connections s j = Some e \<and> ch_self (con_chan c) = ch_self (con_chan e) \<longrightarrow> i = j)"

lemma newConnect_ok:
  assumes "ctl_ok ctl tab" and "server_ok tab cs s" and "cs self = None" and "0 \<le> fd" and "fd \<notin> dom (channels (srv_evd s))"
    and "srv_connections s j = None" "max 0 (srv_next_id s) \<le> j" "j < 2 ^ 63"
  shows "\<exists>i con s'. srv_newConnect ctl None self fd s = Some (Done s') \<and> srv_connections s i = None \<and>
    srv_connections s' = (srv_connections s)(i \<mapsto> con) \<and> con_id con = i \<and> con_status con = CONNECTED \<and>
    con_chan con = \<lparr>ch_fd = fd, ch_events = EV_READ, ch_attached = True, ch_self = self\<rparr> \<and>
    server_ok tab (cs(self \<mapsto> con_chan con)) s' \<and> srv_next_id s' = i"
proof -
  from next_id_loop_exists [of "srv_connections s" j 0 "srv_next_id s", OF assms(6,7,8)] obtain i where i: "next_id_loop 0 (srv_connections s) (srv_next_id s) = Some i" by auto
  then have free: "srv_connections s i = None" using next_id_loop_Some by blast
  let ?c0 = "\<lparr>ch_fd = fd, ch_events = EV_NONE, ch_attached = False, ch_self = self\<rparr>"
  let ?c1 = "\<lparr>ch_fd = fd, ch_events = EV_READ, ch_attached = True, ch_self = self\<rparr>"
  have s0: "in_sync tab (srv_evd s) (cs(self \<mapsto> ?c0))"
    using in_sync_fresh [of tab "srv_evd s" cs ?c0] assms(2,3) by (simp add: server_ok_def)
  from SetEvents_sync [OF assms(1) s0, of self ?c0 EV_READ] assms(4,5) obtain d1 where
    d1: "SetEvents ctl (srv_evd s) ?c0 EV_READ = Done (d1, ?c1)" "in_sync tab d1 (cs(self \<mapsto> ?c1))" by auto
  from SetEvents_sync [OF assms(1) d1(2), of self ?c1 "EV_READ OR EV_READ"] obtain d2 where
    d2: "SetEvents ctl d1 ?c1 (EV_READ OR EV_READ) = Done (d2, ?c1)" "in_sync tab d2 (cs(self \<mapsto> ?c1))" by auto
  let ?con = "(new_Connection i self fd)\<lparr>con_chan := ?c1, con_status := CONNECTED\<rparr>"
  let ?s = "s\<lparr>srv_next_id := i, srv_evd := d2, srv_connections := (srv_connections s)(i \<mapsto> ?con)\<rparr>"
  have n: "ch_self (con_chan c) \<noteq> self" if "srv_connections s j = Some c" for j c
    using that assms(2,3) by (auto simp: server_ok_def)
  have "server_ok tab (cs(self \<mapsto> ?c1)) ?s"
    unfolding server_ok_def using d2(2) assms(2) n by (auto simp: server_ok_def new_Connection_def)
  moreover have "srv_newConnect ctl None self fd s = Some (Done ?s)"
    using i d1(1) d2(1) by (simp add: srv_newConnect_def srv_nextId_def new_Connection_def EnableRead_def Let_def)
  moreover have "con_id ?con = i" "con_status ?con = CONNECTED" "con_chan ?con = ?c1" by (simp_all add: new_Connection_def)
  ultimately show ?thesis using free by (intro exI [of _ i] exI [of _ ?con] exI [of _ ?s]) (simp del: fun_upd_apply)
qed

text \<open>The connect callbacks of the repository store a context in the new connection, or leave the server as it is.\<close>

definition context_callback :: "(int \<Rightarrow> ('k, 'x) Server \<Rightarrow> ('k, 'x) Server or_abort option) \<Rightarrow> bool" where
  "context_callback cb \<longleftrightarrow> (\<forall>i t con. srv_connections t i = Some con \<longrightarrow>
     (\<exists>x. cb i t = Some (Done (t\<lparr>srv_connections := (srv_connections t)(i \<mapsto> con\<lparr>con_context := x\<rparr>)\<rparr>))))"

lemma newConnect_callback:
  assumes "srv_newConnect ctl None self fd s = Some (Done t)"
  shows "srv_newConnect ctl (Some cb) self fd s = cb (srv_next_id t) t"
proof -
  obtain i where i: "next_id_loop 0 (srv_connections s) (srv_next_id s) = Some i"
    using assms by (cases "next_id_loop 0 (srv_connections s) (srv_next_id s)") (simp_all add: srv_newConnect_def srv_nextId_def)
  show ?thesis using assms i
    by (cases "SetEvents ctl (srv_evd s) (con_chan (new_Connection i self fd :: 'b Connection)) EV_READ")
      (auto simp: srv_newConnect_def srv_nextId_def Let_def split: or_abort.splits)
qed

lemma server_ok_same:
  assumes "server_ok tab cs t" and "srv_evd t' = srv_evd t"
    and "\<And>j c. srv_connections t' j = Some c \<Longrightarrow>
      \<exists>c0. srv_connections t j = Some c0 \<and> con_id c = con_id c0 \<and> con_status c = con_status c0 \<and> con_chan c = con_chan c0"
  shows "server_ok tab cs t'"
proof -
  note o = assms(1) [unfolded server_ok_def]
  have "con_id c = j \<and> con_status c = CONNECTED \<and> cs (ch_self (con_chan c)) = Some (con_chan c) \<and> ch_attached (con_chan c)"
    if "srv_connections t' j = Some c" for j c using assms(3) [OF that] o by metis
  moreover have "i = j" if "srv_connections t' i = Some c" "srv_connections t' j = Some e" "ch_self (con_chan c) = ch_self (con_chan e)" for i j c e
    using assms(3) [OF that(1)] assms(3) [OF that(2)] that(3) o by metis
  ultimately show ?thesis using o assms(2) by (simp add: server_ok_def)
qed

lemma newConnect_any_callback:
  assumes "ctl_ok ctl tab" and "server_ok tab cs s" and "cs self = None" and "0 \<le> fd" and "fd \<notin> dom (channels (srv_evd s))"
    and "srv_connections s j = None" "max 0 (srv_next_id s) \<le> j" "j < 2 ^ 63" and "\<forall>cb. connect_cb = Some cb \<longrightarrow> context_callback cb"
  shows "\<exists>i con s'. srv_newConnect ctl connect_cb self fd s = Some (Done s') \<and> srv_connections s i = None \<and>
    srv_connections s' = (srv_connections s)(i \<mapsto> con) \<and> con_id con = i \<and> con_status con = CONNECTED \<and>
    con_chan con = \<lparr>ch_fd = fd, ch_events = EV_READ, ch_attached = True, ch_self = self\<rparr> \<and>
    server_ok tab (cs(self \<mapsto> con_chan con)) s'"
proof -
  from newConnect_ok [OF assms(1-8)] obtain i con t where t: "srv_newConnect ctl None self fd s = Some (Done t)" "srv_connections s i = None"
    "srv_connections t = (srv_connections s)(i \<mapsto> con)" "con_id con = i" "con_status con = CONNECTED"
    "con_chan con = \<lparr>ch_fd = fd, ch_events = EV_READ, ch_attached = True, ch_self = self\<rparr>" "server_ok tab (cs(self \<mapsto> con_chan con)) t" "srv_next_id t = i" by blast
  show ?thesis
  proof (cases connect_cb)
    case None
    then show ?thesis using t by blast
  next
    case (Some cb)
    have "srv_connections t i = Some con" using t(3) by simp
    then obtain x where x: "cb i t = Some (Done (t\<lparr>srv_connections := (srv_connections t)(i \<mapsto> con\<lparr>con_context := x\<rparr>)\<rparr>))"
      using assms(9) Some unfolding context_callback_def by blast
    let ?t = "t\<lparr>srv_connections := (srv_connections t)(i \<mapsto> con\<lparr>con_context := x\<rparr>)\<rparr>"
    have "srv_newConnect ctl connect_cb self fd s = Some (Done ?t)" using newConnect_callback [OF t(1), of cb] Some x t(8) by simp
    moreover have "server_ok tab (cs(self \<mapsto> con_chan con)) ?t" by (rule server_ok_same [OF t(7)]) (auto simp: t(3) split: if_splits)
    moreover have "srv_connections ?t = (srv_connections s)(i \<mapsto> con\<lparr>con_context := x\<rparr>)" by (simp add: t(3))
    moreover have "con_id (con\<lparr>con_context := x\<rparr>) = i" "con_status (con\<lparr>con_context := x\<rparr>) = CONNECTED" "con_chan (con\<lparr>con_context := x\<rparr>) = con_chan con"
      using t(4,5) by simp_all
    ultimately show ?thesis using t(2,6) by metis
  qed
qed

lemma closeConnect_ok:
  assumes "ctl_ok ctl tab" and "server_ok tab cs s" and "srv_connections s i = Some con"
    and "\<And>c t. srv_evd (close_cb c t) = srv_evd t \<and> srv_connections (close_cb c t) = srv_connections t"
  shows "\<exists>s'. srv_closeConnect ctl close_cb con s = Done s' \<and> srv_connections s' = (srv_connections s)(i := None) \<and>
    tab (kern (selector (srv_evd s'))) (ch_fd (con_chan con)) = None \<and> channels (srv_evd s') (ch_fd (con_chan con)) = None \<and>
    server_ok tab (cs(ch_self (con_chan con) := None)) s'"
proof -
  let ?self = "ch_self (con_chan con)" and ?c = "(con_chan con)\<lparr>ch_events := EV_NONE\<rparr>"
  from assms(2,3) have o: "in_sync tab (srv_evd s) cs" "con_id con = i" "cs ?self = Some (con_chan con)" "ch_attached (con_chan con)"
    by (auto simp: server_ok_def)
  have a: "(con_chan con)\<lparr>ch_events := EV_NONE, ch_attached := True\<rparr> = ?c" using o(4) by simp
  from SetEvents_sync [OF assms(1) o(1,3), of EV_NONE] o(4) obtain d1 where
    d1: "SetEvents ctl (srv_evd s) (con_chan con) EV_NONE = Done (d1, ?c)" "in_sync tab d1 (cs(?self \<mapsto> ?c))" unfolding a by auto
  from RemoveChannel_sync [OF assms(1) d1(2), of ?self ?c] o(4) obtain d2 where
    d2: "RemoveChannel ctl d1 ?c = Done d2" "in_sync tab d2 (cs(?self := None))" "channels d2 = (channels d1)(ch_fd (con_chan con) := None)"
    "tab (kern (selector d2)) (ch_fd (con_chan con)) = None" by auto
  let ?con = "con\<lparr>con_chan := ?c\<rparr>"
  let ?t = "close_cb ?con (s\<lparr>srv_evd := d1, srv_connections := (srv_connections s)(i \<mapsto> ?con)\<rparr>)"
  let ?s = "?t\<lparr>srv_evd := d2, srv_connections := (srv_connections s)(i := None)\<rparr>"
  have t: "srv_evd ?t = d1" "srv_connections ?t = (srv_connections s)(i \<mapsto> ?con)" using assms(4) by simp_all
  have "srv_closeConnect ctl close_cb con s = Done ?s"
    using d1(1) d2(1) o(2) t by (simp add: srv_closeConnect_def srv_removeConnect_def Let_def)
  moreover have "ch_self (con_chan c) \<noteq> ?self" if "srv_connections s j = Some c" "j \<noteq> i" for j c
    using that assms(2,3) by (auto simp: server_ok_def)
  then have "server_ok tab (cs(?self := None)) ?s"
    using d2(2) assms(2) by (auto simp: server_ok_def)
  ultimately show ?thesis using d2(3,4) by auto
qed

section \<open>Properties\<close>

text \<open>C16: accepting a connection. On a server whose table, channels and kernel interest list agree, with no connect callback or one that at most
  stores a context in the connection, a new descriptor is registered under an id no other connection has; the connection is up and waits for
  input, every other connection is untouched and the agreement is kept.\<close>

theorem newConnect_registers:
  assumes "ctl_ok ctl tab" and "server_ok tab cs s" and "cs self = None" and "0 \<le> fd" and "fd \<notin> dom (channels (srv_evd s))"
    and "srv_connections s j = None" "max 0 (srv_next_id s) \<le> j" "j < 2 ^ 63" and "\<forall>cb. connect_cb = Some cb \<longrightarrow> context_callback cb"
  shows "\<exists>i con s'. srv_newConnect ctl connect_cb self fd s = Some (Done s') \<and> srv_connections s i = None \<and>
    srv_connections s' = (srv_connections s)(i \<mapsto> con) \<and> con_id con = i \<and> con_status con = CONNECTED \<and>
    con_chan con = \<lparr>ch_fd = fd, ch_events = EV_READ, ch_attached = True, ch_self = self\<rparr> \<and>
    server_ok tab (cs(self \<mapsto> con_chan con)) s'"
  by (rule newConnect_any_callback [OF assms])

text \<open>A callback that stores a context, as that of the HTTP server does.\<close>

definition demo_connect :: "int \<Rightarrow> (int \<rightharpoonup> int, nat) Server \<Rightarrow> (int \<rightharpoonup> int, nat) Server or_abort option" where
  "demo_connect i t = (case srv_connections t i of
     None \<Rightarrow> None | Some con \<Rightarrow> Some (Done (t\<lparr>srv_connections := (srv_connections t)(i \<mapsto> con\<lparr>con_context := Some 7\<rparr>)\<rparr>)))"

theorem newConnect_registers_witness:
  "\<exists>i con s'. srv_newConnect demo_ctl (Some demo_connect) 3 9 (new_Server demo_evd) = Some (Done s') \<and>
     srv_connections s' = [i \<mapsto> con] \<and> con_status con = CONNECTED"
proof -
  have "server_ok (\<lambda>k. k) Map.empty (new_Server demo_evd :: (int \<rightharpoonup> int, nat) Server)"
    by (auto simp: server_ok_def in_sync_def new_Server_def demo_evd_def new_EventDispatcher_def)
  moreover have "\<forall>cb. Some demo_connect = Some cb \<longrightarrow> context_callback cb" by (auto simp: context_callback_def demo_connect_def)
  ultimately show ?thesis
    using newConnect_registers [OF demo_ctl_ok, where self = 3 and fd = 9 and j = 0 and connect_cb = "Some demo_connect"]
    by (fastforce simp: new_Server_def demo_evd_def new_EventDispatcher_def)
qed

text \<open>Closing a connection removes it from the table, from the dispatcher and from the kernel's
  interest list, and nothing else; the agreement is kept for the connections that remain.\<close>

theorem closeConnect_removes:
  assumes "ctl_ok ctl tab" and "server_ok tab cs s" and "srv_connections s i = Some con"
    and "\<And>c t. srv_evd (close_cb c t) = srv_evd t \<and> srv_connections (close_cb c t) = srv_connections t"
  shows "\<exists>s'. srv_closeConnect ctl close_cb con s = Done s' \<and> srv_connections s' = (srv_connections s)(i := None) \<and>
    tab (kern (selector (srv_evd s'))) (ch_fd (con_chan con)) = None \<and> channels (srv_evd s') (ch_fd (con_chan con)) = None \<and>
    server_ok tab (cs(ch_self (con_chan con) := None)) s'"
  by (rule closeConnect_ok [OF assms])

definition demo_server :: "(int \<rightharpoonup> int, nat) Server" where
  "demo_server = \<lparr>srv_next_id = 1, srv_connections = [1 \<mapsto> cs_con demo_conn], srv_evd = cs_evd demo_conn\<rparr>"

theorem closeConnect_removes_witness:
  "\<exists>s'. srv_closeConnect demo_ctl (\<lambda>c t. t) (cs_con demo_conn) demo_server = Done s' \<and> srv_connections s' = Map.empty \<and>
     kern (selector (srv_evd s')) 7 = None"
proof -
  have c: "con_chan (cs_con demo_conn) = \<lparr>ch_fd = 7, ch_events = EV_READ, ch_attached = True, ch_self = 0\<rparr>"
    "con_id (cs_con demo_conn) = 1" "con_status (cs_con demo_conn) = CONNECTED"
    by (simp_all add: demo_conn_def demo_chan_def new_Connection_def)
  have "in_sync (\<lambda>k. k) (cs_evd demo_conn) [0 \<mapsto> con_chan (cs_con demo_conn)]"
    by (auto simp: in_sync_def demo_conn_def demo_chan_def demo_evd_def new_EventDispatcher_def epoll_mask_def event_bits)
  then have "server_ok (\<lambda>k. k) [0 \<mapsto> con_chan (cs_con demo_conn)] demo_server"
    using c by (auto simp: server_ok_def demo_server_def split: if_splits)
  from closeConnect_removes [OF demo_ctl_ok this, of 1 "cs_con demo_conn" "\<lambda>c t. t"] c show ?thesis
    by (auto simp: demo_server_def)
qed

text \<open>An error of \<^verbatim>\<open>accept\<close> that the code lists as expected, such as a client that gave up or too many
  open files, ends the whole server process: the acceptor passes the invalid descriptor on, and
  registering it with epoll fails.\<close>

theorem accept_error_kills_server:
  assumes "ctl_ok ctl tab" and "e \<in> set expected_errnos"
    and "srv_connections s j = None" "max 0 (srv_next_id s) \<le> j" "j < 2 ^ 63"
  shows "acceptor_HandleRead (Some (srv_newConnect ctl connect_cb self)) close (Accept_failed e) s = Some Aborted"
proof -
  from next_id_loop_exists [of "srv_connections s" j 0 "srv_next_id s", OF assms(3,4,5)]
  obtain i where i: "next_id_loop 0 (srv_connections s) (srv_next_id s) = Some i" by auto
  have "fst (ctl EPOLL_CTL_ADD (- 1) m k) = - 1" for m k using assms(1) by (simp add: ctl_ok_def)
  then have "SetEvents ctl d \<lparr>ch_fd = - 1, ch_events = EV_NONE, ch_attached = False, ch_self = self\<rparr> EV_READ = Aborted" for d
    by (simp add: SetEvents_def channel_Update_def RegisterChannel_def epoll_Add_def Let_def split_beta)
  then show ?thesis using i assms(2)
    by (simp add: acceptor_HandleRead_def accept_connect_def srv_newConnect_def srv_nextId_def new_Connection_def Let_def)
qed

theorem accept_error_kills_server_witness:
  "acceptor_HandleRead (Some (srv_newConnect demo_ctl None 3)) (\<lambda>fd s. s) (Accept_failed ECONNABORTED) demo_server = Some Aborted"
  by (rule accept_error_kills_server [OF demo_ctl_ok, where j = 2])
    (simp_all add: expected_errnos_def demo_server_def)

end
