(* ===== verification/Multi_Server.thy ===== *)
theory Multi_Server
  imports Event_Loop Tcp_Server
begin

text \<open>
  The TCP server with worker loops (\<^verbatim>\<open>src/rpc/tcp/server_multi.cpp\<close>) running: loop 0 accepts, loop \<open>i + 1\<close> is
  worker \<open>i\<close>. Connections are shared objects named by the handle of their channel; the table, the functors
  waiting on the loops and the application refer to them, and an object none of them refers to is destroyed.
  Each loop is a thread: a step is one call of a handler, one functor, or one of the other actions of
  \<^verbatim>\<open>EventDispatcher::Start\<close>, and the steps of the loops interleave. The theories behind this one prove that the server keeps table, loops and kernel in agreement and
  fails nowhere but in a few situations they list, and show what happens in these.
\<close>

section \<open>State\<close>

text \<open>What the functors bind: \<^verbatim>\<open>establish\<close>, \<^verbatim>\<open>Channel::Remove\<close> and \<^verbatim>\<open>send\<close> of a connection, and the lambda of
  \<^verbatim>\<open>removeConnect\<close>. \<^verbatim>\<open>Send\<close> binds the caller's pointer, not the bytes: \<open>FSend p m r\<close> has in \<open>m\<close> what is there when the
  functor runs, nothing if the memory is gone by then, and in \<open>r\<close> the result of the system call it makes. \<open>FClose\<close> is the lambda of
  \<^verbatim>\<open>ForceClose\<close>.\<close>

datatype srv_functor =
  FEstablish (captured: chan)
| FRemove (captured: chan)
| FErase (captured: chan)
| FSend (captured: chan) "bytes option" send_result
| FClose (captured: chan)

text \<open>Where a loop thread stands in \<^verbatim>\<open>Start\<close>: before \<^verbatim>\<open>Select\<close>; in the batch of events; in \<^verbatim>\<open>HandleEvent\<close> of a
  channel with handlers to call; in \<^verbatim>\<open>Connection::HandleRead\<close> behind the close callback; before
  \<^verbatim>\<open>runPendingFunctor\<close>; behind \<^verbatim>\<open>_calling_pending_functor = true\<close>; calling the functors swapped out; and
  behind the loop.\<close>

datatype loop_at =
  AtSelect
| InBatch "Event list"
| InHandlers chan "handler list" "Event list"
| EofTail chan "handler list" "Event list"
| AtFunctors
| Entering
| Calling "srv_functor list"
| Finished

text \<open>\<open>ms_queued\<close> holds the pending functors of all loops, each with its loop, and \<open>ms_batch\<close> those swapped out, which
  live until the batch is done; \<open>ms_held\<close> are the references the application keeps and those of the calls under way,
  \<open>ms_wire\<close> the bytes the kernel has taken for each connection, \<open>ms_closed\<close> the descriptors closed.\<close>

record ('k, 'x) MultiServer =
  ms_next_id :: int
  ms_connections :: "int \<rightharpoonup> chan"
  ms_objects :: "chan \<rightharpoonup> nat \<times> 'x Connection"
  ms_loops :: "nat \<Rightarrow> 'k EventDispatcher"
  ms_evds :: "nat list"
  ms_next_evd_id :: nat
  ms_running :: bool
  ms_worker_num :: nat
  ms_queued :: "(nat \<times> srv_functor) list"
  ms_batch :: "(nat \<times> srv_functor) list"
  ms_calling :: "nat \<Rightarrow> bool"
  ms_at :: "nat \<Rightarrow> loop_at"
  ms_held :: "chan list"
  ms_wire :: "chan \<Rightarrow> bytes"
  ms_closed :: "int list"

definition new_MultiServer :: "(nat \<Rightarrow> 'k EventDispatcher) \<Rightarrow> nat \<Rightarrow> ('k, 'x) MultiServer" where
  "new_MultiServer loops worker_num =
     \<lparr>ms_next_id = 1, ms_connections = Map.empty, ms_objects = Map.empty, ms_loops = loops, ms_evds = [], ms_next_evd_id = 0,
      ms_running = False, ms_worker_num = worker_num, ms_queued = [], ms_batch = [], ms_calling = (\<lambda>_. False),
      ms_at = (\<lambda>_. AtSelect), ms_held = [], ms_wire = (\<lambda>_. []), ms_closed = []\<rparr>"

text \<open>A shared object lives while something refers to it: the table under the object's id, the application, or a functor.\<close>

definition alive :: "('k, 'x) MultiServer \<Rightarrow> chan \<Rightarrow> bool" where
  "alive s p =
     (case ms_objects s p of
        None \<Rightarrow> False
      | Some (_, con) \<Rightarrow> ms_connections s (con_id con) = Some p \<or> p \<in> set (ms_held s) \<or>
          p \<in> set (map (captured \<circ> snd) (ms_queued s @ ms_batch s)))"

definition live_object :: "('k, 'x) MultiServer \<Rightarrow> chan \<Rightarrow> (nat \<times> 'x Connection) option" where
  "live_object s p = (if alive s p then ms_objects s p else None)"

section \<open>Starting\<close>

text \<open>The loop of \<^verbatim>\<open>Start\<close> creates the workers; the acceptor listens on loop 0.\<close>

definition ms_Start :: "(epoll_op \<Rightarrow> int \<Rightarrow> int \<Rightarrow> 'k \<Rightarrow> int \<times> 'k) \<Rightarrow> (int \<Rightarrow> int) \<Rightarrow> Acceptor \<Rightarrow> ('k, 'x) MultiServer \<Rightarrow>
    (('k, 'x) MultiServer \<times> Acceptor) or_abort" where
  "ms_Start ctl lst a s =
     (let s = s\<lparr>ms_evds := ms_evds s @ map Suc [0..<ms_worker_num s]\<rparr> in
      case Listen ctl lst (ms_loops s 0) a of
        Aborted \<Rightarrow> Aborted
      | Done (d, a) \<Rightarrow> Done (s\<lparr>ms_loops := (ms_loops s)(0 := d), ms_running := True\<rparr>, a))"

section \<open>Operations\<close>

definition ms_nextId :: "('k, 'x) MultiServer \<Rightarrow> (int \<times> ('k, 'x) MultiServer) option" where
  "ms_nextId s = do { i \<leftarrow> next_id_loop 1 (ms_connections s) (ms_next_id s); Some (i, s\<lparr>ms_next_id := i\<rparr>) }"

text \<open>An index outside the vector is undefined.\<close>

definition nextEvd :: "('k, 'x) MultiServer \<Rightarrow> (nat \<times> ('k, 'x) MultiServer) option" where
  "nextEvd s =
     (if ms_evds s = [] then Some (0, s)
      else if ms_next_evd_id s < length (ms_evds s)
      then Some (ms_evds s ! ms_next_evd_id s,
             s\<lparr>ms_next_evd_id := (if Suc (ms_next_evd_id s) \<ge> length (ms_evds s) then 0 else Suc (ms_next_evd_id s))\<rparr>)
      else None)"

text \<open>An operation of the connection \<open>p\<close> on the loop \<open>evd\<close>.\<close>

definition on_object :: "nat \<Rightarrow> chan \<Rightarrow> ('k, 'x) conn_op \<Rightarrow> ('k, 'x) MultiServer \<Rightarrow> ('k, 'x) MultiServer or_abort option" where
  "on_object evd p f s =
     (case live_object s p of
        None \<Rightarrow> None
      | Some (e, con) \<Rightarrow>
          and_then (f \<lparr>cs_evd = ms_loops s evd, cs_con = con, cs_wire = ms_wire s p, cs_closed = []\<rparr>)
            (\<lambda>c. Some (Done (s\<lparr>ms_loops := (ms_loops s)(evd := cs_evd c), ms_objects := (ms_objects s)(p \<mapsto> (e, cs_con c)),
                               ms_wire := (ms_wire s)(p := cs_wire c)\<rparr>))))"

text \<open>Running a functor on its loop. That of \<^verbatim>\<open>ForceClose\<close> passes functors itself and is not among those \<^verbatim>\<open>RunInEvd\<close> is
  called with: \<open>run_pending\<close> below has it.\<close>

fun run_functor :: "(epoll_op \<Rightarrow> int \<Rightarrow> int \<Rightarrow> 'k \<Rightarrow> int \<times> 'k) \<Rightarrow> nat \<Rightarrow> srv_functor \<Rightarrow> ('k, 'x) MultiServer \<Rightarrow>
    ('k, 'x) MultiServer or_abort option" where
  "run_functor ctl evd (FEstablish p) s = on_object evd p (establish ctl) s"
| "run_functor ctl evd (FRemove p) s = on_object evd p (conn_Remove ctl) s"
| "run_functor ctl evd (FErase p) s =
     (case live_object s p of
        None \<Rightarrow> None | Some (_, con) \<Rightarrow> Some (Done (s\<lparr>ms_connections := (ms_connections s)(con_id con := None)\<rparr>)))"
| "run_functor ctl evd (FSend p m r) s = (case m of None \<Rightarrow> None | Some d \<Rightarrow> on_object evd p (conn_send ctl r d) s)"
| "run_functor ctl evd (FClose p) s = None"

text \<open>\<^verbatim>\<open>RunInEvd\<close> of the dispatcher \<open>evd\<close>, called on the loop \<open>cur\<close>, or on another thread, with a number no loop has; \<open>wr\<close>
  is \<^verbatim>\<open>write\<close>.\<close>

definition run_in :: "(epoll_op \<Rightarrow> int \<Rightarrow> int \<Rightarrow> 'k \<Rightarrow> int \<times> 'k) \<Rightarrow> (int \<Rightarrow> int) \<Rightarrow> nat \<Rightarrow> nat \<Rightarrow> srv_functor \<Rightarrow>
    ('k, 'x) MultiServer \<Rightarrow> ('k, 'x) MultiServer or_abort option" where
  "run_in ctl wr cur evd f s =
     (if evd = cur then run_functor ctl evd f s
      else (let s = s\<lparr>ms_queued := ms_queued s @ [(evd, f)]\<rparr>
            in if ms_calling s evd
               then (case Wakeup wr (ms_loops s evd) of None \<Rightarrow> None | Some Aborted \<Rightarrow> Some Aborted | Some (Done _) \<Rightarrow> Some (Done s))
               else Some (Done s)))"

text \<open>\<^verbatim>\<open>Connection::Send\<close>, called by the thread \<open>cur\<close>, through a reference.\<close>

definition ms_Send :: "(epoll_op \<Rightarrow> int \<Rightarrow> int \<Rightarrow> 'k \<Rightarrow> int \<times> 'k) \<Rightarrow> (int \<Rightarrow> int) \<Rightarrow> nat \<Rightarrow> chan \<Rightarrow> bytes option \<Rightarrow> send_result \<Rightarrow>
    ('k, 'x) MultiServer \<Rightarrow> ('k, 'x) MultiServer or_abort option" where
  "ms_Send ctl wr cur p m r s =
     (case live_object s p of None \<Rightarrow> None | Some (evd, _) \<Rightarrow> run_in ctl wr cur evd (FSend p m r) s)"

text \<open>\<open>self\<close> is the handle of the new object. The connect callback may store a context in the connection (\<open>ctx\<close>) and
  may keep the reference it is given (\<open>keep\<close>); \<^verbatim>\<open>con\<close> itself is a reference until the function returns.\<close>

definition ms_newConnect :: "(epoll_op \<Rightarrow> int \<Rightarrow> int \<Rightarrow> 'k \<Rightarrow> int \<times> 'k) \<Rightarrow> (int \<Rightarrow> int) \<Rightarrow> 'x option \<Rightarrow> bool \<Rightarrow> chan \<Rightarrow> int \<Rightarrow>
    ('k, 'x) MultiServer \<Rightarrow> ('k, 'x) MultiServer or_abort option" where
  "ms_newConnect ctl wr ctx keep self sockfd s =
     do {
       (i, s) \<leftarrow> ms_nextId s;
       (evd, s) \<leftarrow> nextEvd s;
       let s = s\<lparr>ms_objects := (ms_objects s)(self \<mapsto> (evd, new_Connection i self sockfd)), ms_held := self # ms_held s\<rparr>;
       and_then (run_in ctl wr 0 evd (FEstablish self) s)
         (\<lambda>s. let s = s\<lparr>ms_connections := (ms_connections s)(i \<mapsto> self),
                        ms_objects := (ms_objects s)(self := map_option (\<lambda>(e, con). (e, if ctx = None then con else con\<lparr>con_context := ctx\<rparr>)) (ms_objects s self))\<rparr>
              in Some (Done (s\<lparr>ms_held := (if keep then ms_held s else remove1 self (ms_held s))\<rparr>)))
     }"

text \<open>\<^verbatim>\<open>closeConnect\<close> and \<^verbatim>\<open>removeConnect\<close>, called on the loop \<open>cur\<close>; \<open>close_cb\<close> is the user's callback.\<close>

definition ms_removeConnect :: "(epoll_op \<Rightarrow> int \<Rightarrow> int \<Rightarrow> 'k \<Rightarrow> int \<times> 'k) \<Rightarrow> (int \<Rightarrow> int) \<Rightarrow> nat \<Rightarrow> chan \<Rightarrow> ('k, 'x) MultiServer \<Rightarrow>
    ('k, 'x) MultiServer or_abort option" where
  "ms_removeConnect ctl wr cur p s =
     (case live_object s p of
        None \<Rightarrow> None
      | Some (evd, con) \<Rightarrow> and_then (run_in ctl wr cur evd (FRemove p) s) (run_in ctl wr cur 0 (FErase p)))"

definition ms_closeConnect :: "(epoll_op \<Rightarrow> int \<Rightarrow> int \<Rightarrow> 'k \<Rightarrow> int \<times> 'k) \<Rightarrow> (int \<Rightarrow> int) \<Rightarrow>
    (chan \<Rightarrow> ('k, 'x) MultiServer \<Rightarrow> ('k, 'x) MultiServer or_abort option) option \<Rightarrow> nat \<Rightarrow> chan \<Rightarrow>
    ('k, 'x) MultiServer \<Rightarrow> ('k, 'x) MultiServer or_abort option" where
  "ms_closeConnect ctl wr close_cb cur p s =
     and_then (case close_cb of Some cb \<Rightarrow> cb p s | None \<Rightarrow> Some (Done s)) (ms_removeConnect ctl wr cur p)"

text \<open>A reference to the connection on the stack, as \<^verbatim>\<open>shared_from_this()\<close> makes one for a call.\<close>

definition hold :: "chan \<Rightarrow> ('k, 'x) MultiServer \<Rightarrow> ('k, 'x) MultiServer" where
  "hold p s = s\<lparr>ms_held := p # ms_held s\<rparr>"

definition unhold :: "chan \<Rightarrow> ('k, 'x) MultiServer \<Rightarrow> ('k, 'x) MultiServer" where
  "unhold p s = s\<lparr>ms_held := remove1 p (ms_held s)\<rparr>"

definition upd_object :: "chan \<Rightarrow> ('x Connection \<Rightarrow> 'x Connection) \<Rightarrow> ('k, 'x) MultiServer \<Rightarrow> ('k, 'x) MultiServer or_abort option" where
  "upd_object p f s =
     (case live_object s p of
        None \<Rightarrow> None | Some (e, con) \<Rightarrow> Some (Done (s\<lparr>ms_objects := (ms_objects s)(p \<mapsto> (e, f con))\<rparr>)))"

text \<open>The lambda of \<^verbatim>\<open>ForceClose\<close>, which has a reference, on the loop \<open>cur\<close>. The close callback is that of the server.\<close>

definition force_close :: "(epoll_op \<Rightarrow> int \<Rightarrow> int \<Rightarrow> 'k \<Rightarrow> int \<times> 'k) \<Rightarrow> (int \<Rightarrow> int) \<Rightarrow> nat \<Rightarrow> chan \<Rightarrow> ('k, 'x) MultiServer \<Rightarrow>
    ('k, 'x) MultiServer or_abort option" where
  "force_close ctl wr cur p s =
     (case live_object s p of
        None \<Rightarrow> None
      | Some (_, con) \<Rightarrow>
          and_then (upd_object p (\<lambda>con. con\<lparr>con_status := CLOSING\<rparr>) s) (\<lambda>s.
          and_then (ms_closeConnect ctl wr None cur p s) (\<lambda>s.
            upd_object p (\<lambda>con. con\<lparr>con_status := CLOSED\<rparr>) (s\<lparr>ms_closed := ms_closed s @ [ch_fd (con_chan con)]\<rparr>))))"

text \<open>\<^verbatim>\<open>Connection::ForceClose\<close>, called by the thread \<open>cur\<close>: \<^verbatim>\<open>SyncRunInEvd\<close> calls the functor at once on the loop of the
  connection, and queues it, as \<^verbatim>\<open>RunInEvd\<close> does, on any other thread, which then waits.\<close>

definition ms_ForceClose :: "(epoll_op \<Rightarrow> int \<Rightarrow> int \<Rightarrow> 'k \<Rightarrow> int \<times> 'k) \<Rightarrow> (int \<Rightarrow> int) \<Rightarrow> nat \<Rightarrow> chan \<Rightarrow> ('k, 'x) MultiServer \<Rightarrow>
    ('k, 'x) MultiServer or_abort option" where
  "ms_ForceClose ctl wr cur p s =
     (case live_object s p of
        None \<Rightarrow> None
      | Some (evd, con) \<Rightarrow>
          if con_status con \<noteq> CONNECTED then Some (Done s)
          else if evd = cur then and_then (force_close ctl wr cur p (hold p s)) (\<lambda>s. Some (Done (unhold p s)))
          else run_in ctl wr cur evd (FClose p) s)"

text \<open>What a loop does with a pending functor.\<close>

definition run_pending :: "(epoll_op \<Rightarrow> int \<Rightarrow> int \<Rightarrow> 'k \<Rightarrow> int \<times> 'k) \<Rightarrow> (int \<Rightarrow> int) \<Rightarrow> nat \<Rightarrow> srv_functor \<Rightarrow>
    ('k, 'x) MultiServer \<Rightarrow> ('k, 'x) MultiServer or_abort option" where
  "run_pending ctl wr e f s = (case f of FClose p \<Rightarrow> force_close ctl wr e p s | _ \<Rightarrow> run_functor ctl e f s)"

lemma run_pending_simps [simp]:
  "run_pending ctl wr e (FClose p) s = force_close ctl wr e p s"
  "\<not> is_FClose f \<Longrightarrow> run_pending ctl wr e f s = run_functor ctl e f s"
  by (auto simp: run_pending_def split: srv_functor.splits)

section \<open>Loops\<close>

text \<open>What the code runs against: the system calls \<^verbatim>\<open>epoll_ctl\<close> and \<^verbatim>\<open>write\<close>, the handle of the acceptor, and the message
  callback, which gets the results of the system calls it makes, the loop that calls it and the connection.\<close>

record ('k, 'x, 'm) server_env =
  env_ctl :: "epoll_op \<Rightarrow> int \<Rightarrow> int \<Rightarrow> 'k \<Rightarrow> int \<times> 'k"
  env_write :: "int \<Rightarrow> int"
  env_acceptor :: chan
  env_message :: "'m \<Rightarrow> nat \<Rightarrow> chan \<Rightarrow> ('k, 'x) MultiServer \<Rightarrow> ('k, 'x) MultiServer or_abort option"
  env_context :: "'x option"
  env_keep :: bool

text \<open>What the system calls of one step return; a step uses those it makes. \<open>in_self\<close> is the handle \<^verbatim>\<open>make_shared\<close> gives
  to a new connection.\<close>

record 'm step_input =
  in_ready :: "(int \<times> int) list option"
  in_accept :: accept_result
  in_self :: chan
  in_read :: readv_result
  in_message :: 'm
  in_send :: send_result

definition move_to :: "nat \<Rightarrow> loop_at \<Rightarrow> ('k, 'x) MultiServer \<Rightarrow> ('k, 'x) MultiServer" where
  "move_to e l s = s\<lparr>ms_at := (ms_at s)(e := l)\<rparr>"

definition loop_select :: "nat \<Rightarrow> (int \<times> int) list option \<Rightarrow> ('k, 'x) MultiServer \<Rightarrow> ('k, 'x) MultiServer" where
  "loop_select e ready s =
     (let (_, sel, events) = epoll_Select ready (selector (ms_loops s e)) []
      in move_to e (InBatch events) (s\<lparr>ms_loops := (ms_loops s)(e := (ms_loops s e)\<lparr>selector := sel\<rparr>)\<rparr>))"

definition loop_event :: "(epoll_op \<Rightarrow> int \<Rightarrow> int \<Rightarrow> 'k \<Rightarrow> int \<times> 'k) \<Rightarrow> nat \<Rightarrow> Event \<Rightarrow> Event list \<Rightarrow> ('k, 'x) MultiServer \<Rightarrow>
    ('k, 'x) MultiServer or_abort option" where
  "loop_event ctl e ev evs s =
     (case findChannel (ms_loops s e) (ev_fd ev) of
        Some c \<Rightarrow> Some (Done (move_to e (InHandlers c (HandleEvent (revents ev)) evs) s))
      | None \<Rightarrow>
          (case epoll_Remove ctl (selector (ms_loops s e)) (ev_fd ev) of
             Aborted \<Rightarrow> Some Aborted
           | Done (_, sel) \<Rightarrow>
               Some (Done (move_to e (InBatch evs) (s\<lparr>ms_loops := (ms_loops s)(e := (ms_loops s e)\<lparr>selector := sel\<rparr>)\<rparr>)))))"

text \<open>\<^verbatim>\<open>Connection::HandleRead\<close> up to the return of the callback it calls, which gets a reference; behind the close callback
  the thread is at \<open>EofTail\<close>. The thread stands at \<open>InHandlers p hs evs\<close>, with the handlers still to call.\<close>

definition ms_HandleRead :: "('k, 'x, 'm) server_env \<Rightarrow> 'm step_input \<Rightarrow> nat \<Rightarrow> chan \<Rightarrow> handler list \<Rightarrow> Event list \<Rightarrow>
    ('k, 'x) MultiServer \<Rightarrow> ('k, 'x) MultiServer or_abort option" where
  "ms_HandleRead env i e p hs evs s =
     (case live_object s p of
        None \<Rightarrow> None
      | Some (o_evd, con) \<Rightarrow>
          and_then (Retrieve (input_buf con) (in_read i)) (\<lambda>(n, b).
            let s = s\<lparr>ms_objects := (ms_objects s)(p \<mapsto> (o_evd, con\<lparr>input_buf := b\<rparr>))\<rparr> in
            if n > 0 then and_then (env_message env (in_message i) e p (hold p s)) (\<lambda>s. Some (Done (unhold p s)))
            else let s = s\<lparr>ms_objects := (ms_objects s)(p \<mapsto> (o_evd, con\<lparr>input_buf := b, con_status := CLOSING\<rparr>))\<rparr>
                 in and_then (ms_closeConnect (env_ctl env) (env_write env) None e p (hold p s))
                      (\<lambda>s. Some (Done (move_to e (EofTail p hs evs) (unhold p s))))))"

text \<open>The virtual call of a handler: the acceptor has a \<^verbatim>\<open>HandleRead\<close> only, a connection \<^verbatim>\<open>HandleRead\<close> and \<^verbatim>\<open>HandleWrite\<close>;
  the channels of the wake-up and the timer descriptor do not touch this state.\<close>

definition call_handler :: "('k, 'x, 'm) server_env \<Rightarrow> 'm step_input \<Rightarrow> nat \<Rightarrow> chan \<Rightarrow> handler \<Rightarrow> handler list \<Rightarrow> Event list \<Rightarrow>
    ('k, 'x) MultiServer \<Rightarrow> ('k, 'x) MultiServer or_abort option" where
  "call_handler env i e c h hs evs s =
     (if c = env_acceptor env
      then (if h = HRead
            then acceptor_HandleRead (Some (ms_newConnect (env_ctl env) (env_write env) (env_context env) (env_keep env) (in_self i)))
                   (\<lambda>fd s. s) (in_accept i) s
            else Some (Done s))
      else if ms_objects s c \<noteq> None
      then (case h of
              HRead \<Rightarrow> ms_HandleRead env i e c hs evs s
            | HWrite \<Rightarrow> on_object e c (conn_HandleWrite (env_ctl env) (in_send i)) s
            | HError \<Rightarrow> (if alive s c then Some (Done s) else None))
      else Some (Done s))"

text \<open>One step of the loop \<open>e\<close>.\<close>

definition loop_step :: "('k, 'x, 'm) server_env \<Rightarrow> nat \<Rightarrow> 'm step_input \<Rightarrow> ('k, 'x) MultiServer \<Rightarrow> ('k, 'x) MultiServer or_abort option" where
  "loop_step env e i s =
     (case ms_at s e of
        AtSelect \<Rightarrow> Some (Done (loop_select e (in_ready i) s))
      | InBatch [] \<Rightarrow> Some (Done (move_to e AtFunctors s))
      | InBatch (ev # evs) \<Rightarrow> loop_event (env_ctl env) e ev evs s
      | InHandlers c [] evs \<Rightarrow> Some (Done (move_to e (InBatch evs) s))
      | InHandlers c (h # hs) evs \<Rightarrow> call_handler env i e c h hs evs (move_to e (InHandlers c hs evs) s)
      | EofTail p hs evs \<Rightarrow>
          (case live_object s p of
             None \<Rightarrow> None
           | Some (o_evd, con) \<Rightarrow>
               Some (Done (move_to e (InHandlers p hs evs)
                 (s\<lparr>ms_objects := (ms_objects s)(p \<mapsto> (o_evd, con\<lparr>con_status := CLOSED\<rparr>))\<rparr>))))
      | AtFunctors \<Rightarrow> Some (Done (move_to e Entering (s\<lparr>ms_calling := (ms_calling s)(e := True)\<rparr>)))
      | Entering \<Rightarrow>
          (let mine = filter (\<lambda>x. fst x = e) (ms_queued s)
           in Some (Done (move_to e (Calling (map snd mine))
                (s\<lparr>ms_batch := ms_batch s @ mine, ms_queued := filter (\<lambda>x. fst x \<noteq> e) (ms_queued s)\<rparr>))))
      | Calling (f # fs) \<Rightarrow> and_then (run_pending (env_ctl env) (env_write env) e f s) (\<lambda>s. Some (Done (move_to e (Calling fs) s)))
      | Calling [] \<Rightarrow>
          Some (Done (move_to e (if stop (ms_loops s e) then Finished else AtSelect)
            (s\<lparr>ms_calling := (ms_calling s)(e := False), ms_batch := filter (\<lambda>x. fst x \<noteq> e) (ms_batch s)\<rparr>)))
      | Finished \<Rightarrow> Some (Done s))"

text \<open>A schedule: which loop goes next, and what its system calls return.\<close>

fun run_schedule :: "('k, 'x, 'm) server_env \<Rightarrow> (nat \<times> 'm step_input) list \<Rightarrow> ('k, 'x) MultiServer \<Rightarrow> ('k, 'x) MultiServer or_abort option" where
  "run_schedule env [] s = Some (Done s)"
| "run_schedule env ((e, i) # xs) s = and_then (loop_step env e i s) (run_schedule env xs)"

end
