(* ===== verification/Multi_Invariant.thy ===== *)
theory Multi_Invariant
  imports Multi_Server
begin

text \<open>
  The invariant of the server with worker loops (\<^theory_text>\<open>Multi_Server\<close>): loops, kernel, objects, table, pending functors and
  the positions of the loop threads fit together. The lemmas show that the steps keep it and never fail: the
  loop's own steps, running functors, the end of a connection, and accepting one.
\<close>

section \<open>Invariant\<close>

text \<open>The functors a loop has still to run, in order.\<close>

definition running :: "loop_at \<Rightarrow> srv_functor list" where
  "running l = (case l of Calling fs \<Rightarrow> fs | _ \<Rightarrow> [])"

definition todo :: "('k, 'x) MultiServer \<Rightarrow> nat \<Rightarrow> srv_functor list" where
  "todo s e = running (ms_at s e) @ map snd (filter (\<lambda>x. fst x = e) (ms_queued s))"

text \<open>What any thread may ask for at any time, to send and to close, and the others; no two of those are alike.\<close>

fun is_request :: "srv_functor \<Rightarrow> bool" where
  "is_request (FSend p m r) \<longleftrightarrow> True"
| "is_request (FClose p) \<longleftrightarrow> True"
| "is_request f \<longleftrightarrow> False"

definition control :: "srv_functor list \<Rightarrow> srv_functor list" where
  "control fs = filter (\<lambda>f. \<not> is_request f) fs"

lemma control_simps [simp]:
  "control [] = []" "control (f # fs) = (if is_request f then control fs else f # control fs)" "control (fs @ gs) = control fs @ control gs"
  "set (control fs) = {f \<in> set fs. \<not> is_request f}"
  by (simp_all add: control_def)

text \<open>The channels registered on a loop: its own, \<open>base e\<close>, and those of the connections that are up on it.\<close>

definition conns_on :: "(nat \<Rightarrow> chan \<rightharpoonup> Channel) \<Rightarrow> (chan \<rightharpoonup> nat \<times> 'x Connection) \<Rightarrow> nat \<Rightarrow> chan \<rightharpoonup> Channel" where
  "conns_on base os e p =
     (case os p of
        None \<Rightarrow> base e p
      | Some (e', con) \<Rightarrow> if e' = e \<and> con_status con = CONNECTED then Some (con_chan con) else None)"

definition obj_ok :: "(nat \<Rightarrow> chan \<rightharpoonup> Channel) \<Rightarrow> bool \<Rightarrow> chan \<Rightarrow> ('k, 'x) MultiServer \<Rightarrow> chan \<Rightarrow> 'x Connection \<Rightarrow> bool" where
  "obj_ok base keep acc s p con \<longleftrightarrow>
     ch_self (con_chan con) = p \<and> (keep \<longrightarrow> p \<in> set (ms_held s)) \<and> p \<noteq> acc \<and> (\<forall>e. base e p = None) \<and>
     buf_ok (input_buf con) \<and> buf_ok (output_buf con) \<and>
     (con_status con = CONNECTED \<longrightarrow> ch_attached (con_chan con) \<and> ms_connections s (con_id con) = Some p \<and>
        (IsWritable (ch_events (con_chan con)) \<longleftrightarrow> content (output_buf con) \<noteq> [])) \<and>
     (con_status con = CONNECTING \<longrightarrow> \<not> ch_attached (con_chan con) \<and> ms_connections s (con_id con) = Some p \<and>
        ch_events (con_chan con) = EV_NONE \<and> content (output_buf con) = [] \<and>
        0 \<le> ch_fd (con_chan con) \<and> (\<forall>e. channels (ms_loops s e) (ch_fd (con_chan con)) = None))"

definition open_con :: "'x Connection \<Rightarrow> bool" where
  "open_con con \<longleftrightarrow> con_status con = CONNECTING \<or> con_status con = CONNECTED"

definition functor_ok :: "('k, 'x) MultiServer \<Rightarrow> nat \<Rightarrow> srv_functor \<Rightarrow> bool" where
  "functor_ok s e f =
     (case f of
        FEstablish p \<Rightarrow> (\<exists>con. ms_objects s p = Some (e, con) \<and> con_status con = CONNECTING)
      | FRemove p \<Rightarrow> False
      | FErase p \<Rightarrow> e = 0 \<and> (\<exists>e' con. ms_objects s p = Some (e', con) \<and> con_status con \<in> {CLOSING, CLOSED} \<and>
                       ms_connections s (con_id con) = Some p)
      | FSend p m r \<Rightarrow> \<exists>con d. ms_objects s p = Some (e, con) \<and> m = Some d \<and> event_ok (WSend d r)
      | FClose p \<Rightarrow> \<exists>con. ms_objects s p = Some (e, con))"

definition batch_ok :: "'k EventDispatcher \<Rightarrow> Event list \<Rightarrow> bool" where
  "batch_ok d evs \<longleftrightarrow> distinct (map ev_fd evs) \<and> (\<forall>ev \<in> set evs. channels d (ev_fd ev) \<noteq> None)"

definition at_ok :: "(nat \<Rightarrow> chan \<rightharpoonup> Channel) \<Rightarrow> bool \<Rightarrow> ('k, 'x) MultiServer \<Rightarrow> nat \<Rightarrow> loop_at \<Rightarrow> bool" where
  "at_ok base keep s e l =
     (case l of
        InBatch evs \<Rightarrow> batch_ok (ms_loops s e) evs
      | InHandlers c hs evs \<Rightarrow>
          batch_ok (ms_loops s e) evs \<and> (\<forall>ev \<in> set evs. channels (ms_loops s e) (ev_fd ev) \<noteq> Some c) \<and>
          (case ms_objects s c of
             None \<Rightarrow> base e c \<noteq> None
           | Some (e', con) \<Rightarrow> e' = e \<and> (hs = [] \<or> con_status con = CONNECTED))
      | EofTail c hs evs \<Rightarrow>
          batch_ok (ms_loops s e) evs \<and> (\<forall>ev \<in> set evs. channels (ms_loops s e) (ev_fd ev) \<noteq> Some c) \<and> hs = [] \<and>
          (\<exists>con. ms_objects s c = Some (e, con) \<and> con_status con = CLOSING)
      | Calling fs \<Rightarrow> \<forall>f \<in> set fs. (e, f) \<in> set (ms_batch s)
      | _ \<Rightarrow> True)"

definition ms_inv :: "('k \<Rightarrow> int \<rightharpoonup> int) \<Rightarrow> (nat \<Rightarrow> chan \<rightharpoonup> Channel) \<Rightarrow> ('k, 'x, 'm) server_env \<Rightarrow> ('k, 'x) MultiServer \<Rightarrow> bool" where
  "ms_inv tab base env s \<longleftrightarrow>
     (\<forall>e. in_sync tab (ms_loops s e) (conns_on base (ms_objects s) e)) \<and>
     (\<forall>p e con. ms_objects s p = Some (e, con) \<longrightarrow> obj_ok base (env_keep env) (env_acceptor env) s p con) \<and>
     (\<forall>p q e e' con con'. ms_objects s p = Some (e, con) \<longrightarrow> ms_objects s q = Some (e', con') \<longrightarrow>
        open_con con \<longrightarrow> open_con con' \<longrightarrow> ch_fd (con_chan con) = ch_fd (con_chan con') \<longrightarrow> p = q) \<and>
     (\<forall>e. distinct (control (todo s e)) \<and> (\<forall>f \<in> set (todo s e). functor_ok s e f)) \<and>
     (\<forall>p e con. ms_objects s p = Some (e, con) \<longrightarrow> con_status con = CONNECTING \<longrightarrow> FEstablish p \<in> set (todo s e)) \<and>
     (\<forall>i p. ms_connections s i = Some p \<longrightarrow> (\<exists>e con. ms_objects s p = Some (e, con) \<and> con_id con = i \<and>
        (con_status con \<in> {CLOSING, CLOSED} \<longrightarrow> FErase p \<in> set (todo s 0)))) \<and>
     (\<forall>e. at_ok base (env_keep env) s e (ms_at s e)) \<and>
     (ms_evds s \<noteq> [] \<longrightarrow> ms_next_evd_id s < length (ms_evds s)) \<and>
     (\<forall>e. e \<noteq> 0 \<longrightarrow> base e (env_acceptor env) = None)"

lemma ms_invD:
  assumes "ms_inv tab base env s"
  shows inv_sync: "in_sync tab (ms_loops s e) (conns_on base (ms_objects s) e)"
    and inv_obj: "ms_objects s p = Some (e, con) \<Longrightarrow> obj_ok base (env_keep env) (env_acceptor env) s p con"
    and inv_fds: "ms_objects s p = Some (e, con) \<Longrightarrow> ms_objects s q = Some (e', con') \<Longrightarrow>
        open_con con \<Longrightarrow> open_con con' \<Longrightarrow> ch_fd (con_chan con) = ch_fd (con_chan con') \<Longrightarrow> p = q"
    and inv_distinct: "distinct (control (todo s e))"
    and inv_functor: "f \<in> set (todo s e) \<Longrightarrow> functor_ok s e f"
    and inv_connecting: "ms_objects s p = Some (e, con) \<Longrightarrow> con_status con = CONNECTING \<Longrightarrow> FEstablish p \<in> set (todo s e)"
    and inv_table: "ms_connections s i = Some p \<Longrightarrow> \<exists>e con. ms_objects s p = Some (e, con) \<and> con_id con = i \<and>
        (con_status con \<in> {CLOSING, CLOSED} \<longrightarrow> FErase p \<in> set (todo s 0))"
    and inv_at: "at_ok base (env_keep env) s e (ms_at s e)"
    and inv_evds: "ms_evds s \<noteq> [] \<Longrightarrow> ms_next_evd_id s < length (ms_evds s)"
    and inv_acc: "e \<noteq> 0 \<Longrightarrow> base e (env_acceptor env) = None"
proof -
  note a = assms [unfolded ms_inv_def]
  from a [THEN conjunct1] show "in_sync tab (ms_loops s e) (conns_on base (ms_objects s) e)" by blast
  from a [THEN conjunct2, THEN conjunct1] show "ms_objects s p = Some (e, con) \<Longrightarrow> obj_ok base (env_keep env) (env_acceptor env) s p con" by blast
  from a [THEN conjunct2, THEN conjunct2, THEN conjunct1] show "ms_objects s p = Some (e, con) \<Longrightarrow> ms_objects s q = Some (e', con') \<Longrightarrow>
        open_con con \<Longrightarrow> open_con con' \<Longrightarrow> ch_fd (con_chan con) = ch_fd (con_chan con') \<Longrightarrow> p = q" by blast
  from a [THEN conjunct2, THEN conjunct2, THEN conjunct2, THEN conjunct1] show "distinct (control (todo s e))" by blast
  from a [THEN conjunct2, THEN conjunct2, THEN conjunct2, THEN conjunct1] show "f \<in> set (todo s e) \<Longrightarrow> functor_ok s e f" by blast
  from a [THEN conjunct2, THEN conjunct2, THEN conjunct2, THEN conjunct2, THEN conjunct1] show "ms_objects s p = Some (e, con) \<Longrightarrow> con_status con = CONNECTING \<Longrightarrow> FEstablish p \<in> set (todo s e)" by blast
  from a [THEN conjunct2, THEN conjunct2, THEN conjunct2, THEN conjunct2, THEN conjunct2, THEN conjunct1] show "ms_connections s i = Some p \<Longrightarrow> \<exists>e con. ms_objects s p = Some (e, con) \<and> con_id con = i \<and>
        (con_status con \<in> {CLOSING, CLOSED} \<longrightarrow> FErase p \<in> set (todo s 0))" by blast
  from a [THEN conjunct2, THEN conjunct2, THEN conjunct2, THEN conjunct2, THEN conjunct2, THEN conjunct2, THEN conjunct1] show "at_ok base (env_keep env) s e (ms_at s e)" by blast
  from a [THEN conjunct2, THEN conjunct2, THEN conjunct2, THEN conjunct2, THEN conjunct2, THEN conjunct2, THEN conjunct2, THEN conjunct1] show "ms_evds s \<noteq> [] \<Longrightarrow> ms_next_evd_id s < length (ms_evds s)" by blast
  from a [THEN conjunct2, THEN conjunct2, THEN conjunct2, THEN conjunct2, THEN conjunct2, THEN conjunct2, THEN conjunct2, THEN conjunct2] show "e \<noteq> 0 \<Longrightarrow> base e (env_acceptor env) = None" by blast
qed

lemma ms_invI:
  assumes "\<And>e. in_sync tab (ms_loops s e) (conns_on base (ms_objects s) e)"
    and "\<And>p e con. ms_objects s p = Some (e, con) \<Longrightarrow> obj_ok base (env_keep env) (env_acceptor env) s p con"
    and "\<And>p q e e' con con'. ms_objects s p = Some (e, con) \<Longrightarrow> ms_objects s q = Some (e', con') \<Longrightarrow>
        open_con con \<Longrightarrow> open_con con' \<Longrightarrow> ch_fd (con_chan con) = ch_fd (con_chan con') \<Longrightarrow> p = q"
    and "\<And>e. distinct (control (todo s e))"
    and "\<And>e f. f \<in> set (todo s e) \<Longrightarrow> functor_ok s e f"
    and "\<And>p e con. ms_objects s p = Some (e, con) \<Longrightarrow> con_status con = CONNECTING \<Longrightarrow> FEstablish p \<in> set (todo s e)"
    and "\<And>i p. ms_connections s i = Some p \<Longrightarrow> \<exists>e con. ms_objects s p = Some (e, con) \<and> con_id con = i \<and>
        (con_status con \<in> {CLOSING, CLOSED} \<longrightarrow> FErase p \<in> set (todo s 0))"
    and "\<And>e. at_ok base (env_keep env) s e (ms_at s e)"
    and "ms_evds s \<noteq> [] \<Longrightarrow> ms_next_evd_id s < length (ms_evds s)"
    and "\<And>e. e \<noteq> 0 \<Longrightarrow> base e (env_acceptor env) = None"
  shows "ms_inv tab base env s"
  unfolding ms_inv_def using assms by blast

section \<open>Steps that leave the objects alone\<close>

lemma todo_move: "todo (move_to e l s) e' = (if e' = e then running l @ map snd (filter (\<lambda>x. fst x = e) (ms_queued s)) else todo s e')"
  by (simp add: todo_def move_to_def)

lemma move_simps [simp]:
  "ms_objects (move_to e l s) = ms_objects s" "ms_loops (move_to e l s) = ms_loops s" "ms_connections (move_to e l s) = ms_connections s"
  "ms_held (move_to e l s) = ms_held s" "ms_queued (move_to e l s) = ms_queued s" "ms_evds (move_to e l s) = ms_evds s"
  "ms_next_evd_id (move_to e l s) = ms_next_evd_id s" "ms_at (move_to e l s) = (ms_at s)(e := l)" "ms_batch (move_to e l s) = ms_batch s"
  "ms_calling (move_to e l s) = ms_calling s" "ms_wire (move_to e l s) = ms_wire s" "ms_next_id (move_to e l s) = ms_next_id s" "ms_closed (move_to e l s) = ms_closed s"
  by (simp_all add: move_to_def)

text \<open>A step that changes where a loop stands, and possibly flags, batches, the messages to send and the capacity of the selector.\<close>

lemma inv_flow:
  assumes "ms_inv tab base env s" and "ms_objects s' = ms_objects s" "ms_connections s' = ms_connections s" "ms_held s' = ms_held s"
    "ms_evds s' = ms_evds s" "ms_next_evd_id s' = ms_next_evd_id s"
    and "\<And>e. control (todo s' e) = control (todo s e)" "\<And>e f. f \<in> set (todo s' e) \<Longrightarrow> is_request f \<Longrightarrow> functor_ok s e f"
    and "\<And>e. channels (ms_loops s' e) = channels (ms_loops s e)" "\<And>e. kern (selector (ms_loops s' e)) = kern (selector (ms_loops s e))"
    and "ms_at s' = (ms_at s)(e := l)" and "at_ok base (env_keep env) s' e l"
    and "\<And>x f. x \<noteq> e \<Longrightarrow> (x, f) \<in> set (ms_batch s) \<Longrightarrow> (x, f) \<in> set (ms_batch s')"
  shows "ms_inv tab base env s'"
proof -
  have sy: "in_sync tab (ms_loops s' e) cs = in_sync tab (ms_loops s e) cs" for e cs by (simp only: in_sync_def assms(9,10))
  have ob: "obj_ok base k a s' p con = obj_ok base k a s p con" for k a p con by (simp only: obj_ok_def assms(3,4,9))
  have fo: "functor_ok s' e f = functor_ok s e f" for e f by (simp only: functor_ok_def assms(2,3))
  have mem: "f \<in> set (todo s' x) \<longleftrightarrow> f \<in> set (todo s x)" if "\<not> is_request f" for f x
    using that arg_cong [OF assms(7), of set x] by auto
  note i = ms_invD [OF assms(1)]
  show ?thesis
  proof (rule ms_invI, goal_cases)
    case 1
    show ?case unfolding sy assms(2) by (rule i(1))
  next
    case 2
    then show ?case unfolding ob assms(2) by (rule i(2))
  next
    case (3 p q)
    then show ?case unfolding assms(2) by (rule i(3))
  next
    case 4
    show ?case unfolding assms(7) by (rule i(4))
  next
    case (5 x f)
    then show ?case unfolding fo using assms(8) mem i(5) by (cases "is_request f") auto
  next
    case (6 p x con)
    then show ?case using i(6) [of p x con] mem [of "FEstablish p" x] by (simp add: assms(2))
  next
    case (7 j p)
    then show ?case using i(7) [of j p] mem [of "FErase p" 0] by (simp add: assms(2,3))
  next
    case (8 x)
    show ?case
    proof (cases "x = e")
      case False
      then show ?thesis using i(8) [of x] assms(13)
        by (auto simp: assms(2,9,11) at_ok_def batch_ok_def split: loop_at.splits option.splits)
    qed (use assms(11,12) in simp)
  next
    case 9
    then show ?case unfolding assms(5,6) by (rule i(9))
  next
    case 10
    then show ?case by (rule i(10))
  qed
qed

lemma inv_goto:
  assumes "ms_inv tab base env s" and "ms_objects s' = ms_objects s" "ms_connections s' = ms_connections s" "ms_held s' = ms_held s"
    "ms_evds s' = ms_evds s" "ms_next_evd_id s' = ms_next_evd_id s"
    and "\<And>e. todo s' e = todo s e"
    and "\<And>e. channels (ms_loops s' e) = channels (ms_loops s e)" "\<And>e. kern (selector (ms_loops s' e)) = kern (selector (ms_loops s e))"
    and "ms_at s' = (ms_at s)(e := l)" and "at_ok base (env_keep env) (s\<lparr>ms_batch := ms_batch s'\<rparr>) e l"
    and "\<And>x f. x \<noteq> e \<Longrightarrow> (x, f) \<in> set (ms_batch s) \<Longrightarrow> (x, f) \<in> set (ms_batch s')"
  shows "ms_inv tab base env s'"
proof (rule inv_flow [OF assms(1-6)])
  show "at_ok base (env_keep env) s' e l"
    using assms(11) by (auto simp: at_ok_def batch_ok_def assms(2,8) split: loop_at.splits option.splits)
qed (use assms inv_functor [OF assms(1)] in auto)

section \<open>Steps on one object\<close>

lemma conns_on_replace:
  assumes "os p = Some (e, con)"
  shows "conns_on base (os(p \<mapsto> (e, con'))) e = (conns_on base os e)(p := if con_status con' = CONNECTED then Some (con_chan con') else None)"
    and "e' \<noteq> e \<Longrightarrow> conns_on base (os(p \<mapsto> (e, con'))) e' = conns_on base os e'"
  using assms by (auto simp: conns_on_def fun_eq_iff)

text \<open>A step of loop \<open>e\<close> that changes the object \<open>p\<close> of that loop and the registration of its own descriptor: what is
  left to show is that table, functors and positions fit the object's new state.\<close>

lemma inv_object:
  assumes inv: "ms_inv tab base env s" and p: "ms_objects s p = Some (e, con)"
    and obj: "ms_objects s' = (ms_objects s)(p \<mapsto> (e, con'))" "ch_fd (con_chan con') = ch_fd (con_chan con)"
    and loops: "ms_loops s' = (ms_loops s)(e := d)"
      "\<And>fd. \<not> (open_con con \<and> fd = ch_fd (con_chan con)) \<Longrightarrow> channels d fd = channels (ms_loops s e) fd"
    and opens: "open_con con' \<Longrightarrow> open_con con"
    and sync: "in_sync tab d ((conns_on base (ms_objects s) e)(p := if con_status con' = CONNECTED then Some (con_chan con') else None))"
    and same: "ms_held s' = ms_held s" "ms_evds s' = ms_evds s" "ms_next_evd_id s' = ms_next_evd_id s"
    and conns: "\<And>i q. q \<noteq> p \<Longrightarrow> ms_connections s' i = Some q \<longleftrightarrow> ms_connections s i = Some q"
    and ok: "obj_ok base (env_keep env) (env_acceptor env) s' p con'"
    and todo: "\<And>e. distinct (control (todo s' e))" "\<And>e f. f \<in> set (todo s' e) \<Longrightarrow> functor_ok s' e f"
    and connecting: "\<And>q e con. ms_objects s' q = Some (e, con) \<Longrightarrow> con_status con = CONNECTING \<Longrightarrow> FEstablish q \<in> set (todo s' e)"
    and table: "\<And>i q. ms_connections s' i = Some q \<Longrightarrow> \<exists>e con. ms_objects s' q = Some (e, con) \<and> con_id con = i \<and>
        (con_status con \<in> {CLOSING, CLOSED} \<longrightarrow> FErase q \<in> set (todo s' 0))"
    and at: "\<And>e. at_ok base (env_keep env) s' e (ms_at s' e)"
  shows "ms_inv tab base env s'"
proof (rule ms_invI)
  note i = ms_invD [OF inv]
  show "in_sync tab (ms_loops s' e') (conns_on base (ms_objects s') e')" for e'
    using i(1) [of e'] sync conns_on_replace [where os = "ms_objects s" and p = p and base = base and con' = con', OF p] by (cases "e' = e") (simp_all add: obj(1) loops(1))
  have fd: "\<not> (open_con con \<and> ch_fd (con_chan c) = ch_fd (con_chan con))" if "ms_objects s q = Some (e', c)" "q \<noteq> p" "open_con c" for q e' c
    using i(3) [OF that(1) p] that(2,3) by auto
  show "obj_ok base (env_keep env) (env_acceptor env) s' q c" if "ms_objects s' q = Some (e', c)" for q e' c
  proof (cases "q = p")
    case True
    then show ?thesis using that ok by (simp add: obj(1))
  next
    case False
    then have q: "ms_objects s q = Some (e', c)" using that by (simp add: obj(1))
    have "con_status c = CONNECTING \<longrightarrow> channels (ms_loops s' x) (ch_fd (con_chan c)) = channels (ms_loops s x) (ch_fd (con_chan c))" for x
      using loops(2) [OF fd [OF q False]] by (simp add: loops(1) open_con_def)
    then show ?thesis using i(2) [OF q] conns [OF False] by (simp add: obj_ok_def same(1))
  qed
  show "q = r" if "ms_objects s' q = Some (e1, c1)" "ms_objects s' r = Some (e2, c2)" "open_con c1" "open_con c2" "ch_fd (con_chan c1) = ch_fd (con_chan c2)"
    for q r e1 e2 c1 c2
    using that fd i(3) obj(2) opens unfolding obj(1) by (metis fun_upd_apply option.inject prod.inject)
qed (use todo connecting table at same ms_invD(9,10) [OF inv] in \<open>simp_all\<close>)

text \<open>A change of the input buffer or the context of an object, whatever its status.\<close>

lemma inv_same_con:
  assumes inv: "ms_inv tab base env s" and p: "ms_objects s p = Some (e, con)"
    and con': "con_id con' = con_id con" "con_chan con' = con_chan con" "con_status con' = con_status con" "output_buf con' = output_buf con"
      "buf_ok (input_buf con')"
  shows "ms_inv tab base env (s\<lparr>ms_objects := (ms_objects s)(p \<mapsto> (e, con'))\<rparr>)" (is "ms_inv _ _ _ ?s")
proof (rule inv_object [OF inv p, of ?s con' "ms_loops s e"])
  note i = ms_invD [OF inv]
  have todo: "todo ?s x = todo s x" for x by (simp add: todo_def)
  have "conns_on base (ms_objects s) e p = (if con_status con = CONNECTED then Some (con_chan con) else None)" using p by (simp add: conns_on_def)
  then show "in_sync tab (ms_loops s e) ((conns_on base (ms_objects s) e)(p := if con_status con' = CONNECTED then Some (con_chan con') else None))"
    using i(1) [of e] con'(2,3) by (simp add: fun_upd_idem)
  show "obj_ok base (env_keep env) (env_acceptor env) ?s p con'" using i(2) [OF p] con' by (simp add: obj_ok_def)
  show "distinct (control (todo ?s x))" for x using i(4) by (simp add: todo)
  show "functor_ok ?s x f" if "f \<in> set (todo ?s x)" for x f
    using i(5) [OF that [unfolded todo]] p con'(1,3) by (auto simp: functor_ok_def split: srv_functor.splits)
  show "FEstablish q \<in> set (todo ?s x)" if "ms_objects ?s q = Some (x, c)" "con_status c = CONNECTING" for q x c
    using that p con'(3) i(6) [of q x] by (auto simp: todo split: if_splits)
  show "\<exists>x c. ms_objects ?s q = Some (x, c) \<and> con_id c = j \<and> (con_status c \<in> {CLOSING, CLOSED} \<longrightarrow> FErase q \<in> set (todo ?s 0))"
    if "ms_connections ?s j = Some q" for j q
    using i(7) [of j q] that p con'(1,3) by (auto simp: todo)
  show "at_ok base (env_keep env) ?s x (ms_at ?s x)" for x
    using i(8) [of x] p con'(3) by (auto simp: at_ok_def split: loop_at.splits option.splits)
qed (use con' in \<open>simp_all add: open_con_def\<close>)

text \<open>An object that is up stays up.\<close>

lemma at_ok_object:
  assumes "at_ok base k s x l" and "ms_objects s p = Some (e, con)" and "con_status con' = con_status con \<or> (\<forall>c hs evs. l = InHandlers c hs evs \<or> l = EofTail c hs evs \<longrightarrow> c \<noteq> p)"
    and "\<And>fd. channels d fd = channels (ms_loops s e) fd" and "ms_objects s' = (ms_objects s)(p \<mapsto> (e, con'))" and "ms_loops s' = (ms_loops s)(e := d)"
    and "ms_batch s' = ms_batch s"
  shows "at_ok base k s' x l"
  using assms(1-3) by (auto simp: at_ok_def batch_ok_def assms(4-7) split: loop_at.splits option.splits)

lemma inv_up:
  assumes inv: "ms_inv tab base env s" and p: "ms_objects s p = Some (e, con)"
    and up: "con_status con = CONNECTED" "con_status con' = CONNECTED"
    and kept: "con_id con' = con_id con" "ch_fd (con_chan con') = ch_fd (con_chan con)" "ch_self (con_chan con') = p"
    and ok: "buf_ok (input_buf con')" "buf_ok (output_buf con')" "ch_attached (con_chan con')"
      "IsWritable (ch_events (con_chan con')) \<longleftrightarrow> content (output_buf con') \<noteq> []"
    and d: "channels d = channels (ms_loops s e)"
      "in_sync tab d ((conns_on base (ms_objects s) e)(p \<mapsto> con_chan con'))"
  shows "ms_inv tab base env (s\<lparr>ms_loops := (ms_loops s)(e := d), ms_objects := (ms_objects s)(p \<mapsto> (e, con')), ms_wire := w\<rparr>)" (is "ms_inv _ _ _ ?s")
proof (rule inv_object [OF inv p, of ?s con' d])
  note i = ms_invD [OF inv]
  have todo: "todo ?s x = todo s x" for x by (simp add: todo_def)
  note o = i(2) [OF p, unfolded obj_ok_def]
  show "obj_ok base (env_keep env) (env_acceptor env) ?s p con'" using o up kept ok by (simp add: obj_ok_def)
  show "distinct (control (todo ?s x))" for x using i(4) by (simp add: todo)
  show "functor_ok ?s x f" if "f \<in> set (todo ?s x)" for x f
    using i(5) [OF that [unfolded todo]] p up kept(1) by (auto simp: functor_ok_def split: srv_functor.splits)
  show "FEstablish q \<in> set (todo ?s x)" if "ms_objects ?s q = Some (x, c)" "con_status c = CONNECTING" for q x c
    using that up(2) i(6) [of q x c] by (auto simp: todo split: if_splits)
  show "\<exists>x c. ms_objects ?s q = Some (x, c) \<and> con_id c = j \<and> (con_status c \<in> {CLOSING, CLOSED} \<longrightarrow> FErase q \<in> set (todo ?s 0))"
    if "ms_connections ?s j = Some q" for j q
    using i(7) [of j q] that p up kept(1) by (auto simp: todo)
  show "at_ok base (env_keep env) ?s x (ms_at ?s x)" for x
    using at_ok_object [where con' = con' and d = d and s' = ?s, OF i(8) p] up d(1) by simp
qed (use kept d up in \<open>simp_all add: open_con_def\<close>)

lemma establish_conn:
  assumes "ctl_ok ctl tab" and "in_sync tab d cs" and "cs p = None" and "ch_self (con_chan con) = p" and "\<not> ch_attached (con_chan con)"
    and "ch_events (con_chan con) = EV_NONE" and "0 \<le> ch_fd (con_chan con)" and "channels d (ch_fd (con_chan con)) = None"
    and "chan = (con_chan con)\<lparr>ch_events := EV_READ, ch_attached := True\<rparr>"
  shows "\<exists>d'. establish ctl \<lparr>cs_evd = d, cs_con = con, cs_wire = w, cs_closed = x\<rparr> =
      Some (Done \<lparr>cs_evd = d', cs_con = con\<lparr>con_chan := chan, con_status := CONNECTED\<rparr>, cs_wire = w, cs_closed = x\<rparr>) \<and>
    in_sync tab d' (cs(p \<mapsto> chan)) \<and> channels d' = (channels d)(ch_fd (con_chan con) \<mapsto> p) \<and> stop d' = stop d"
proof -
  have "in_sync tab d (cs(p \<mapsto> con_chan con))" using in_sync_fresh [OF assms(2), of "con_chan con"] assms(3-5) by simp
  from SetEvents_sync [OF assms(1) this, of p "con_chan con" "EV_NONE OR EV_READ"] assms(4-8) obtain d' where
    d': "SetEvents ctl d (con_chan con) EV_READ = Done (d', chan)" "in_sync tab d' (cs(p \<mapsto> chan))"
    by (auto simp: event_bits assms(9))
  moreover have "channels d' = (channels d)(ch_fd (con_chan con) \<mapsto> p) \<and> stop d' = stop d"
    using d'(1) assms(4,5,8)
    by (auto simp: SetEvents_def channel_Update_def RegisterChannel_def domIff split: or_abort.splits if_splits prod.splits)
  ultimately show ?thesis using assms(6)
    by (simp add: establish_def on_channel_def EnableRead_def set_status_def event_bits)
qed

text \<open>Running the pending \<^verbatim>\<open>establish\<close> of a connection.\<close>

lemma inv_establish:
  assumes ctl: "ctl_ok (env_ctl env) tab" and inv: "ms_inv tab base env s" and at: "ms_at s e = Calling (FEstablish p # fs)"
  shows "\<exists>s'. loop_step env e i s = Some (Done s') \<and> ms_inv tab base env s'"
proof -
  note i = ms_invD [OF inv]
  have "FEstablish p \<in> set (todo s e)" by (simp add: todo_def at running_def)
  from i(5) [OF this] obtain con where p: "ms_objects s p = Some (e, con)" "con_status con = CONNECTING" by (auto simp: functor_ok_def)
  note o = i(2) [OF p(1), unfolded obj_ok_def]
  let ?chan = "(con_chan con)\<lparr>ch_events := EV_READ, ch_attached := True\<rparr>" let ?con = "con\<lparr>con_chan := ?chan, con_status := CONNECTED\<rparr>"
  have none: "conns_on base (ms_objects s) e p = None" using p by (simp add: conns_on_def)
  from establish_conn [OF ctl i(1) none, of con ?chan "ms_wire s p" "[]"] o p(2) obtain d where
    d: "establish (env_ctl env) \<lparr>cs_evd = ms_loops s e, cs_con = con, cs_wire = ms_wire s p, cs_closed = []\<rparr> =
      Some (Done \<lparr>cs_evd = d, cs_con = ?con, cs_wire = ms_wire s p, cs_closed = []\<rparr>)"
    "in_sync tab d ((conns_on base (ms_objects s) e)(p \<mapsto> ?chan))" "channels d = (channels (ms_loops s e))(ch_fd (con_chan con) \<mapsto> p)" by auto
  let ?s = "move_to e (Calling fs) (s\<lparr>ms_loops := (ms_loops s)(e := d), ms_objects := (ms_objects s)(p \<mapsto> (e, ?con)), ms_wire := (ms_wire s)(p := ms_wire s p)\<rparr>)"
  have "alive s p" using o p by (simp add: alive_def)
  then have step: "loop_step env e i s = Some (Done ?s)"
    using at p d(1) by (simp add: loop_step_def on_object_def live_object_def)
  have td: "todo s e = FEstablish p # todo ?s e" "x \<noteq> e \<Longrightarrow> todo ?s x = todo s x" for x
    by (simp_all add: todo_def move_to_def at running_def)
  have sub: "set (todo ?s x) \<subseteq> set (todo s x)" for x using td by (cases "x = e") auto
  have "ms_inv tab base env ?s"
  proof (rule inv_object [OF inv p(1), of ?s ?con d])
    have w: "\<not> IsWritable EV_READ" by (simp add: IsWritable_def event_bits)
    show "obj_ok base (env_keep env) (env_acceptor env) ?s p ?con" using o p(2) w by (simp add: obj_ok_def)
    show "distinct (control (todo ?s x))" for x using i(4) [of x] td by (cases "x = e") auto
    show "functor_ok ?s x f" if f: "f \<in> set (todo ?s x)" for x f
    proof -
      have "f \<noteq> FEstablish p \<or> x \<noteq> e" using i(4) [of e] td f by auto
      moreover have "functor_ok s x f" using f sub by (intro i(5)) auto
      ultimately show ?thesis using p by (auto simp: functor_ok_def split: srv_functor.splits)
    qed
    show "FEstablish q \<in> set (todo ?s x)" if "ms_objects ?s q = Some (x, c)" "con_status c = CONNECTING" for q x c
    proof -
      have "q \<noteq> p" "FEstablish q \<in> set (todo s x)" using that i(6) by (auto split: if_splits)
      then show ?thesis using td by (cases "x = e") auto
    qed
    show "\<exists>x c. ms_objects ?s q = Some (x, c) \<and> con_id c = j \<and> (con_status c \<in> {CLOSING, CLOSED} \<longrightarrow> FErase q \<in> set (todo ?s 0))"
      if "ms_connections ?s j = Some q" for j q
    proof -
      have "FErase q \<in> set (todo ?s 0)" if "FErase q \<in> set (todo s 0)" using that td by (cases "0 = e") auto
      then show ?thesis using i(7) [of j q] that p by auto
    qed
    show "at_ok base (env_keep env) ?s x (ms_at ?s x)" for x
    proof (cases "x = e")
      case False
      then show ?thesis using i(8) [of x] p by (auto simp: at_ok_def split: loop_at.splits option.splits)
    qed (use i(8) [of e] at in \<open>auto simp: at_ok_def\<close>)
  qed (use d o p in \<open>simp_all add: open_con_def\<close>)
  then show ?thesis using step by blast
qed

text \<open>Running the pending erasure of a connection.\<close>

lemma inv_erase:
  assumes inv: "ms_inv tab base env s" and at: "ms_at s e = Calling (FErase p # fs)"
  shows "\<exists>s'. loop_step env e i s = Some (Done s') \<and> ms_inv tab base env s'"
proof -
  note i = ms_invD [OF inv]
  have "FErase p \<in> set (todo s e)" by (simp add: todo_def at running_def)
  from i(5) [OF this] obtain oe con where p: "e = 0" "ms_objects s p = Some (oe, con)" "con_status con \<in> {CLOSING, CLOSED}"
    "ms_connections s (con_id con) = Some p" by (auto simp: functor_ok_def)
  let ?s = "move_to 0 (Calling fs) (s\<lparr>ms_connections := (ms_connections s)(con_id con := None)\<rparr>)"
  have "alive s p" using p by (simp add: alive_def)
  then have step: "loop_step env e i s = Some (Done ?s)"
    using at p by (simp add: loop_step_def live_object_def)
  have td: "todo s 0 = FErase p # todo ?s 0" "x \<noteq> 0 \<Longrightarrow> todo ?s x = todo s x" for x
    using at p(1) by (simp_all add: todo_def move_to_def running_def)
  have own: "j = con_id con \<longleftrightarrow> q = p" if "ms_connections s j = Some q" for j q
    using that i(7) [OF that] p(2,4) by auto
  have "ms_inv tab base env ?s"
  proof (rule inv_object [OF inv p(2), of ?s con "ms_loops s oe"])
    have "in_sync tab (ms_loops s oe) (conns_on base (ms_objects s) oe)" by (rule i(1))
    moreover have "conns_on base (ms_objects s) oe p = None" using p by (auto simp: conns_on_def)
    ultimately show "in_sync tab (ms_loops s oe) ((conns_on base (ms_objects s) oe)(p := if con_status con = CONNECTED then Some (con_chan con) else None))"
      using p(3) by (auto simp: fun_upd_idem)
    show "obj_ok base (env_keep env) (env_acceptor env) ?s p con" using i(2) [OF p(2)] p(3) by (auto simp: obj_ok_def)
    show "distinct (control (todo ?s x))" for x using i(4) [of x] td by (cases "x = 0") auto
    show "functor_ok ?s x f" if f: "f \<in> set (todo ?s x)" for x f
    proof -
      have "f \<noteq> FErase p" using i(4) [of 0] td f i(5) [of "FErase p" x] by (cases "x = 0") (auto simp: functor_ok_def)
      moreover have "functor_ok s x f" using f td by (intro i(5)) (cases "x = 0"; auto)
      ultimately show ?thesis using own by (auto simp: functor_ok_def split: srv_functor.splits)
    qed
    show "FEstablish q \<in> set (todo ?s x)" if "ms_objects ?s q = Some (x, c)" "con_status c = CONNECTING" for q x c
      using i(6) [of q x c] that td by (cases "x = 0") auto
    show "\<exists>x c. ms_objects ?s q = Some (x, c) \<and> con_id c = j \<and> (con_status c \<in> {CLOSING, CLOSED} \<longrightarrow> FErase q \<in> set (todo ?s 0))"
      if "ms_connections ?s j = Some q" for j q
    proof -
      have j: "ms_connections s j = Some q" "j \<noteq> con_id con" using that by (auto split: if_splits)
      then have "q \<noteq> p" using own by blast
      then have "FErase q \<in> set (todo ?s 0) \<longleftrightarrow> FErase q \<in> set (todo s 0)" using td(1) by auto
      then show ?thesis using i(7) [OF j(1)] by auto
    qed
    show "ms_connections ?s j = Some q \<longleftrightarrow> ms_connections s j = Some q" if "q \<noteq> p" for j q
      using own [of j q] p(4) that by auto
    show "at_ok base (env_keep env) ?s x (ms_at ?s x)" for x
      using i(8) [of x] at p(1) by (cases "x = 0") (auto simp: at_ok_def split: loop_at.splits)
  qed (use p in \<open>simp_all add: fun_upd_idem\<close>)
  then show ?thesis using step by blast
qed

text \<open>Functors for another loop: queued. Waking up a loop that is calling its functors is left out: it is undefined on a
  dispatcher as it is constructed.\<close>

lemma run_in_other:
  assumes "evd \<noteq> cur" and "\<not> ms_calling s evd"
  shows "run_in ctl wr cur evd f s = Some (Done (s\<lparr>ms_queued := ms_queued s @ [(evd, f)]\<rparr>))"
  using assms by (simp add: run_in_def)

text \<open>The end of the stream.\<close>

lemma closeConnect_result:
  assumes ctl: "ctl_ok ctl tab" and sync: "in_sync tab (ms_loops s e) cs" "cs p = Some (con_chan con)" "ch_attached (con_chan con)"
    and p: "ms_objects s p = Some (e, con)" "ms_connections s (con_id con) = Some p" and quiet: "e \<noteq> 0 \<Longrightarrow> \<not> ms_calling s 0"
  shows "\<exists>d. in_sync tab d (cs(p := None)) \<and> channels d = (channels (ms_loops s e))(ch_fd (con_chan con) := None) \<and>
    ms_closeConnect ctl wr None e p s = Some (Done (s\<lparr>ms_loops := (ms_loops s)(e := d),
      ms_connections := (if e = 0 then (ms_connections s)(con_id con := None) else ms_connections s),
      ms_queued := (if e = 0 then ms_queued s else ms_queued s @ [(0, FErase p)])\<rparr>))"
proof -
  from RemoveChannel_sync [OF ctl sync] obtain d where d: "RemoveChannel ctl (ms_loops s e) (con_chan con) = Done d"
    "in_sync tab d (cs(p := None))" "channels d = (channels (ms_loops s e))(ch_fd (con_chan con) := None)" by blast
  let ?s = "s\<lparr>ms_loops := (ms_loops s)(e := d)\<rparr>"
  have live: "live_object s p = Some (e, con)" "live_object ?s p = Some (e, con)" using p by (simp_all add: live_object_def alive_def)
  have "run_in ctl wr e e (FRemove p) s = Some (Done (?s\<lparr>ms_objects := (ms_objects s)(p \<mapsto> (e, con)), ms_wire := (ms_wire s)(p := ms_wire s p)\<rparr>))"
    using live(1) d(1) by (simp add: run_in_def on_object_def conn_Remove_def)
  moreover have "(ms_objects s)(p \<mapsto> (e, con)) = ms_objects s" using p(1) by (simp add: fun_upd_idem)
  ultimately have r: "run_in ctl wr e e (FRemove p) s = Some (Done ?s)" by simp
  have "run_in ctl wr e 0 (FErase p) ?s = Some (Done (?s\<lparr>
      ms_connections := (if e = 0 then (ms_connections s)(con_id con := None) else ms_connections s),
      ms_queued := (if e = 0 then ms_queued s else ms_queued s @ [(0, FErase p)])\<rparr>))"
  proof (cases "e = 0")
    case True
    then show ?thesis using live(2) by (simp add: run_in_def)
  next
    case False
    then show ?thesis using run_in_other [of 0 e ?s ctl wr "FErase p"] quiet by simp
  qed
  then have "ms_closeConnect ctl wr None e p s = Some (Done (?s\<lparr>
      ms_connections := (if e = 0 then (ms_connections s)(con_id con := None) else ms_connections s),
      ms_queued := (if e = 0 then ms_queued s else ms_queued s @ [(0, FErase p)])\<rparr>))"
    using live(1) r by (simp add: ms_closeConnect_def ms_removeConnect_def)
  then show ?thesis using d(2,3) by (intro exI [of _ d]) simp
qed

text \<open>A loop in the handlers of a channel, or calling functors, is where it may be when that channel is gone.\<close>

lemma ended_at:
  assumes inv: "ms_inv tab base env s" and at: "ms_at s e = InHandlers p [] evs \<or> ms_at s e = Calling fs" and p: "ms_objects s p = Some (e, con)" "con_status con = CONNECTED"
    and l: "l = ms_at s e \<or> ms_at s e = InHandlers p [] evs \<and> l = EofTail p [] evs \<and> con_status con' = CLOSING"
    and d: "channels d = (channels (ms_loops s e))(ch_fd (con_chan con) := None)"
    and s': "ms_objects s' = (ms_objects s)(p \<mapsto> (e, con'))" "ms_loops s' = (ms_loops s)(e := d)" "ms_batch s' = ms_batch s"
  shows "at_ok base (env_keep env) s' e l" and "running l = running (ms_at s e)"
proof -
  note a = inv_at [OF inv, of e]
  show "running l = running (ms_at s e)" using l by (auto simp: running_def)
  show "at_ok base (env_keep env) s' e l"
  proof (cases "ms_at s e = Calling fs")
    case True
    then show ?thesis using a l by (auto simp: at_ok_def s'(3))
  next
    case False
    then have at1: "ms_at s e = InHandlers p [] evs" "batch_ok (ms_loops s e) evs" "\<forall>ev \<in> set evs. channels (ms_loops s e) (ev_fd ev) \<noteq> Some p"
      using at a p by (auto simp: at_ok_def)
    have "conns_on base (ms_objects s) e p = Some (con_chan con)" "ch_attached (con_chan con)"
      using p inv_obj [OF inv p(1)] by (simp_all add: conns_on_def obj_ok_def)
    then have "channels (ms_loops s e) (ch_fd (con_chan con)) = Some p"
      using in_syncD [OF inv_sync [OF inv]] inv_obj [OF inv p(1)] by (simp add: obj_ok_def)
    then have "ev_fd ev \<noteq> ch_fd (con_chan con)" if "ev \<in> set evs" for ev using at1(3) that by auto
    then show ?thesis using at1 p l by (auto simp: at_ok_def batch_ok_def d s'(1,2))
  qed
qed

lemma inv_ended:
  assumes inv: "ms_inv tab base env s" and p: "ms_objects s p = Some (e, con)" "con_status con = CONNECTED"
    and con': "con_status con' \<in> {CLOSING, CLOSED}" "con_id con' = con_id con" "con_chan con' = con_chan con"
      "buf_ok (input_buf con')" "buf_ok (output_buf con')"
    and d: "in_sync tab d ((conns_on base (ms_objects s) e)(p := None))" "channels d = (channels (ms_loops s e))(ch_fd (con_chan con) := None)"
    and at: "running l = running (ms_at s e)" "at_ok base (env_keep env) s' e l"
    and s': "ms_objects s' = (ms_objects s)(p \<mapsto> (e, con'))" "ms_loops s' = (ms_loops s)(e := d)" "ms_at s' = (ms_at s)(e := l)"
      "ms_connections s' = (if e = 0 then (ms_connections s)(con_id con := None) else ms_connections s)"
      "ms_queued s' = (if e = 0 then ms_queued s else ms_queued s @ [(0, FErase p)])"
      "ms_held s' = ms_held s" "ms_evds s' = ms_evds s" "ms_next_evd_id s' = ms_next_evd_id s" "ms_batch s' = ms_batch s"
  shows "ms_inv tab base env s'"
proof (rule inv_object [OF inv p(1) s'(1) _ s'(2)])
  note i = ms_invD [OF inv]
  note o = i(2) [OF p(1), unfolded obj_ok_def]
  have tab: "ms_connections s (con_id con) = Some p" using o p by simp
  have td: "todo s' x = todo s x @ (if e \<noteq> 0 \<and> x = 0 then [FErase p] else [])" for x
    using at(1) by (auto simp: todo_def s'(3,5))
  have new: "FErase p \<notin> set (todo s 0)" using i(5) [of "FErase p" 0] p by (auto simp: functor_ok_def)
  have own: "j = con_id con \<longleftrightarrow> q = p" if "ms_connections s j = Some q" for j q
    using that i(7) [OF that] p tab by auto
  show "obj_ok base (env_keep env) (env_acceptor env) s' p con'" using o con' by (auto simp: obj_ok_def s'(6))
  show "distinct (control (todo s' x))" for x using i(4) [of x] new by (auto simp: td)
  show "functor_ok s' x f" if f: "f \<in> set (todo s' x)" for x f
  proof (cases "f \<in> set (todo s x)")
    case True
    from i(5) [OF this] show ?thesis using p own by (auto simp: functor_ok_def s'(1,4) split: srv_functor.splits)
  next
    case False
    then show ?thesis using f p tab con' by (auto simp: functor_ok_def td s'(1,4) split: if_splits)
  qed
  show "FEstablish q \<in> set (todo s' x)" if "ms_objects s' q = Some (x, c)" "con_status c = CONNECTING" for q x c
    using i(6) [of q x c] that con'(1) by (auto simp: td s'(1) split: if_splits)
  show "\<exists>x c. ms_objects s' q = Some (x, c) \<and> con_id c = j \<and> (con_status c \<in> {CLOSING, CLOSED} \<longrightarrow> FErase q \<in> set (todo s' 0))"
    if "ms_connections s' j = Some q" for j q
  proof -
    have j: "ms_connections s j = Some q" "e = 0 \<Longrightarrow> q \<noteq> p" using that own by (auto simp: s'(4) split: if_splits)
    then show ?thesis using i(7) [OF j(1)] p con'(2) by (auto simp: td s'(1))
  qed
  show "ms_connections s' j = Some q \<longleftrightarrow> ms_connections s j = Some q" if "q \<noteq> p" for j q
    using own [of j q] tab that by (auto simp: s'(4))
  show "at_ok base (env_keep env) s' x (ms_at s' x)" for x
  proof (cases "x = e")
    case True
    then show ?thesis using at(2) by (simp add: s'(3))
  next
    case False
    then show ?thesis using i(8) [of x] p by (auto simp: at_ok_def s'(1,2,3,9) split: loop_at.splits option.splits)
  qed
qed (use assms in \<open>auto simp: open_con_def\<close>)

text \<open>References on the stack do not matter to the invariant.\<close>

lemma hold_simps [simp]:
  "ms_objects (hold p s) = ms_objects s" "ms_loops (hold p s) = ms_loops s" "ms_connections (hold p s) = ms_connections s"
  "ms_queued (hold p s) = ms_queued s" "ms_at (hold p s) = ms_at s" "ms_held (hold p s) = p # ms_held s" "ms_wire (hold p s) = ms_wire s"
  "ms_evds (hold p s) = ms_evds s" "ms_next_evd_id (hold p s) = ms_next_evd_id s" "ms_closed (hold p s) = ms_closed s"
  "ms_batch (hold p s) = ms_batch s" "ms_calling (hold p s) = ms_calling s" "ms_batch (unhold p s) = ms_batch s" "ms_calling (unhold p s) = ms_calling s"
  "ms_objects (unhold p s) = ms_objects s" "ms_loops (unhold p s) = ms_loops s" "ms_connections (unhold p s) = ms_connections s"
  "ms_queued (unhold p s) = ms_queued s" "ms_at (unhold p s) = ms_at s" "ms_held (unhold p s) = remove1 p (ms_held s)" "ms_wire (unhold p s) = ms_wire s"
  "ms_evds (unhold p s) = ms_evds s" "ms_next_evd_id (unhold p s) = ms_next_evd_id s" "ms_closed (unhold p s) = ms_closed s"
  by (simp_all add: hold_def unhold_def)

lemma live_hold: "ms_objects s p = Some x \<Longrightarrow> p \<in> set (ms_held s) \<Longrightarrow> live_object s p = Some x"
  by (cases x) (simp add: live_object_def alive_def)

lemma inv_holds:
  assumes inv: "ms_inv tab base env s" and same: "ms_objects s' = ms_objects s" "ms_loops s' = ms_loops s" "ms_connections s' = ms_connections s"
    "ms_queued s' = ms_queued s" "ms_at s' = ms_at s" "ms_evds s' = ms_evds s" "ms_next_evd_id s' = ms_next_evd_id s" "ms_batch s' = ms_batch s"
    and held: "\<And>p x. ms_objects s p = Some x \<Longrightarrow> env_keep env \<Longrightarrow> p \<in> set (ms_held s) \<Longrightarrow> p \<in> set (ms_held s')"
  shows "ms_inv tab base env s'"
proof (rule ms_invI)
  note i = ms_invD [OF inv]
  have td: "todo s' x = todo s x" for x by (simp only: todo_def same)
  have fo: "functor_ok s' x f = functor_ok s x f" for x f by (simp only: functor_ok_def same)
  have ao: "at_ok base k s' x l = at_ok base k s x l" for k x l by (simp only: at_ok_def same)
  show "obj_ok base (env_keep env) (env_acceptor env) s' p con" if "ms_objects s' p = Some (e, con)" for p e con
    using i(2) [of p e con] that held [of p] by (auto simp: obj_ok_def same)
  show "functor_ok s' x f" if "f \<in> set (todo s' x)" for x f
    using i(5) [OF that [unfolded td]] by (simp only: fo)
  show "at_ok base (env_keep env) s' x (ms_at s' x)" for x
    using i(8) [of x] by (simp only: ao same)
  show "distinct (control (todo s' x))" for x using i(4) [of x] by (simp only: td)
  show "in_sync tab (ms_loops s' x) (conns_on base (ms_objects s') x)" for x using i(1) [of x] by (simp only: same)
  show "p = q" if "ms_objects s' p = Some (e, con)" "ms_objects s' q = Some (e', con')" "open_con con" "open_con con'"
      "ch_fd (con_chan con) = ch_fd (con_chan con')" for p q e e' con con'
    using i(3) that by (simp only: same)
  show "FEstablish p \<in> set (todo s' e)" if "ms_objects s' p = Some (e, con)" "con_status con = CONNECTING" for p e con
    using i(6) that by (simp only: same td)
  show "\<exists>e con. ms_objects s' p = Some (e, con) \<and> con_id con = j \<and> (con_status con \<in> {CLOSING, CLOSED} \<longrightarrow> FErase p \<in> set (todo s' 0))"
    if "ms_connections s' j = Some p" for j p
    using i(7) [of j p] that by (simp only: same td)
  show "ms_evds s' \<noteq> [] \<Longrightarrow> ms_next_evd_id s' < length (ms_evds s')" unfolding same by (rule i(9))
  show "base x (env_acceptor env) = None" if "x \<noteq> 0" for x using i(10) that by blast
qed

lemma inv_hold: "ms_inv tab base env s \<Longrightarrow> ms_inv tab base env (hold p s)"
  by (rule inv_holds) auto

lemma inv_unhold:
  assumes "ms_inv tab base env s" and "ms_held s = p # H" and "env_keep env \<longrightarrow> p \<in> set H"
  shows "ms_inv tab base env (unhold p s)"
  using assms(1) by (rule inv_holds) (use assms(2,3) in auto)

text \<open>The end of the stream, up to the return of the close callback.\<close>

lemma inv_eof:
  assumes ctl: "ctl_ok (env_ctl env) tab" and inv: "ms_inv tab base env s" and at: "ms_at s e = InHandlers p [] evs"
    and p: "ms_objects s p = Some (e, con)" "con_status con = CONNECTED" and quiet: "e \<noteq> 0 \<Longrightarrow> \<not> ms_calling s 0"
    and rd: "in_read i = Readv_data []" "has_room (input_buf con) 0" "0 \<le> readv_capacity (input_buf con)"
  shows "\<exists>s'. ms_HandleRead env i e p [] evs s = Some (Done s') \<and> ms_inv tab base env s'"
proof -
  note i = ms_invD [OF inv]
  note o = i(2) [OF p(1), unfolded obj_ok_def]
  obtain b where b: "Retrieve (input_buf con) (Readv_data []) = Some (Done (0, b))" "buf_ok b"
  proof -
    have "buf_ok (input_buf con)" using o by blast
    from Retrieve_ok [OF this, of "[]"] rd(2,3) that show thesis by auto
  qed
  let ?con = "con\<lparr>input_buf := b, con_status := CLOSING\<rparr>"
  let ?s1 = "hold p (s\<lparr>ms_objects := (ms_objects s)(p \<mapsto> (e, ?con))\<rparr>)"
  have cs: "conns_on base (ms_objects s) e p = Some (con_chan ?con)" "ch_attached (con_chan ?con)" using p o by (simp_all add: conns_on_def)
  have tab: "ms_connections s (con_id con) = Some p" using o p by simp
  have "ms_connections ?s1 (con_id ?con) = Some p" "ms_objects ?s1 p = Some (e, ?con)" using tab by simp_all
  with closeConnect_result [where s = ?s1 and e = e and p = p and con = ?con and wr = "env_write env" and cs = "conns_on base (ms_objects s) e", OF ctl _ cs]
    i(1) [of e] quiet obtain d where
    d: "in_sync tab d ((conns_on base (ms_objects s) e)(p := None))" "channels d = (channels (ms_loops s e))(ch_fd (con_chan con) := None)"
    "ms_closeConnect (env_ctl env) (env_write env) None e p ?s1 = Some (Done (?s1\<lparr>ms_loops := (ms_loops s)(e := d),
      ms_connections := (if e = 0 then (ms_connections s)(con_id con := None) else ms_connections s),
      ms_queued := (if e = 0 then ms_queued s else ms_queued s @ [(0, FErase p)])\<rparr>))" by auto
  let ?s = "move_to e (EofTail p [] evs) (unhold p (?s1\<lparr>ms_loops := (ms_loops s)(e := d),
      ms_connections := (if e = 0 then (ms_connections s)(con_id con := None) else ms_connections s),
      ms_queued := (if e = 0 then ms_queued s else ms_queued s @ [(0, FErase p)])\<rparr>))"
  have "alive s p" using p tab by (simp add: alive_def)
  then have "ms_HandleRead env i e p [] evs s = Some (Done ?s)"
    using p b(1) rd(1) d(3) by (simp add: ms_HandleRead_def live_object_def)
  moreover have "ms_inv tab base env ?s"
  proof (rule inv_ended [OF inv p, where con' = ?con and d = d and l = "EofTail p [] evs"])
    show "running (EofTail p [] evs) = running (ms_at s e)" "at_ok base (env_keep env) ?s e (EofTail p [] evs)"
      by (rule ended_at [OF inv _ p, where con' = ?con and d = d and s' = ?s and evs = evs]; use at d in \<open>simp add: hold_def unhold_def\<close>)+
  qed (use o b(2) d in \<open>simp_all add: hold_def unhold_def\<close>)
  ultimately show ?thesis by blast
qed

text \<open>A connection closed by the application: the lambda, by a caller that holds a reference.\<close>

definition refers :: "chan \<Rightarrow> ('k, 'x) MultiServer \<Rightarrow> bool" where
  "refers p s \<longleftrightarrow> p \<in> set (ms_held s) \<union> captured ` snd ` set (ms_queued s @ ms_batch s)"

lemma live_refers: "ms_objects s p = Some x \<Longrightarrow> refers p s \<Longrightarrow> live_object s p = Some x"
  by (cases x) (auto simp: live_object_def alive_def refers_def)

lemma inv_force_close:
  assumes ctl: "ctl_ok (env_ctl env) tab" and inv: "ms_inv tab base env s" and at: "ms_at s e = InHandlers p [] evs \<or> ms_at s e = Calling fs"
    and p: "ms_objects s p = Some (e, con)" "con_status con = CONNECTED" "refers p s" and quiet: "e \<noteq> 0 \<Longrightarrow> \<not> ms_calling s 0"
  shows "\<exists>s'. force_close (env_ctl env) (env_write env) e p s = Some (Done s') \<and> ms_inv tab base env s' \<and> ms_at s' = ms_at s \<and>
    ms_held s' = ms_held s \<and> ms_objects s' = (ms_objects s)(p \<mapsto> (e, con\<lparr>con_status := CLOSED\<rparr>)) \<and> ms_wire s' = ms_wire s \<and>
    channels (ms_loops s' e) = (channels (ms_loops s e))(ch_fd (con_chan con) := None) \<and>
    ms_closed s' = ms_closed s @ [ch_fd (con_chan con)] \<and> (e = 0 \<longrightarrow> ms_connections s' (con_id con) = None) \<and>
    ms_queued s' = (if e = 0 then ms_queued s else ms_queued s @ [(0, FErase p)])"
proof -
  note i = ms_invD [OF inv]
  note o = i(2) [OF p(1), unfolded obj_ok_def]
  let ?con = "con\<lparr>con_status := CLOSING\<rparr>"
  let ?s1 = "s\<lparr>ms_objects := (ms_objects s)(p \<mapsto> (e, ?con))\<rparr>"
  have cs: "conns_on base (ms_objects s) e p = Some (con_chan ?con)" "ch_attached (con_chan ?con)" using p o by (simp_all add: conns_on_def)
  have tab: "ms_connections s (con_id con) = Some p" using o p by simp
  have "ms_connections ?s1 (con_id ?con) = Some p" "ms_objects ?s1 p = Some (e, ?con)" using tab by simp_all
  with closeConnect_result [where s = ?s1 and e = e and p = p and con = ?con and wr = "env_write env" and cs = "conns_on base (ms_objects s) e", OF ctl _ cs]
    i(1) [of e] quiet obtain d where
    d: "in_sync tab d ((conns_on base (ms_objects s) e)(p := None))" "channels d = (channels (ms_loops s e))(ch_fd (con_chan con) := None)"
    "ms_closeConnect (env_ctl env) (env_write env) None e p ?s1 = Some (Done (?s1\<lparr>ms_loops := (ms_loops s)(e := d),
      ms_connections := (if e = 0 then (ms_connections s)(con_id con := None) else ms_connections s),
      ms_queued := (if e = 0 then ms_queued s else ms_queued s @ [(0, FErase p)])\<rparr>))" by auto
  let ?c = "ms_closed s @ [ch_fd (con_chan con)]"
  let ?s2 = "?s1\<lparr>ms_loops := (ms_loops s)(e := d),
      ms_connections := (if e = 0 then (ms_connections s)(con_id con := None) else ms_connections s),
      ms_queued := (if e = 0 then ms_queued s else ms_queued s @ [(0, FErase p)])\<rparr>"
  let ?s = "?s2\<lparr>ms_closed := ?c, ms_objects := (ms_objects s)(p \<mapsto> (e, con\<lparr>con_status := CLOSED\<rparr>))\<rparr>"
  have "live_object s p = Some (e, con)" by (rule live_refers) (use p in simp_all)
  moreover have "live_object (?s2\<lparr>ms_closed := ?c\<rparr>) p = Some (e, ?con)" by (rule live_refers) (use p in \<open>auto simp: refers_def\<close>)
  ultimately have "force_close (env_ctl env) (env_write env) e p s = Some (Done ?s)"
    using d(3) by (simp add: force_close_def upd_object_def)
  moreover have "ms_inv tab base env ?s"
  proof (rule inv_ended [OF inv p(1,2), where con' = "con\<lparr>con_status := CLOSED\<rparr>" and d = d and l = "ms_at s e"])
    show "at_ok base (env_keep env) ?s e (ms_at s e)"
      by (rule ended_at(1) [OF inv at p(1,2), where con' = "con\<lparr>con_status := CLOSED\<rparr>" and d = d and s' = ?s]) (use d in simp_all)
  qed (use o d in \<open>simp_all add: fun_upd_idem\<close>)
  ultimately show ?thesis using d(2) by (intro exI [of _ ?s]) simp
qed

lemma inv_ForceClose:
  assumes ctl: "ctl_ok (env_ctl env) tab" and inv: "ms_inv tab base env s" and at: "ms_at s e = InHandlers p [] evs"
    and p: "ms_objects s p = Some (e, con)" "con_status con = CONNECTED" and quiet: "e \<noteq> 0 \<Longrightarrow> \<not> ms_calling s 0"
  shows "\<exists>s'. ms_ForceClose (env_ctl env) (env_write env) e p s = Some (Done s') \<and> ms_inv tab base env s' \<and> ms_at s' = ms_at s \<and>
    ms_held s' = ms_held s \<and> ms_objects s' = (ms_objects s)(p \<mapsto> (e, con\<lparr>con_status := CLOSED\<rparr>)) \<and> ms_wire s' = ms_wire s \<and>
    channels (ms_loops s' e) = (channels (ms_loops s e))(ch_fd (con_chan con) := None) \<and>
    ms_closed s' = ms_closed s @ [ch_fd (con_chan con)] \<and> (e = 0 \<longrightarrow> ms_connections s' (con_id con) = None)"
proof -
  note o = inv_obj [OF inv p(1), unfolded obj_ok_def]
  have h: "ms_objects (hold p s) p = Some (e, con)" "ms_at (hold p s) e = InHandlers p [] evs \<or> ms_at (hold p s) e = Calling []" "refers p (hold p s)"
    using p at by (simp_all add: refers_def)
  from inv_force_close [OF ctl inv_hold [OF inv] h(2,1) p(2) h(3)] quiet obtain s1 where
    s1: "force_close (env_ctl env) (env_write env) e p (hold p s) = Some (Done s1)" "ms_inv tab base env s1" "ms_at s1 = ms_at s" "ms_held s1 = p # ms_held s"
      "ms_objects s1 = (ms_objects s)(p \<mapsto> (e, con\<lparr>con_status := CLOSED\<rparr>))" "ms_wire s1 = ms_wire s"
      "channels (ms_loops s1 e) = (channels (ms_loops s e))(ch_fd (con_chan con) := None)" "ms_closed s1 = ms_closed s @ [ch_fd (con_chan con)]"
      "e = 0 \<longrightarrow> ms_connections s1 (con_id con) = None" by auto
  have "live_object s p = Some (e, con)" using p o by (simp add: live_object_def alive_def)
  then have "ms_ForceClose (env_ctl env) (env_write env) e p s = Some (Done (unhold p s1))" using p(2) s1(1) by (simp add: ms_ForceClose_def)
  moreover have "ms_inv tab base env (unhold p s1)" by (rule inv_unhold [OF s1(2,4)]) (use o in simp)
  ultimately show ?thesis using s1 by (intro exI [of _ "unhold p s1"]) simp
qed

text \<open>The last statement of \<^verbatim>\<open>HandleRead\<close>, on an object something still refers to.\<close>

lemma inv_eof_tail:
  assumes inv: "ms_inv tab base env s" and at: "ms_at s e = EofTail p hs evs" and alive: "alive s p"
  shows "\<exists>s'. loop_step env e i s = Some (Done s') \<and> ms_inv tab base env s'"
proof -
  note i = ms_invD [OF inv]
  obtain con where at1: "batch_ok (ms_loops s e) evs" "\<forall>ev \<in> set evs. channels (ms_loops s e) (ev_fd ev) \<noteq> Some p" "hs = []"
    and p: "ms_objects s p = Some (e, con)" "con_status con = CLOSING"
    using i(8) [of e] by (auto simp: at at_ok_def)
  note o = i(2) [OF p(1), unfolded obj_ok_def]
  let ?con = "con\<lparr>con_status := CLOSED\<rparr>"
  let ?s = "move_to e (InHandlers p [] evs) (s\<lparr>ms_objects := (ms_objects s)(p \<mapsto> (e, ?con))\<rparr>)"
  have step: "loop_step env e i s = Some (Done ?s)" using alive at p at1(3) by (simp add: loop_step_def live_object_def)
  have td: "todo ?s x = todo s x" for x by (simp add: todo_def move_to_def at running_def)
  have "ms_inv tab base env ?s"
  proof (rule inv_object [OF inv p(1), of ?s ?con "ms_loops s e"])
    have "conns_on base (ms_objects s) e p = None" using p by (simp add: conns_on_def)
    then show "in_sync tab (ms_loops s e) ((conns_on base (ms_objects s) e)(p := if con_status ?con = CONNECTED then Some (con_chan ?con) else None))"
      using i(1) [of e] by (simp add: fun_upd_idem)
    show "obj_ok base (env_keep env) (env_acceptor env) ?s p ?con" using o by (simp add: obj_ok_def)
    show "distinct (control (todo ?s x))" for x using i(4) by (simp add: td)
    show "functor_ok ?s x f" if "f \<in> set (todo ?s x)" for x f
      using i(5) [OF that [unfolded td]] p by (auto simp: functor_ok_def split: srv_functor.splits)
    show "FEstablish q \<in> set (todo ?s x)" if "ms_objects ?s q = Some (x, c)" "con_status c = CONNECTING" for q x c
      using i(6) [of q x c] that by (auto simp: td split: if_splits)
    show "\<exists>x c. ms_objects ?s q = Some (x, c) \<and> con_id c = j \<and> (con_status c \<in> {CLOSING, CLOSED} \<longrightarrow> FErase q \<in> set (todo ?s 0))"
      if "ms_connections ?s j = Some q" for j q
      using i(7) [of j q] that p by (auto simp: td)
    show "at_ok base (env_keep env) ?s x (ms_at ?s x)" for x
    proof (cases "x = e")
      case True
      then show ?thesis using at1 by (simp add: at_ok_def)
    next
      case False
      then show ?thesis using i(8) [of x] p by (auto simp: at_ok_def split: loop_at.splits option.splits)
    qed
  qed (use p in \<open>simp_all add: open_con_def\<close>)
  then show ?thesis using step by blast
qed

section \<open>A new connection\<close>

lemma inv_new:
  assumes inv: "ms_inv tab base env s" and new: "ms_objects s p = None" "p \<noteq> env_acceptor env" "\<And>x. base x p = None"
    and obj: "ms_objects s' = (ms_objects s)(p \<mapsto> (e, con))" "con_id con = j" "con_status con = CONNECTING \<or> con_status con = CONNECTED"
    and fresh: "\<And>q x c. ms_objects s q = Some (x, c) \<Longrightarrow> open_con c \<Longrightarrow> ch_fd (con_chan c) \<noteq> ch_fd (con_chan con)"
    and loops: "ms_loops s' = (ms_loops s)(e := d)"
      "\<And>fd. fd \<noteq> ch_fd (con_chan con) \<Longrightarrow> channels d fd = channels (ms_loops s e) fd"
    and sync: "in_sync tab d ((conns_on base (ms_objects s) e)(p := if con_status con = CONNECTED then Some (con_chan con) else None))"
    and held: "set (ms_held s) \<subseteq> set (ms_held s')"
    and evds: "ms_evds s' \<noteq> [] \<Longrightarrow> ms_next_evd_id s' < length (ms_evds s')"
    and conns: "ms_connections s' = (ms_connections s)(j \<mapsto> p)" "ms_connections s j = None"
    and ok: "obj_ok base (env_keep env) (env_acceptor env) s' p con"
    and td: "\<And>x. todo s' x = todo s x @ (if x = e \<and> con_status con = CONNECTING then [FEstablish p] else [])"
    and at: "\<And>x. at_ok base (env_keep env) s' x (ms_at s' x)"
  shows "ms_inv tab base env s'"
proof (rule ms_invI)
  note i = ms_invD [OF inv]
  have "conns_on base (ms_objects s') e = (conns_on base (ms_objects s) e)(p := if con_status con = CONNECTED then Some (con_chan con) else None)"
    by (auto simp: conns_on_def obj(1) fun_eq_iff)
  moreover have "conns_on base (ms_objects s') x = conns_on base (ms_objects s) x" if "x \<noteq> e" for x
    using that new(1,3) by (auto simp: conns_on_def obj(1) fun_eq_iff)
  ultimately show "in_sync tab (ms_loops s' x) (conns_on base (ms_objects s') x)" for x
    using i(1) [of x] sync by (cases "x = e") (simp_all add: loops(1))
  show "obj_ok base (env_keep env) (env_acceptor env) s' q c" if "ms_objects s' q = Some (x, c)" for q x c
  proof (cases "q = p")
    case True
    then show ?thesis using that ok by (simp add: obj(1))
  next
    case False
    then have q: "ms_objects s q = Some (x, c)" using that by (simp add: obj(1))
    have "con_status c = CONNECTING \<longrightarrow> channels (ms_loops s' y) (ch_fd (con_chan c)) = channels (ms_loops s y) (ch_fd (con_chan c))" for y
      using loops(2) [OF fresh [OF q]] by (simp add: loops(1) open_con_def)
    then show ?thesis using i(2) [OF q] held conns(2) by (auto simp: obj_ok_def conns(1))
  qed
  show "q = r" if "ms_objects s' q = Some (e1, c1)" "ms_objects s' r = Some (e2, c2)" "open_con c1" "open_con c2" "ch_fd (con_chan c1) = ch_fd (con_chan c2)"
    for q r e1 e2 c1 c2
    using that fresh i(3) unfolding obj(1) by (metis fun_upd_apply option.inject prod.inject)
  have gone: "FEstablish p \<notin> set (todo s x)" "FErase p \<notin> set (todo s x)" for x
    using i(5) [of "FEstablish p" x] i(5) [of "FErase p" x] new(1) by (auto simp: functor_ok_def)
  show "distinct (control (todo s' x))" for x using i(4) [of x] gone by (auto simp: td)
  show "functor_ok s' x f" if f: "f \<in> set (todo s' x)" for x f
  proof (cases "f \<in> set (todo s x)")
    case True
    have k: "ms_connections s k = Some q \<Longrightarrow> ms_connections s' k = Some q" "ms_objects s q = Some z \<Longrightarrow> ms_objects s' q = Some z" for k q z
      using new(1) conns(2) by (auto simp: obj(1) conns(1))
    from i(5) [OF True] show ?thesis unfolding functor_ok_def by (cases f; simp; use k in blast)
  next
    case False
    then show ?thesis using f by (auto simp: td functor_ok_def obj(1) split: if_splits)
  qed
  show "FEstablish q \<in> set (todo s' x)" if "ms_objects s' q = Some (x, c)" "con_status c = CONNECTING" for q x c
    using i(6) [of q x c] that by (auto simp: td obj(1) split: if_splits)
  show "\<exists>x c. ms_objects s' q = Some (x, c) \<and> con_id c = k \<and> (con_status c \<in> {CLOSING, CLOSED} \<longrightarrow> FErase q \<in> set (todo s' 0))"
    if "ms_connections s' k = Some q" for k q
  proof (cases "k = j")
    case True
    then show ?thesis using that obj by (auto simp: conns(1))
  next
    case False
    then have k: "ms_connections s k = Some q" using that by (simp add: conns(1))
    moreover have "q \<noteq> p" using i(7) [OF k] new(1) by auto
    ultimately show ?thesis using i(7) [OF k] by (auto simp: td obj(1))
  qed
  show "base x (env_acceptor env) = None" if "x \<noteq> 0" for x using i(10) [OF that] .
qed (use evds at in auto)

text \<open>The loop \<^verbatim>\<open>nextEvd\<close> returns next.\<close>

definition next_loop :: "('k, 'x) MultiServer \<Rightarrow> nat" where
  "next_loop s = (if ms_evds s = [] then 0 else ms_evds s ! ms_next_evd_id s)"

lemma nextEvd_ok:
  assumes "ms_evds s \<noteq> [] \<Longrightarrow> ms_next_evd_id s < length (ms_evds s)"
  obtains n where "nextEvd s = Some (next_loop s, s\<lparr>ms_next_evd_id := n\<rparr>)" "ms_evds s \<noteq> [] \<longrightarrow> n < length (ms_evds s)"
proof (cases "ms_evds s = []")
  case True
  then have "nextEvd s = Some (next_loop s, s\<lparr>ms_next_evd_id := ms_next_evd_id s\<rparr>)" by (simp add: nextEvd_def next_loop_def)
  then show thesis by (rule that) (use True in simp)
next
  case False
  let ?n = "if length (ms_evds s) \<le> Suc (ms_next_evd_id s) then 0 else Suc (ms_next_evd_id s)"
  have "nextEvd s = Some (next_loop s, s\<lparr>ms_next_evd_id := ?n\<rparr>)" using False assms by (simp add: nextEvd_def next_loop_def)
  then show thesis by (rule that) (use False assms in auto)
qed

lemma at_ok_new:
  assumes "at_ok base k s x l" and "ms_objects s p = None" and "\<And>y. base y p = None"
    and "\<And>fd y. channels (ms_loops s y) fd \<noteq> None \<Longrightarrow> channels (ms_loops s' y) fd = channels (ms_loops s y) fd"
    and "ms_objects s' = (ms_objects s)(p \<mapsto> o')" and "ms_batch s' = ms_batch s"
  shows "at_ok base k s' x l"
proof -
  have b: "batch_ok (ms_loops s' x) evs" if "batch_ok (ms_loops s x) evs" for evs
    using that assms(4) unfolding batch_ok_def by metis
  have c: "\<forall>ev\<in>set evs. channels (ms_loops s' x) (ev_fd ev) \<noteq> Some c"
    if "batch_ok (ms_loops s x) evs" "\<forall>ev\<in>set evs. channels (ms_loops s x) (ev_fd ev) \<noteq> Some c" for evs c
    using that assms(4) unfolding batch_ok_def by metis
  show ?thesis using assms(1-3) b c by (auto simp: at_ok_def assms(5,6) split: loop_at.splits option.splits)
qed

lemma inv_accept:
  assumes ctl: "ctl_ok (env_ctl env) tab" and inv: "ms_inv tab base env s" and at: "ms_at s e = InHandlers (env_acceptor env) hs evs"
    and acc: "in_accept i = Accepted fd" "0 \<le> fd" "\<And>x. channels (ms_loops s x) fd = None"
      "\<And>q x c. ms_objects s q = Some (x, c) \<Longrightarrow> open_con c \<Longrightarrow> ch_fd (con_chan c) \<noteq> fd"
    and self: "ms_objects s (in_self i) = None" "in_self i \<noteq> env_acceptor env" "\<And>x. base x (in_self i) = None"
    and ids: "ms_connections s j0 = None" "max 1 (ms_next_id s) \<le> j0" "j0 < 2 ^ 63"
    and quiet: "next_loop s \<noteq> 0 \<Longrightarrow> \<not> ms_calling s (next_loop s)"
  shows "\<exists>s'. call_handler env i e (env_acceptor env) HRead hs evs s = Some (Done s') \<and> ms_inv tab base env s'"
proof -
  note i = ms_invD [OF inv]
  let ?p = "in_self i"
  have none: "ms_objects s (env_acceptor env) = None" using i(2) [of "env_acceptor env"] by (cases "ms_objects s (env_acceptor env)") (auto simp: obj_ok_def)
  then have e0: "e = 0" using i(8) [of e] i(10) [of e] by (cases "e = 0") (auto simp: at at_ok_def)
  from next_id_loop_exists [of "ms_connections s" j0 1 "ms_next_id s", OF ids] obtain j where
    j: "next_id_loop 1 (ms_connections s) (ms_next_id s) = Some j" by auto
  then have free: "ms_connections s j = None" using next_id_loop_Some by blast
  let ?sj = "s\<lparr>ms_next_id := j\<rparr>"
  define evd where "evd = next_loop s"
  have "next_loop ?sj = evd" by (simp add: next_loop_def evd_def)
  then obtain n where n: "nextEvd ?sj = Some (evd, ?sj\<lparr>ms_next_evd_id := n\<rparr>)" "ms_evds s \<noteq> [] \<longrightarrow> n < length (ms_evds s)"
    using nextEvd_ok [of ?sj] i(9) by auto
  define con0 where "con0 = (new_Connection j ?p fd :: 'b Connection)"
  define ctx where "ctx c = (if env_context env = None then c else c\<lparr>con_context := env_context env\<rparr>)" for c :: "'b Connection"
  have con0: "con_id con0 = j" "con_status con0 = CONNECTING" "ch_fd (con_chan con0) = fd" "ch_self (con_chan con0) = ?p"
    "\<not> ch_attached (con_chan con0)" "ch_events (con_chan con0) = EV_NONE" "buf_ok (input_buf con0)" "buf_ok (output_buf con0)" "content (output_buf con0) = []"
    by (simp_all add: con0_def new_Connection_def kInitialSize_def)
  have ctx: "con_id (ctx c) = con_id c" "con_status (ctx c) = con_status c" "con_chan (ctx c) = con_chan c" "input_buf (ctx c) = input_buf c"
    "output_buf (ctx c) = output_buf c" for c by (simp_all add: ctx_def)
  let ?s1 = "?sj\<lparr>ms_next_evd_id := n, ms_objects := (ms_objects s)(?p \<mapsto> (evd, con0)), ms_held := ?p # ms_held s\<rparr>"
  let ?fin = "\<lambda>t con. t\<lparr>ms_connections := (ms_connections s)(j \<mapsto> ?p),
    ms_objects := (ms_objects s)(?p \<mapsto> (evd, ctx con)), ms_held := (if env_keep env then ?p # ms_held s else ms_held s)\<rparr>"
  have step: "call_handler env i e (env_acceptor env) HRead hs evs s = Some (Done (?fin s2 con))"
    if "run_in (env_ctl env) (env_write env) 0 evd (FEstablish ?p) ?s1 = Some (Done s2)" "ms_objects s2 = (ms_objects s)(?p \<mapsto> (evd, con))"
      "ms_held s2 = ?p # ms_held s" "ms_connections s2 = ms_connections s" for s2 con
    using that at acc(1) j n(1) e0
    by (simp add: loop_step_def call_handler_def acceptor_HandleRead_def accept_connect_def ms_newConnect_def ms_nextId_def con0_def ctx_def Let_def)
  have at1: "batch_ok (ms_loops s 0) evs" "\<forall>ev\<in>set evs. channels (ms_loops s 0) (ev_fd ev) \<noteq> Some (env_acceptor env)" "base 0 (env_acceptor env) \<noteq> None"
    using i(8) [of e, unfolded at] none e0 by (auto simp: at_ok_def)
  have at': "at_ok base (env_keep env) s x (ms_at s x)" for x by (rule i(8))
  have wn: "\<not> IsWritable EV_NONE" "\<not> IsWritable EV_READ" by (simp_all add: IsWritable_def event_bits)
  show ?thesis
  proof (cases "evd = 0")
    case False
    let ?s2 = "?s1\<lparr>ms_queued := ms_queued s @ [(evd, FEstablish ?p)]\<rparr>"
    have "run_in (env_ctl env) (env_write env) 0 evd (FEstablish ?p) ?s1 = Some (Done ?s2)"
      using run_in_other [of evd 0 ?s1] False quiet by (simp add: evd_def)
    then have st: "call_handler env i e (env_acceptor env) HRead hs evs s = Some (Done (?fin ?s2 con0))" by (rule step) simp_all
    have "ms_inv tab base env (?fin ?s2 con0)"
    proof (rule inv_new [OF inv self, of "?fin ?s2 con0" evd "ctx con0" j "ms_loops s evd"])
      have "conns_on base (ms_objects s) evd ?p = None" using self by (simp add: conns_on_def)
      then show "in_sync tab (ms_loops s evd) ((conns_on base (ms_objects s) evd)(?p := if con_status (ctx con0) = CONNECTED then Some (con_chan (ctx con0)) else None))"
        using i(1) [of evd] by (simp add: ctx con0 fun_upd_idem)
      show "obj_ok base (env_keep env) (env_acceptor env) (?fin ?s2 con0) ?p (ctx con0)"
        using acc self by (simp add: obj_ok_def ctx con0)
      show "todo (?fin ?s2 con0) x = todo s x @ (if x = evd \<and> con_status (ctx con0) = CONNECTING then [FEstablish ?p] else [])" for x
        using at e0 by (auto simp: todo_def move_to_def running_def ctx con0)
      show "at_ok base (env_keep env) (?fin ?s2 con0) x (ms_at (?fin ?s2 con0) x)" for x
        using at_ok_new [where s' = "?fin ?s2 con0", OF at' [of x] self(1) self(3)] by simp
    qed (use acc free n i(9) in \<open>auto simp: ctx con0\<close>)
    then show ?thesis using st by blast
  next
    case True
    have none': "conns_on base (ms_objects s) 0 ?p = None" using self by (simp add: conns_on_def)
    let ?chan = "(con_chan con0)\<lparr>ch_events := EV_READ, ch_attached := True\<rparr>" let ?con = "con0\<lparr>con_chan := ?chan, con_status := CONNECTED\<rparr>"
    from establish_conn [OF ctl i(1) none' con0(4,5,6), of ?chan "ms_wire s ?p" "[]"] acc obtain d where
      d: "establish (env_ctl env) \<lparr>cs_evd = ms_loops s 0, cs_con = con0, cs_wire = ms_wire s ?p, cs_closed = []\<rparr> =
        Some (Done \<lparr>cs_evd = d, cs_con = ?con, cs_wire = ms_wire s ?p, cs_closed = []\<rparr>)"
      "in_sync tab d ((conns_on base (ms_objects s) 0)(?p \<mapsto> ?chan))" "channels d = (channels (ms_loops s 0))(fd \<mapsto> ?p)" by (auto simp: con0)
    let ?s2 = "?s1\<lparr>ms_loops := (ms_loops s)(0 := d), ms_objects := (ms_objects s)(?p \<mapsto> (0, ?con)), ms_wire := (ms_wire s)(?p := ms_wire s ?p)\<rparr>"
    have "alive ?s1 ?p" by (simp add: alive_def)
    then have "run_in (env_ctl env) (env_write env) 0 evd (FEstablish ?p) ?s1 = Some (Done ?s2)"
      using True d(1) by (simp add: run_in_def on_object_def live_object_def)
    then have st: "call_handler env i e (env_acceptor env) HRead hs evs s = Some (Done (?fin ?s2 ?con))" by (rule step) (use True in simp_all)
    have "ms_inv tab base env (?fin ?s2 ?con)"
    proof (rule inv_new [OF inv self, of "?fin ?s2 ?con" 0 "ctx ?con" j d])
      show "in_sync tab d ((conns_on base (ms_objects s) 0)(?p := if con_status (ctx ?con) = CONNECTED then Some (con_chan (ctx ?con)) else None))"
        using d(2) by (simp add: ctx)
      show "obj_ok base (env_keep env) (env_acceptor env) (?fin ?s2 ?con) ?p (ctx ?con)"
        using acc self wn by (simp add: obj_ok_def ctx con0)
      show "todo (?fin ?s2 ?con) x = todo s x @ (if x = 0 \<and> con_status (ctx ?con) = CONNECTING then [FEstablish ?p] else [])" for x
        using at e0 by (auto simp: todo_def move_to_def running_def ctx con0)
      show "at_ok base (env_keep env) (?fin ?s2 ?con) x (ms_at (?fin ?s2 ?con) x)" for x
      proof -
        have "at_ok base (env_keep env) (?fin ?s2 ?con) x (ms_at s x)"
          by (rule at_ok_new [where o' = "(0, ctx ?con)", OF at' self(1) self(3)]) (use d(3) acc(3) True in auto)
        then show ?thesis by simp
      qed
    qed (use acc free n i(9) d True in \<open>auto simp: ctx con0\<close>)
    then show ?thesis using st by blast
  qed
qed

end
