(* ===== verification/Multi_Safety.thy ===== *)
theory Multi_Safety
  imports Multi_Invariant
begin

text \<open>
  The safety of the server with worker loops: \<^theory_text>\<open>input_ok\<close> is what the system calls return as documented, with the sizes the
  code can handle, \<^theory_text>\<open>hazard\<close> lists the situations the code does not survive, and in every reachable state every step is
  either in one of those or defined, and keeps the server intact. The loops start as their constructor leaves them. What the
  message callback owes the server is the locale \<open>message_callback\<close>; the echo server of the repository's test program meets it.
\<close>

section \<open>Steps of a connection that is up\<close>

text \<open>What handlers of a connection leave alone.\<close>

definition conn_kept :: "('k, 'x) conn_state \<Rightarrow> ('k, 'x) conn_state \<Rightarrow> bool" where
  "conn_kept c c' \<longleftrightarrow> con_id (cs_con c') = con_id (cs_con c) \<and> ch_fd (con_chan (cs_con c')) = ch_fd (con_chan (cs_con c)) \<and>
     ch_self (con_chan (cs_con c')) = ch_self (con_chan (cs_con c)) \<and> channels (cs_evd c') = channels (cs_evd c) \<and>
     wakeup_fds (cs_evd c') = wakeup_fds (cs_evd c)"

lemma SetEvents_kept:
  "SetEvents ctl d c ev = Done (d', c') \<Longrightarrow> ch_attached c \<Longrightarrow> channels d' = channels d \<and> wakeup_fds d' = wakeup_fds d \<and>
     ch_fd c' = ch_fd c \<and> ch_self c' = ch_self c"
  by (auto simp: SetEvents_def channel_Update_def UpdateChannel_def split: or_abort.splits prod.splits)

lemma conn_HandleWrite_kept:
  "conn_HandleWrite ctl r c = Some (Done c') \<Longrightarrow> ch_attached (con_chan (cs_con c)) \<Longrightarrow>
     conn_kept c c' \<and> input_buf (cs_con c') = input_buf (cs_con c)"
  by (auto simp: conn_HandleWrite_def conn_kept_def Let_def to_wire_def on_channel_def DisableWrite_def dest!: SetEvents_kept
      split: option.splits if_splits or_abort.splits send_result.splits)

lemma conn_send_kept:
  "conn_send ctl r d c = Some (Done c') \<Longrightarrow> ch_attached (con_chan (cs_con c)) \<Longrightarrow>
     conn_kept c c' \<and> input_buf (cs_con c') = input_buf (cs_con c)"
  by (auto simp: conn_send_def send_queue_def conn_kept_def Let_def to_wire_def on_channel_def EnableWrite_def dest!: SetEvents_kept
      split: option.splits if_splits or_abort.splits send_result.splits)

lemma on_channel_context: "on_channel f c = Some (Done c') \<Longrightarrow> con_context (cs_con c') = con_context (cs_con c)"
  by (auto simp: on_channel_def split: or_abort.splits prod.splits)

lemma conn_send_context: "conn_send ctl r d c = Some (Done c') \<Longrightarrow> con_context (cs_con c') = con_context (cs_con c)"
  by (auto simp: conn_send_def send_queue_def to_wire_def Let_def dest!: on_channel_context split: option.splits if_splits send_result.splits)

text \<open>A connection with everything a handler may rely on.\<close>

definition conn_up :: "('k \<Rightarrow> int \<rightharpoonup> int) \<Rightarrow> (chan \<rightharpoonup> Channel) \<Rightarrow> ('k, 'x) conn_state \<Rightarrow> bool" where
  "conn_up tab cs c \<longleftrightarrow> conn_ok tab cs c \<and> buf_ok (input_buf (cs_con c))"

lemma conn_ok_sync:
  "conn_ok tab cs c \<Longrightarrow> in_sync tab (cs_evd c) (cs(ch_self (con_chan (cs_con c)) \<mapsto> con_chan (cs_con c)))"
proof -
  assume c: "conn_ok tab cs c"
  then obtain i where i: "in_sync tab (cs_evd c) (cs(i \<mapsto> con_chan (cs_con c)))" by (auto simp: conn_ok_def)
  then have "ch_self (con_chan (cs_con c)) = i" unfolding in_sync_def by (metis fun_upd_same)
  then show ?thesis using i by simp
qed

text \<open>A connection that is up in a state with the invariant, whatever has arrived.\<close>

lemma object_conn_up:
  assumes inv: "ms_inv tab base env s" and p: "ms_objects s p = Some (e, con)" and up: "con_status con = CONNECTED" and b: "buf_ok b"
  shows "conn_up tab (conns_on base (ms_objects s) e) \<lparr>cs_evd = ms_loops s e, cs_con = con\<lparr>input_buf := b\<rparr>, cs_wire = w, cs_closed = cl\<rparr>"
proof -
  let ?cs = "conns_on base (ms_objects s) e"
  have "?cs p = Some (con_chan con)" using p up by (simp add: conns_on_def)
  then have "in_sync tab (ms_loops s e) (?cs(p \<mapsto> con_chan con))" using inv_sync [OF inv, of e] by (simp add: fun_upd_idem)
  then show ?thesis using inv_obj [OF inv p, unfolded obj_ok_def] up b unfolding conn_up_def conn_ok_def by auto
qed

text \<open>An operation of that kind, called by the loop of the connection.\<close>

lemma inv_conn_op:
  assumes inv: "ms_inv tab base env s" and p: "ms_objects s p = Some (e, con)" and up: "con_status con = CONNECTED"
    and f: "\<And>cs. conn_up tab cs \<lparr>cs_evd = ms_loops s e, cs_con = con, cs_wire = ms_wire s p, cs_closed = []\<rparr> \<Longrightarrow>
      \<exists>c'. f \<lparr>cs_evd = ms_loops s e, cs_con = con, cs_wire = ms_wire s p, cs_closed = []\<rparr> = Some (Done c') \<and> conn_up tab cs c' \<and>
        conn_kept \<lparr>cs_evd = ms_loops s e, cs_con = con, cs_wire = ms_wire s p, cs_closed = []\<rparr> c'"
  shows "\<exists>s'. on_object e p f s = Some (Done s') \<and> ms_inv tab base env s' \<and> ms_at s' = ms_at s \<and>
    (\<forall>x. channels (ms_loops s' x) = channels (ms_loops s x)) \<and> (\<exists>con'. ms_objects s' = (ms_objects s)(p \<mapsto> (e, con')) \<and> con_status con' = CONNECTED) \<and>
    ms_held s' = ms_held s"
proof -
  note i = ms_invD [OF inv]
  note o = i(2) [OF p, unfolded obj_ok_def]
  let ?c = "\<lparr>cs_evd = ms_loops s e, cs_con = con, cs_wire = ms_wire s p, cs_closed = []\<rparr>"
  let ?cs = "conns_on base (ms_objects s) e"
  have "conn_up tab ?cs ?c" using object_conn_up [OF inv p up, of "input_buf con" "ms_wire s p" "[]"] o by simp
  from f [OF this] obtain c' where c': "f ?c = Some (Done c')" "conn_up tab ?cs c'" "conn_kept ?c c'" by blast
  have a: "alive s p" using p o up by (simp add: alive_def)
  let ?s = "s\<lparr>ms_loops := (ms_loops s)(e := cs_evd c'), ms_objects := (ms_objects s)(p \<mapsto> (e, cs_con c')), ms_wire := (ms_wire s)(p := cs_wire c')\<rparr>"
  have "on_object e p f s = Some (Done ?s)" using a p c'(1) by (simp add: on_object_def live_object_def)
  moreover have "ms_inv tab base env ?s"
  proof (rule inv_up [OF inv p up])
    show "in_sync tab (cs_evd c') (?cs(p \<mapsto> con_chan (cs_con c')))"
      using conn_ok_sync [of tab ?cs c'] c' o by (simp add: conn_up_def conn_kept_def)
  qed (use c' o in \<open>auto simp: conn_up_def conn_ok_def conn_kept_def\<close>)
  moreover have "con_status (cs_con c') = CONNECTED" using c'(2) by (simp add: conn_up_def conn_ok_def)
  ultimately show ?thesis using c'(3) by (intro exI [of _ ?s]) (auto simp: conn_kept_def)
qed

lemma on_object_result:
  "on_object e p f s = Some (Done s') \<Longrightarrow> ms_objects s p = Some (x, con) \<Longrightarrow>
    \<exists>c'. f \<lparr>cs_evd = ms_loops s e, cs_con = con, cs_wire = ms_wire s p, cs_closed = []\<rparr> = Some (Done c') \<and>
      s' = s\<lparr>ms_loops := (ms_loops s)(e := cs_evd c'), ms_objects := (ms_objects s)(p \<mapsto> (x, cs_con c')), ms_wire := (ms_wire s)(p := cs_wire c')\<rparr>"
  by (auto simp: on_object_def live_object_def and_then_Done split: option.splits if_splits)

text \<open>Sending on a connection that is up.\<close>

lemma inv_send:
  assumes ctl: "ctl_ok ctl tab" and inv: "ms_inv tab base env s" and p: "ms_objects s p = Some (e, con)" "con_status con = CONNECTED"
    and d: "has_room (output_buf con) (length d)" "event_ok (WSend d r)"
  shows "\<exists>s' con'. on_object e p (conn_send ctl r d) s = Some (Done s') \<and> ms_inv tab base env s' \<and> ms_at s' = ms_at s \<and> ms_held s' = ms_held s \<and>
    ms_objects s' = (ms_objects s)(p \<mapsto> (e, con')) \<and> con_status con' = CONNECTED \<and> con_id con' = con_id con \<and>
    ch_fd (con_chan con') = ch_fd (con_chan con) \<and> input_buf con' = input_buf con \<and> con_context con' = con_context con \<and>
    ms_wire s' p @ content (output_buf con') = ms_wire s p @ content (output_buf con) @ d \<and>
    length (buf (output_buf con')) \<le> length (buf (output_buf con)) + length d \<and>
    ms_connections s' = ms_connections s \<and> ms_closed s' = ms_closed s \<and> ms_queued s' = ms_queued s"
proof -
  let ?c = "\<lparr>cs_evd = ms_loops s e, cs_con = con, cs_wire = ms_wire s p, cs_closed = []\<rparr>"
  have f: "\<exists>c'. conn_send ctl r d ?c = Some (Done c') \<and> conn_up tab cs c' \<and> conn_kept ?c c'" if "conn_up tab cs ?c" for cs
  proof -
    have ok: "conn_ok tab cs ?c" "ch_attached (con_chan (cs_con ?c))" using that by (simp_all add: conn_up_def conn_ok_def)
    from conn_send_ok [OF ctl ok(1) _ d(2)] d(1) obtain c' where c': "conn_send ctl r d ?c = Some (Done c')" "conn_ok tab cs c'"
      by (auto simp: stream_step_def)
    then show ?thesis using conn_send_kept [OF c'(1) ok(2)] that by (auto simp: conn_up_def)
  qed
  from inv_conn_op [where f = "conn_send ctl r d", OF inv p f] obtain s' where
    s': "on_object e p (conn_send ctl r d) s = Some (Done s')" "ms_inv tab base env s'" "ms_at s' = ms_at s" "ms_held s' = ms_held s" by blast
  from on_object_result [OF s'(1) p(1)] obtain c' where c': "conn_send ctl r d ?c = Some (Done c')"
    "s' = s\<lparr>ms_loops := (ms_loops s)(e := cs_evd c'), ms_objects := (ms_objects s)(p \<mapsto> (e, cs_con c')), ms_wire := (ms_wire s)(p := cs_wire c')\<rparr>" by blast
  let ?cs = "conns_on base (ms_objects s) e"
  note o = inv_obj [OF inv p(1), unfolded obj_ok_def]
  have up: "conn_up tab ?cs ?c" using object_conn_up [OF inv p, of "input_buf con" "ms_wire s p" "[]"] o by simp
  then have ok: "conn_ok tab ?cs ?c" "ch_attached (con_chan (cs_con ?c))" by (simp_all add: conn_up_def conn_ok_def)
  from conn_send_ok [OF ctl ok(1) _ d(2)] d(1) c'(1) have w: "conn_ok tab ?cs c'"
    "cs_wire c' @ content (output_buf (cs_con c')) = ms_wire s p @ content (output_buf con) @ d"
    "length (buf (output_buf (cs_con c'))) \<le> length (buf (output_buf con)) + length d" by (auto simp: stream_step_def)
  show ?thesis using s' c' w conn_send_kept [OF c'(1) ok(2)] conn_send_context [OF c'(1)]
    by (intro exI [of _ s'] exI [of _ "cs_con c'"]) (simp add: conn_kept_def conn_ok_def)
qed

lemma on_object_move:
  "on_object e p f (move_to x l s) = Some (Done s') \<Longrightarrow> \<exists>u. on_object e p f s = Some (Done u) \<and> s' = move_to x l u"
  by (fastforce simp: on_object_def live_object_def alive_def move_to_def and_then_Done split: option.splits if_splits)

text \<open>Running a \<^verbatim>\<open>send\<close> that another thread has queued.\<close>

lemma inv_sending:
  assumes ctl: "ctl_ok (env_ctl env) tab" and inv: "ms_inv tab base env s" and at: "ms_at s e = Calling (FSend p m r # fs)"
    and room: "\<forall>con d. m = Some d \<longrightarrow> ms_objects s p = Some (e, con) \<longrightarrow> con_status con = CONNECTED \<longrightarrow> has_room (output_buf con) (length d)"
  shows "\<exists>d con con' s'. m = Some d \<and> ms_objects s p = Some (e, con) \<and> loop_step env e i s = Some (Done s') \<and> ms_inv tab base env s' \<and>
    ms_at s' = (ms_at s)(e := Calling fs) \<and> ms_queued s' = ms_queued s \<and> ms_objects s' = (ms_objects s)(p \<mapsto> (e, con')) \<and>
    con_status con' = con_status con \<and> length (buf (output_buf con')) \<le> length (buf (output_buf con)) + length d \<and>
    (con_status con = CONNECTED \<longrightarrow> ms_wire s' p @ content (output_buf con') = ms_wire s p @ content (output_buf con) @ d) \<and>
    (\<forall>q. q \<noteq> p \<longrightarrow> ms_wire s' q = ms_wire s q)"
proof -
  let ?t = "move_to e (Calling fs) s"
  have td: "todo s e = FSend p m r # todo ?t e" "x \<noteq> e \<Longrightarrow> todo ?t x = todo s x" for x
    by (simp_all add: todo_def at running_def)
  have b: "(e, FSend p m r) \<in> set (ms_batch s)" "\<forall>f \<in> set fs. (e, f) \<in> set (ms_batch s)"
    using inv_at [OF inv, of e] by (simp_all add: at at_ok_def)
  have "functor_ok s e (FSend p m r)" by (rule inv_functor [OF inv]) (simp add: td)
  then obtain con d where p: "ms_objects s p = Some (e, con)" and m: "m = Some d" "event_ok (WSend d r)" by (auto simp: functor_ok_def)
  have inv1: "ms_inv tab base env ?t"
  proof (rule inv_flow [OF inv, of _ e "Calling fs"])
    show "control (todo ?t x) = control (todo s x)" for x using td by (cases "x = e") simp_all
    show "functor_ok s x f" if "f \<in> set (todo ?t x)" for x f using that td by (intro inv_functor [OF inv]) (cases "x = e"; auto)
  qed (use b in \<open>simp_all add: at_ok_def\<close>)
  have live: "live_object s p = Some (e, con)" using p b(1) by (auto simp: live_object_def alive_def intro: rev_image_eqI)
  show ?thesis
  proof (cases "con_status con = CONNECTED")
    case True
    have p1: "ms_objects ?t p = Some (e, con)" using p by simp
    from inv_send [OF ctl inv1 p1 True room [rule_format, OF m(1) p True] m(2)] obtain s1 con' where
      s1: "on_object e p (conn_send (env_ctl env) r d) ?t = Some (Done s1)" "ms_inv tab base env s1" "ms_at s1 = (ms_at s)(e := Calling fs)"
      "ms_objects s1 = (ms_objects s)(p \<mapsto> (e, con'))" "con_status con' = CONNECTED"
      "ms_wire s1 p @ content (output_buf con') = ms_wire s p @ content (output_buf con) @ d"
      "length (buf (output_buf con')) \<le> length (buf (output_buf con)) + length d" "ms_queued s1 = ms_queued s" by auto
    from on_object_move [OF s1(1)] obtain u where u: "on_object e p (conn_send (env_ctl env) r d) s = Some (Done u)" "s1 = move_to e (Calling fs) u" by blast
    have "ms_wire s1 q = ms_wire s q" if "q \<noteq> p" for q using on_object_result [OF u(1) p] u(2) that by auto
    moreover have "loop_step env e i s = Some (Done s1)" using u at m by (simp add: loop_step_def)
    ultimately show ?thesis using m(1) p s1 True by (intro exI [of _ d] exI [of _ con] exI [of _ con'] exI [of _ s1]) simp
  next
    case False
    then have "on_object e p (conn_send (env_ctl env) r d) s = Some (Done s)"
      using live p by (simp add: on_object_def conn_send_def fun_upd_idem)
    then have "loop_step env e i s = Some (Done ?t)" using at m by (simp add: loop_step_def)
    then show ?thesis using m(1) p inv1 False by (intro exI [of _ d] exI [of _ con] exI [of _ con] exI [of _ ?t]) (simp add: fun_upd_idem)
  qed
qed

text \<open>Another thread calls \<^verbatim>\<open>Send\<close>, with a reference and with data that stays until it is sent. When the call succeeds, the
  functor is queued; it does when the loop is not calling its functors.\<close>

lemma run_in_queues: "run_in ctl wr cur e f s = Some (Done s') \<Longrightarrow> cur \<noteq> e \<Longrightarrow> s' = s\<lparr>ms_queued := ms_queued s @ [(e, f)]\<rparr>"
  by (auto simp: run_in_def Let_def split: if_splits option.splits or_abort.splits)

lemma inv_Send:
  assumes inv: "ms_inv tab base env s" and p: "ms_objects s p = Some (e, con)" "alive s p" and cur: "cur \<noteq> e" and d: "event_ok (WSend d r)"
  shows "\<not> ms_calling s e \<Longrightarrow> ms_Send ctl wr cur p (Some d) r s = Some (Done (s\<lparr>ms_queued := ms_queued s @ [(e, FSend p (Some d) r)]\<rparr>))"
    and "ms_Send ctl wr cur p (Some d) r s = Some (Done s') \<Longrightarrow> ms_inv tab base env s'"
proof -
  let ?s = "s\<lparr>ms_queued := ms_queued s @ [(e, FSend p (Some d) r)]\<rparr>"
  show "ms_Send ctl wr cur p (Some d) r s = Some (Done ?s)" if "\<not> ms_calling s e"
    using p cur run_in_other [OF _ that, of cur ctl wr "FSend p (Some d) r"] by (simp add: ms_Send_def live_object_def)
  have td: "todo ?s x = todo s x @ (if x = e then [FSend p (Some d) r] else [])" for x by (simp add: todo_def)
  have "ms_inv tab base env ?s"
  proof (rule inv_flow [OF inv, of _ e "ms_at s e"])
    show "control (todo ?s x) = control (todo s x)" for x by (simp add: td)
    show "functor_ok s x f" if "f \<in> set (todo ?s x)" for x f
      using that p d inv_functor [OF inv] by (auto simp: td functor_ok_def split: if_splits)
    show "at_ok base (env_keep env) ?s e (ms_at s e)" using inv_at [OF inv, of e] by (auto simp: at_ok_def split: loop_at.splits option.splits)
  qed simp_all
  then show "ms_inv tab base env s'" if "ms_Send ctl wr cur p (Some d) r s = Some (Done s')"
    using that p cur run_in_queues [of ctl wr cur e "FSend p (Some d) r" s s'] by (simp add: ms_Send_def live_object_def)
qed

text \<open>Running the lambda of a \<^verbatim>\<open>ForceClose\<close> that another thread has queued, on a connection that is still up.\<close>

lemma inv_closing:
  assumes ctl: "ctl_ok (env_ctl env) tab" and inv: "ms_inv tab base env s" and at: "ms_at s e = Calling (FClose p # fs)"
    and up: "\<forall>con. ms_objects s p = Some (e, con) \<longrightarrow> con_status con = CONNECTED" and quiet: "e \<noteq> 0 \<Longrightarrow> \<not> ms_calling s 0"
  shows "\<exists>con s'. ms_objects s p = Some (e, con) \<and> loop_step env e i s = Some (Done s') \<and> ms_inv tab base env s' \<and>
    ms_objects s' = (ms_objects s)(p \<mapsto> (e, con\<lparr>con_status := CLOSED\<rparr>)) \<and> ms_closed s' = ms_closed s @ [ch_fd (con_chan con)]"
proof -
  have td: "FClose p \<in> set (todo s e)" by (simp add: todo_def at running_def)
  have b: "(e, FClose p) \<in> set (ms_batch s)" "\<forall>f \<in> set fs. (e, f) \<in> set (ms_batch s)"
    using inv_at [OF inv, of e] by (simp_all add: at at_ok_def)
  obtain con where p: "ms_objects s p = Some (e, con)" using inv_functor [OF inv td] by (auto simp: functor_ok_def)
  have "refers p s" using b(1) by (force simp: refers_def)
  from inv_force_close [OF ctl inv disjI2 p up [rule_format, OF p] this quiet] at obtain s1 where
    s1: "force_close (env_ctl env) (env_write env) e p s = Some (Done s1)" "ms_inv tab base env s1" "ms_at s1 = ms_at s"
      "ms_objects s1 = (ms_objects s)(p \<mapsto> (e, con\<lparr>con_status := CLOSED\<rparr>))" "ms_closed s1 = ms_closed s @ [ch_fd (con_chan con)]" by blast
  let ?t = "move_to e (Calling fs) s1"
  have "(e, f) \<in> set (ms_batch s1)" if "f \<in> set fs" for f
    using inv_at [OF s1(2), of e] that by (simp add: s1(3) at at_ok_def)
  moreover have td1: "todo s1 e = FClose p # todo ?t e" "x \<noteq> e \<Longrightarrow> todo ?t x = todo s1 x" for x
    by (simp_all add: todo_def s1(3) at running_def)
  ultimately have "ms_inv tab base env ?t"
  proof (intro inv_flow [OF s1(2), of _ e "Calling fs"])
    show "control (todo ?t x) = control (todo s1 x)" for x using td1 by (cases "x = e") simp_all
    show "functor_ok s1 x f" if "f \<in> set (todo ?t x)" for x f using that td1 by (intro inv_functor [OF s1(2)]) (cases "x = e"; auto)
  qed (simp_all add: at_ok_def)
  moreover have "loop_step env e i s = Some (Done ?t)" using s1(1) at by (simp add: loop_step_def)
  ultimately show ?thesis using p s1(4,5) by (intro exI [of _ con] exI [of _ ?t]) simp
qed

text \<open>Another thread calls \<^verbatim>\<open>ForceClose\<close>, with a reference.\<close>

lemma inv_Close:
  assumes inv: "ms_inv tab base env s" and p: "ms_objects s p = Some (e, con)" "alive s p" and cur: "cur \<noteq> e"
  shows "\<not> ms_calling s e \<Longrightarrow> con_status con = CONNECTED \<Longrightarrow> ms_ForceClose ctl wr cur p s = Some (Done (s\<lparr>ms_queued := ms_queued s @ [(e, FClose p)]\<rparr>))"
    and "ms_ForceClose ctl wr cur p s = Some (Done s') \<Longrightarrow> ms_inv tab base env s'"
proof -
  let ?s = "s\<lparr>ms_queued := ms_queued s @ [(e, FClose p)]\<rparr>"
  show "ms_ForceClose ctl wr cur p s = Some (Done ?s)" if "\<not> ms_calling s e" "con_status con = CONNECTED"
    using p cur that(2) run_in_other [OF _ that(1), of cur ctl wr "FClose p"] by (simp add: ms_ForceClose_def live_object_def)
  have td: "todo ?s x = todo s x @ (if x = e then [FClose p] else [])" for x by (simp add: todo_def)
  have "ms_inv tab base env ?s"
  proof (rule inv_flow [OF inv, of _ e "ms_at s e"])
    show "control (todo ?s x) = control (todo s x)" for x by (simp add: td)
    show "functor_ok s x f" if "f \<in> set (todo ?s x)" for x f
      using that p inv_functor [OF inv] by (auto simp: td functor_ok_def split: if_splits)
    show "at_ok base (env_keep env) ?s e (ms_at s e)" using inv_at [OF inv, of e] by (auto simp: at_ok_def split: loop_at.splits option.splits)
  qed simp_all
  then show "ms_inv tab base env s'" if "ms_ForceClose ctl wr cur p s = Some (Done s')"
    using that p cur inv run_in_queues [of ctl wr cur e "FClose p" s s']
    by (cases "con_status con = CONNECTED") (auto simp: ms_ForceClose_def live_object_def)
qed

text \<open>The contract of the message callback: called with a reference to a connection that is up, for which \<open>fit\<close> holds (it is told
  whether the connection may be closed: the call is the last for the event, and the accepting loop, if it is another, is not calling
  its functors), it is defined, keeps the invariant, leaves the thread where it is and the
  references of others alone. It may close the connection.\<close>

definition may_close :: "('k, 'x) MultiServer \<Rightarrow> nat \<Rightarrow> handler list \<Rightarrow> bool" where
  "may_close s e hs \<longleftrightarrow> hs = [] \<and> (e = 0 \<or> \<not> ms_calling s 0)"

lemma may_close_objects [simp]:
  "next_loop (move_to x l s) = next_loop s" "may_close (hold p s) = may_close s" "may_close (s\<lparr>ms_objects := os\<rparr>) = may_close s" "may_close (move_to x l s) = may_close s"
  by (simp_all add: may_close_def next_loop_def fun_eq_iff)

locale message_callback =
  fixes ctl :: "epoll_op \<Rightarrow> int \<Rightarrow> int \<Rightarrow> 'k \<Rightarrow> int \<times> 'k" and wr :: "int \<Rightarrow> int" and tab :: "'k \<Rightarrow> int \<rightharpoonup> int"
    and msg :: "'m \<Rightarrow> nat \<Rightarrow> chan \<Rightarrow> ('k, 'x) MultiServer \<Rightarrow> ('k, 'x) MultiServer or_abort option"
    and fit :: "'m \<Rightarrow> bool \<Rightarrow> ('k, 'x) conn_state \<Rightarrow> bool"
  assumes message_law: "ctl_ok ctl tab \<Longrightarrow> env_ctl (env :: ('k, 'x, 'm) server_env) = ctl \<Longrightarrow> env_write env = wr \<Longrightarrow> ms_inv tab base env s \<Longrightarrow>
    ms_at s e = InHandlers p hs evs \<Longrightarrow> ms_objects s p = Some (e, con) \<Longrightarrow> con_status con = CONNECTED \<Longrightarrow> p \<in> set (ms_held s) \<Longrightarrow>
    fit m (may_close s e hs) \<lparr>cs_evd = ms_loops s e, cs_con = con, cs_wire = ms_wire s p, cs_closed = []\<rparr> \<Longrightarrow>
    \<exists>s'. msg m e p s = Some (Done s') \<and> ms_inv tab base env s' \<and> ms_at s' = ms_at s \<and> ms_held s' = ms_held s"

text \<open>A callback that leaves the connection up and touches nothing else owes less, as no other part of the server is in sight.\<close>

locale conn_callback =
  fixes ctl :: "epoll_op \<Rightarrow> int \<Rightarrow> int \<Rightarrow> 'k \<Rightarrow> int \<times> 'k" and tab :: "'k \<Rightarrow> int \<rightharpoonup> int"
    and op :: "'m \<Rightarrow> ('k, 'x) conn_op" and fits :: "'m \<Rightarrow> ('k, 'x) conn_state \<Rightarrow> bool"
  assumes op_law: "ctl_ok ctl tab \<Longrightarrow> conn_up tab cs c \<Longrightarrow> fits m c \<Longrightarrow>
    \<exists>c'. op m c = Some (Done c') \<and> conn_up tab cs c' \<and> conn_kept c c'"

sublocale conn_callback \<subseteq> server: message_callback ctl wr tab "\<lambda>m e p. on_object e p (op m)" "\<lambda>m closing. fits m" for wr
proof (unfold_locales, goal_cases)
  case 1
  then show ?case using inv_conn_op [where f = "op m" for m] op_law by meson
qed

text \<open>Going on with the handlers of the channel.\<close>

lemma inv_next_handler:
  assumes inv: "ms_inv tab base env s" and at: "ms_at s e = InHandlers c (h # hs) evs"
  shows "ms_inv tab base env (move_to e (InHandlers c hs evs) s)"
proof (rule inv_goto [OF inv, of _ e "InHandlers c hs evs"])
  show "todo (move_to e (InHandlers c hs evs) s) x = todo s x" for x by (simp add: todo_def at running_def)
qed (use inv_at [OF inv, of e] in \<open>auto simp: at at_ok_def split: option.splits\<close>)

text \<open>What the system calls of a step may return, as documented: \<^verbatim>\<open>epoll_wait\<close> reports registered descriptors, each once;
  \<^verbatim>\<open>accept4\<close> fails or returns a descriptor that is not open; \<^verbatim>\<open>readv\<close> fails, reports the end or returns at most what the
  buffers take. Beyond that: a new object has a new handle and there is an id left; the message callback gets bytes it is made for;
  and a message of another thread fits into the output buffer.\<close>

definition input_ok :: "('k \<Rightarrow> int \<rightharpoonup> int) \<Rightarrow> (nat \<Rightarrow> chan \<rightharpoonup> Channel) \<Rightarrow> ('k, 'x, 'm) server_env \<Rightarrow> ('m \<Rightarrow> bool \<Rightarrow> ('k, 'x) conn_state \<Rightarrow> bool) \<Rightarrow>
    nat \<Rightarrow> 'm step_input \<Rightarrow> ('k, 'x) MultiServer \<Rightarrow> bool" where
  "input_ok tab base env fit e i s \<longleftrightarrow>
     (case ms_at s e of
        AtSelect \<Rightarrow>
          (case in_ready i of
             None \<Rightarrow> True
           | Some rs \<Rightarrow> distinct (map snd rs) \<and> (\<forall>(m, fd) \<in> set rs. tab (kern (selector (ms_loops s e))) fd \<noteq> None))
      | InHandlers c (HRead # hs) evs \<Rightarrow>
          (if c = env_acceptor env
           then (\<forall>fd. in_accept i = Accepted fd \<longrightarrow> 0 \<le> fd \<and> (\<forall>x. channels (ms_loops s x) fd = None) \<and>
                  (\<forall>q x con. ms_objects s q = Some (x, con) \<longrightarrow> open_con con \<longrightarrow> ch_fd (con_chan con) \<noteq> fd) \<and>
                  ms_objects s (in_self i) = None \<and> in_self i \<noteq> env_acceptor env \<and> (\<forall>x. base x (in_self i) = None) \<and>
                  (\<exists>j. ms_connections s j = None \<and> max 1 (ms_next_id s) \<le> j \<and> j < 2 ^ 63))
           else (\<forall>x con d. ms_objects s c = Some (x, con) \<longrightarrow> in_read i = Readv_data d \<longrightarrow>
                  int (length d) \<le> readv_capacity (input_buf con) \<and> has_room (input_buf con) (length d) \<and>
                  (d \<noteq> [] \<longrightarrow> (\<forall>b. buf_ok b \<longrightarrow> content b = content (input_buf con) @ d \<longrightarrow>
                     fit (in_message i) (may_close s e hs) \<lparr>cs_evd = ms_loops s e, cs_con = con\<lparr>input_buf := b\<rparr>, cs_wire = ms_wire s c, cs_closed = []\<rparr>))))
      | Calling (FSend p (Some d) r # fs) \<Rightarrow>
          (\<forall>con. ms_objects s p = Some (e, con) \<longrightarrow> con_status con = CONNECTED \<longrightarrow> has_room (output_buf con) (length d))
      | _ \<Rightarrow> True)"

text \<open>What the code does not survive, or not without harm. A failed \<^verbatim>\<open>accept4\<close> ends the process or makes a connection with the
  descriptor \<open>-1\<close>, and a failed \<^verbatim>\<open>readv\<close> ends it. A functor for another loop that is calling its own, for a new connection, for the
  removal of an ended one from the table, makes \<^verbatim>\<open>Wakeup\<close> write to a descriptor the constructor has not set. The end of a stream is
  followed by the other handlers of the same event, on a closed connection. Behind the close callback \<^verbatim>\<open>HandleRead\<close> writes to the
  connection, which nothing may refer to any more. And the lambda of \<^verbatim>\<open>ForceClose\<close> does not look at \<^verbatim>\<open>_status\<close> again.\<close>

definition hazard :: "('k, 'x, 'm) server_env \<Rightarrow> nat \<Rightarrow> 'm step_input \<Rightarrow> ('k, 'x) MultiServer \<Rightarrow> bool" where
  "hazard env e i s \<longleftrightarrow>
     (case ms_at s e of
        InHandlers c (HRead # hs) evs \<Rightarrow>
          (if c = env_acceptor env
           then (\<exists>err. in_accept i = Accept_failed err) \<or> next_loop s \<noteq> 0 \<and> ms_calling s (next_loop s)
           else ms_objects s c \<noteq> None \<and> (in_read i = Readv_error \<or> in_read i = Readv_data [] \<and> \<not> may_close s e hs))
      | EofTail p hs evs \<Rightarrow> \<not> alive s p
      | Calling (FClose p # fs) \<Rightarrow> e \<noteq> 0 \<and> ms_calling s 0 \<or> (\<exists>con. ms_objects s p = Some (e, con) \<and> con_status con \<noteq> CONNECTED)
      | _ \<Rightarrow> False)"

lemma inv_select:
  assumes inv: "ms_inv tab base env s" and at: "ms_at s e = AtSelect" and ok: "input_ok tab base env fit e i s"
  shows "ms_inv tab base env (loop_select e (in_ready i) s)"
proof -
  let ?d = "ms_loops s e"
  obtain n sel evs where sel: "epoll_Select (in_ready i) (selector ?d) [] = (n, sel, evs)" by (cases "epoll_Select (in_ready i) (selector ?d) []")
  have k: "kern sel = kern (selector ?d)" using sel by (auto simp: epoll_Select_def split: option.splits if_splits)
  have "batch_ok ?d evs"
  proof (cases "in_ready i")
    case (Some rs)
    then have evs: "evs = map (\<lambda>(m, fd). \<lparr>revents = trans_epollev_to_ev m, ev_fd = fd\<rparr>) rs"
      using sel by (auto simp: epoll_Select_def split: if_splits)
    have "channels ?d fd \<noteq> None" if "tab (kern (selector ?d)) fd \<noteq> None" for fd
      using inv_sync [OF inv, of e] that by (auto simp: in_sync_def split: option.splits)
    moreover have "map ev_fd evs = map snd rs" by (simp add: evs comp_def case_prod_beta)
    moreover have "distinct (map snd rs)" "\<forall>(m, fd) \<in> set rs. tab (kern (selector ?d)) fd \<noteq> None"
      using ok Some by (simp_all add: input_ok_def at)
    ultimately show ?thesis unfolding batch_ok_def by (simp only:) (auto simp: evs)
  qed (use sel in \<open>auto simp: epoll_Select_def batch_ok_def\<close>)
  then have "at_ok base (env_keep env) s e (InBatch evs)" by (simp add: at_ok_def)
  moreover have "todo (loop_select e (in_ready i) s) x = todo s x" for x
    using at by (simp add: loop_select_def sel todo_def move_to_def running_def)
  ultimately show ?thesis
    by (intro inv_goto [OF inv, of _ e "InBatch evs"]) (auto simp: loop_select_def sel k)
qed

lemma inv_event:
  assumes inv: "ms_inv tab base env s" and at: "ms_at s e = InBatch (ev # evs)"
  shows "\<exists>s'. loop_event ctl e ev evs s = Some (Done s') \<and> ms_inv tab base env s'"
proof -
  note i = ms_invD [OF inv]
  let ?d = "ms_loops s e"
  have b: "batch_ok ?d (ev # evs)" using i(8) [of e] by (simp add: at at_ok_def)
  then obtain c where c: "channels ?d (ev_fd ev) = Some c" by (auto simp: batch_ok_def)
  from in_sync_chan [OF i(1) c] obtain ch where ch: "conns_on base (ms_objects s) e c = Some ch" "ch_fd ch = ev_fd ev" by blast
  have "channels ?d (ev_fd x) \<noteq> Some c" if x: "x \<in> set evs" for x
  proof
    assume "channels ?d (ev_fd x) = Some c"
    from in_sync_chan [OF i(1) this] ch have "ev_fd x = ev_fd ev" by auto
    then have "ev_fd ev \<in> ev_fd ` set evs" using x by (metis imageI)
    then show False using b by (simp add: batch_ok_def)
  qed
  moreover have "case ms_objects s c of None \<Rightarrow> base e c \<noteq> None | Some (x, con) \<Rightarrow> x = e \<and> (hs = [] \<or> con_status con = CONNECTED)" for hs :: "handler list"
    using ch(1) by (auto simp: conns_on_def split: option.splits if_splits)
  ultimately have "at_ok base (env_keep env) s e (InHandlers c (HandleEvent (revents ev)) evs)"
    using b by (auto simp: at_ok_def batch_ok_def)
  then have "ms_inv tab base env (move_to e (InHandlers c (HandleEvent (revents ev)) evs) s)"
    by (intro inv_goto [OF inv, of _ e]) (auto simp: todo_def at running_def)
  then show ?thesis using c by (simp add: loop_event_def findChannel_def)
qed

lemma inv_enter:
  assumes inv: "ms_inv tab base env s" and at: "ms_at s e = Entering"
  shows "\<exists>s'. loop_step env e i s = Some (Done s') \<and> ms_inv tab base env s'"
proof -
  let ?mine = "filter (\<lambda>x. fst x = e) (ms_queued s)"
  let ?s = "move_to e (Calling (map snd ?mine)) (s\<lparr>ms_batch := ms_batch s @ ?mine, ms_queued := filter (\<lambda>x. fst x \<noteq> e) (ms_queued s)\<rparr>)"
  have "todo ?s x = todo s x" for x
  proof (cases "x = e")
    case False
    then have "filter (\<lambda>y. fst y = x) (filter (\<lambda>y. fst y \<noteq> e) (ms_queued s)) = filter (\<lambda>y. fst y = x) (ms_queued s)"
      by (induction "ms_queued s") (auto intro: filter_cong)
    then show ?thesis using False by (simp add: todo_def)
  qed (simp add: todo_def at running_def)
  then have "ms_inv tab base env ?s"
    by (intro inv_goto [OF inv, of _ e]) (auto simp: at_ok_def)
  then show ?thesis by (simp add: loop_step_def at Let_def)
qed

lemma inv_leave:
  assumes inv: "ms_inv tab base env s" and at: "ms_at s e = Calling []"
  shows "\<exists>s'. loop_step env e i s = Some (Done s') \<and> ms_inv tab base env s'"
proof -
  let ?l = "if stop (ms_loops s e) then Finished else AtSelect"
  let ?s = "move_to e ?l (s\<lparr>ms_calling := (ms_calling s)(e := False), ms_batch := filter (\<lambda>x. fst x \<noteq> e) (ms_batch s)\<rparr>)"
  have "ms_inv tab base env ?s"
    by (rule inv_goto [OF inv, of _ e ?l]) (auto simp: todo_def at running_def at_ok_def)
  then show ?thesis by (simp add: loop_step_def at)
qed

context message_callback
begin

text \<open>Bytes have arrived on a connection that is up.\<close>

lemma inv_read:
  assumes env: "env_ctl env = ctl" "env_write env = wr" "env_message env = msg" and ctl: "ctl_ok ctl tab" and inv: "ms_inv tab base env s"
    and at: "ms_at s e = InHandlers p hs evs" and p: "ms_objects s p = Some (e, con)" "con_status con = CONNECTED"
    and d: "in_read i = Readv_data d" "d \<noteq> []" "int (length d) \<le> readv_capacity (input_buf con)" "has_room (input_buf con) (length d)"
    and fit: "\<And>b. buf_ok b \<Longrightarrow> content b = content (input_buf con) @ d \<Longrightarrow>
      fit (in_message i) (may_close s e hs) \<lparr>cs_evd = ms_loops s e, cs_con = con\<lparr>input_buf := b\<rparr>, cs_wire = ms_wire s p, cs_closed = []\<rparr>"
  shows "\<exists>s'. ms_HandleRead env i e p hs evs s = Some (Done s') \<and> ms_inv tab base env s'"
proof -
  note o = inv_obj [OF inv p(1), unfolded obj_ok_def]
  have live: "alive s p" using p o by (simp add: alive_def)
  have "buf_ok (input_buf con)" using o by blast
  from Retrieve_ok [OF this d(4,3)] obtain b where b: "Retrieve (input_buf con) (Readv_data d) = Some (Done (length d, b))" "buf_ok b"
    "content b = content (input_buf con) @ d" by blast
  let ?con = "con\<lparr>input_buf := b\<rparr>"
  let ?s1 = "hold p (s\<lparr>ms_objects := (ms_objects s)(p \<mapsto> (e, ?con))\<rparr>)"
  have inv1: "ms_inv tab base env ?s1" by (intro inv_hold inv_same_con [OF inv p(1)]) (use b(2) in simp_all)
  have "fit (in_message i) (may_close ?s1 e hs) \<lparr>cs_evd = ms_loops ?s1 e, cs_con = ?con, cs_wire = ms_wire ?s1 p, cs_closed = []\<rparr>" using fit b by simp
  from message_law [OF ctl env(1,2) inv1 _ _ _ _ this] obtain s' where
    s': "msg (in_message i) e p ?s1 = Some (Done s')" "ms_inv tab base env s'" "ms_held s' = p # ms_held s" using at p by auto
  have "ms_inv tab base env (unhold p s')" by (rule inv_unhold [OF s'(2,3)]) (use o in simp)
  moreover have "ms_HandleRead env i e p hs evs s = Some (Done (unhold p s'))"
    using p s'(1) b(1) d(1,2) env(3) live by (simp add: ms_HandleRead_def live_object_def)
  ultimately show ?thesis by blast
qed

lemma inv_handler:
  assumes env: "env_ctl env = ctl" "env_write env = wr" "env_message env = msg" and ctl: "ctl_ok ctl tab" and inv: "ms_inv tab base env s"
    and at: "ms_at s e = InHandlers c (h # hs) evs" and ok: "input_ok tab base env fit e i s" and hz: "\<not> hazard env e i s"
  shows "\<exists>s'. loop_step env e i s = Some (Done s') \<and> ms_inv tab base env s'"
proof -
  let ?s = "move_to e (InHandlers c hs evs) s"
  note nxt = inv_next_handler [OF inv at]
  have at': "ms_at ?s e = InHandlers c hs evs" by simp
  have "\<exists>s'. call_handler env i e c h hs evs ?s = Some (Done s') \<and> ms_inv tab base env s'"
  proof (cases "c = env_acceptor env")
    case True
    show ?thesis
    proof (cases "h = HRead")
      case h: True
      have q: "next_loop ?s \<noteq> 0 \<Longrightarrow> \<not> ms_calling ?s (next_loop ?s)" "\<nexists>err. in_accept i = Accept_failed err"
        using hz True h by (simp_all add: hazard_def at)
      then obtain fd where fd: "in_accept i = Accepted fd" by (cases "in_accept i") auto
      obtain j where "0 \<le> fd" "\<forall>x. channels (ms_loops s x) fd = None"
        "\<forall>q x con. ms_objects s q = Some (x, con) \<longrightarrow> open_con con \<longrightarrow> ch_fd (con_chan con) \<noteq> fd"
        "ms_objects s (in_self i) = None" "in_self i \<noteq> env_acceptor env" "\<forall>x. base x (in_self i) = None"
        "ms_connections s j = None" "max 1 (ms_next_id s) \<le> j" "j < 2 ^ 63"
        using ok True h fd by (auto simp: input_ok_def at)
      then show ?thesis unfolding h True
        by (intro inv_accept [where fd = fd and ?j0.0 = j]) (use ctl env nxt True fd q(1) in auto)
    qed (use nxt True in \<open>auto simp: call_handler_def\<close>)
  next
    case acc: False
    show ?thesis
    proof (cases "ms_objects s c")
      case None
      then show ?thesis using nxt acc by (auto simp: call_handler_def)
    next
      case (Some ec)
      then obtain con where p: "ms_objects ?s c = Some (e, con)" "con_status con = CONNECTED"
        using inv_at [OF inv, of e] at by (auto simp: at_ok_def)
      note o = inv_obj [OF nxt p(1), unfolded obj_ok_def]
      show ?thesis
      proof (cases h)
        case HError
        have "alive ?s c" using p o by (simp add: alive_def)
        then show ?thesis using nxt acc p HError by (auto simp: call_handler_def)
      next
        case HWrite
        have "\<exists>c'. conn_HandleWrite ctl (in_send i) x = Some (Done c') \<and> conn_up tab cs c' \<and> conn_kept x c'" if x: "conn_up tab cs x" for cs x
        proof -
          have a: "ch_attached (con_chan (cs_con x))" "conn_ok tab cs x" using x by (simp_all add: conn_up_def conn_ok_def)
          from conn_HandleWrite_ok [OF ctl a(2), of "in_send i"] obtain c' where
            c': "conn_HandleWrite ctl (in_send i) x = Some (Done c')" "conn_ok tab cs c'" by (auto simp: stream_step_def)
          then show ?thesis using conn_HandleWrite_kept [OF c'(1) a(1)] x by (auto simp: conn_up_def)
        qed
        from inv_conn_op [where f = "conn_HandleWrite ctl (in_send i)", OF nxt p this]
        show ?thesis using acc p HWrite env(1) by (auto simp: call_handler_def)
      next
        case HRead
        have q: "in_read i \<noteq> Readv_error" "in_read i = Readv_data [] \<Longrightarrow> may_close s e hs"
          using hz acc p HRead by (auto simp: hazard_def at)
        then obtain d where d0: "in_read i = Readv_data d" by (cases "in_read i") auto
        then have d: "int (length d) \<le> readv_capacity (input_buf con)" "has_room (input_buf con) (length d)"
          "d \<noteq> [] \<longrightarrow> (\<forall>b. buf_ok b \<longrightarrow> content b = content (input_buf con) @ d \<longrightarrow>
             fit (in_message i) (may_close s e hs) \<lparr>cs_evd = ms_loops s e, cs_con = con\<lparr>input_buf := b\<rparr>, cs_wire = ms_wire s c, cs_closed = []\<rparr>)"
          using ok acc p HRead by (auto simp: input_ok_def at)
        have "\<exists>s'. ms_HandleRead env i e c hs evs ?s = Some (Done s') \<and> ms_inv tab base env s'"
        proof (cases "d = []")
          case True
          then have "hs = []" "e \<noteq> 0 \<Longrightarrow> \<not> ms_calling ?s 0" using q(2) d0 by (auto simp: may_close_def)
          then show ?thesis using inv_eof [OF _ nxt _ p] d0 d(1,2) True ctl env(1) by auto
        next
          case False
          show ?thesis by (rule inv_read [OF env ctl nxt at' p d0 False d(1,2)]) (use d(3) False in simp)
        qed
        then show ?thesis using acc p HRead by (simp add: call_handler_def)
      qed
    qed
  qed
  then show ?thesis by (simp add: loop_step_def at)
qed

lemma step_safe:
  assumes env: "env_ctl env = ctl" "env_write env = wr" "env_message env = msg" and ctl: "ctl_ok ctl tab" and inv: "ms_inv tab base env s"
    and ok: "input_ok tab base env fit e i s" and hz: "\<not> hazard env e i s"
  shows "\<exists>s'. loop_step env e i s = Some (Done s') \<and> ms_inv tab base env s'"
proof (cases "ms_at s e")
  case AtSelect
  then show ?thesis using inv_select [OF inv AtSelect ok] by (simp add: loop_step_def)
next
  case (InBatch evs)
  show ?thesis
  proof (cases evs)
    case Nil
    have "ms_inv tab base env (move_to e AtFunctors s)"
      by (rule inv_goto [OF inv, of _ e AtFunctors]) (auto simp: todo_def InBatch running_def at_ok_def)
    then show ?thesis using Nil InBatch by (simp add: loop_step_def)
  next
    case (Cons ev evs')
    then show ?thesis using inv_event [OF inv, of e ev evs' "env_ctl env"] InBatch by (simp add: loop_step_def)
  qed
next
  case (InHandlers c hs evs)
  show ?thesis
  proof (cases hs)
    case Nil
    have "at_ok base (env_keep env) s e (InBatch evs)" using inv_at [OF inv, of e] InHandlers by (simp add: at_ok_def)
    then have "ms_inv tab base env (move_to e (InBatch evs) s)"
      by (intro inv_goto [OF inv, of _ e "InBatch evs"]) (auto simp: todo_def InHandlers running_def)
    then show ?thesis using Nil InHandlers by (simp add: loop_step_def)
  next
    case (Cons h hs')
    then show ?thesis using inv_handler [OF env ctl inv _ ok hz, of c h hs' evs] InHandlers by simp
  qed
next
  case (EofTail c hs evs)
  have "alive s c" using hz by (simp add: hazard_def EofTail)
  then show ?thesis by (rule inv_eof_tail [OF inv EofTail])
next
  case AtFunctors
  have "ms_inv tab base env (move_to e Entering (s\<lparr>ms_calling := (ms_calling s)(e := True)\<rparr>))"
    by (rule inv_goto [OF inv, of _ e Entering]) (auto simp: todo_def AtFunctors running_def at_ok_def)
  then show ?thesis using AtFunctors by (simp add: loop_step_def)
next
  case Entering
  then show ?thesis by (rule inv_enter [OF inv])
next
  case (Calling fs)
  show ?thesis
  proof (cases fs)
    case Nil
    then show ?thesis using inv_leave [OF inv] Calling by simp
  next
    case (Cons f fs')
    have f: "functor_ok s e f" by (rule inv_functor [OF inv]) (simp add: todo_def Calling running_def Cons)
    show ?thesis
    proof (cases f)
      case (FEstablish p)
      then show ?thesis using inv_establish [of env tab, OF _ inv, of e p fs'] Calling Cons env(1) ctl by simp
    next
      case (FErase p)
      then show ?thesis using inv_erase [OF inv, of e p fs'] Calling Cons by simp
    next
      case (FSend p m r)
      have "\<forall>con d. m = Some d \<longrightarrow> ms_objects s p = Some (e, con) \<longrightarrow> con_status con = CONNECTED \<longrightarrow> has_room (output_buf con) (length d)"
        using ok Calling Cons FSend by (auto simp: input_ok_def)
      from inv_sending [where fs = fs' and i = i and r = r, OF ctl [folded env(1)] inv _ this] Calling Cons FSend show ?thesis by blast
    next
      case (FClose p)
      have "\<forall>con. ms_objects s p = Some (e, con) \<longrightarrow> con_status con = CONNECTED" "e \<noteq> 0 \<Longrightarrow> \<not> ms_calling s 0"
        using hz Calling Cons FClose by (simp_all add: hazard_def)
      from inv_closing [where fs = fs' and i = i, OF ctl [folded env(1)] inv _ this] Calling Cons FClose show ?thesis by blast
    qed (use f in \<open>simp add: functor_ok_def\<close>)
  qed
next
  case Finished
  then show ?thesis using inv by (simp add: loop_step_def)
qed

end

section \<open>An echo server\<close>

text \<open>The message callback of the repository's own test program \<^verbatim>\<open>src/tests/rpc_server_multi_test.cpp\<close>: everything that has
  arrived is sent back.\<close>

definition echo_message :: "(epoll_op \<Rightarrow> int \<Rightarrow> int \<Rightarrow> 'k \<Rightarrow> int \<times> 'k) \<Rightarrow> send_result \<Rightarrow> ('k, 'x) conn_op" where
  "echo_message ctl r c =
     (case GetAllAsString (input_buf (cs_con c)) of
        None \<Rightarrow> None
      | Some (d, b) \<Rightarrow> conn_send ctl r d (c\<lparr>cs_con := (cs_con c)\<lparr>input_buf := b\<rparr>\<rparr>))"

definition echo_fit :: "send_result \<Rightarrow> ('k, 'x) conn_state \<Rightarrow> bool" where
  "echo_fit r c \<longleftrightarrow> has_room (output_buf (cs_con c)) (length (content (input_buf (cs_con c)))) \<and>
     r \<noteq> Send_failed EPIPE \<and> r \<noteq> Send_failed ECONNRESET"

lemma echo_message_ok:
  assumes "ctl_ok ctl tab" and "conn_up tab cs c" and "echo_fit r c"
  shows "\<exists>c'. echo_message ctl r c = Some (Done c') \<and> conn_up tab cs c' \<and> conn_kept c c'"
proof -
  have i: "buf_ok (input_buf (cs_con c))" using assms(2) by (simp add: conn_up_def)
  note n = ReadableBytes_nonneg [OF i]
  obtain b where b: "GetAllAsString (input_buf (cs_con c)) = Some (content (input_buf (cs_con c)), b)" "buf_ok b"
    using GetAsString_ok [OF i n order_refl] Seek_ok [OF i n order_refl] length_content [OF i] n by (auto simp: GetAllAsString_def)
  let ?c = "c\<lparr>cs_con := (cs_con c)\<lparr>input_buf := b\<rparr>\<rparr>" and ?d = "content (input_buf (cs_con c))"
  have ok: "conn_ok tab cs ?c" and a: "ch_attached (con_chan (cs_con ?c))" using assms(2) by (simp_all add: conn_up_def conn_ok_def)
  have "event_ok (WSend ?d r)" using assms(3) by (cases r) (auto simp: echo_fit_def)
  with conn_send_ok [OF assms(1) ok, of ?d r] assms(3) obtain c' where c': "conn_send ctl r ?d ?c = Some (Done c')" "conn_ok tab cs c'"
    by (auto simp: stream_step_def echo_fit_def)
  have "conn_kept ?c c' \<and> input_buf (cs_con c') = input_buf (cs_con ?c)" by (rule conn_send_kept [OF c'(1) a])
  then show ?thesis using c' b by (simp add: echo_message_def conn_up_def conn_kept_def)
qed

interpretation echo: conn_callback ctl tab "echo_message ctl" echo_fit for ctl tab
  by unfold_locales (rule echo_message_ok)

section \<open>Reachable states\<close>

text \<open>The loops take their steps, outside the hazards, and at any time any thread with a reference to a connection sends a message on it,
  whose bytes it leaves in place, or asks to close it.\<close>

inductive ms_reach :: "('k \<Rightarrow> int \<rightharpoonup> int) \<Rightarrow> (nat \<Rightarrow> chan \<rightharpoonup> Channel) \<Rightarrow> ('k, 'x, 'm) server_env \<Rightarrow> ('m \<Rightarrow> bool \<Rightarrow> ('k, 'x) conn_state \<Rightarrow> bool) \<Rightarrow>
    ('k, 'x) MultiServer \<Rightarrow> ('k, 'x) MultiServer \<Rightarrow> bool" for tab base env fit s0 where
  reach_start: "ms_reach tab base env fit s0 s0"
| reach_step: "ms_reach tab base env fit s0 s \<Longrightarrow> input_ok tab base env fit e i s \<Longrightarrow> \<not> hazard env e i s \<Longrightarrow>
    loop_step env e i s = Some (Done s') \<Longrightarrow> ms_reach tab base env fit s0 s'"
| reach_send: "ms_reach tab base env fit s0 s \<Longrightarrow> ms_objects s p = Some (e, con) \<Longrightarrow> alive s p \<Longrightarrow> cur \<noteq> e \<Longrightarrow> event_ok (WSend d r) \<Longrightarrow>
    ms_Send (env_ctl env) (env_write env) cur p (Some d) r s = Some (Done s') \<Longrightarrow> ms_reach tab base env fit s0 s'"
| reach_close: "ms_reach tab base env fit s0 s \<Longrightarrow> ms_objects s p = Some (e, con) \<Longrightarrow> alive s p \<Longrightarrow> cur \<noteq> e \<Longrightarrow>
    ms_ForceClose (env_ctl env) (env_write env) cur p s = Some (Done s') \<Longrightarrow> ms_reach tab base env fit s0 s'"

text \<open>What \<^verbatim>\<open>Start\<close> finds: \<open>n\<close> workers and loop 0 polling, each with its own channels registered, and a new acceptor.\<close>

definition server_ready :: "('k \<Rightarrow> int \<rightharpoonup> int) \<Rightarrow> (nat \<Rightarrow> chan \<rightharpoonup> Channel) \<Rightarrow> (nat \<Rightarrow> 'k EventDispatcher) \<Rightarrow> Acceptor \<Rightarrow> bool" where
  "server_ready tab base loops a \<longleftrightarrow>
     (\<forall>e. in_sync tab (loops e) (base e)) \<and>
     (\<forall>e. base e (ch_self (acc_chan a)) = None) \<and> \<not> ch_attached (acc_chan a) \<and>
     0 \<le> ch_fd (acc_chan a) \<and> channels (loops 0) (ch_fd (acc_chan a)) = None"

lemma conns_on_empty [simp]: "conns_on base (\<lambda>x. None) e = base e"
  by (simp add: conns_on_def fun_eq_iff)

lemma ms_Start_inv:
  assumes ctl: "ctl_ok (env_ctl env) tab" and ready: "server_ready tab base loops a" and acc: "ch_self (acc_chan a) = env_acceptor env"
    and start: "ms_Start (env_ctl env) lst a (new_MultiServer loops n) = Done (s, a')"
  shows "ms_inv tab (base(0 := (base 0)(env_acceptor env \<mapsto> acc_chan a'))) env s"
proof -
  note r = ready [unfolded server_ready_def]
  let ?c = "acc_chan a" let ?base = "base(0 := (base 0)(env_acceptor env \<mapsto> acc_chan a'))"
  from start obtain d where d: "Listen (env_ctl env) lst (loops 0) a = Done (d, a')"
    and s: "s = (new_MultiServer loops n)\<lparr>ms_evds := map Suc [0..<n], ms_loops := loops(0 := d), ms_running := True\<rparr>"
    by (auto simp: ms_Start_def new_MultiServer_def Let_def split: or_abort.splits)
  have "in_sync tab (loops 0) ((base 0)(ch_self ?c \<mapsto> ?c))" by (rule in_sync_fresh) (use r in auto)
  from SetEvents_sync [OF ctl this, of "ch_self ?c" ?c "ch_events ?c OR EV_READ"] r obtain d' c' where
    d': "SetEvents (env_ctl env) (loops 0) ?c (ch_events ?c OR EV_READ) = Done (d', c')" "in_sync tab d' ((base 0)(ch_self ?c \<mapsto> c'))"
    by (auto simp: domIff)
  from d d'(1) have "d = d'" "acc_chan a' = c'"
    by (auto simp: Listen_def EnableRead_def listen_or_die_def Let_def split: if_splits)
  then have "in_sync tab (ms_loops s x) (conns_on ?base (ms_objects s) x)" for x
    using d'(2) r by (simp add: s new_MultiServer_def acc fun_upd_def)
  moreover have "todo s x = []" for x by (simp add: s todo_def running_def new_MultiServer_def)
  ultimately show ?thesis using r acc unfolding ms_inv_def by (simp add: s new_MultiServer_def at_ok_def)
qed

context message_callback
begin

lemma reach_inv:
  assumes "env_ctl env = ctl" "env_write env = wr" "env_message env = msg" "ctl_ok ctl tab"
  shows "ms_reach tab base env fit s0 s \<Longrightarrow> ms_inv tab base env s0 \<Longrightarrow> ms_inv tab base env s"
proof (induction rule: ms_reach.induct)
  case (reach_step s e i s')
  then show ?case using step_safe [OF assms, of base s e i] by auto
next
  case (reach_send s p e con cur d r s')
  then show ?case using inv_Send(2) [of tab base env s p e con cur d r "env_ctl env" "env_write env" s'] by blast
next
  case (reach_close s p e con cur s')
  then show ?case using inv_Close(2) [of tab base env s p e con cur "env_ctl env" "env_write env" s'] by blast
qed simp

end

text \<open>The state \<open>s\<close> of a server that was started on ready loops, whose message callback keeps its contract, after any number
  of steps of its loops and calls of other threads, in any order, none of them in a hazard.\<close>

definition server_runs :: "('k \<Rightarrow> int \<rightharpoonup> int) \<Rightarrow> (nat \<Rightarrow> chan \<rightharpoonup> Channel) \<Rightarrow> ('k, 'x, 'm) server_env \<Rightarrow> ('m \<Rightarrow> bool \<Rightarrow> ('k, 'x) conn_state \<Rightarrow> bool) \<Rightarrow>
    ('k, 'x) MultiServer \<Rightarrow> bool" where
  "server_runs tab base env fit s \<longleftrightarrow>
     ctl_ok (env_ctl env) tab \<and> message_callback (env_ctl env) (env_write env) tab (env_message env) fit \<and>
     (\<exists>lst loops a n s0 a' own. server_ready tab own loops a \<and> ch_self (acc_chan a) = env_acceptor env \<and>
        ms_Start (env_ctl env) lst a (new_MultiServer loops n) = Done (s0, a') \<and>
        base = own(0 := (own 0)(env_acceptor env \<mapsto> acc_chan a')) \<and> ms_reach tab base env fit s0 s)"

lemma server_runs_inv: "server_runs tab base env fit s \<Longrightarrow> ms_inv tab base env s"
  unfolding server_runs_def using ms_Start_inv message_callback.reach_inv [OF _ refl refl refl] by blast

lemma server_runs_step:
  "server_runs tab base env fit s \<Longrightarrow> input_ok tab base env fit e i s \<Longrightarrow> \<not> hazard env e i s \<Longrightarrow> loop_step env e i s = Some (Done s') \<Longrightarrow>
   server_runs tab base env fit s'"
  unfolding server_runs_def by (blast intro: reach_step)

lemma server_runs_send:
  assumes "server_runs tab base env fit s" and "ms_objects s p = Some (e, con)" "alive s p" "cur \<noteq> e" "event_ok (WSend d r)" "\<not> ms_calling s e"
  shows "server_runs tab base env fit (s\<lparr>ms_queued := ms_queued s @ [(e, FSend p (Some d) r)]\<rparr>)"
  using assms inv_Send(1) [OF server_runs_inv [OF assms(1)] assms(2-6), of "env_ctl env" "env_write env"] unfolding server_runs_def
  by (blast intro: reach_send)

lemma server_runs_close:
  assumes "server_runs tab base env fit s" and "ms_objects s p = Some (e, con)" "alive s p" "cur \<noteq> e" "\<not> ms_calling s e" "con_status con = CONNECTED"
  shows "server_runs tab base env fit (s\<lparr>ms_queued := ms_queued s @ [(e, FClose p)]\<rparr>)"
  using assms(1-4) inv_Close(1) [OF server_runs_inv [OF assms(1)] assms(2-6), of "env_ctl env" "env_write env"] unfolding server_runs_def
  by (blast intro: reach_close)

text \<open>Running a functor changes neither the position of a loop nor the queues; one that sends nothing leaves all output alone.\<close>

lemma run_functor_keeps:
  "run_functor ctl e f s = Some (Done s') \<Longrightarrow> ms_at s' = ms_at s \<and> ms_queued s' = ms_queued s"
  by (cases f) (auto simp: on_object_def and_then_Done split: option.splits)

definition same_output :: "('k, 'x) MultiServer \<Rightarrow> ('k, 'x) MultiServer \<Rightarrow> bool" where
  "same_output s s' \<longleftrightarrow> ms_wire s' = ms_wire s \<and>
     (\<forall>q. map_option (\<lambda>(x, con). (x, output_buf con)) (ms_objects s' q) = map_option (\<lambda>(x, con). (x, output_buf con)) (ms_objects s q)) \<and>
     (\<forall>q x con. ms_objects s q = Some (x, con) \<longrightarrow> con_status con = CONNECTED \<longrightarrow>
        (\<exists>con'. ms_objects s' q = Some (x, con') \<and> con_status con' = CONNECTED))"

lemma on_object_output:
  assumes "on_object e p g s = Some (Done s')"
    and "\<And>c c'. g c = Some (Done c') \<Longrightarrow> cs_wire c' = cs_wire c \<and> output_buf (cs_con c') = output_buf (cs_con c) \<and>
      (con_status (cs_con c) = CONNECTED \<longrightarrow> con_status (cs_con c') = CONNECTED)"
  shows "same_output s s'"
proof -
  obtain x con c' where p: "ms_objects s p = Some (x, con)"
    and g: "g \<lparr>cs_evd = ms_loops s e, cs_con = con, cs_wire = ms_wire s p, cs_closed = []\<rparr> = Some (Done c')"
    and s': "s' = s\<lparr>ms_loops := (ms_loops s)(e := cs_evd c'), ms_objects := (ms_objects s)(p \<mapsto> (x, cs_con c')), ms_wire := (ms_wire s)(p := cs_wire c')\<rparr>"
    using assms(1) by (auto simp: on_object_def live_object_def and_then_Done split: option.splits if_splits)
  show ?thesis using assms(2) [OF g] p by (auto simp: same_output_def s' fun_upd_idem)
qed

lemma run_functor_output:
  assumes "run_functor ctl e f s = Some (Done s')" and "\<not> is_request f"
  shows "same_output s s'"
proof (cases f)
  case (FEstablish p)
  show ?thesis
    by (rule on_object_output [of e p "establish ctl"])
      (use assms FEstablish in \<open>auto simp: establish_def on_channel_def set_status_def Let_def split: or_abort.splits prod.splits option.splits\<close>)
next
  case (FRemove p)
  show ?thesis
    by (rule on_object_output [of e p "conn_Remove ctl"])
      (use assms FRemove in \<open>auto simp: conn_Remove_def on_channel_def split: or_abort.splits prod.splits option.splits\<close>)
next
  case (FErase p)
  then show ?thesis using assms(1) by (auto simp: same_output_def split: option.splits)
qed (use assms(2) in simp_all)

text \<open>The bytes the functors of a loop send on a connection, in order, and the room they need, when none of them closes one.\<close>

fun messages :: "chan \<Rightarrow> srv_functor list \<Rightarrow> bytes" where
  "messages p [] = []"
| "messages p (FSend q (Some d) r # fs) = (if q = p then d else []) @ messages p fs"
| "messages p (f # fs) = messages p fs"

lemma messages_other [simp]: "\<not> is_request f \<Longrightarrow> messages p (f # fs) = messages p fs"
  by (cases f) simp_all

definition room_for :: "('k, 'x) MultiServer \<Rightarrow> nat \<Rightarrow> srv_functor list \<Rightarrow> bool" where
  "room_for s e fs \<longleftrightarrow> (\<forall>f \<in> set fs. \<not> is_FClose f) \<and> (\<forall>p con. ms_objects s p = Some (e, con) \<longrightarrow> has_room (output_buf con) (length (messages p fs)))"

definition delivers :: "nat \<Rightarrow> srv_functor list \<Rightarrow> ('k, 'x) MultiServer \<Rightarrow> ('k, 'x) MultiServer \<Rightarrow> bool" where
  "delivers e fs s s' \<longleftrightarrow> (\<forall>p con. ms_objects s p = Some (e, con) \<longrightarrow> con_status con = CONNECTED \<longrightarrow>
     (\<exists>con'. ms_objects s' p = Some (e, con') \<and> con_status con' = CONNECTED \<and>
        ms_wire s' p @ content (output_buf con') = ms_wire s p @ content (output_buf con) @ messages p fs))"

lemma same_output_room:
  assumes "same_output s s'" and "room_for s e fs"
  shows "room_for s' e fs"
proof (unfold room_for_def, intro conjI allI impI)
  show "\<forall>f \<in> set fs. \<not> is_FClose f" using assms(2) by (simp add: room_for_def)
  fix p con
  assume p: "ms_objects s' p = Some (e, con)"
  then have "map_option (\<lambda>(x, con). (x, output_buf con)) (ms_objects s p) = Some (e, output_buf con)"
    using assms(1) unfolding same_output_def by (metis (mono_tags, lifting) case_prod_conv option.simps(9))
  then obtain con0 where "ms_objects s p = Some (e, con0)" "output_buf con0 = output_buf con" by auto
  then show "has_room (output_buf con) (length (messages p fs))" using assms(2) unfolding room_for_def by metis
qed

lemma same_output_delivers:
  assumes "same_output s s'" and "delivers e fs s' s''"
  shows "delivers e fs s s''"
proof (unfold delivers_def, intro allI impI)
  fix p con
  assume p: "ms_objects s p = Some (e, con)" "con_status con = CONNECTED"
  then obtain con1 where c: "ms_objects s' p = Some (e, con1)" "con_status con1 = CONNECTED"
    using assms(1) unfolding same_output_def by blast
  have "map_option (\<lambda>(x, con). (x, output_buf con)) (ms_objects s' p) = map_option (\<lambda>(x, con). (x, output_buf con)) (ms_objects s p)" "ms_wire s' = ms_wire s"
    using assms(1) by (simp_all add: same_output_def)
  then have "ms_wire s' = ms_wire s" "output_buf con1 = output_buf con" using c(1) p(1) by simp_all
  moreover obtain con' where "ms_objects s'' p = Some (e, con')" "con_status con' = CONNECTED"
    "ms_wire s'' p @ content (output_buf con') = ms_wire s' p @ content (output_buf con1) @ messages p fs"
    using assms(2) c unfolding delivers_def by blast
  ultimately show "\<exists>con'. ms_objects s'' p = Some (e, con') \<and> con_status con' = CONNECTED \<and>
      ms_wire s'' p @ content (output_buf con') = ms_wire s p @ content (output_buf con) @ messages p fs" by simp
qed

lemma calling_drains:
  assumes "server_runs tab base env fit s" and "ms_at s e = Calling fs" and "room_for s e fs"
  shows "\<exists>s'. run_schedule env (replicate (length fs) (e, i)) s = Some (Done s') \<and> server_runs tab base env fit s' \<and>
    ms_at s' e = Calling [] \<and> ms_queued s' = ms_queued s \<and> delivers e fs s s'"
  using assms
proof (induction fs arbitrary: s)
  case Nil
  then show ?case by (simp add: delivers_def)
next
  case (Cons f fs)
  have cb: "message_callback (env_ctl env) (env_write env) tab (env_message env) fit" "ctl_ok (env_ctl env) tab"
    using Cons.prems(1) by (simp_all add: server_runs_def)
  note inv = server_runs_inv [OF Cons.prems(1)]
  have room: "has_room (output_buf con) (length d)" if "f = FSend p (Some d) r" "ms_objects s p = Some (e, con)" for p d r con
    using Cons.prems(3) that by (force simp: room_for_def has_room_def)
  have nc: "\<not> is_FClose f" "\<forall>f \<in> set fs. \<not> is_FClose f" using Cons.prems(3) by (simp_all add: room_for_def)
  have ok: "input_ok tab base env fit e i s" "\<not> hazard env e i s"
    using room nc(1) by (cases f; auto simp: input_ok_def hazard_def Cons.prems(2) split: option.splits)+
  have "\<exists>s1. loop_step env e i s = Some (Done s1) \<and> ms_at s1 e = Calling fs \<and> ms_queued s1 = ms_queued s \<and> room_for s1 e fs \<and>
    (\<forall>s'. delivers e fs s1 s' \<longrightarrow> delivers e (f # fs) s s')"
  proof (cases "is_request f")
    case False
    from message_callback.step_safe [OF cb(1) refl refl refl cb(2) inv ok] obtain s1 where
      s1: "loop_step env e i s = Some (Done s1)" by blast
    then obtain v where v: "run_functor (env_ctl env) e f s = Some (Done v)" "s1 = move_to e (Calling fs) v"
      using nc(1) by (auto simp: loop_step_def Cons.prems(2) and_then_Done)
    have so: "same_output s s1" using run_functor_output [OF v(1) False] v(2) by (simp add: same_output_def)
    have "room_for s e fs" using Cons.prems(3) False by (simp add: room_for_def)
    moreover have "delivers e (f # fs) s s' = delivers e fs s s'" for s' using False by (simp add: delivers_def)
    ultimately show ?thesis using s1 v run_functor_keeps [OF v(1)] same_output_room [OF so] same_output_delivers [OF so] by auto
  next
    case True
    then obtain p m r where f: "f = FSend p m r" using nc(1) by (cases f) auto
    have "ms_at s e = Calling (FSend p m r # fs)" using Cons.prems(2) f by simp
    moreover have "\<forall>con d. m = Some d \<longrightarrow> ms_objects s p = Some (e, con) \<longrightarrow> con_status con = CONNECTED \<longrightarrow> has_room (output_buf con) (length d)"
      using room f by blast
    ultimately obtain d con con' s1 where m: "m = Some d" and p: "ms_objects s p = Some (e, con)"
      and s1: "loop_step env e i s = Some (Done s1)" "ms_at s1 = (ms_at s)(e := Calling fs)" "ms_queued s1 = ms_queued s"
        "ms_objects s1 = (ms_objects s)(p \<mapsto> (e, con'))" "con_status con' = con_status con"
      and b: "length (buf (output_buf con')) \<le> length (buf (output_buf con)) + length d"
      and w: "con_status con = CONNECTED \<longrightarrow> ms_wire s1 p @ content (output_buf con') = ms_wire s p @ content (output_buf con) @ d"
        "\<forall>q. q \<noteq> p \<longrightarrow> ms_wire s1 q = ms_wire s q"
      using inv_sending [where i = i, OF cb(2) inv] by blast
    have "room_for s1 e fs"
    proof (unfold room_for_def, intro conjI allI impI)
      show "\<forall>f \<in> set fs. \<not> is_FClose f" by (rule nc(2))
      fix q c
      assume "ms_objects s1 q = Some (e, c)"
      then show "has_room (output_buf c) (length (messages q fs))"
        using Cons.prems(3) p b s1(4) f m by (cases "q = p") (force simp: room_for_def has_room_def split: if_splits)+
    qed
    moreover have "delivers e (f # fs) s s'" if dl: "delivers e fs s1 s'" for s'
    proof (unfold delivers_def, intro allI impI)
      fix q c
      assume q: "ms_objects s q = Some (e, c)" "con_status c = CONNECTED"
      show "\<exists>con'. ms_objects s' q = Some (e, con') \<and> con_status con' = CONNECTED \<and>
          ms_wire s' q @ content (output_buf con') = ms_wire s q @ content (output_buf c) @ messages q (f # fs)"
      proof (cases "q = p")
        case True
        have "ms_objects s1 p = Some (e, con')" "con_status con' = CONNECTED" using s1(4,5) p q True by auto
        then obtain c' where "ms_objects s' p = Some (e, c')" "con_status c' = CONNECTED"
          "ms_wire s' p @ content (output_buf c') = (ms_wire s1 p @ content (output_buf con')) @ messages p fs"
          using dl unfolding delivers_def by fastforce
        then show ?thesis using True p q w(1) f m by auto
      next
        case False
        have "ms_objects s1 q = Some (e, c)" using s1(4) q False by simp
        then obtain c' where "ms_objects s' q = Some (e, c')" "con_status c' = CONNECTED"
          "ms_wire s' q @ content (output_buf c') = ms_wire s1 q @ content (output_buf c) @ messages q fs"
          using dl q unfolding delivers_def by blast
        then show ?thesis using False w(2) f m by auto
      qed
    qed
    ultimately show ?thesis using s1 by auto
  qed
  then obtain s1 where s1: "loop_step env e i s = Some (Done s1)" "ms_at s1 e = Calling fs" "ms_queued s1 = ms_queued s" "room_for s1 e fs"
    "\<And>s'. delivers e fs s1 s' \<Longrightarrow> delivers e (f # fs) s s'" by blast
  from Cons.IH [OF server_runs_step [OF Cons.prems(1) ok s1(1)] s1(2,4)] obtain s' where
    "run_schedule env (replicate (length fs) (e, i)) s1 = Some (Done s')" "server_runs tab base env fit s'" "ms_at s' e = Calling []"
    "ms_queued s' = ms_queued s1" "delivers e fs s1 s'" by blast
  then show ?case using s1 by auto
qed

section \<open>Properties\<close>


text \<open>A server whose only client is accepted on loop 0. The message callback is left open; \<open>m\<close> is its input.\<close>

definition demo_env_with :: "('m \<Rightarrow> nat \<Rightarrow> chan \<Rightarrow> (int \<rightharpoonup> int, 'x) MultiServer \<Rightarrow> (int \<rightharpoonup> int, 'x) MultiServer or_abort option) \<Rightarrow> 'x option \<Rightarrow> bool \<Rightarrow> (int \<rightharpoonup> int, 'x, 'm) server_env" where
  "demo_env_with msg ctx keep = \<lparr>env_ctl = demo_ctl, env_write = (\<lambda>_. 8), env_acceptor = 0, env_message = msg, env_context = ctx, env_keep = keep\<rparr>"

definition demo_loops :: "nat \<Rightarrow> (int \<rightharpoonup> int) EventDispatcher" where
  "demo_loops e = demo_evd"

definition demo_acceptor :: Acceptor where
  "demo_acceptor = \<lparr>acc_chan = \<lparr>ch_fd = 3, ch_events = EV_NONE, ch_attached = False, ch_self = 0\<rparr>, acc_listening = False, acc_addr = inet_ipv4\<rparr>"

definition demo_base :: "nat \<Rightarrow> chan \<rightharpoonup> Channel" where
  "demo_base = (\<lambda>_. Map.empty)(0 := [0 \<mapsto> \<lparr>ch_fd = 3, ch_events = EV_READ, ch_attached = True, ch_self = 0\<rparr>])"

definition demo_start :: "nat \<Rightarrow> (int \<rightharpoonup> int, 'x) MultiServer" where
  "demo_start n = (new_MultiServer demo_loops n)\<lparr>ms_evds := map Suc [0..<n], ms_running := True,
     ms_loops := demo_loops(0 := (demo_loops 0)\<lparr>selector := \<lparr>kern = [3 \<mapsto> EPOLLIN], ev_cap = 10\<rparr>, channels := [3 \<mapsto> 0]\<rparr>)\<rparr>"

definition demo_input :: "'m \<Rightarrow> 'm step_input" where
  "demo_input m = \<lparr>in_ready = None, in_accept = Accepted 9, in_self = 5, in_read = Readv_data [], in_message = m, in_send = Sent 0\<rparr>"

lemma demo_env_simps [simp]:
  "env_ctl (demo_env_with msg ctx keep) = demo_ctl" "env_write (demo_env_with msg ctx keep) = (\<lambda>_. 8)" "env_acceptor (demo_env_with msg ctx keep) = 0"
  "env_message (demo_env_with msg ctx keep) = msg" "env_context (demo_env_with msg ctx keep) = ctx" "env_keep (demo_env_with msg ctx keep) = keep"
  by (simp_all add: demo_env_with_def)

lemma demo_Start:
  "ms_Start demo_ctl (\<lambda>_. 0) demo_acceptor (new_MultiServer demo_loops n) =
     Done (demo_start n, demo_acceptor\<lparr>acc_listening := True, acc_chan := \<lparr>ch_fd = 3, ch_events = EV_READ, ch_attached = True, ch_self = 0\<rparr>\<rparr>)"
  by (simp add: ms_Start_def new_MultiServer_def Listen_def listen_or_die_def demo_acceptor_def EnableRead_def SetEvents_def
      channel_Update_def RegisterChannel_def epoll_Add_def demo_loops_def demo_evd_def new_EventDispatcher_def
      demo_start_def epoll_mask_def event_bits Let_def)

lemma demo_runs:
  assumes "message_callback demo_ctl (\<lambda>_. 8) (\<lambda>k. k) msg fit"
  shows "server_runs (\<lambda>k. k) demo_base (demo_env_with msg ctx keep) fit (demo_start n)"
proof -
  let ?own = "(\<lambda>_. Map.empty) :: nat \<Rightarrow> chan \<rightharpoonup> Channel"
  have "in_sync (\<lambda>k. k) (demo_loops e) Map.empty" for e
    by (auto simp: in_sync_def demo_loops_def demo_evd_def new_EventDispatcher_def)
  then have ready: "server_ready (\<lambda>k. k) ?own demo_loops demo_acceptor"
    by (simp add: server_ready_def demo_acceptor_def demo_loops_def demo_evd_def new_EventDispatcher_def)
  let ?a = "demo_acceptor\<lparr>acc_listening := True, acc_chan := \<lparr>ch_fd = 3, ch_events = EV_READ, ch_attached = True, ch_self = 0\<rparr>\<rparr>"
  have "demo_base = ?own(0 := (?own 0)(0 \<mapsto> acc_chan ?a))" by (simp add: demo_base_def)
  then show ?thesis unfolding server_runs_def using ready demo_ctl_ok reach_start assms demo_Start
    by (intro conjI exI [of _ "\<lambda>_. 0"] exI [of _ demo_loops] exI [of _ demo_acceptor] exI [of _ n] exI [of _ "demo_start n"] exI [of _ ?a] exI [of _ ?own])
      (simp_all add: demo_acceptor_def)
qed

text \<open>Loop 0 finds the acceptor readable and calls its handler.\<close>

lemma demo_reads_acceptor:
  assumes "message_callback demo_ctl (\<lambda>_. 8) (\<lambda>k. k) msg fit"
  shows "server_runs (\<lambda>k. k) demo_base (demo_env_with msg ctx keep) fit (move_to 0 (InHandlers 0 [HRead] []) (demo_start n))"
proof -
  fix m :: 'a
  let ?i = "(demo_input m)\<lparr>in_ready := Some [(EPOLLIN, 3)]\<rparr>" and ?s = "demo_start n :: (int \<rightharpoonup> int, 'b) MultiServer" and ?env = "demo_env_with msg ctx keep"
  let ?s1 = "move_to 0 (InBatch [\<lparr>revents = EV_READ, ev_fd = 3\<rparr>]) ?s"
  have at0: "ms_at ?s = (\<lambda>_. AtSelect)" "ms_loops ?s 0 = (demo_loops 0)\<lparr>selector := \<lparr>kern = [3 \<mapsto> EPOLLIN], ev_cap = 10\<rparr>, channels := [3 \<mapsto> 0]\<rparr>"
    by (simp_all add: demo_start_def new_MultiServer_def)
  have "(ms_loops ?s)(0 := (ms_loops ?s 0)\<lparr>selector := selector (ms_loops ?s 0)\<rparr>) = ms_loops ?s" by simp
  then have "loop_step ?env 0 ?i ?s = Some (Done ?s1)"
    by (simp add: loop_step_def loop_select_def at0(1) epoll_Select_def trans_epollev_to_ev_def event_bits)
       (simp add: at0 demo_start_def move_to_def)
  from server_runs_step [OF demo_runs [OF assms] _ _ this] have r1: "server_runs (\<lambda>k. k) demo_base ?env fit ?s1"
    by (simp add: input_ok_def hazard_def at0)
  have "HandleEvent EV_READ = [HRead]" by (simp add: HandleEvent_def event_bits)
  then have "loop_step ?env 0 (demo_input m) ?s1 = Some (Done (move_to 0 (InHandlers 0 [HRead] []) ?s))"
    by (simp add: loop_step_def loop_event_def findChannel_def at0) (simp add: move_to_def)
  from server_runs_step [OF r1 _ _ this] show ?thesis by (simp add: input_ok_def hazard_def)
qed

lemma demo_accept_ok:
  "\<not> hazard (demo_env_with msg ctx keep) 0 (demo_input m) (move_to 0 (InHandlers 0 [HRead] []) (demo_start n))"
  "input_ok (\<lambda>k. k) demo_base (demo_env_with msg ctx keep) fit 0 (demo_input m) (move_to 0 (InHandlers 0 [HRead] []) (demo_start n))"
  by (simp add: hazard_def demo_input_def move_to_def demo_start_def new_MultiServer_def)
    (auto simp: input_ok_def move_to_def demo_input_def demo_base_def demo_start_def new_MultiServer_def
      demo_loops_def demo_evd_def new_EventDispatcher_def intro!: exI [of _ 1])

lemma demo_next_id: "next_id_loop 1 (\<lambda>x. None :: chan option) 1 = Some 1"
  by (subst next_id_loop.simps) simp

text \<open>With a worker and the echo callback, the new connection is handed to loop 1.\<close>

definition demo_env :: "(int \<rightharpoonup> int, nat, send_result) server_env" where
  "demo_env = demo_env_with (\<lambda>r e p. on_object e p (echo_message demo_ctl r)) None True"

definition demo_accepted :: "(int \<rightharpoonup> int, nat) MultiServer" where
  "demo_accepted = move_to 0 (InHandlers 0 [] []) ((demo_start 1)\<lparr>ms_objects := [5 \<mapsto> (1, new_Connection 1 5 9)], ms_connections := [1 \<mapsto> 5], ms_held := [5],
     ms_queued := [(1, FEstablish 5)]\<rparr>)"

lemma demo_to_accepted: "server_runs (\<lambda>k. k) demo_base demo_env (\<lambda>r _. echo_fit r) demo_accepted"
proof -
  have "loop_step demo_env 0 (demo_input (Sent 0)) (move_to 0 (InHandlers 0 [HRead] []) (demo_start 1)) = Some (Done demo_accepted)"
    by (simp add: demo_next_id loop_step_def call_handler_def demo_env_def demo_input_def acceptor_HandleRead_def accept_connect_def ms_newConnect_def
      ms_nextId_def nextEvd_def run_in_def demo_start_def new_MultiServer_def demo_accepted_def move_to_def Let_def)
  then show ?thesis unfolding demo_env_def
    by (rule server_runs_step [OF demo_reads_acceptor [OF echo.server.message_callback_axioms] demo_accept_ok(2,1)])
qed


end
