(* ===== verification/Multi_Progress.thy ===== *)
theory Multi_Progress
  imports Multi_Safety
begin

text \<open>
  What comes out of running the server with worker loops (\<^theory_text>\<open>Multi_Server\<close>): connections handed to a worker are
  established and ended ones leave the table when the loop has gone through its functors, workers are chosen in
  turn; and what becomes of the server in three of the hazards its safety leaves out: a connection nobody refers to at its end, a
  second request to close, and a functor for a loop that is calling its own.
\<close>

section \<open>Lemmas\<close>

text \<open>The loops chosen for \<open>n\<close> new connections in a row.\<close>

fun take_evds :: "nat \<Rightarrow> ('k, 'x) MultiServer \<Rightarrow> (nat list \<times> ('k, 'x) MultiServer) option" where
  "take_evds 0 s = Some ([], s)"
| "take_evds (Suc n) s = do { (e, s) \<leftarrow> nextEvd s; (es, s) \<leftarrow> take_evds n s; Some (e # es, s) }"

lemma take_evds_from:
  assumes "ms_evds s = map Suc [0..<n]" and "ms_next_evd_id s = k" and "k < n"
  shows "\<exists>s'. take_evds m s = Some (map (\<lambda>j. Suc ((k + j) mod n)) [0..<m], s')"
  using assms
proof (induction m arbitrary: s k)
  case (Suc m)
  let ?k = "if n \<le> Suc k then 0 else Suc k"
  let ?s = "s\<lparr>ms_next_evd_id := ?k\<rparr>"
  have nx: "nextEvd s = Some (Suc k, ?s)" using Suc.prems by (simp add: nextEvd_def)
  have kn: "?k < n" using Suc.prems(3) by simp
  have "ms_evds ?s = map Suc [0..<n]" "ms_next_evd_id ?s = ?k" using Suc.prems(1) by simp_all
  from Suc.IH [OF this kn] obtain s' where s': "take_evds m ?s = Some (map (\<lambda>j. Suc ((?k + j) mod n)) [0..<m], s')" by blast
  have e: "(?k + j) mod n = (k + Suc j) mod n" for j
  proof (cases "n \<le> Suc k")
    case True
    then have "n = Suc k" using Suc.prems(3) by simp
    then show ?thesis by (simp add: mod_add_left_eq flip: add_Suc)
  qed simp
  have "map (\<lambda>j. Suc ((k + j) mod n)) [0..<Suc m] = Suc k # map (\<lambda>j. Suc ((k + Suc j) mod n)) [0..<m]"
    using Suc.prems(3) by (simp add: map_upt_Suc del: upt_Suc)
  then show ?case using nx s' by (simp add: e del: upt_Suc)
qed simp

section \<open>Properties\<close>


text \<open>The server of the demo, in which the worker goes through an empty round up to its functors, before which another thread has sent a
  message on the new connection.\<close>

definition demo_sent :: "loop_at \<Rightarrow> bool \<Rightarrow> (int \<rightharpoonup> int, nat) MultiServer" where
  "demo_sent l b = move_to 1 l (demo_accepted\<lparr>ms_calling := (\<lambda>_. False)(1 := b), ms_queued := [(1, FEstablish 5), (1, FSend 5 (Some ''hi'') (Sent 1))]\<rparr>)"

lemma demo_sent_moves:
  "move_to 1 l' (demo_sent l b) = demo_sent l' b"
  "move_to 1 l' ((demo_sent l b)\<lparr>ms_calling := (ms_calling (demo_sent l b))(1 := b')\<rparr>) = demo_sent l' b'"
  by (simp_all add: demo_sent_def move_to_def)

lemma demo_to_sent: "server_runs (\<lambda>k. k) demo_base demo_env (\<lambda>r _. echo_fit r) (demo_sent AtSelect False)"
proof -
  have at: "ms_at demo_accepted 1 = AtSelect" "ms_calling demo_accepted = (\<lambda>_. False)"
    by (simp_all add: demo_accepted_def demo_start_def new_MultiServer_def)
  have p: "ms_objects demo_accepted 5 = Some (1, new_Connection 1 5 9)" "ms_queued demo_accepted = [(1, FEstablish 5)]"
    by (simp_all add: demo_accepted_def)
  then have "alive demo_accepted 5" by (simp add: alive_def)
  from server_runs_send [OF demo_to_accepted p(1) this, of 7 "''hi''" "Sent 1"] at(2)
  have "server_runs (\<lambda>k. k) demo_base demo_env (\<lambda>r _. echo_fit r) (demo_accepted\<lparr>ms_queued := [(1, FEstablish 5), (1, FSend 5 (Some ''hi'') (Sent 1))]\<rparr>)"
    using p(2) by simp
  moreover have "demo_accepted\<lparr>ms_queued := [(1, FEstablish 5), (1, FSend 5 (Some ''hi'') (Sent 1))]\<rparr> = demo_sent AtSelect False"
    using at by (simp add: demo_sent_def move_to_def fun_upd_idem)
  ultimately show ?thesis by simp
qed

lemma demo_to_entering: "server_runs (\<lambda>k. k) demo_base demo_env (\<lambda>r _. echo_fit r) (demo_sent Entering True)"
proof -
  note step = server_runs_step [where e = 1 and i = "demo_input (Sent 0)", OF _ _ _]
  have at: "ms_at (demo_sent l b) 1 = l" for l b by (simp add: demo_sent_def)
  have loops: "(ms_loops s)(1 := (ms_loops s 1)\<lparr>selector := selector (ms_loops s 1)\<rparr>) = ms_loops s" for s :: "(int \<rightharpoonup> int, nat) MultiServer" by simp
  from loops [of "demo_sent AtSelect False"] have "loop_step demo_env 1 (demo_input (Sent 0)) (demo_sent AtSelect False) = Some (Done (demo_sent (InBatch []) False))"
    by (simp add: loop_step_def at [of AtSelect, simplified] loop_select_def epoll_Select_def demo_input_def demo_sent_moves [simplified])
  from step [OF demo_to_sent _ _ this] have r1: "server_runs (\<lambda>k. k) demo_base demo_env (\<lambda>r _. echo_fit r) (demo_sent (InBatch []) False)"
    using at [of AtSelect] by (simp add: input_ok_def hazard_def demo_input_def)
  have "loop_step demo_env 1 (demo_input (Sent 0)) (demo_sent (InBatch []) False) = Some (Done (demo_sent AtFunctors False))"
    by (simp add: loop_step_def at [simplified] demo_sent_moves [simplified])
  from step [OF r1 _ _ this] have r2: "server_runs (\<lambda>k. k) demo_base demo_env (\<lambda>r _. echo_fit r) (demo_sent AtFunctors False)"
    using at [of "InBatch []"] by (simp add: input_ok_def hazard_def)
  have "loop_step demo_env 1 (demo_input (Sent 0)) (demo_sent AtFunctors False) = Some (Done (demo_sent Entering True))"
    by (simp add: loop_step_def at [simplified] demo_sent_moves [simplified])
  from step [OF r2 _ _ this] show ?thesis using at [of AtFunctors] by (simp add: input_ok_def hazard_def)
qed


text \<open>C36: a connection nobody keeps is used after its destruction. In every reachable state in which the accepting loop is about to
  read from one of its own connections that is up, that the application keeps no reference to and no functor is waiting
  for, the end of the stream takes the connection out of the loop and the table and so destroys it, and the next
  thing \<^verbatim>\<open>Connection::HandleRead\<close> does is to set its \<^verbatim>\<open>_status\<close>. The server without workers, as the HTTP server
  uses it, is always in this situation.\<close>

theorem eof_writes_freed_object:
  assumes "server_runs tab base env fit s" and "ms_at s 0 = InHandlers p (HRead # hs) evs"
    and "ms_objects s p = Some (0, con)" and "p \<notin> set (ms_held s)" and "p \<notin> set (map (captured \<circ> snd) (ms_queued s @ ms_batch s))"
    and "in_read i = Readv_data []" and "has_room (input_buf con) 0"
  shows "\<exists>s'. loop_step env 0 i s = Some (Done s') \<and> ms_at s' 0 = EofTail p hs evs \<and> ms_connections s' (con_id con) = None \<and>
    \<not> alive s' p \<and> loop_step env 0 j s' = None"
proof -
  have ctl: "ctl_ok (env_ctl env) tab" using assms(1) by (simp add: server_runs_def)
  note inv = server_runs_inv [OF assms(1)]
  have up: "con_status con = CONNECTED" using inv_at [OF inv, of 0] assms(2,3) by (auto simp: at_ok_def)
  note o = inv_obj [OF inv assms(3), unfolded obj_ok_def]
  have b0: "buf_ok (input_buf con)" using o by blast
  then have "int (length ([] :: bytes)) \<le> readv_capacity (input_buf con)"
    using WritableBytes_eq [OF b0] by (simp add: readv_capacity_def extrabuf_size_def buf_ok_def)
  with Retrieve_ok [OF b0, of "[]"] assms(7) obtain b where b: "Retrieve (input_buf con) (Readv_data []) = Some (Done (0, b))" by auto
  let ?con = "con\<lparr>input_buf := b, con_status := CLOSING\<rparr>"
  let ?s1 = "hold p ((move_to 0 (InHandlers p hs evs) s)\<lparr>ms_objects := (ms_objects s)(p \<mapsto> (0, ?con))\<rparr>)"
  have cs: "conns_on base (ms_objects s) 0 p = Some (con_chan ?con)" "ch_attached (con_chan ?con)" using assms(3) up o by (simp_all add: conns_on_def)
  have tab: "ms_connections s (con_id con) = Some p" using o up by simp
  have "ms_connections ?s1 (con_id ?con) = Some p" "ms_objects ?s1 p = Some (0, ?con)" using tab by simp_all
  with closeConnect_result [where s = ?s1 and e = 0 and p = p and con = ?con and wr = "env_write env" and cs = "conns_on base (ms_objects s) 0", OF ctl _ cs]
    inv_sync [OF inv, of 0] obtain d where
    d: "ms_closeConnect (env_ctl env) (env_write env) None 0 p ?s1 = Some (Done (?s1\<lparr>ms_loops := (ms_loops s)(0 := d),
      ms_connections := (ms_connections s)(con_id con := None), ms_queued := ms_queued s\<rparr>))" by auto
  let ?s = "move_to 0 (EofTail p hs evs) (unhold p (?s1\<lparr>ms_loops := (ms_loops s)(0 := d), ms_connections := (ms_connections s)(con_id con := None), ms_queued := ms_queued s\<rparr>))"
  have "alive (move_to 0 (InHandlers p hs evs) s) p" using assms(3) tab by (simp add: alive_def)
  then have "loop_step env 0 i s = Some (Done ?s)"
    using assms(2,3,6) o b d by (simp add: loop_step_def call_handler_def ms_HandleRead_def live_object_def)
  moreover have "\<not> alive ?s p" using assms(4,5) by (simp add: alive_def)
  moreover from this have "loop_step env 0 j ?s = None" by (simp add: loop_step_def live_object_def)
  ultimately show ?thesis by (intro exI [of _ ?s]) simp
qed

text \<open>Without workers: the client is accepted, its connection established at once, and nobody keeps it.\<close>

definition demo_con :: "'x option \<Rightarrow> 'x Connection" where
  "demo_con ctx = (new_Connection 1 5 9)\<lparr>con_chan := \<lparr>ch_fd = 9, ch_events = EV_READ, ch_attached = True, ch_self = 5\<rparr>, con_status := CONNECTED, con_context := ctx\<rparr>"

definition demo_alone :: "'x option \<Rightarrow> bool \<Rightarrow> loop_at \<Rightarrow> (int \<rightharpoonup> int, 'x) MultiServer" where
  "demo_alone ctx b l = (demo_start 0)\<lparr>ms_objects := [5 \<mapsto> (0, demo_con ctx)],
       ms_connections := [1 \<mapsto> 5], ms_calling := (\<lambda>_. False)(0 := b), ms_at := (\<lambda>_. AtSelect)(0 := l),
       ms_loops := demo_loops(0 := (demo_loops 0)\<lparr>selector := \<lparr>kern = [3 \<mapsto> EPOLLIN, 9 \<mapsto> EPOLLIN], ev_cap = 10\<rparr>, channels := [3 \<mapsto> 0, 9 \<mapsto> 5]\<rparr>)\<rparr>"

lemma demo_alone_sel [simp]:
  "ms_at (demo_alone ctx b l) = (\<lambda>_. AtSelect)(0 := l)" "ms_queued (demo_alone ctx b l) = []" "ms_batch (demo_alone ctx b l) = []" "ms_held (demo_alone ctx b l) = []"
  "ms_calling (demo_alone ctx b l) = (\<lambda>_. False)(0 := b)" "stop (ms_loops (demo_alone ctx b l) 0) = False"
  "selector (ms_loops (demo_alone ctx b l) 0) = \<lparr>kern = [3 \<mapsto> EPOLLIN, 9 \<mapsto> EPOLLIN], ev_cap = 10\<rparr>"
  "channels (ms_loops (demo_alone ctx b l) 0) = [3 \<mapsto> 0, 9 \<mapsto> 5]" "ms_objects (demo_alone ctx b l) = [5 \<mapsto> (0, demo_con ctx)]"
  "ms_connections (demo_alone ctx b l) = [1 \<mapsto> 5]" "ms_wire (demo_alone ctx b l) = (\<lambda>_. [])" "ms_closed (demo_alone ctx b l) = []"
  by (simp_all add: demo_alone_def demo_start_def new_MultiServer_def demo_loops_def demo_evd_def new_EventDispatcher_def)

lemma demo_alone_moves:
  "move_to 0 l' (demo_alone ctx b l) = demo_alone ctx b l'"
  "move_to 0 l' ((demo_alone ctx b l)\<lparr>ms_calling := (ms_calling (demo_alone ctx b l))(0 := b')\<rparr>) = demo_alone ctx b' l'"
  "move_to 0 l' ((demo_alone ctx b l)\<lparr>ms_calling := (ms_calling (demo_alone ctx b l))(0 := b'), ms_batch := []\<rparr>) = demo_alone ctx b' l'"
  "(demo_alone ctx b l)\<lparr>ms_batch := []\<rparr> = demo_alone ctx b l" "(demo_alone ctx b l)\<lparr>ms_queued := []\<rparr> = demo_alone ctx b l"
  by (simp_all add: demo_alone_def move_to_def demo_start_def new_MultiServer_def)

lemma demo_alone_go:
  assumes "server_runs (\<lambda>k. k) demo_base (demo_env_with msg ctx False) fit (demo_alone ctx b l)"
    and "loop_step (demo_env_with msg ctx False) 0 (demo_input m) (demo_alone ctx b l) = Some (Done (demo_alone ctx b' l'))"
    and "\<not> (\<exists>c hs evs. l = InHandlers c (HRead # hs) evs)" and "\<not> (\<exists>f fs. l = Calling (f # fs))" and "l \<noteq> AtSelect"
    and "\<not> (\<exists>c hs evs. l = EofTail c hs evs)"
  shows "server_runs (\<lambda>k. k) demo_base (demo_env_with msg ctx False) fit (demo_alone ctx b' l')"
  by (rule server_runs_step [OF assms(1) _ _ assms(2)]) (use assms(3-6) in \<open>auto simp: input_ok_def hazard_def split: loop_at.split list.split handler.split\<close>)

lemma demo_to_alone_functors:
  assumes "message_callback demo_ctl (\<lambda>_. 8) (\<lambda>k. k) msg fit"
  shows "server_runs (\<lambda>k. k) demo_base (demo_env_with msg ctx False) fit (demo_alone ctx False AtFunctors)"
proof -
  fix m :: 'a
  let ?env = "demo_env_with msg ctx False" and ?r = "server_runs (\<lambda>k. k) demo_base (demo_env_with msg ctx False) fit"
  note go = demo_alone_go [of msg ctx fit _ _ m]
  have w: "(\<lambda>_. [])(5 := []) = (\<lambda>_ :: chan. [] :: bytes)" "(\<lambda>_. False)(0 := False) = (\<lambda>_ :: nat. False)" by auto
  have "loop_step ?env 0 (demo_input m) (move_to 0 (InHandlers 0 [HRead] []) (demo_start 0)) = Some (Done (demo_alone ctx False (InHandlers 0 [] [])))"
    by (simp add: demo_next_id loop_step_def call_handler_def demo_input_def acceptor_HandleRead_def accept_connect_def ms_newConnect_def
      ms_nextId_def nextEvd_def run_in_def on_object_def live_object_def alive_def establish_def on_channel_def set_status_def w EnableRead_def
      SetEvents_def channel_Update_def RegisterChannel_def
      epoll_Add_def demo_start_def demo_loops_def demo_evd_def new_EventDispatcher_def new_MultiServer_def
      demo_alone_def demo_con_def move_to_def new_Connection_def epoll_mask_def event_bits Let_def)
  from server_runs_step [OF demo_reads_acceptor [OF assms] demo_accept_ok(2,1) this] have "?r (demo_alone ctx False (InHandlers 0 [] []))" .
  from go [OF this, of False "InBatch []"] have "?r (demo_alone ctx False (InBatch []))" by (simp add: loop_step_def demo_alone_moves)
  from go [OF this, of False AtFunctors] show ?thesis by (simp add: loop_step_def demo_alone_moves)
qed

lemma demo_to_alone_entering:
  assumes "message_callback demo_ctl (\<lambda>_. 8) (\<lambda>k. k) msg fit"
  shows "server_runs (\<lambda>k. k) demo_base (demo_env_with msg ctx False) fit (demo_alone ctx True Entering)"
proof -
  fix m :: 'a
  show ?thesis
    using demo_alone_go [of msg ctx fit False AtFunctors m True Entering, OF demo_to_alone_functors [OF assms]] by (simp add: loop_step_def demo_alone_moves del: demo_alone_sel(5))
qed

lemma demo_to_alone:
  assumes "message_callback demo_ctl (\<lambda>_. 8) (\<lambda>k. k) msg fit"
  shows "server_runs (\<lambda>k. k) demo_base (demo_env_with msg ctx False) fit (demo_alone ctx False (InHandlers 5 [HRead] []))"
proof -
  fix m :: 'a
  let ?env = "demo_env_with msg ctx False" and ?r = "server_runs (\<lambda>k. k) demo_base (demo_env_with msg ctx False) fit"
  note go = demo_alone_go [of msg ctx fit _ _ m]
  from go [OF demo_to_alone_entering [OF assms], of True "Calling []"] have "?r (demo_alone ctx True (Calling []))" by (simp add: loop_step_def demo_alone_moves)
  from go [OF this, of False AtSelect] have r: "?r (demo_alone ctx False AtSelect)" by (simp add: loop_step_def demo_alone_moves del: demo_alone_sel(5))
  let ?i = "(demo_input m)\<lparr>in_ready := Some [(EPOLLIN, 9)]\<rparr>" and ?b = "InBatch [\<lparr>revents = EV_READ, ev_fd = 9\<rparr>]"
  have "(ms_loops s)(0 := (ms_loops s 0)\<lparr>selector := selector (ms_loops s 0)\<rparr>) = ms_loops s" for s :: "(int \<rightharpoonup> int, 'b) MultiServer" by simp
  from this [of "demo_alone ctx False AtSelect"] have "loop_step ?env 0 ?i (demo_alone ctx False AtSelect) = Some (Done (demo_alone ctx False ?b))"
    by (simp add: loop_step_def loop_select_def epoll_Select_def trans_epollev_to_ev_def event_bits demo_alone_moves)
  from server_runs_step [OF r _ _ this] have "?r (demo_alone ctx False ?b)" by (simp add: input_ok_def hazard_def)
  moreover have "HandleEvent EV_READ = [HRead]" by (simp add: HandleEvent_def event_bits)
  ultimately show ?thesis using go [of False ?b False "InHandlers 5 [HRead] []"]
    by (simp add: loop_step_def loop_event_def findChannel_def demo_alone_moves)
qed

theorem eof_writes_freed_object_witness:
  "\<exists>s'. loop_step (demo_env_with (\<lambda>r e p. on_object e p (echo_message demo_ctl r)) None False) 0 (demo_input (Sent 0))
       (demo_alone None False (InHandlers 5 [HRead] []) :: (int \<rightharpoonup> int, nat) MultiServer) = Some (Done s') \<and>
     loop_step (demo_env_with (\<lambda>r e p. on_object e p (echo_message demo_ctl r)) None False) 0 (demo_input (Sent 0)) s' = None"
proof -
  let ?s = "demo_alone None False (InHandlers 5 [HRead] []) :: (int \<rightharpoonup> int, nat) MultiServer"
  have "has_room (input_buf (demo_con None)) 0" by (simp add: demo_con_def new_Connection_def kInitialSize_def)
  moreover have "in_read (demo_input (Sent 0)) = Readv_data []" by (simp add: demo_input_def)
  ultimately show ?thesis
    using eof_writes_freed_object [OF demo_to_alone [OF echo.server.message_callback_axioms, of None], of 5 "[]" "[]" "demo_con None" "demo_input (Sent 0)" "demo_input (Sent 0)"]
    by auto
qed

text \<open>Closing a connection that another thread has asked to close is not safe. \<^verbatim>\<open>ForceClose\<close> looks at \<^verbatim>\<open>_status\<close> on the
  calling thread and closes on the loop: in every reachable state in which the loop comes to the lambda when the connection is closed
  already, by its end or by another such call, and no connection has taken over its descriptor, the step removes a descriptor that is
  not registered and so ends the process.\<close>

theorem late_close_kills:
  assumes "server_runs tab base env fit s" and "ms_at s e = Calling (FClose p # fs)"
    and "ms_objects s p = Some (e, con)" and "channels (ms_loops s e) (ch_fd (con_chan con)) = None"
  shows "loop_step env e i s = Some Aborted"
proof -
  have ctl: "ctl_ok (env_ctl env) tab" using assms(1) by (simp add: server_runs_def)
  note inv = server_runs_inv [OF assms(1)]
  have "refers p s" using inv_at [OF inv, of e] assms(2) by (force simp: at_ok_def refers_def)
  then have live: "live_object s p = Some (e, con)" by (rule live_refers [OF assms(3)])
  then have alive: "alive s p" by (simp add: live_object_def split: if_splits)
  let ?s = "s\<lparr>ms_objects := (ms_objects s)(p \<mapsto> (e, con\<lparr>con_status := CLOSING\<rparr>))\<rparr>"
  have "alive ?s p" using \<open>refers p s\<close> by (auto simp: refers_def alive_def)
  then have l: "live_object ?s p = Some (e, con\<lparr>con_status := CLOSING\<rparr>)" by (simp add: live_object_def)
  have "tab (kern (selector (ms_loops s e))) (ch_fd (con_chan con)) = None"
    using inv_sync [OF inv, of e] assms(4) by (simp add: in_sync_def)
  then have "RemoveChannel (env_ctl env) (ms_loops s e) (con_chan con) = Aborted"
    using ctl by (simp add: ctl_ok_def RemoveChannel_def epoll_Remove_def split_beta)
  then have "ms_closeConnect (env_ctl env) (env_write env) None e p ?s = Some Aborted"
    by (simp add: ms_closeConnect_def ms_removeConnect_def l run_in_def on_object_def conn_Remove_def)
  then show ?thesis using live by (simp add: loop_step_def assms(2) force_close_def upd_object_def)
qed

text \<open>Another thread asks twice, before the loop has come to the first request.\<close>

theorem late_close_kills_witness:
  "run_schedule (demo_env_with (\<lambda>r e p. on_object e p (echo_message demo_ctl r)) None False) (replicate 4 (0, demo_input (Sent 0)))
     ((demo_alone None False AtFunctors :: (int \<rightharpoonup> int, nat) MultiServer)\<lparr>ms_queued := [(0, FClose 5), (0, FClose 5)]\<rparr>) = Some Aborted"
proof -
  let ?env = "demo_env_with (\<lambda>r e p. on_object e p (echo_message demo_ctl r)) None False" and ?i = "demo_input (Sent 0)"
  let ?q = "\<lambda>s. s\<lparr>ms_queued := [(0, FClose 5), (0, FClose 5)]\<rparr>"
  let ?s = "?q (demo_alone None False AtFunctors :: (int \<rightharpoonup> int, nat) MultiServer)"
  let ?sa = "move_to 0 Entering (?s\<lparr>ms_calling := (ms_calling ?s)(0 := True)\<rparr>)"
  let ?s1 = "move_to 0 (Calling [FClose 5, FClose 5]) (?sa\<lparr>ms_batch := [(0, FClose 5), (0, FClose 5)], ms_queued := []\<rparr>)"
  let ?r = "server_runs (\<lambda>k. k) demo_base ?env (\<lambda>r _. echo_fit r)"
  have up: "con_status (demo_con None :: nat Connection) = CONNECTED" by (simp add: demo_con_def)
  have "?r (demo_alone None False AtFunctors)" by (rule demo_to_alone_functors [OF echo.server.message_callback_axioms])
  from server_runs_close [OF this, of 5 0 "demo_con None" 7]
  have "?r ((demo_alone None False AtFunctors)\<lparr>ms_queued := [(0, FClose 5)]\<rparr>)" using up by (simp add: alive_def demo_con_def new_Connection_def)
  from server_runs_close [OF this, of 5 0 "demo_con None" 7] have r: "?r ?s" using up by (simp add: alive_def demo_con_def new_Connection_def)
  have st0: "loop_step ?env 0 ?i ?s = Some (Done ?sa)" by (simp add: loop_step_def)
  have "input_ok (\<lambda>k. k) demo_base ?env (\<lambda>r _. echo_fit r) 0 ?i ?s" "\<not> hazard ?env 0 ?i ?s" by (simp_all add: input_ok_def hazard_def)
  from server_runs_step [OF r this st0] have r0: "?r ?sa" .
  have st1: "loop_step ?env 0 ?i ?sa = Some (Done ?s1)" by (simp add: loop_step_def Let_def)
  have "input_ok (\<lambda>k. k) demo_base ?env (\<lambda>r _. echo_fit r) 0 ?i ?sa" "\<not> hazard ?env 0 ?i ?sa" by (simp_all add: input_ok_def hazard_def)
  from server_runs_step [OF r0 this st1] have r1: "?r ?s1" .
  have "ch_fd (con_chan (demo_con None :: nat Connection)) = 9" by (simp add: demo_con_def)
  then obtain s2 where st2: "loop_step ?env 0 ?i ?s1 = Some (Done s2)" and at2: "ms_at s2 0 = Calling [FClose 5]"
    and o2: "ms_objects s2 5 = Some (0, (demo_con None)\<lparr>con_status := CLOSED\<rparr>)" and c2: "channels (ms_loops s2 0) 9 = None"
    by (simp add: loop_step_def force_close_def upd_object_def live_object_def alive_def ms_closeConnect_def ms_removeConnect_def run_in_def on_object_def
      conn_Remove_def RemoveChannel_def epoll_Remove_def)
  have "?r s2" by (rule server_runs_step [OF r1 _ _ st2]) (use up in \<open>simp_all add: input_ok_def hazard_def\<close>)
  from late_close_kills [OF this at2 o2, of ?i] have "loop_step ?env 0 ?i s2 = Some Aborted" using c2 by (simp add: demo_con_def)
  then show ?thesis using st0 st1 st2 by (simp add: numeral_eq_Suc del: demo_alone_sel)
qed

text \<open>The accepting loop crashes on a busy worker. In every state in which the acceptor has a client for a worker that is
  running its functors, and the worker's dispatcher has its wake-up descriptors as the constructor leaves them, the step
  is undefined: \<^verbatim>\<open>Wakeup\<close> writes to \<^verbatim>\<open>_wakeup_fds[0]\<close>, which the constructor does not set (it sets element
  1, twice).\<close>

theorem accept_wakeup_undefined:
  assumes "ms_at s 0 = InHandlers (env_acceptor env) (HRead # hs) evs" and "in_accept i = Accepted fd"
    and "nextEvd s = Some (e, s')" and "e \<noteq> 0" and "ms_calling s e"
    and "make_EventDispatcher epfd k self evfd = Done (d, c)" and "wakeup_fds (ms_loops s e) = wakeup_fds d"
  shows "loop_step env 0 i s = None"
proof (cases "next_id_loop 1 (ms_connections s) (ms_next_id s)")
  case None
  then show ?thesis using assms(1,2)
    by (simp add: loop_step_def call_handler_def acceptor_HandleRead_def accept_connect_def ms_newConnect_def ms_nextId_def)
next
  case (Some j)
  let ?m = "move_to 0 (InHandlers (env_acceptor env) hs evs)"
  have n: "nextEvd ((?m s)\<lparr>ms_next_id := j\<rparr>) = Some (e, (?m s')\<lparr>ms_next_id := j\<rparr>)" "ms_calling s' = ms_calling s" "ms_loops s' = ms_loops s"
    using assms(3) by (auto simp: nextEvd_def move_to_def split: if_splits)
  have "wakeup_fds d 0 = None" using assms(6)
    by (auto simp: make_EventDispatcher_def new_EventDispatcher_def split: or_abort.splits)
  then show ?thesis using assms(1,2,4,5,7) Some n
    by (simp add: loop_step_def call_handler_def acceptor_HandleRead_def accept_connect_def ms_newConnect_def ms_nextId_def
        run_in_def Wakeup_def Let_def)
qed

theorem accept_wakeup_undefined_witness:
  "\<exists>d c. make_EventDispatcher 6 Map.empty 1 8 = Done (d, c) \<and>
     loop_step demo_env 0 (demo_input (Sent 0)) ((move_to 0 (InHandlers 0 [HRead] []) (demo_start 1))\<lparr>ms_calling := (\<lambda>e. e = 1), ms_loops := (\<lambda>_. d)\<rparr>) = None"
proof -
  obtain d c where d: "make_EventDispatcher 6 (Map.empty :: int \<rightharpoonup> int) 1 8 = Done (d, c)"
    by (simp add: make_EventDispatcher_def new_EpollSelector_def new_WakeupChannel_def createEventfd_def)
  let ?s = "(move_to 0 (InHandlers 0 [HRead] []) (demo_start 1))\<lparr>ms_calling := (\<lambda>e. e = 1), ms_loops := (\<lambda>_. d)\<rparr>"
  have "ms_at ?s 0 = InHandlers (env_acceptor demo_env) [HRead] []" "in_accept (demo_input (Sent 0)) = Accepted 9"
    by (simp_all add: demo_env_def demo_input_def)
  moreover have "nextEvd ?s = Some (1, ?s\<lparr>ms_next_evd_id := 0\<rparr>)"
    by (simp add: nextEvd_def demo_start_def new_MultiServer_def move_to_def)
  ultimately have "loop_step demo_env 0 (demo_input (Sent 0)) ?s = None"
    by (rule accept_wakeup_undefined [OF _ _ _ _ _ d]) simp_all
  then show ?thesis using d by blast
qed

text \<open>The workers are chosen in turn: started with \<open>n > 0\<close> workers, the server gives the \<open>j\<close>-th new
  connection to worker \<open>j mod n\<close>, however many connections there are.\<close>

theorem nextEvd_round_robin:
  assumes "0 < n" and "ms_Start ctl lst a (new_MultiServer loops n) = Done (s, a')"
  shows "\<exists>s'. take_evds m s = Some (map (\<lambda>j. Suc (j mod n)) [0..<m], s')"
  using take_evds_from [of s n 0 m] assms by (auto simp: ms_Start_def new_MultiServer_def Let_def split: or_abort.splits)

theorem nextEvd_round_robin_witness:
  "\<exists>s a' s'. ms_Start demo_ctl (\<lambda>_. 0) demo_acceptor (new_MultiServer demo_loops 2 :: (int \<rightharpoonup> int, nat) MultiServer) = Done (s, a') \<and>
     take_evds 5 s = Some ([1, 2, 1, 2, 1], s')"
proof -
  obtain s a' where s: "ms_Start demo_ctl (\<lambda>_. 0) demo_acceptor (new_MultiServer demo_loops 2 :: (int \<rightharpoonup> int, nat) MultiServer) = Done (s, a')"
    by (simp add: ms_Start_def new_MultiServer_def Listen_def listen_or_die_def demo_acceptor_def EnableRead_def SetEvents_def
      channel_Update_def RegisterChannel_def epoll_Add_def demo_loops_def demo_evd_def new_EventDispatcher_def epoll_mask_def event_bits Let_def)
  have "[0..<5 :: nat] = [0, 1, 2, 3, 4]" by (simp add: upt_conv_Cons)
  then have "map (\<lambda>j. Suc (j mod 2)) [0..<5] = [1, 2, 1, 2, 1 :: nat]" by simp
  then show ?thesis using nextEvd_round_robin [OF _ s, of 5] s by auto
qed

end
