(* ===== verification/Http_Request.thy ===== *)
theory Http_Request
  imports Yamq_Prelude
begin

text \<open>
  The HTTP request object (\<^verbatim>\<open>src/rpc/http/http_request.h\<close>): method, version, path, query and
  the header map, with the setters the parser calls. Character ranges \<^verbatim>\<open>[start, end)\<close> are
  the lists of their characters; the \<^verbatim>\<open>std::map\<close> of headers is a partial function, since it
  is only written and looked up here.
\<close>

section \<open>State\<close>

datatype Method = kInvalid | kGet | kPost | kHead | kPut | kDelete

datatype Version = kUnknown | kHttp10 | kHttp11

record HttpRequest =
  req_method :: Method
  version :: Version
  path :: string
  query :: string
  headers :: "string \<rightharpoonup> string"

definition new_HttpRequest :: HttpRequest where
  "new_HttpRequest =
     \<lparr>req_method = kInvalid, version = kUnknown, path = [], query = [], headers = Map.empty\<rparr>"

section \<open>Operations\<close>

definition setVersion :: "HttpRequest \<Rightarrow> Version \<Rightarrow> HttpRequest" where
  "setVersion r v = r\<lparr>version := v\<rparr>"

definition setMethod :: "HttpRequest \<Rightarrow> string \<Rightarrow> bool \<times> HttpRequest" where
  "setMethod r m =
     (let k = (if m = ''GET'' then kGet
               else if m = ''POST'' then kPost
               else if m = ''HEAD'' then kHead
               else if m = ''PUT'' then kPut
               else if m = ''DELETE'' then kDelete
               else kInvalid)
      in (k \<noteq> kInvalid, r\<lparr>req_method := k\<rparr>))"

fun methodString :: "Method \<Rightarrow> string" where
  "methodString kGet = ''GET''"
| "methodString kPost = ''POST''"
| "methodString kHead = ''HEAD''"
| "methodString kPut = ''PUT''"
| "methodString kDelete = ''DELETE''"
| "methodString kInvalid = ''UNKNOWN''"

definition setPath :: "HttpRequest \<Rightarrow> string \<Rightarrow> HttpRequest" where
  "setPath r p = r\<lparr>path := p\<rparr>"

definition setQuery :: "HttpRequest \<Rightarrow> string \<Rightarrow> HttpRequest" where
  "setQuery r q = r\<lparr>query := q\<rparr>"

text \<open>\<^verbatim>\<open>isspace\<close> of the C locale.\<close>

definition isspace :: "char \<Rightarrow> bool" where
  "isspace c \<longleftrightarrow> c \<in> {CHR '' '', CHR 0x09, LF, CHR 0x0B, CHR 0x0C, CR}"

text \<open>\<open>addHeader r field rest\<close>: \<open>rest\<close> is the range from the colon to the end of the line.\<close>

definition addHeader :: "HttpRequest \<Rightarrow> string \<Rightarrow> string \<Rightarrow> HttpRequest" where
  "addHeader r field rest =
     (let value1 = dropWhile isspace (drop 1 rest);
          value2 = rev (dropWhile isspace (rev value1))
      in r\<lparr>headers := (headers r)(field \<mapsto> value2)\<rparr>)"

definition getHeader :: "HttpRequest \<Rightarrow> string \<Rightarrow> string" where
  "getHeader r field = (case headers r field of None \<Rightarrow> [] | Some v \<Rightarrow> v)"

definition swap_HttpRequest :: "HttpRequest \<Rightarrow> HttpRequest \<Rightarrow> HttpRequest \<times> HttpRequest" where
  "swap_HttpRequest r that = (that, r)"

section \<open>Lemmas\<close>

text \<open>A header value as the parser stores it: no white space at either end.\<close>

definition trimmed :: "string \<Rightarrow> bool" where
  "trimmed v \<longleftrightarrow> v = [] \<or> (\<not> isspace (hd v) \<and> \<not> isspace (last v))"

lemma dropWhile_trimmed: "trimmed v \<Longrightarrow> dropWhile isspace v = v"
  by (cases v) (auto simp: trimmed_def)

lemma trimmed_rev: "trimmed (rev v) \<longleftrightarrow> trimmed v"
  by (auto simp: trimmed_def hd_rev last_rev)

text \<open>White space around a value is dropped, whatever its amount.\<close>

lemma addHeader_value:
  assumes "trimmed v" and "v \<noteq> []" and "\<forall>c \<in> set ws. isspace c" and "\<forall>c \<in> set ws'. isspace c"
  shows "addHeader r f (c # ws @ v @ ws') = r\<lparr>headers := (headers r)(f \<mapsto> v)\<rparr>"
proof -
  have "dropWhile isspace (ws @ v @ ws') = v @ ws'"
    using assms by (cases v) (auto simp: trimmed_def dropWhile_append)
  moreover have "dropWhile isspace (rev ws' @ rev v) = rev v"
    using assms dropWhile_trimmed [of "rev v"]
    by (auto simp: trimmed_rev dropWhile_append)
  ultimately show ?thesis by (simp add: addHeader_def)
qed

lemma addHeader_one_space:
  assumes "trimmed v"
  shows "addHeader r f (CHR '':'' # CHR '' '' # v) = r\<lparr>headers := (headers r)(f \<mapsto> v)\<rparr>"
proof -
  have "rev (dropWhile isspace (rev (dropWhile isspace v))) = v"
    using assms dropWhile_trimmed [of "rev v"] by (simp add: dropWhile_trimmed trimmed_rev)
  then show ?thesis by (simp add: addHeader_def isspace_def)
qed

lemma addHeader_other: "g \<noteq> f \<Longrightarrow> getHeader (addHeader r f rest) g = getHeader r g"
  by (simp add: addHeader_def getHeader_def Let_def)

lemma setMethod_methodString:
  "m \<noteq> kInvalid \<Longrightarrow> setMethod r (methodString m) = (True, r\<lparr>req_method := m\<rparr>)"
  by (cases m) (simp_all add: setMethod_def)

lemma setMethod_True:
  "setMethod r s = (True, r') \<Longrightarrow> \<exists>m. m \<noteq> kInvalid \<and> s = methodString m \<and> r' = r\<lparr>req_method := m\<rparr>"
  unfolding setMethod_def Let_def
  by (auto split: if_splits intro: exI [of _ kGet] exI [of _ kPost] exI [of _ kHead]
      exI [of _ kPut] exI [of _ kDelete])

lemma methodString_chars: "CHR '' '' \<notin> set (methodString m)" "CR \<notin> set (methodString m)"
  by (cases m; simp)+

end
