(* ===== verification/Http_Context.thy ===== *)
theory Http_Context
  imports Http_Request Io_Buffer
begin

text \<open>
  The incremental HTTP parser (\<^verbatim>\<open>src/rpc/http/http_context.h\<close>,
  \<^verbatim>\<open>src/rpc/http/http_context.cpp\<close>): \<open>processRequestLine\<close> on one line, and the loop
  \<open>parseRequest\<close> over the buffer, whose body is \<open>parse_step\<close>. The loop is a
  \<^theory_text>\<open>partial_function\<close>: \<open>None\<close> means that it never returns (or that
  \<^verbatim>\<open>findCRLF\<close> leaves the vector). The theorems show that a whole request is parsed into
  its parts and consumed, and which states make the loop run forever.
\<close>

section \<open>State\<close>

datatype HttpRequestParseState = kExpectRequestLine | kExpectHeaders | kExpectBody | kGotAll

record HttpContext =
  state :: HttpRequestParseState
  request :: HttpRequest

definition new_HttpContext :: HttpContext where
  "new_HttpContext = \<lparr>state = kExpectRequestLine, request = new_HttpRequest\<rparr>"

definition gotAll :: "HttpContext \<Rightarrow> bool" where
  "gotAll c \<longleftrightarrow> state c = kGotAll"

definition reset :: "HttpContext \<Rightarrow> HttpContext" where
  "reset c = \<lparr>state = kExpectRequestLine,
     request = fst (swap_HttpRequest (request c) new_HttpRequest)\<rparr>"

section \<open>Operations\<close>

definition processRequestLine :: "HttpRequest \<Rightarrow> string \<Rightarrow> bool \<times> HttpRequest" where
  "processRequestLine r line =
     (let (m, rest) = find_char (CHR '' '') line in
      if rest = [] then (False, r)
      else
        let (okm, r1) = setMethod r m in
        if \<not> okm then (False, r1)
        else
          let (uri, rest2) = find_char (CHR '' '') (tl rest) in
          if rest2 = [] then (False, r1)
          else
            let (p, q) = find_char (CHR ''?'') uri;
                r2 = (if q \<noteq> [] then setQuery (setPath r1 p) q else setPath r1 uri);
                ver = tl rest2
            in
            if length ver = 8 \<and> butlast ver = ''HTTP/1.''
            then
              (if last ver = CHR ''1'' then (True, setVersion r2 kHttp11)
               else if last ver = CHR ''0'' then (True, setVersion r2 kHttp10)
               else (False, r2))
            else (False, r2))"

text \<open>The characters between \<^verbatim>\<open>Peek()\<close> and the line end found.\<close>

definition line_at :: "IoBuffer \<Rightarrow> int \<Rightarrow> string" where
  "line_at b off = take (nat off) (drop (nat (reader_index b)) (buf b))"

text \<open>One turn of the loop: the new \<open>ok\<close>, the new \<open>hasMore\<close>, the context and the buffer.\<close>

definition parse_step ::
    "bool \<Rightarrow> HttpContext \<Rightarrow> IoBuffer \<Rightarrow> (bool \<times> bool \<times> HttpContext \<times> IoBuffer) option" where
  "parse_step ok c b =
     (case state c of
        kExpectRequestLine \<Rightarrow> do {
          crlf \<leftarrow> findCRLF b;
          (case crlf of
             None \<Rightarrow> Some (ok, False, c, b)
           | Some off \<Rightarrow>
               (let (ok', r) = processRequestLine (request c) (line_at b off) in
                if ok' then
                  Some (True, True, c\<lparr>request := r, state := kExpectHeaders\<rparr>, GetUntil b (off + 2))
                else Some (False, False, c\<lparr>request := r\<rparr>, b)))
        }
      | kExpectHeaders \<Rightarrow> do {
          crlf \<leftarrow> findCRLF b;
          (case crlf of
             None \<Rightarrow> Some (ok, False, c, b)
           | Some off \<Rightarrow>
               (let (field, rest) = find_char (CHR '':'') (line_at b off) in
                if rest \<noteq> [] then
                  Some (ok, True, c\<lparr>request := addHeader (request c) field rest\<rparr>,
                        GetUntil b (off + 2))
                else Some (ok, False, c\<lparr>state := kGotAll\<rparr>, GetUntil b (off + 2))))
        }
      | kExpectBody \<Rightarrow> Some (ok, True, c, b)
      | kGotAll \<Rightarrow> Some (ok, True, c, b))"

partial_function (option) parse_loop ::
    "bool \<Rightarrow> HttpContext \<Rightarrow> IoBuffer \<Rightarrow> (bool \<times> HttpContext \<times> IoBuffer) option" where
  "parse_loop ok c b =
     do {
       (ok', more, c', b') \<leftarrow> parse_step ok c b;
       (if more then parse_loop ok' c' b' else Some (ok', c', b'))
     }"

definition parseRequest :: "HttpContext \<Rightarrow> IoBuffer \<Rightarrow> (bool \<times> HttpContext \<times> IoBuffer) option" where
  "parseRequest c b = parse_loop True c b"

section \<open>Requests as text\<close>

text \<open>The text of a request: the specification the parser is checked against.\<close>

definition versionString :: "Version \<Rightarrow> string" where
  "versionString v = (case v of kHttp11 \<Rightarrow> ''HTTP/1.1'' | kHttp10 \<Rightarrow> ''HTTP/1.0'' | kUnknown \<Rightarrow> [])"

definition request_line :: "Method \<Rightarrow> string \<Rightarrow> string \<Rightarrow> Version \<Rightarrow> string" where
  "request_line m p q v = methodString m @ '' '' @ p @ q @ '' '' @ versionString v"

definition header_line :: "string \<times> string \<Rightarrow> string" where
  "header_line h = fst h @ '': '' @ snd h"

definition header_text :: "(string \<times> string) list \<Rightarrow> string" where
  "header_text hs = concat (map (\<lambda>h. header_line h @ kCRLF) hs) @ kCRLF"

definition uri_ok :: "string \<Rightarrow> string \<Rightarrow> bool" where
  "uri_ok p q \<longleftrightarrow> CHR '' '' \<notin> set (p @ q) \<and> CHR ''?'' \<notin> set p \<and> (q = [] \<or> hd q = CHR ''?'')"

definition header_ok :: "string \<times> string \<Rightarrow> bool" where
  "header_ok h \<longleftrightarrow> CHR '':'' \<notin> set (fst h) \<and> CR \<notin> set (fst h) \<and> CR \<notin> set (snd h) \<and> trimmed (snd h)"

definition add_headers :: "(string \<rightharpoonup> string) \<Rightarrow> (string \<times> string) list \<Rightarrow> (string \<rightharpoonup> string)" where
  "add_headers m hs = fold (\<lambda>(f, v) m. m(f \<mapsto> v)) hs m"

section \<open>The request line\<close>

lemma processRequestLine_ok:
  assumes "m \<noteq> kInvalid" and "uri_ok p q" and "v \<noteq> kUnknown"
  shows "processRequestLine r (request_line m p q v) =
    (True, r\<lparr>req_method := m, path := p, query := (if q = [] then query r else q), version := v\<rparr>)"
proof -
  have v: "length (versionString v) = 8" "butlast (versionString v) = ''HTTP/1.''"
    "last (versionString v) = (if v = kHttp11 then CHR ''1'' else CHR ''0'')"
    using assms(3) by (cases v; simp add: versionString_def)+
  have m: "find_char (CHR '' '') (request_line m p q v) =
      (methodString m, '' '' @ p @ q @ '' '' @ versionString v)"
    using find_char_append [OF methodString_chars(1)] by (simp add: request_line_def)
  have u: "find_char (CHR '' '') ((p @ q) @ CHR '' '' # versionString v) = (p @ q, CHR '' '' # versionString v)"
    using assms(2) by (intro find_char_append) (simp add: uri_ok_def)
  have pq: "find_char (CHR ''?'') (p @ q) = (p, q)"
  proof (cases q)
    case Nil
    with assms(2) show ?thesis by (simp add: uri_ok_def)
  next
    case (Cons a q')
    with assms(2) show ?thesis by (simp add: uri_ok_def)
  qed
  show ?thesis
    using m u pq v assms(3) setMethod_methodString [OF assms(1)]
    by (cases v) (simp_all add: processRequestLine_def setPath_def setQuery_def setVersion_def)
qed

text \<open>Only request lines are accepted: the parser is sound for the text form.\<close>

lemma find_char_split:
  assumes "find_char c xs = (ys, zs)"
  shows "xs = ys @ zs" and "c \<notin> set ys" and "zs = [] \<or> hd zs = c"
  using assms hd_dropWhile [of "\<lambda>x. x \<noteq> c" xs]
  by (auto simp: find_char_def dest: set_takeWhileD)

lemma processRequestLine_sound:
  assumes "processRequestLine r line = (True, r')"
  obtains m p q v where "line = request_line m p q v" "m \<noteq> kInvalid" "v \<noteq> kUnknown"
    "uri_ok p q" "req_method r' = m" "path r' = p" "version r' = v" "q \<noteq> [] \<Longrightarrow> query r' = q"
proof -
  obtain ms rest where f1: "find_char (CHR '' '') line = (ms, rest)" by fastforce
  obtain okm r1 where sm: "setMethod r ms = (okm, r1)" by fastforce
  obtain uri rest2 where f2: "find_char (CHR '' '') (tl rest) = (uri, rest2)" by fastforce
  obtain p q where f3: "find_char (CHR ''?'') uri = (p, q)" by fastforce
  let ?ver = "tl rest2"
  let ?r2 = "if q \<noteq> [] then setQuery (setPath r1 p) q else setPath r1 uri"
  have acc: "rest \<noteq> []" "okm" "rest2 \<noteq> []" "length ?ver = 8" "butlast ?ver = ''HTTP/1.''"
    "(last ?ver = CHR ''1'' \<and> r' = setVersion ?r2 kHttp11) \<or> (last ?ver = CHR ''0'' \<and> r' = setVersion ?r2 kHttp10)"
    using assms unfolding processRequestLine_def
    by (auto simp: f1 sm f2 f3 Let_def split: if_splits)
  obtain m where m: "m \<noteq> kInvalid" "ms = methodString m" "r1 = r\<lparr>req_method := m\<rparr>"
    using setMethod_True [of r ms r1] sm acc(2) by auto
  define v where "v = (if last ?ver = CHR ''1'' then kHttp11 else kHttp10)"
  have "?ver = butlast ?ver @ [last ?ver]" using acc(4) by (cases ?ver) auto
  then have ver: "?ver = versionString v" using acc(5,6) by (auto simp: v_def versionString_def)
  have uri: "uri = p @ q" and pq: "CHR ''?'' \<notin> set p" "q = [] \<or> hd q = CHR ''?''"
    using find_char_split [OF f3] by simp_all
  have "line = ms @ CHR '' '' # tl rest" "tl rest = uri @ CHR '' '' # ?ver" "CHR '' '' \<notin> set uri"
    using find_char_split [OF f1] find_char_split [OF f2] acc(1,3)
    by (metis list.collapse)+
  then have "line = request_line m p q v" "CHR '' '' \<notin> set (p @ q)"
    using m(2) ver uri by (simp_all add: request_line_def)
  moreover have "req_method r' = m" "path r' = p" "version r' = v" "q \<noteq> [] \<Longrightarrow> query r' = q" "v \<noteq> kUnknown"
    using m acc(6) uri by (auto simp: v_def setVersion_def setPath_def setQuery_def)
  ultimately show thesis using m(1) pq by (intro that [of m p q v]) (simp_all add: uri_ok_def)
qed

section \<open>One line at a time\<close>

lemma no_crlf_without_cr: "CR \<notin> set xs \<Longrightarrow> search_crlf xs = None"
  by (induction xs rule: search_crlf.induct) auto

lemma line_at_content: "buf_ok b \<Longrightarrow> content b = line @ rest \<Longrightarrow> line_at b (int (length line)) = line"
proof -
  assume ok: "buf_ok b" and c: "content b = line @ rest"
  have "length line \<le> nat (ReadableBytes b)"
    using arg_cong [OF c, of length] length_content [OF ok] by simp
  then have "line_at b (int (length line)) = take (length line) (content b)"
    by (simp add: line_at_def content_def min_absorb1)
  then show ?thesis by (simp add: c)
qed

text \<open>What a turn of the loop reads when the readable bytes start with a line.\<close>

lemma next_line:
  assumes "buf_ok b" and "content b = line @ kCRLF @ rest" and "search_crlf line = None"
  shows "findCRLF b = Some (Some (int (length line)))"
    and "line_at b (int (length line)) = line"
    and "buf_ok (GetUntil b (int (length line) + 2))"
    and "content (GetUntil b (int (length line) + 2)) = rest"
proof -
  have c: "content b = line @ CR # LF # rest" using assms(2) by (simp add: kCRLF_def)
  show "findCRLF b = Some (Some (int (length line)))"
    using assms(1) c assms(3) by (rule findCRLF_content)
  show "line_at b (int (length line)) = line"
    using assms(1,2) by (rule line_at_content)
  have n: "0 \<le> int (length line) + 2" "int (length line) + 2 \<le> ReadableBytes b"
    using arg_cong [OF c, of length] length_content [OF assms(1)] by simp_all
  have "nat (int (length line) + 2) = length line + 2" by simp
  then show "buf_ok (GetUntil b (int (length line) + 2))"
    and "content (GetUntil b (int (length line) + 2)) = rest"
    using Seek_ok [OF assms(1) n] c by (simp_all add: GetUntil_def)
qed

lemma header_line_ok:
  assumes "header_ok h"
  shows "search_crlf (header_line h) = None"
    and "find_char (CHR '':'') (header_line h) = (fst h, '': '' @ snd h)"
    and "addHeader r (fst h) ('': '' @ snd h) = r\<lparr>headers := (headers r)(fst h \<mapsto> snd h)\<rparr>"
  using assms find_char_append [of "CHR '':''" "fst h" "'' '' @ snd h"]
  by (auto simp: header_ok_def header_line_def addHeader_one_space intro!: no_crlf_without_cr)

section \<open>Parsing a whole request\<close>

lemma parse_loop_headers:
  assumes "buf_ok b" and "content b = header_text hs @ rest" and "\<forall>h \<in> set hs. header_ok h"
    and "state c = kExpectHeaders"
  shows "\<exists>b'. parse_loop ok c b = Some (ok, c\<lparr>state := kGotAll,
      request := (request c)\<lparr>headers := add_headers (headers (request c)) hs\<rparr>\<rparr>, b') \<and>
      buf_ok b' \<and> content b' = rest"
  using assms
proof (induction hs arbitrary: b c)
  case Nil
  have "content b = [] @ kCRLF @ rest" using Nil.prems(2) by (simp add: header_text_def)
  note l = next_line [OF Nil.prems(1) this, simplified]
  have "parse_loop ok c b = Some (ok, c\<lparr>state := kGotAll\<rparr>, GetUntil b 2)"
    using Nil.prems(4) l by (subst parse_loop.simps) (simp add: parse_step_def)
  with l show ?case by (simp add: add_headers_def)
next
  case (Cons h hs)
  have ok: "header_ok h" using Cons.prems(3) by simp
  have "content b = header_line h @ kCRLF @ (header_text hs @ rest)"
    using Cons.prems(2) by (simp add: header_text_def)
  note l = next_line [OF Cons.prems(1) this header_line_ok(1) [OF ok]]
  let ?b = "GetUntil b (int (length (header_line h)) + 2)"
  let ?r = "(request c)\<lparr>headers := (headers (request c))(fst h \<mapsto> snd h)\<rparr>"
  have step: "parse_loop ok c b = parse_loop ok (c\<lparr>request := ?r\<rparr>) ?b"
    using Cons.prems(4) l header_line_ok(2,3) [OF ok]
    by (subst parse_loop.simps) (simp add: parse_step_def)
  obtain b' where "parse_loop ok (c\<lparr>request := ?r\<rparr>) ?b = Some (ok, (c\<lparr>request := ?r\<rparr>)\<lparr>state := kGotAll,
      request := ?r\<lparr>headers := add_headers (headers ?r) hs\<rparr>\<rparr>, b')" "buf_ok b'" "content b' = rest"
    using Cons.IH [OF l(3,4), of "c\<lparr>request := ?r\<rparr>"] Cons.prems(3,4)
    by (auto simp del: fun_upd_apply)
  with step show ?case by (simp add: add_headers_def split_beta)
qed

lemma request_line_no_crlf: "CR \<notin> set (p @ q) \<Longrightarrow> search_crlf (request_line m p q v) = None"
  by (intro no_crlf_without_cr)
    (auto simp: request_line_def methodString_chars versionString_def split: Version.splits)

lemma parseRequest_complete:
  assumes "buf_ok b" and "content b = request_line m p q v @ kCRLF @ header_text hs @ rest"
    and "m \<noteq> kInvalid" and "v \<noteq> kUnknown" and "uri_ok p q" and "CR \<notin> set (p @ q)"
    and "\<forall>h \<in> set hs. header_ok h"
  shows "\<exists>b'. parseRequest new_HttpContext b = Some (True, \<lparr>state = kGotAll, request =
      \<lparr>req_method = m, version = v, path = p, query = q, headers = add_headers Map.empty hs\<rparr>\<rparr>, b') \<and>
      buf_ok b' \<and> content b' = rest"
proof -
  note l = next_line [OF assms(1,2) request_line_no_crlf [OF assms(6)]]
  let ?b = "GetUntil b (int (length (request_line m p q v)) + 2)"
  let ?r = "\<lparr>req_method = m, version = v, path = p, query = q, headers = Map.empty\<rparr>"
  have "processRequestLine new_HttpRequest (request_line m p q v) = (True, ?r)"
    using processRequestLine_ok [OF assms(3,5,4), of new_HttpRequest] by (auto simp: new_HttpRequest_def)
  then have step: "parse_loop True new_HttpContext b = parse_loop True \<lparr>state = kExpectHeaders, request = ?r\<rparr> ?b"
    using l by (subst parse_loop.simps) (simp add: parse_step_def new_HttpContext_def)
  show ?thesis
    using parse_loop_headers [OF l(3,4) assms(7), of "\<lparr>state = kExpectHeaders, request = ?r\<rparr>" True]
    by (simp add: parseRequest_def step)
qed

section \<open>Loops that never end\<close>

text \<open>A turn that changes nothing is repeated forever.\<close>

lemma parse_loop_diverges:
  assumes "parse_step ok c b = Some (ok, True, c, b)"
  shows "parse_loop ok c b = None"
proof (rule ccontr)
  assume "parse_loop ok c b \<noteq> None"
  then obtain y where ret: "parse_loop ok c b = Some y" by blast
  have "\<not> (ok = ok \<and> c = c \<and> b = b)"
    using parse_loop.raw_induct [where P = "\<lambda>ok' c' b' y. \<not> (ok' = ok \<and> c' = c \<and> b' = b)", OF _ ret]
      assms
    by (force split: prod.splits if_splits simp: bind_eq_Some_conv)
  then show False by simp
qed

text \<open>A received header line that is alone in the buffer, starts at the head room and is at most
  six characters long is found again behind the writer index once it has been consumed.\<close>

definition rewound :: "IoBuffer \<Rightarrow> IoBuffer" where
  "rewound b = b\<lparr>reader_index := kCheapPrepend, writer_index := kCheapPrepend\<rparr>"

lemma Seek_rewinds: "ReadableBytes b \<le> n \<Longrightarrow> Seek b n = rewound b"
  by (simp add: Seek_def rewound_def)

lemma rewound_rereads:
  assumes "buf_ok b" and "reader_index b = kCheapPrepend" and "content b = line @ kCRLF"
    and "CR \<notin> set line" and "length line \<le> 6"
  shows "findCRLF (rewound b) = Some (Some (int (length line)))"
    and "line_at (rewound b) (int (length line)) = line"
proof -
  have len: "nat (ReadableBytes b) = length line + 2"
    using length_content [OF assms(1)] assms(3) by (simp add: kCRLF_def)
  have R: "take (length line + 2) (drop 8 (buf b)) = line @ kCRLF"
    using assms(2,3) len by (simp add: content_def kCheapPrepend_def)
  have "take 8 (drop 8 (buf b)) = take (length line + 2) (drop 8 (buf b)) @ take (6 - length line) (drop (length line + 10) (buf b))"
    using assms(5) take_add [of "length line + 2" "6 - length line" "drop 8 (buf b)"]
    by (simp add: add.commute)
  then have "search_crlf (take 8 (drop 8 (buf b))) = Some (length line)"
    unfolding R by (simp only: search_crlf_append [OF no_crlf_without_cr [OF assms(4)]] kCRLF_def append_assoc append_Cons)
  then show "findCRLF (rewound b) = Some (Some (int (length line)))"
    by (simp add: findCRLF_def rewound_def kCheapPrepend_def)
  have "take (length line) (take (length line + 2) (drop 8 (buf b))) = line" by (simp only: R) simp
  then show "line_at (rewound b) (int (length line)) = line"
    by (simp add: line_at_def rewound_def kCheapPrepend_def min_absorb1)
qed

lemma addHeader_idem: "addHeader (addHeader r f rest) f rest = addHeader r f rest"
  by (simp add: addHeader_def Let_def)

lemma header_segment_loops:
  assumes "buf_ok b" and "reader_index b = kCheapPrepend" and "content b = line @ kCRLF"
    and "CR \<notin> set line" and "length line \<le> 6" and "CHR '':'' \<in> set line"
    and "state c = kExpectHeaders"
  obtains c' where "parse_step ok c b = Some (ok, True, c', rewound b)"
    "parse_step ok c' (rewound b) = Some (ok, True, c', rewound b)"
proof -
  obtain f rest where f: "find_char (CHR '':'') line = (f, rest)" by fastforce
  have "rest \<noteq> []" using find_char_split [OF f] assms(6) by auto
  note l = next_line [OF assms(1) _ no_crlf_without_cr [OF assms(4)], of "[]", simplified, OF assms(3)]
  note l2 = rewound_rereads [OF assms(1-5)]
  let ?c = "c\<lparr>request := addHeader (request c) f rest\<rparr>"
  have r: "ReadableBytes b = int (length line) + 2"
    using length_content [OF assms(1)] assms(3) by (simp add: kCRLF_def)
  then have s1: "GetUntil b (int (length line) + 2) = rewound b"
    by (simp add: GetUntil_def Seek_rewinds)
  have s2: "GetUntil (rewound b) (int (length line) + 2) = rewound b"
    unfolding GetUntil_def by (subst Seek_rewinds) (simp_all add: rewound_def ReadableBytes_def)
  show thesis
  proof (rule that [of ?c])
    show "parse_step ok c b = Some (ok, True, ?c, rewound b)"
      using assms(7) l f \<open>rest \<noteq> []\<close> s1 by (simp add: parse_step_def)
    show "parse_step ok ?c (rewound b) = Some (ok, True, ?c, rewound b)"
      using assms(7) l2 f \<open>rest \<noteq> []\<close> s2 by (simp add: parse_step_def addHeader_idem)
  qed
qed

lemma colonless_line_ends_headers:
  assumes "buf_ok b" and "content b = line @ kCRLF @ rest" and "search_crlf line = None"
    and "CHR '':'' \<notin> set line" and "state c = kExpectHeaders"
  shows "\<exists>b'. parse_loop ok c b = Some (ok, c\<lparr>state := kGotAll\<rparr>, b') \<and> buf_ok b' \<and> content b' = rest"
  using next_line [OF assms(1-3)] assms(4,5)
  by (subst parse_loop.simps) (simp add: parse_step_def)

text \<open>A buffer that holds exactly the received bytes \<open>s\<close>, for the concrete instances below.\<close>

definition filled :: "bytes \<Rightarrow> IoBuffer" where
  "filled s = \<lparr>buf = replicate 8 (CHR 0x00) @ s, reader_index = 8, writer_index = 8 + int (length s)\<rparr>"

lemma filled_ok [simp]:
  "int (length s) + 8 \<le> int_max \<Longrightarrow> buf_ok (filled s)" "content (filled s) = s"
  "reader_index (filled s) = kCheapPrepend"
  by (simp_all add: filled_def buf_ok_def content_def ReadableBytes_def kCheapPrepend_def)

section \<open>Properties\<close>

text \<open>C2: parsing inverts printing. When the readable bytes start with a request line, a
  header section and any further bytes, \<^verbatim>\<open>parseRequest\<close> returns true in the state
  \<^verbatim>\<open>kGotAll\<close> with the method, version, path, query (with its question mark) and the header
  map of the text, the last of two equal fields winning, and leaves exactly the further
  bytes.\<close>

theorem http_parse_roundtrip:
  assumes "buf_ok b" and "content b = request_line m p q v @ kCRLF @ header_text hs @ rest"
    and "m \<noteq> kInvalid" and "v \<noteq> kUnknown" and "uri_ok p q" and "CR \<notin> set (p @ q)"
    and "\<forall>h \<in> set hs. header_ok h"
  shows "\<exists>b'. parseRequest new_HttpContext b = Some (True, \<lparr>state = kGotAll, request =
      \<lparr>req_method = m, version = v, path = p, query = q, headers = add_headers Map.empty hs\<rparr>\<rparr>, b') \<and>
      buf_ok b' \<and> content b' = rest"
  using assms by (rule parseRequest_complete)

theorem http_parse_roundtrip_witness:
  "\<exists>b'. parseRequest new_HttpContext
      (filled (request_line kGet ''/a'' ''?x=1'' kHttp11 @ kCRLF @ header_text [(''Host'', ''h''), (''A'', ''b c'')] @ ''rest'')) =
    Some (True, \<lparr>state = kGotAll, request = \<lparr>req_method = kGet, version = kHttp11, path = ''/a'', query = ''?x=1'',
      headers = add_headers Map.empty [(''Host'', ''h''), (''A'', ''b c'')]\<rparr>\<rparr>, b') \<and> content b' = ''rest''"
  using http_parse_roundtrip [of "filled (request_line kGet ''/a'' ''?x=1'' kHttp11 @ kCRLF @
      header_text [(''Host'', ''h''), (''A'', ''b c'')] @ ''rest'')" kGet "''/a''" "''?x=1''" kHttp11
      "[(''Host'', ''h''), (''A'', ''b c'')]" "''rest''"]
  by (auto simp: uri_ok_def header_ok_def trimmed_def isspace_def request_line_def header_text_def
      header_line_def kCRLF_def versionString_def)

text \<open>C38: \<^verbatim>\<open>processRequestLine\<close> accepts exactly the lines made of one of the five methods, a
  URI without spaces and \<^verbatim>\<open>HTTP/1.0\<close> or \<^verbatim>\<open>HTTP/1.1\<close>, separated by single spaces.\<close>

theorem request_line_exact:
  "fst (processRequestLine r line) \<longleftrightarrow>
     (\<exists>m p q v. line = request_line m p q v \<and> m \<noteq> kInvalid \<and> v \<noteq> kUnknown \<and> uri_ok p q)"
proof
  assume "fst (processRequestLine r line)"
  then have "processRequestLine r line = (True, snd (processRequestLine r line))"
    by (metis prod.collapse)
  then show "\<exists>m p q v. line = request_line m p q v \<and> m \<noteq> kInvalid \<and> v \<noteq> kUnknown \<and> uri_ok p q"
    by (rule processRequestLine_sound) blast
qed (auto simp: processRequestLine_ok)

text \<open>C39: a client can make the server's loop run forever. When the parser expects headers and the
  only readable bytes are one header line of at most six characters and its line end, starting
  at the head room (as after any earlier complete read), the line is consumed, found again among
  the stale bytes, and every further turn of the loop repeats the same state: \<^verbatim>\<open>parseRequest\<close>
  never returns.\<close>

theorem header_segment_hangs_parser:
  assumes "buf_ok b" and "reader_index b = kCheapPrepend" and "content b = line @ kCRLF"
    and "CR \<notin> set line" and "length line \<le> 6" and "CHR '':'' \<in> set line"
    and "state c = kExpectHeaders"
  shows "(\<exists>c' b'. parse_step True c b = Some (True, True, c', b') \<and>
      parse_step True c' b' = Some (True, True, c', b')) \<and> parseRequest c b = None"
proof -
  obtain c' where c': "parse_step True c b = Some (True, True, c', rewound b)"
    "parse_step True c' (rewound b) = Some (True, True, c', rewound b)"
    using header_segment_loops [OF assms] .
  have "parse_loop True c b = parse_loop True c' (rewound b)"
    by (subst parse_loop.simps) (simp add: c'(1))
  with c' show ?thesis by (auto simp: parseRequest_def parse_loop_diverges)
qed

theorem header_segment_hangs_parser_witness:
  "parseRequest \<lparr>state = kExpectHeaders, request = new_HttpRequest\<rparr> (filled (''A: 1'' @ kCRLF)) = None"
  using header_segment_hangs_parser [of "filled (''A: 1'' @ kCRLF)" "''A: 1''"
      "\<lparr>state = kExpectHeaders, request = new_HttpRequest\<rparr>"]
  by (simp add: kCRLF_def)

text \<open>In the states \<^verbatim>\<open>kGotAll\<close> and \<^verbatim>\<open>kExpectBody\<close> no turn of the loop changes
  anything, so a call made before \<^verbatim>\<open>reset()\<close> does not return.\<close>

theorem parse_dead_states:
  assumes "state c = kGotAll \<or> state c = kExpectBody"
  shows "parse_step ok c b = Some (ok, True, c, b) \<and> parseRequest c b = None"
  using assms by (auto simp: parseRequest_def parse_step_def intro!: parse_loop_diverges)

theorem parse_dead_states_witness:
  "parseRequest \<lparr>state = kGotAll, request = new_HttpRequest\<rparr> (filled ''GET'') = None"
  using parse_dead_states [of "\<lparr>state = kGotAll, request = new_HttpRequest\<rparr>" True "filled ''GET''"] by simp

text \<open>Every header line without a colon, not only the empty line, ends the header section:
  the parser reports a complete request and treats what follows as the next one.\<close>

theorem colonless_line_completes_request:
  assumes "buf_ok b" and "content b = line @ kCRLF @ rest" and "CR \<notin> set line"
    and "CHR '':'' \<notin> set line" and "state c = kExpectHeaders"
  shows "\<exists>b'. parseRequest c b = Some (True, c\<lparr>state := kGotAll\<rparr>, b') \<and> buf_ok b' \<and> content b' = rest"
  unfolding parseRequest_def
  using colonless_line_ends_headers [OF assms(1,2) no_crlf_without_cr [OF assms(3)] assms(4,5)] .

theorem colonless_line_completes_request_witness:
  "\<exists>b'. parseRequest \<lparr>state = kExpectHeaders, request = new_HttpRequest\<rparr>
      (filled (''hello'' @ kCRLF @ ''Host: h'' @ kCRLF)) =
    Some (True, \<lparr>state = kGotAll, request = new_HttpRequest\<rparr>, b') \<and> content b' = ''Host: h'' @ kCRLF"
  using colonless_line_completes_request [of "filled (''hello'' @ kCRLF @ ''Host: h'' @ kCRLF)" "''hello''"
      "''Host: h'' @ kCRLF" "\<lparr>state = kExpectHeaders, request = new_HttpRequest\<rparr>"]
  by (auto simp: kCRLF_def)

end
