(* ===== verification/Http_Response.thy ===== *)
theory Http_Response
  imports C_Strings Io_Buffer
begin

text \<open>
  HTTP responses (\<^verbatim>\<open>src/rpc/http/http_response.h\<close>, \<^verbatim>\<open>src/rpc/http/http_response.cpp\<close>): status, headers,
  body and the serialisation into an \<^verbatim>\<open>IoBuffer\<close>. The header map is a \<^verbatim>\<open>std::map\<close>, iterated in
  the order of its keys, and is kept as the list of its entries in that order. The theory
  proves that what \<^verbatim>\<open>appendToBuffer\<close> writes is the text of the response.
\<close>

section \<open>State\<close>

datatype HttpStatusCode = kUnknown_status | k200Ok | k301MovedPermanently | k400BadRequest | k404NotFound

fun status_number :: "HttpStatusCode \<Rightarrow> int" where
  "status_number kUnknown_status = 0"
| "status_number k200Ok = 200"
| "status_number k301MovedPermanently = 301"
| "status_number k400BadRequest = 400"
| "status_number k404NotFound = 404"

record HttpResponse =
  resp_headers :: "(string \<times> string) list"
  resp_statusCode :: HttpStatusCode
  resp_statusMessage :: string
  resp_closeConnection :: bool
  resp_body :: string

definition new_HttpResponse :: "bool \<Rightarrow> HttpResponse" where
  "new_HttpResponse close =
     \<lparr>resp_headers = [], resp_statusCode = kUnknown_status, resp_statusMessage = [], resp_closeConnection = close, resp_body = []\<rparr>"

section \<open>Operations\<close>

definition setStatusCode :: "HttpStatusCode \<Rightarrow> HttpResponse \<Rightarrow> HttpResponse" where
  "setStatusCode code r = r\<lparr>resp_statusCode := code\<rparr>"

definition setStatusMessage :: "string \<Rightarrow> HttpResponse \<Rightarrow> HttpResponse" where
  "setStatusMessage message r = r\<lparr>resp_statusMessage := message\<rparr>"

definition setCloseConnection :: "bool \<Rightarrow> HttpResponse \<Rightarrow> HttpResponse" where
  "setCloseConnection on r = r\<lparr>resp_closeConnection := on\<rparr>"

text \<open>\<^verbatim>\<open>std::string\<close> compares its characters as unsigned bytes.\<close>

fun string_less :: "string \<Rightarrow> string \<Rightarrow> bool" where
  "string_less xs [] \<longleftrightarrow> False"
| "string_less [] (y # ys) \<longleftrightarrow> True"
| "string_less (x # xs) (y # ys) \<longleftrightarrow> (of_char x :: nat) < of_char y \<or> x = y \<and> string_less xs ys"

fun map_put :: "string \<Rightarrow> string \<Rightarrow> (string \<times> string) list \<Rightarrow> (string \<times> string) list" where
  "map_put k v [] = [(k, v)]"
| "map_put k v ((k', v') # m) =
     (if k = k' then (k, v) # m else if string_less k k' then (k, v) # (k', v') # m else (k', v') # map_put k v m)"

definition resp_addHeader :: "string \<Rightarrow> string \<Rightarrow> HttpResponse \<Rightarrow> HttpResponse" where
  "resp_addHeader key val r = r\<lparr>resp_headers := map_put key val (resp_headers r)\<rparr>"

definition setContentType :: "string \<Rightarrow> HttpResponse \<Rightarrow> HttpResponse" where
  "setContentType contentType r = resp_addHeader ''Content-Type'' contentType r"

definition setBody :: "string \<Rightarrow> HttpResponse \<Rightarrow> HttpResponse" where
  "setBody body r = r\<lparr>resp_body := body\<rparr>"

text \<open>A character array as a C string.\<close>

definition c_str :: "bytes \<Rightarrow> string" where
  "c_str arr = takeWhile (\<lambda>c. c \<noteq> CHR 0x00) arr"

fun append_headers :: "(string \<times> string) list \<Rightarrow> IoBuffer \<Rightarrow> IoBuffer option" where
  "append_headers [] b = Some b"
| "append_headers ((k, v) # m) b =
     do {
       b \<leftarrow> Append b k;
       b \<leftarrow> Append b '': '';
       b \<leftarrow> Append b v;
       b \<leftarrow> Append b kCRLF;
       append_headers m b
     }"

text \<open>The local array \<^verbatim>\<open>buf\<close> is read only where \<^verbatim>\<open>snprintf\<close> has written it.\<close>

definition appendToBuffer :: "HttpResponse \<Rightarrow> IoBuffer \<Rightarrow> IoBuffer option" where
  "appendToBuffer r output =
     do {
       let arr = replicate 32 (CHR 0x00);
       (size, arr) \<leftarrow> snprintf_at arr 0 32 (''HTTP/1.1 '' @ show_int (status_number (resp_statusCode r)) @ '' '');
       line \<leftarrow> read_at arr 0 size;
       b \<leftarrow> Append output line;
       b \<leftarrow> Append b (resp_statusMessage r);
       b \<leftarrow> Append b kCRLF;
       b \<leftarrow> (if resp_closeConnection r
             then Append b (''Connection: close'' @ kCRLF)
             else do {
               (_, arr) \<leftarrow> snprintf_at arr 0 32 (''Content-Length: '' @ show_int (int (length (resp_body r))) @ kCRLF);
               b \<leftarrow> Append b (c_str arr);
               Append b (''Connection: Keep-Alive'' @ kCRLF)
             });
       b \<leftarrow> append_headers (resp_headers r) b;
       b \<leftarrow> Append b kCRLF;
       Append b (resp_body r)
     }"

section \<open>The text of a response\<close>

definition headers_text :: "(string \<times> string) list \<Rightarrow> string" where
  "headers_text m = concat (map (\<lambda>(k, v). k @ '': '' @ v @ kCRLF) m)"

definition response_text :: "HttpResponse \<Rightarrow> string" where
  "response_text r =
     ''HTTP/1.1 '' @ show_int (status_number (resp_statusCode r)) @ '' '' @ resp_statusMessage r @ kCRLF @
     (if resp_closeConnection r then ''Connection: close'' @ kCRLF
      else ''Content-Length: '' @ show_int (int (length (resp_body r))) @ kCRLF @ ''Connection: Keep-Alive'' @ kCRLF) @
     headers_text (resp_headers r) @ kCRLF @ resp_body r"

section \<open>Lemmas\<close>

text \<open>Appending \<open>d\<close> is defined and adds it, as long as there is room.\<close>

definition appends :: "IoBuffer \<Rightarrow> bytes \<Rightarrow> IoBuffer option \<Rightarrow> bool" where
  "appends b d r \<longleftrightarrow> (\<exists>b'. r = Some b' \<and> buf_ok b' \<and> content b' = content b @ d \<and>
     length (buf b') \<le> length (buf b) + length d)"

lemma Append_appends: "buf_ok b \<Longrightarrow> has_room b (length d) \<Longrightarrow> appends b d (Append b d)"
  unfolding appends_def Append_def by (rule Put_ok) auto

lemma appends_bind:
  assumes "appends b d m" and "\<And>b'. buf_ok b' \<Longrightarrow> has_room b' (length e) \<Longrightarrow> appends b' e (f b')"
    and "has_room b (length (d @ e))"
  shows "appends b (d @ e) (m \<bind> f)"
proof -
  from assms(1) obtain b' where b': "m = Some b'" "buf_ok b'" "content b' = content b @ d" "length (buf b') \<le> length (buf b) + length d"
    by (auto simp: appends_def)
  then have "has_room b' (length e)" using assms(3) by (simp add: has_room_def)
  from assms(2) [OF b'(2) this] b' show ?thesis by (auto simp: appends_def)
qed

lemma Append_then:
  assumes "buf_ok b" and "has_room b (length (d @ e))" and "\<And>b'. buf_ok b' \<Longrightarrow> has_room b' (length e) \<Longrightarrow> appends b' e (f b')"
  shows "appends b (d @ e) (Append b d \<bind> f)"
  using assms by (intro appends_bind Append_appends) (auto simp: has_room_def)

lemma append_headers_appends: "buf_ok b \<Longrightarrow> has_room b (length (headers_text m)) \<Longrightarrow> appends b (headers_text m) (append_headers m b)"
proof (induction m arbitrary: b)
  case Nil
  then show ?case by (simp add: appends_def headers_text_def)
next
  case (Cons h m)
  obtain k v where h: "h = (k, v)" by (cases h)
  have e: "headers_text (h # m) = k @ '': '' @ v @ kCRLF @ headers_text m" by (simp add: headers_text_def h)
  show ?case unfolding h append_headers.simps e [unfolded h]
    by (intro Append_then Cons.IH) (use Cons.prems in \<open>auto simp: e\<close>)
qed

lemma snprintf32:
  assumes "length s < 32" and "length arr = 32" and "CHR 0x00 \<notin> set s"
  obtains arr' where "snprintf_at arr 0 32 s = Some (int (length s), arr')" "read_at arr' 0 (int (length s)) = Some s" "c_str arr' = s"
    "length arr' = 32"
proof -
  let ?arr = "s @ [CHR 0x00] @ drop (length s + 1) arr"
  have "snprintf_at arr 0 32 s = Some (int (length s), ?arr)"
    using assms by (simp add: snprintf_at_Some)
  moreover have "c_str ?arr = s" using assms(3) by (auto simp: c_str_def takeWhile_append)
  ultimately show ?thesis using that assms(1,2) by (simp add: read_at_def)
qed


lemma status_line_chars:
  "length (''HTTP/1.1 '' @ show_int (status_number c) @ '' '') < 32"
  "CHR 0x00 \<notin> set (''HTTP/1.1 '' @ show_int (status_number c) @ '' '')"
proof -
  have "show_int 0 = ''0''" "show_int 200 = ''200''" "show_int 301 = ''301''" "show_int 400 = ''400''" "show_int 404 = ''404''"
    by code_simp+
  then show "length (''HTTP/1.1 '' @ show_int (status_number c) @ '' '') < 32"
    "CHR 0x00 \<notin> set (''HTTP/1.1 '' @ show_int (status_number c) @ '' '')" by (cases c; simp)+
qed

lemma length_line_chars:
  assumes "n < 10 ^ 13"
  shows "length (''Content-Length: '' @ show_int (int n) @ kCRLF) < 32" "CHR 0x00 \<notin> set (''Content-Length: '' @ show_int (int n) @ kCRLF)"
proof -
  have "length (show_nat n) \<le> 13" by (rule length_show_nat) (use assms in auto)
  then show "length (''Content-Length: '' @ show_int (int n) @ kCRLF) < 32" by (simp add: show_int_def kCRLF_def)
  have "CHR 0x00 \<notin> set (show_nat n)" using show_nat_digits [of "CHR 0x00" n] by (auto simp: is_digit_def)
  then show "CHR 0x00 \<notin> set (''Content-Length: '' @ show_int (int n) @ kCRLF)" by (simp add: show_int_def kCRLF_def)
qed

lemma appendToBuffer_ok:
  assumes "buf_ok b" and "has_room b (length (response_text r))" and "length (resp_body r) < 10 ^ 13"
  shows "appends b (response_text r) (appendToBuffer r b)"
proof -
  let ?st = "''HTTP/1.1 '' @ show_int (status_number (resp_statusCode r)) @ '' ''"
  let ?len = "''Content-Length: '' @ show_int (int (length (resp_body r))) @ kCRLF"
  let ?tail = "headers_text (resp_headers r) @ kCRLF @ resp_body r"
  let ?rest = "\<lambda>b. append_headers (resp_headers r) b \<bind> (\<lambda>b. Append b kCRLF \<bind> (\<lambda>b. Append b (resp_body r)))"
  from snprintf32 [OF status_line_chars(1), of "replicate 32 (CHR 0x00)", OF _ status_line_chars(2)] obtain arr where
    arr: "snprintf_at (replicate 32 (CHR 0x00)) 0 32 ?st = Some (int (length ?st), arr)" "read_at arr 0 (int (length ?st)) = Some ?st"
    "length arr = 32" by (metis length_replicate)
  from snprintf32 [OF length_line_chars(1) [OF assms(3)] arr(3) length_line_chars(2) [OF assms(3)]] obtain arr' where
    arr': "snprintf_at arr 0 32 ?len = Some (int (length ?len), arr')" "c_str arr' = ?len" by metis
  have tail: "appends b ?tail (?rest b)" if "buf_ok b" "has_room b (length ?tail)" for b
    using that by (intro appends_bind append_headers_appends Append_then Append_appends) (auto simp: has_room_def)
  show ?thesis
  proof (cases "resp_closeConnection r")
    case True
    have e: "response_text r = ?st @ resp_statusMessage r @ kCRLF @ (''Connection: close'' @ kCRLF) @ ?tail"
      using True by (simp add: response_text_def)
    have "appends b (?st @ resp_statusMessage r @ kCRLF @ (''Connection: close'' @ kCRLF) @ ?tail)
      (Append b ?st \<bind> (\<lambda>b. Append b (resp_statusMessage r) \<bind> (\<lambda>b. Append b kCRLF \<bind> (\<lambda>b. Append b (''Connection: close'' @ kCRLF) \<bind> ?rest))))"
      by (intro Append_then tail) (use assms(1,2) e in auto)
    then show ?thesis unfolding appendToBuffer_def e using True arr by (simp add: Let_def)
  next
    case False
    have e: "response_text r = ?st @ resp_statusMessage r @ kCRLF @ ?len @ (''Connection: Keep-Alive'' @ kCRLF) @ ?tail"
      using False by (simp add: response_text_def)
    have "appends b (?st @ resp_statusMessage r @ kCRLF @ ?len @ (''Connection: Keep-Alive'' @ kCRLF) @ ?tail)
      (Append b ?st \<bind> (\<lambda>b. Append b (resp_statusMessage r) \<bind> (\<lambda>b. Append b kCRLF \<bind> (\<lambda>b. Append b ?len \<bind>
        (\<lambda>b. Append b (''Connection: Keep-Alive'' @ kCRLF) \<bind> ?rest)))))"
      by (intro Append_then tail) (use assms(1,2) e in auto)
    then show ?thesis unfolding appendToBuffer_def e using False arr arr' by (simp add: Let_def)
  qed
qed

section \<open>Properties\<close>

text \<open>\<^verbatim>\<open>appendToBuffer\<close> is defined and appends exactly the text of the response: the status line, the
  length of the body and the keep-alive header or the close header, the headers in the
  order of their names, an empty line and the body. The bound keeps the length line within
  the 32 characters of the array it is formatted in.\<close>

theorem appendToBuffer_text:
  assumes "buf_ok b" and "has_room b (length (response_text r))" and "length (resp_body r) < 10 ^ 13"
  shows "\<exists>b'. appendToBuffer r b = Some b' \<and> buf_ok b' \<and> content b' = content b @ response_text r"
  using appendToBuffer_ok [OF assms] by (auto simp: appends_def)

theorem appendToBuffer_text_witness:
  "\<exists>b'. appendToBuffer (setBody ''hi'' (setContentType ''t'' (setStatusMessage ''OK'' (setStatusCode k200Ok (new_HttpResponse False)))))
      (new_IoBuffer 8) = Some b' \<and>
    content b' = ''HTTP/1.1 200 OK'' @ kCRLF @ ''Content-Length: 2'' @ kCRLF @ ''Connection: Keep-Alive'' @ kCRLF @
      ''Content-Type: t'' @ kCRLF @ kCRLF @ ''hi''"
proof -
  let ?r = "setBody ''hi'' (setContentType ''t'' (setStatusMessage ''OK'' (setStatusCode k200Ok (new_HttpResponse False))))"
  have s: "show_int 200 = ''200''" "show_int 2 = ''2''" by code_simp+
  have t: "response_text ?r = ''HTTP/1.1 200 OK'' @ kCRLF @ ''Content-Length: 2'' @ kCRLF @ ''Connection: Keep-Alive'' @ kCRLF @
      ''Content-Type: t'' @ kCRLF @ kCRLF @ ''hi''"
    by (simp add: response_text_def setBody_def setContentType_def resp_addHeader_def setStatusMessage_def setStatusCode_def
      new_HttpResponse_def headers_text_def s)
  have b: "length (resp_body ?r) < 10 ^ 13" by (simp add: setBody_def)
  from appendToBuffer_text [of "new_IoBuffer 8" ?r, OF _ _ b] show ?thesis unfolding t by (auto simp: kCRLF_def)
qed

end
