(* ===== verification/Http_Server.thy ===== *)
theory Http_Server
  imports Http_Context Http_Response Connection
begin

text \<open>
  The HTTP server (\<^verbatim>\<open>src/rpc/http/http_server.cpp\<close>) on top of the connections: what happens when a
  message arrives. It composes the parser, the user's callback, the serialisation of the
  response and the output path of the connection. The callback and the close callback of
  the TCP server are arguments, as are the results of \<^verbatim>\<open>send\<close>.
\<close>

section \<open>Operations\<close>

definition defaultHttpCallback :: "HttpRequest \<Rightarrow> HttpResponse \<Rightarrow> HttpResponse" where
  "defaultHttpCallback req resp =
     setCloseConnection True (setStatusMessage ''Not Found'' (setStatusCode k404NotFound resp))"

type_synonym 'k http_state = "('k, HttpContext) conn_state"

definition set_context :: "HttpContext \<Rightarrow> 'k http_state \<Rightarrow> 'k http_state" where
  "set_context c s = s\<lparr>cs_con := (cs_con s)\<lparr>con_context := Some c\<rparr>\<rparr>"

definition onConnection :: "'k http_state \<Rightarrow> 'k http_state" where
  "onConnection s = set_context new_HttpContext s"

definition close_now :: "('k, 'x) conn_op option \<Rightarrow> ('k, 'x) conn_op" where
  "close_now close_cb s = and_then (ForceClose close_cb s) (\<lambda>(_, s). Some (Done s))"

definition wants_close :: "HttpRequest \<Rightarrow> bool" where
  "wants_close req =
     (let connection = getHeader req ''Connection''
      in connection = ''close'' \<or> (version req = kHttp10 \<and> connection \<noteq> ''Keep-Alive''))"

text \<open>The response in a buffer of its own, and the bytes \<^verbatim>\<open>Peek\<close> and \<^verbatim>\<open>ReadableBytes\<close> hand to \<^verbatim>\<open>Send\<close>.\<close>

definition response_bytes :: "HttpResponse \<Rightarrow> bytes option" where
  "response_bytes response =
     do { b \<leftarrow> appendToBuffer response (new_IoBuffer kInitialSize); read_at (buf b) (reader_index b) (ReadableBytes b) }"

definition onRequest :: "(epoll_op \<Rightarrow> int \<Rightarrow> int \<Rightarrow> 'k \<Rightarrow> int \<times> 'k) \<Rightarrow> ('k, HttpContext) conn_op option \<Rightarrow>
    (HttpRequest \<Rightarrow> HttpResponse \<Rightarrow> HttpResponse) \<Rightarrow> send_result \<Rightarrow> HttpRequest \<Rightarrow> ('k, HttpContext) conn_op" where
  "onRequest ctl close_cb http_callback r req s =
     (let response = http_callback req (new_HttpResponse (wants_close req)) in
      case response_bytes response of
        None \<Rightarrow> None
      | Some d \<Rightarrow>
          and_then (conn_send ctl r d s)
            (\<lambda>s. if resp_closeConnection response then close_now close_cb s else Some (Done s)))"

definition bad_request :: string where
  "bad_request = ''HTTP/1.1 400 Bad Request'' @ kCRLF @ kCRLF"

text \<open>Without a context (\<^verbatim>\<open>onConnection\<close> was not called) \<^verbatim>\<open>any_cast\<close> returns a null pointer. \<open>r1\<close> and
  \<open>r2\<close> are the results of \<^verbatim>\<open>send\<close> for the error reply and for the response.\<close>

definition onMessage :: "(epoll_op \<Rightarrow> int \<Rightarrow> int \<Rightarrow> 'k \<Rightarrow> int \<times> 'k) \<Rightarrow> ('k, HttpContext) conn_op option \<Rightarrow>
    (HttpRequest \<Rightarrow> HttpResponse \<Rightarrow> HttpResponse) \<Rightarrow> send_result \<Rightarrow> send_result \<Rightarrow> ('k, HttpContext) conn_op" where
  "onMessage ctl close_cb http_callback r1 r2 s =
     (case con_context (cs_con s) of
        None \<Rightarrow> None
      | Some c \<Rightarrow>
          (case parseRequest c (input_buf (cs_con s)) of
             None \<Rightarrow> None
           | Some (ok, c, b) \<Rightarrow>
               (let s = set_context c (s\<lparr>cs_con := (cs_con s)\<lparr>input_buf := b\<rparr>\<rparr>) in
                and_then (if \<not> ok then and_then (conn_send ctl r1 bad_request s) (close_now close_cb) else Some (Done s))
                  (\<lambda>s. if gotAll c
                        then and_then (onRequest ctl close_cb http_callback r2 (request c) s)
                               (\<lambda>s. Some (Done (set_context (reset c) s)))
                        else Some (Done s)))))"

section \<open>Lemmas\<close>

lemma set_context_simps [simp]:
  "cs_wire (set_context c s) = cs_wire s" "cs_closed (set_context c s) = cs_closed s"
  "output_buf (cs_con (set_context c s)) = output_buf (cs_con s)" "input_buf (cs_con (set_context c s)) = input_buf (cs_con s)"
  "con_context (cs_con (set_context c s)) = Some c" "con_status (cs_con (set_context c s)) = con_status (cs_con s)"
  "con_chan (cs_con (set_context c s)) = con_chan (cs_con s)" "cs_evd (set_context c s) = cs_evd s"
  by (simp_all add: set_context_def)

lemma conn_ok_set_context [simp]: "conn_ok tab cs (set_context c s) \<longleftrightarrow> conn_ok tab cs s"
  by (simp add: conn_ok_def)

lemma reset_context [simp]: "reset c = new_HttpContext"
  by (simp add: reset_def new_HttpContext_def swap_HttpRequest_def)

text \<open>Queueing output leaves everything else of the connection alone.\<close>

definition same_conn :: "('k, 'x) conn_state \<Rightarrow> ('k, 'x) conn_state \<Rightarrow> bool" where
  "same_conn s s' \<longleftrightarrow> cs_wire s' = cs_wire s \<and> cs_closed s' = cs_closed s \<and> input_buf (cs_con s') = input_buf (cs_con s) \<and>
     con_status (cs_con s') = con_status (cs_con s) \<and> ch_fd (con_chan (cs_con s')) = ch_fd (con_chan (cs_con s))"

lemma EnableWrite_same: "on_channel (EnableWrite ctl) s = Some (Done s') \<Longrightarrow> same_conn s s'"
  by (auto simp: same_conn_def on_channel_def EnableWrite_def SetEvents_def channel_Update_def split: or_abort.splits prod.splits if_splits)

lemma send_queue_same: "send_queue ctl d s = Some (Done s') \<Longrightarrow> same_conn s s'"
  by (auto simp: send_queue_def Let_def same_conn_def dest!: EnableWrite_same split: if_splits option.splits)

lemma conn_send_input: "conn_send ctl r d s = Some (Done s') \<Longrightarrow> input_buf (cs_con s') = input_buf (cs_con s)"
  by (auto simp: conn_send_def to_wire_def same_conn_def dest!: send_queue_same split: if_splits send_result.splits)

text \<open>The serialised response is handed to \<^verbatim>\<open>send\<close> as it is.\<close>

lemma response_bytes_ok:
  assumes "length (response_text resp) \<le> 2147480000" and "length (resp_body resp) < 10 ^ 13"
  shows "response_bytes resp = Some (response_text resp)"
proof -
  have "has_room (new_IoBuffer kInitialSize) (length (response_text resp))" using assms(1) by (simp add: kInitialSize_def)
  from appendToBuffer_ok [OF _ this assms(2)] obtain b where
    "appendToBuffer resp (new_IoBuffer kInitialSize) = Some b" "buf_ok b" "content b = response_text resp"
    by (auto simp: appends_def kInitialSize_def)
  then show ?thesis using read_content [of b] by (simp add: response_bytes_def)
qed

lemma onRequest_send:
  assumes "resp = http_callback req (new_HttpResponse (wants_close req))" and "length (response_text resp) \<le> 2147480000"
    and "length (resp_body resp) < 10 ^ 13"
  shows "onRequest ctl close_cb http_callback r req s =
    and_then (conn_send ctl r (response_text resp) s) (\<lambda>s. if resp_closeConnection resp then close_now close_cb s else Some (Done s))"
  using response_bytes_ok [OF assms(2,3)] by (simp add: onRequest_def Let_def assms(1) [symmetric])

text \<open>A response that can be sent on a connection that is up, and one that leaves it open.\<close>

definition sendable :: "send_result \<Rightarrow> bool" where
  "sendable r \<longleftrightarrow> r \<noteq> Send_failed EPIPE \<and> r \<noteq> Send_failed ECONNRESET"

definition fits_reply :: "HttpResponse \<Rightarrow> send_result \<Rightarrow> 'k http_state \<Rightarrow> bool" where
  "fits_reply resp r s \<longleftrightarrow> length (response_text resp) \<le> 2147480000 \<and> length (resp_body resp) < 10 ^ 13 \<and>
     has_room (output_buf (cs_con s)) (length (response_text resp)) \<and> sendable r"

definition fits_open :: "HttpResponse \<Rightarrow> send_result \<Rightarrow> 'k http_state \<Rightarrow> bool" where
  "fits_open resp r s \<longleftrightarrow> \<not> resp_closeConnection resp \<and> fits_reply resp r s"

lemmas fits_defs = fits_open_def fits_reply_def sendable_def

lemma onRequest_open:
  assumes "ctl_ok ctl tab" and "conn_ok tab cs s" and "fits_open (http_callback req (new_HttpResponse (wants_close req))) r s"
  shows "\<exists>s'. onRequest ctl close_cb http_callback r req s = Some (Done s') \<and>
    conn_send ctl r (response_text (http_callback req (new_HttpResponse (wants_close req)))) s = Some (Done s') \<and> conn_ok tab cs s' \<and>
    cs_wire s' @ content (output_buf (cs_con s')) =
      cs_wire s @ content (output_buf (cs_con s)) @ response_text (http_callback req (new_HttpResponse (wants_close req)))"
proof -
  let ?resp = "http_callback req (new_HttpResponse (wants_close req))"
  have "event_ok (WSend (response_text ?resp) r)" using assms(3) by (cases r) (auto simp: fits_defs)
  then have "stream_step tab cs s (response_text ?resp) (conn_send ctl r (response_text ?resp) s)"
    using assms by (intro conn_send_ok) (simp_all add: fits_defs)
  then show ?thesis
    using onRequest_send [where ctl = ctl and close_cb = close_cb and r = r and s = s and req = req and http_callback = http_callback, OF refl] assms(3)
    by (auto simp: stream_step_def fits_defs)
qed

text \<open>A complete request in the input of a connection that waits for one.\<close>

definition request_bytes :: "HttpRequest \<Rightarrow> bytes \<Rightarrow> bytes \<Rightarrow> bool" where
  "request_bytes req rest bs \<longleftrightarrow> (\<exists>hs.
     bs = request_line (req_method req) (path req) (query req) (version req) @ kCRLF @ header_text hs @ rest \<and>
     req_method req \<noteq> kInvalid \<and> version req \<noteq> kUnknown \<and> uri_ok (path req) (query req) \<and>
     CR \<notin> set (path req @ query req) \<and> (\<forall>h \<in> set hs. header_ok h) \<and> headers req = add_headers Map.empty hs)"

definition request_waiting :: "'k http_state \<Rightarrow> HttpRequest \<Rightarrow> bytes \<Rightarrow> bool" where
  "request_waiting s req rest \<longleftrightarrow> con_context (cs_con s) = Some new_HttpContext \<and> buf_ok (input_buf (cs_con s)) \<and>
     request_bytes req rest (content (input_buf (cs_con s)))"

lemma request_parses:
  assumes "buf_ok b" and "request_bytes req rest (content b)"
  shows "\<exists>b'. parseRequest new_HttpContext b = Some (True, \<lparr>state = kGotAll, request = req\<rparr>, b') \<and> buf_ok b' \<and> content b' = rest"
proof -
  from assms(2) obtain hs where w:
    "content b = request_line (req_method req) (path req) (query req) (version req) @ kCRLF @ header_text hs @ rest"
    "req_method req \<noteq> kInvalid" "version req \<noteq> kUnknown" "uri_ok (path req) (query req)" "CR \<notin> set (path req @ query req)"
    "\<forall>h \<in> set hs. header_ok h" "headers req = add_headers Map.empty hs" unfolding request_bytes_def by blast
  have req: "\<lparr>req_method = req_method req, version = version req, path = path req, query = query req, headers = add_headers Map.empty hs\<rparr> = req"
    using w(7) by simp
  from parseRequest_complete [OF assms(1) w(1-6)] show ?thesis unfolding req by blast
qed

lemma onMessage_complete:
  assumes "request_waiting s req rest"
  shows "\<exists>b. buf_ok b \<and> content b = rest \<and> onMessage ctl close_cb http_callback r1 r2 s =
    and_then (onRequest ctl close_cb http_callback r2 req
      (set_context \<lparr>state = kGotAll, request = req\<rparr> (s\<lparr>cs_con := (cs_con s)\<lparr>input_buf := b\<rparr>\<rparr>)))
      (\<lambda>s. Some (Done (set_context new_HttpContext s)))"
  using assms request_parses [of "input_buf (cs_con s)" req rest]
  by (auto simp: request_waiting_def onMessage_def gotAll_def Let_def)

lemma request_answered:
  assumes "ctl_ok ctl tab" and "conn_ok tab cs s" and "request_waiting s req rest"
    and "fits_open (http_callback req (new_HttpResponse (wants_close req))) r2 s"
  shows "\<exists>s'. onMessage ctl close_cb http_callback r1 r2 s = Some (Done s') \<and> conn_ok tab cs s' \<and>
    cs_wire s' @ content (output_buf (cs_con s')) =
      cs_wire s @ content (output_buf (cs_con s)) @ response_text (http_callback req (new_HttpResponse (wants_close req))) \<and>
    content (input_buf (cs_con s')) = rest \<and> con_context (cs_con s') = Some new_HttpContext"
proof -
  from onMessage_complete [OF assms(3)] obtain b where b: "buf_ok b" "content b = rest"
    "onMessage ctl close_cb http_callback r1 r2 s = and_then (onRequest ctl close_cb http_callback r2 req
      (set_context \<lparr>state = kGotAll, request = req\<rparr> (s\<lparr>cs_con := (cs_con s)\<lparr>input_buf := b\<rparr>\<rparr>)))
      (\<lambda>s. Some (Done (set_context new_HttpContext s)))" by blast
  let ?s = "set_context \<lparr>state = kGotAll, request = req\<rparr> (s\<lparr>cs_con := (cs_con s)\<lparr>input_buf := b\<rparr>\<rparr>)"
  let ?t = "response_text (http_callback req (new_HttpResponse (wants_close req)))"
  have "conn_ok tab cs ?s" using assms(2) by (simp add: conn_ok_def)
  moreover have "fits_open (http_callback req (new_HttpResponse (wants_close req))) r2 ?s" using assms(4) by (simp add: fits_defs)
  ultimately obtain s1 where s1: "onRequest ctl close_cb http_callback r2 req ?s = Some (Done s1)"
    "conn_send ctl r2 ?t ?s = Some (Done s1)" "conn_ok tab cs s1"
    "cs_wire s1 @ content (output_buf (cs_con s1)) = cs_wire s @ content (output_buf (cs_con s)) @ ?t"
    using onRequest_open [OF assms(1), of cs ?s http_callback req r2 close_cb] by auto
  moreover have "input_buf (cs_con s1) = b" using conn_send_input [OF s1(2)] by simp
  ultimately show ?thesis using b(2,3) by simp
qed

section \<open>Properties\<close>

text \<open>A request on a connection that stays open is answered: when a complete request has arrived,
  the callback gets exactly that request, the bytes of its response go to the peer behind
  everything sent before, the bytes behind the request stay in the input, the parser is ready for
  the next request and the connection is still up.\<close>

theorem http_keepalive_exchange:
  assumes "ctl_ok ctl tab" and "conn_ok tab cs s" and "request_waiting s req rest"
    and "resp = http_callback req (new_HttpResponse (wants_close req))" and "\<not> resp_closeConnection resp"
    and "length (response_text resp) \<le> 2147480000" and "length (resp_body resp) < 10 ^ 13"
    and "has_room (output_buf (cs_con s)) (length (response_text resp))"
    and "r2 \<noteq> Send_failed EPIPE" and "r2 \<noteq> Send_failed ECONNRESET"
  shows "\<exists>s'. onMessage ctl close_cb http_callback r1 r2 s = Some (Done s') \<and> conn_ok tab cs s' \<and>
    cs_wire s' @ content (output_buf (cs_con s')) = cs_wire s @ content (output_buf (cs_con s)) @ response_text resp \<and>
    content (input_buf (cs_con s')) = rest \<and> con_context (cs_con s') = Some new_HttpContext"
  using request_answered [OF assms(1-3), of http_callback r2 close_cb r1] assms(4-10) by (simp add: fits_defs)

definition demo_callback :: "HttpRequest \<Rightarrow> HttpResponse \<Rightarrow> HttpResponse" where
  "demo_callback req resp = setBody (path req) (setStatusMessage ''OK'' (setStatusCode k200Ok resp))"

definition demo_request :: HttpRequest where
  "demo_request = \<lparr>req_method = kGet, version = kHttp11, path = ''/a'', query = [], headers = add_headers Map.empty [(''Host'', ''h'')]\<rparr>"

definition demo_http :: "(int \<rightharpoonup> int) http_state" where
  "demo_http = \<lparr>cs_evd = cs_evd demo_conn, cs_con = \<lparr>con_id = 1, con_chan = con_chan (cs_con demo_conn), con_status = CONNECTED,
      input_buf = filled (request_line kGet ''/a'' [] kHttp11 @ kCRLF @ header_text [(''Host'', ''h'')] @ ''GET''),
      output_buf = new_IoBuffer kInitialSize, con_context = Some new_HttpContext\<rparr>, cs_wire = [], cs_closed = []\<rparr>"

lemma demo_http_ok: "conn_ok (\<lambda>k. k) Map.empty demo_http" "request_waiting demo_http demo_request ''GET''"
proof -
  show "conn_ok (\<lambda>k. k) Map.empty demo_http"
    using demo_conn_ok(1) by (simp add: conn_ok_def demo_http_def demo_conn_def new_Connection_def)
  show "request_waiting demo_http demo_request ''GET''"
    unfolding request_waiting_def request_bytes_def demo_http_def demo_request_def
    by (auto simp: uri_ok_def header_ok_def trimmed_def isspace_def request_line_def header_text_def
      header_line_def kCRLF_def versionString_def intro!: exI [of _ "[(''Host'', ''h'')]"])
qed

theorem http_keepalive_exchange_witness:
  "\<exists>s'. onMessage demo_ctl None demo_callback (Sent 0) (Sent 10) demo_http = Some (Done s') \<and>
     cs_wire s' @ content (output_buf (cs_con s')) = response_text (demo_callback demo_request (new_HttpResponse False)) \<and>
     content (input_buf (cs_con s')) = ''GET''"
proof -
  let ?resp = "demo_callback demo_request (new_HttpResponse (wants_close demo_request))"
  have c: "wants_close demo_request = False" by (simp add: wants_close_def demo_request_def getHeader_def add_headers_def)
  have l: "length (response_text (demo_callback demo_request (new_HttpResponse False))) < 100"
    "length (resp_body (demo_callback demo_request (new_HttpResponse False))) < 100"
    "\<not> resp_closeConnection (demo_callback demo_request (new_HttpResponse False))" by code_simp+
  have "has_room (output_buf (cs_con demo_http)) (length (response_text ?resp))"
    using l(1) c by (simp add: demo_http_def kInitialSize_def)
  from http_keepalive_exchange [of demo_ctl "\<lambda>k. k" Map.empty demo_http demo_request "''GET''" ?resp demo_callback "Sent 10" None "Sent 0",
      OF demo_ctl_ok demo_http_ok refl _ _ _ this] l c
  show ?thesis by (auto simp: demo_http_def)
qed

text \<open>A response that closes the connection can be cut off. When the user's response or the request
  asks to close, nothing is queued and the socket takes \<open>n\<close> bytes of the response, then exactly those \<open>n\<close>
  bytes reach the peer: \<^verbatim>\<open>ForceClose\<close> runs at once, whether or not the rest of the response has left
  the output buffer, and closes the descriptor.\<close>

theorem http_close_truncates:
  assumes "ctl_ok ctl tab" and "conn_ok tab cs s" and "request_waiting s req rest" and "content (output_buf (cs_con s)) = []"
    and "resp = http_callback req (new_HttpResponse (wants_close req))" and "resp_closeConnection resp"
    and "length (response_text resp) \<le> 2147480000" and "length (resp_body resp) < 10 ^ 13"
    and "has_room (output_buf (cs_con s)) (length (response_text resp))"
    and "\<And>t. \<exists>t'. close_cb t = Some (Done t') \<and> cs_wire t' = cs_wire t \<and> cs_closed t' = cs_closed t \<and>
      ch_fd (con_chan (cs_con t')) = ch_fd (con_chan (cs_con t))"
  shows "\<exists>s'. onMessage ctl (Some close_cb) http_callback r1 (Sent n) s = Some (Done s') \<and>
    cs_wire s' = cs_wire s @ take n (response_text resp) \<and> con_status (cs_con s') = CLOSED \<and>
    cs_closed s' = cs_closed s @ [ch_fd (con_chan (cs_con s))]"
proof -
  from onMessage_complete [OF assms(3)] obtain b where b:
    "onMessage ctl (Some close_cb) http_callback r1 (Sent n) s = and_then (onRequest ctl (Some close_cb) http_callback (Sent n) req
      (set_context \<lparr>state = kGotAll, request = req\<rparr> (s\<lparr>cs_con := (cs_con s)\<lparr>input_buf := b\<rparr>\<rparr>)))
      (\<lambda>s. Some (Done (set_context new_HttpContext s)))" by blast
  let ?s = "set_context \<lparr>state = kGotAll, request = req\<rparr> (s\<lparr>cs_con := (cs_con s)\<lparr>input_buf := b\<rparr>\<rparr>)"
  let ?t = "response_text resp"
  have ok: "conn_ok tab cs ?s" using assms(2) by (simp add: conn_ok_def)
  have "stream_step tab cs ?s ?t (conn_send ctl (Sent n) ?t ?s)"
    by (rule conn_send_ok [OF assms(1) ok]) (use assms(9) in auto)
  then obtain s1 where s1: "conn_send ctl (Sent n) ?t ?s = Some (Done s1)" by (auto simp: stream_step_def)
  have "\<not> IsWritable (ch_events (con_chan (cs_con s)))" "ReadableBytes (output_buf (cs_con s)) = 0" "con_status (cs_con s) = CONNECTED"
    using assms(2,4) content_Nil_iff [of "output_buf (cs_con s)"] by (auto simp: conn_ok_def)
  then have "send_queue ctl (drop n ?t) (to_wire (take n ?t) ?s) = Some (Done s1)" and up: "con_status (cs_con s) = CONNECTED"
    using s1 by (simp_all add: conn_send_def)
  then have f: "same_conn (to_wire (take n ?t) ?s) s1" by (intro send_queue_same)
  obtain t where t: "close_cb (set_status CLOSING s1) = Some (Done t)" "cs_wire t = cs_wire s1" "cs_closed t = cs_closed s1"
    "ch_fd (con_chan (cs_con t)) = ch_fd (con_chan (cs_con s1))"
    using assms(10) [of "set_status CLOSING s1"] by (auto simp: set_status_def)
  then show ?thesis
    using b s1 f up onRequest_send [where ctl = ctl and close_cb = "Some close_cb" and r = "Sent n" and s = ?s and req = req
      and http_callback = http_callback, OF assms(5,7,8)] assms(6)
    by (simp add: close_now_def ForceClose_def same_conn_def to_wire_def set_status_def)
qed

theorem http_close_truncates_witness:
  "\<exists>s'. onMessage demo_ctl (Some (\<lambda>s. Some (Done s))) defaultHttpCallback (Sent 0) (Sent 12) demo_http = Some (Done s') \<and>
     cs_wire s' = ''HTTP/1.1 404'' \<and> con_status (cs_con s') = CLOSED \<and> cs_closed s' = [7]"
proof -
  let ?resp = "defaultHttpCallback demo_request (new_HttpResponse (wants_close demo_request))"
  have c: "wants_close demo_request = False" by (simp add: wants_close_def demo_request_def getHeader_def add_headers_def)
  have l: "length (response_text (defaultHttpCallback demo_request (new_HttpResponse False))) < 100"
    "length (resp_body (defaultHttpCallback demo_request (new_HttpResponse False))) < 100"
    "resp_closeConnection (defaultHttpCallback demo_request (new_HttpResponse False))"
    "take 12 (response_text (defaultHttpCallback demo_request (new_HttpResponse False))) = ''HTTP/1.1 404''" by code_simp+
  have h: "has_room (output_buf (cs_con demo_http)) (length (response_text ?resp))" "content (output_buf (cs_con demo_http)) = []"
    using l(1) c by (simp_all add: demo_http_def kInitialSize_def)
  have "\<exists>s'. onMessage demo_ctl (Some (\<lambda>s. Some (Done s))) defaultHttpCallback (Sent 0) (Sent 12) demo_http = Some (Done s') \<and>
     cs_wire s' = cs_wire demo_http @ take 12 (response_text ?resp) \<and> con_status (cs_con s') = CLOSED \<and>
     cs_closed s' = cs_closed demo_http @ [ch_fd (con_chan (cs_con demo_http))]"
    by (rule http_close_truncates [OF demo_ctl_ok demo_http_ok h(2) refl]) (use h l c in auto)
  then show ?thesis using l(4) c by (simp add: demo_http_def demo_conn_def demo_chan_def new_Connection_def)
qed

end
