(* ===== verification/Http_Loop.thy ===== *)
theory Http_Loop
  imports Multi_Progress Http_Server
begin

text \<open>
  The HTTP server running (\<^verbatim>\<open>src/rpc/http/http_server.cpp\<close>): \<^verbatim>\<open>HttpServer\<close> puts its two callbacks into the TCP server of
  \<^theory_text>\<open>Multi_Server\<close>, without workers. Here its message callback acts on the state of that server, so that \<^verbatim>\<open>ForceClose\<close> goes
  through the table and the loop. It keeps the contract \<^theory_text>\<open>message_callback\<close> as long as the parser returns, the replies fit and
  nothing is called behind a reply that closes; so the safety of the TCP server outside its hazards carries over, a request that arrives on the
  socket is answered on the socket, and a reply that closes ends the connection for good.
\<close>

section \<open>Operations\<close>

text \<open>\<^verbatim>\<open>onRequest\<close> and \<^verbatim>\<open>onMessage\<close>, called on the loop \<open>e\<close> for the connection \<open>p\<close>; in \<^theory_text>\<open>Http_Server\<close> they act on a connection alone.\<close>

definition server_onRequest :: "(epoll_op \<Rightarrow> int \<Rightarrow> int \<Rightarrow> 'k \<Rightarrow> int \<times> 'k) \<Rightarrow> (int \<Rightarrow> int) \<Rightarrow> (HttpRequest \<Rightarrow> HttpResponse \<Rightarrow> HttpResponse) \<Rightarrow>
    send_result \<Rightarrow> HttpRequest \<Rightarrow> nat \<Rightarrow> chan \<Rightarrow> ('k, HttpContext) MultiServer \<Rightarrow> ('k, HttpContext) MultiServer or_abort option" where
  "server_onRequest ctl wr http_callback r req e p s =
     (let response = http_callback req (new_HttpResponse (wants_close req)) in
      case response_bytes response of
        None \<Rightarrow> None
      | Some d \<Rightarrow>
          and_then (on_object e p (conn_send ctl r d) s)
            (\<lambda>s. if resp_closeConnection response then ms_ForceClose ctl wr e p s else Some (Done s)))"

definition server_onMessage :: "(epoll_op \<Rightarrow> int \<Rightarrow> int \<Rightarrow> 'k \<Rightarrow> int \<times> 'k) \<Rightarrow> (int \<Rightarrow> int) \<Rightarrow> (HttpRequest \<Rightarrow> HttpResponse \<Rightarrow> HttpResponse) \<Rightarrow>
    send_result \<times> send_result \<Rightarrow> nat \<Rightarrow> chan \<Rightarrow> ('k, HttpContext) MultiServer \<Rightarrow> ('k, HttpContext) MultiServer or_abort option" where
  "server_onMessage ctl wr http_callback rs e p s =
     (case live_object s p of
        None \<Rightarrow> None
      | Some (_, con) \<Rightarrow>
          (case con_context con of
             None \<Rightarrow> None
           | Some c \<Rightarrow>
               (case parseRequest c (input_buf con) of
                  None \<Rightarrow> None
                | Some (ok, c, b) \<Rightarrow>
                    and_then (upd_object p (\<lambda>con. con\<lparr>input_buf := b, con_context := Some c\<rparr>) s) (\<lambda>s.
                    and_then (if \<not> ok then and_then (on_object e p (conn_send ctl (fst rs) bad_request) s) (ms_ForceClose ctl wr e p)
                              else Some (Done s)) (\<lambda>s.
                    if gotAll c
                    then and_then (server_onRequest ctl wr http_callback (snd rs) (request c) e p s)
                           (upd_object p (\<lambda>con. con\<lparr>con_context := Some (reset c)\<rparr>))
                    else Some (Done s))))))"

text \<open>What the constructor of \<^verbatim>\<open>HttpServer\<close> installs: \<^verbatim>\<open>onConnection\<close> stores a new parser in the connection and keeps no
  reference. The message callback makes two \<^verbatim>\<open>send\<close>s at most.\<close>

definition http_env :: "(epoll_op \<Rightarrow> int \<Rightarrow> int \<Rightarrow> 'k \<Rightarrow> int \<times> 'k) \<Rightarrow> (int \<Rightarrow> int) \<Rightarrow> chan \<Rightarrow>
    (HttpRequest \<Rightarrow> HttpResponse \<Rightarrow> HttpResponse) \<Rightarrow> ('k, HttpContext, send_result \<times> send_result) server_env" where
  "http_env ctl wr acc http_callback =
     \<lparr>env_ctl = ctl, env_write = wr, env_acceptor = acc, env_message = server_onMessage ctl wr http_callback,
      env_context = Some new_HttpContext, env_keep = False\<rparr>"

definition http_Start :: "(epoll_op \<Rightarrow> int \<Rightarrow> int \<Rightarrow> 'k \<Rightarrow> int \<times> 'k) \<Rightarrow> (int \<Rightarrow> int) \<Rightarrow> Acceptor \<Rightarrow> (nat \<Rightarrow> 'k EventDispatcher) \<Rightarrow>
    (('k, HttpContext) MultiServer \<times> Acceptor) or_abort" where
  "http_Start ctl lst a loops = ms_Start ctl lst a (new_MultiServer loops 0)"

section \<open>The parser\<close>

text \<open>The parser keeps the buffer intact.\<close>

lemma findCRLF_nonneg: "findCRLF b = Some (Some n) \<Longrightarrow> 0 \<le> n"
  by (auto simp: findCRLF_def split: option.splits if_splits)

lemma GetUntil_buf_ok: "buf_ok b \<Longrightarrow> 0 \<le> n \<Longrightarrow> buf_ok (GetUntil b n)"
  using Seek_any(1) [of b "nat n"] by (simp add: GetUntil_def)

lemma parse_step_buf_ok:
  assumes "parse_step ok c b = Some (ok', m, c', b')" and "buf_ok b"
  shows "buf_ok b'"
proof -
  have "b' = b \<or> (\<exists>n. findCRLF b = Some (Some n) \<and> b' = GetUntil b (n + 2))"
  proof (cases "state c = kExpectRequestLine \<or> state c = kExpectHeaders")
    case True
    then obtain r where r: "findCRLF b = Some r" using assms(1) by (cases "findCRLF b") (auto simp: parse_step_def)
    show ?thesis
    proof (cases r)
      case None
      then show ?thesis using True r assms(1) by (auto simp: parse_step_def)
    next
      case (Some n)
      then show ?thesis using True r assms(1)
        by (cases "processRequestLine (request c) (line_at b n)"; cases "find_char (CHR '':'') (line_at b n)")
          (auto simp: parse_step_def split: if_splits)
    qed
  next
    case False
    then show ?thesis using assms(1) by (cases "state c") (auto simp: parse_step_def)
  qed
  then have "b' = b \<or> (\<exists>n. 0 \<le> n \<and> b' = GetUntil b n)" using findCRLF_nonneg by (metis add_nonneg_nonneg zero_le_numeral)
  then show ?thesis using assms(2) GetUntil_buf_ok by blast
qed

lemma parse_loop_buf_ok:
  assumes "parse_loop ok c b = Some y" and "buf_ok b"
  shows "buf_ok (snd (snd y))"
proof -
  have "buf_ok b \<longrightarrow> buf_ok (snd (snd y))"
    by (rule parse_loop.raw_induct [where P = "\<lambda>ok c b y. buf_ok b \<longrightarrow> buf_ok (snd (snd y))", OF _ assms(1)])
      (auto simp: bind_eq_Some_conv split: if_splits dest: parse_step_buf_ok)
  then show ?thesis using assms(2) by blast
qed

lemma parseRequest_buf_ok: "parseRequest c b = Some (ok, c', b') \<Longrightarrow> buf_ok b \<Longrightarrow> buf_ok b'"
  using parse_loop_buf_ok [of True c b "(ok, c', b')"] by (simp add: parseRequest_def)

text \<open>A refused request line leaves the parser where it is.\<close>

lemma parse_step_refuses:
  "parse_step True c b = Some (ok', m, c', b') \<Longrightarrow> (m \<longrightarrow> ok') \<and> (\<not> ok' \<longrightarrow> state c' = kExpectRequestLine)"
  by (cases "state c") (auto simp: parse_step_def Let_def case_prod_beta bind_eq_Some_conv split: option.splits if_splits)

lemma parse_loop_refuses:
  assumes "parse_loop True c b = Some y" and "\<not> fst y"
  shows "state (fst (snd y)) = kExpectRequestLine"
proof -
  have "True \<longrightarrow> \<not> fst y \<longrightarrow> state (fst (snd y)) = kExpectRequestLine"
    by (rule parse_loop.raw_induct [where P = "\<lambda>ok c b y. ok \<longrightarrow> \<not> fst y \<longrightarrow> state (fst (snd y)) = kExpectRequestLine", OF _ assms(1)])
      (clarsimp simp: bind_eq_Some_conv, frule parse_step_refuses, auto split: if_splits)
  then show ?thesis using assms(2) by blast
qed

lemma parseRequest_refuses: "parseRequest c b = Some (False, c', b') \<Longrightarrow> \<not> gotAll c'"
  using parse_loop_refuses [of c b "(False, c', b')"] by (simp add: parseRequest_def gotAll_def)

text \<open>Input whose first line is no request line.\<close>

definition bad_bytes :: "bytes \<Rightarrow> bool" where
  "bad_bytes bs \<longleftrightarrow> (\<exists>line rest. bs = line @ kCRLF @ rest \<and> CR \<notin> set line \<and> \<not> fst (processRequestLine new_HttpRequest line))"

lemma bad_bytes_parse:
  assumes "bad_bytes bs"
  shows "\<exists>x. \<not> gotAll x \<and> (\<forall>b. buf_ok b \<longrightarrow> content b = bs \<longrightarrow> parseRequest new_HttpContext b = Some (False, x, b))"
proof -
  from assms obtain line rest where l: "bs = line @ kCRLF @ rest" "CR \<notin> set line" "\<not> fst (processRequestLine new_HttpRequest line)"
    unfolding bad_bytes_def by blast
  obtain r where r: "processRequestLine new_HttpRequest line = (False, r)" using l(3) by (cases "processRequestLine new_HttpRequest line") auto
  let ?x = "new_HttpContext\<lparr>request := r\<rparr>"
  have "parseRequest new_HttpContext b = Some (False, ?x, b)" if "buf_ok b" "content b = bs" for b
  proof -
    note n = next_line [OF that(1) that(2) [unfolded l(1)] no_crlf_without_cr [OF l(2)]]
    have "parse_step True new_HttpContext b = Some (False, False, ?x, b)" using n r by (simp add: parse_step_def new_HttpContext_def)
    then show ?thesis unfolding parseRequest_def by (subst parse_loop.simps) simp
  qed
  moreover have "\<not> gotAll ?x" by (simp add: gotAll_def new_HttpContext_def)
  ultimately show ?thesis by blast
qed

section \<open>The message callback\<close>

text \<open>The input the callback is made for: the parser returns, and a reply there is, to a refused request line or to a complete
  request, fits and can be sent; the connection may be closed (\<^theory_text>\<open>may_close\<close>) if the reply closes it.\<close>

definition http_fit :: "(HttpRequest \<Rightarrow> HttpResponse \<Rightarrow> HttpResponse) \<Rightarrow> send_result \<times> send_result \<Rightarrow> bool \<Rightarrow> 'k http_state \<Rightarrow> bool" where
  "http_fit http_callback rs final c \<longleftrightarrow> (\<exists>x ok x' b. con_context (cs_con c) = Some x \<and> parseRequest x (input_buf (cs_con c)) = Some (ok, x', b) \<and>
     (\<not> ok \<longrightarrow> final \<and> has_room (output_buf (cs_con c)) (length bad_request) \<and> sendable (fst rs)) \<and>
     (gotAll x' \<longrightarrow> (let resp = http_callback (request x') (new_HttpResponse (wants_close (request x')))
                    in fits_reply resp (snd rs) c \<and> (resp_closeConnection resp \<longrightarrow> final))))"

text \<open>The reply to what the parser returns, and whether it closes.\<close>

definition reply :: "(HttpRequest \<Rightarrow> HttpResponse \<Rightarrow> HttpResponse) \<Rightarrow> bool \<Rightarrow> HttpContext \<Rightarrow> bytes" where
  "reply http_callback ok x =
     (if \<not> ok then bad_request
      else if gotAll x then response_text (http_callback (request x) (new_HttpResponse (wants_close (request x)))) else [])"

definition reply_closes :: "(HttpRequest \<Rightarrow> HttpResponse \<Rightarrow> HttpResponse) \<Rightarrow> bool \<Rightarrow> HttpContext \<Rightarrow> bool" where
  "reply_closes http_callback ok x \<longleftrightarrow>
     \<not> ok \<or> gotAll x \<and> resp_closeConnection (http_callback (request x) (new_HttpResponse (wants_close (request x))))"

lemma sendable_event_ok: "sendable r \<Longrightarrow> event_ok (WSend d r)"
  by (cases r) (auto simp: sendable_def)

text \<open>A reply, and \<^verbatim>\<open>ForceClose\<close> behind it if it closes.\<close>

definition ended :: "nat \<Rightarrow> chan \<Rightarrow> 'x Connection \<Rightarrow> ('k, 'x) MultiServer \<Rightarrow> 'x Connection \<Rightarrow> ('k, 'x) MultiServer \<Rightarrow> bool" where
  "ended e p con s con' s' \<longleftrightarrow> con_status con' = CLOSED \<and> ms_closed s' = ms_closed s @ [ch_fd (con_chan con)] \<and>
     channels (ms_loops s' e) (ch_fd (con_chan con)) = None \<and> (e = 0 \<longrightarrow> ms_connections s' (con_id con) = None)"

lemma send_reply:
  assumes ctl: "ctl_ok ctl tab" and env: "env_ctl env = ctl" "env_write env = wr" and inv: "ms_inv tab base env s"
    and at: "ms_at s e = InHandlers p hs evs" and p: "ms_objects s p = Some (e, con)" "con_status con = CONNECTED"
    and d: "has_room (output_buf con) (length d)" "sendable r" and last: "closes \<Longrightarrow> may_close s e hs"
  shows "\<exists>s' con'. and_then (on_object e p (conn_send ctl r d) s) (\<lambda>s. if closes then ms_ForceClose ctl wr e p s else Some (Done s)) = Some (Done s') \<and>
    ms_inv tab base env s' \<and> ms_at s' = ms_at s \<and> ms_held s' = ms_held s \<and> ms_objects s' p = Some (e, con') \<and> con_id con' = con_id con \<and>
    con_context con' = con_context con \<and> input_buf con' = input_buf con \<and>
    ms_wire s' p @ content (output_buf con') = ms_wire s p @ content (output_buf con) @ d \<and>
    (if closes then ended e p con s con' s' else con_status con' = CONNECTED \<and> ms_connections s' = ms_connections s)"
proof -
  from inv_send [OF ctl inv p d(1) sendable_event_ok [OF d(2)]] obtain s1 con1 where
    s1: "on_object e p (conn_send ctl r d) s = Some (Done s1)" "ms_inv tab base env s1" "ms_at s1 = ms_at s" "ms_held s1 = ms_held s"
    "ms_objects s1 p = Some (e, con1)" and c1: "con_status con1 = CONNECTED" "con_id con1 = con_id con" "ch_fd (con_chan con1) = ch_fd (con_chan con)"
    "input_buf con1 = input_buf con" "con_context con1 = con_context con"
    "ms_wire s1 p @ content (output_buf con1) = ms_wire s p @ content (output_buf con) @ d"
    "ms_connections s1 = ms_connections s" "ms_closed s1 = ms_closed s" by auto
  show ?thesis
  proof (cases closes)
    case False
    then show ?thesis using s1 c1 by (intro exI [of _ s1] exI [of _ con1]) simp
  next
    case True
    then have "ms_at s1 e = InHandlers p [] evs" "e \<noteq> 0 \<Longrightarrow> \<not> ms_calling s1 0" using at last s1(3) on_object_result [OF s1(1) p(1)]
      by (auto simp: may_close_def)
    from inv_ForceClose [OF ctl [folded env(1)] s1(2) this(1) s1(5) c1(1) this(2)] obtain s2 where
      s2: "ms_ForceClose ctl wr e p s1 = Some (Done s2)" "ms_inv tab base env s2" "ms_at s2 = ms_at s1" "ms_held s2 = ms_held s1"
      "ms_objects s2 = (ms_objects s1)(p \<mapsto> (e, con1\<lparr>con_status := CLOSED\<rparr>))" "ms_wire s2 = ms_wire s1"
      "channels (ms_loops s2 e) = (channels (ms_loops s1 e))(ch_fd (con_chan con1) := None)"
      "ms_closed s2 = ms_closed s1 @ [ch_fd (con_chan con1)]" "e = 0 \<longrightarrow> ms_connections s2 (con_id con1) = None"
      unfolding env by blast
    then show ?thesis using s1 c1 True by (intro exI [of _ s2] exI [of _ "con1\<lparr>con_status := CLOSED\<rparr>"]) (simp add: ended_def)
  qed
qed

text \<open>What the application does to its own data in a connection it has a reference to.\<close>

lemma inv_upd:
  assumes inv: "ms_inv tab base env s" and p: "ms_objects s p = Some (e, con)" "p \<in> set (ms_held s)"
    and f: "con_id (f con) = con_id con" "con_chan (f con) = con_chan con" "con_status (f con) = con_status con"
      "output_buf (f con) = output_buf con" "buf_ok (input_buf (f con))"
  shows "upd_object p f s = Some (Done (s\<lparr>ms_objects := (ms_objects s)(p \<mapsto> (e, f con))\<rparr>))"
    and "ms_inv tab base env (s\<lparr>ms_objects := (ms_objects s)(p \<mapsto> (e, f con))\<rparr>)"
  using live_hold [OF p] inv_same_con [OF inv p(1) f] by (simp_all add: upd_object_def)

lemma server_message:
  assumes ctl: "ctl_ok ctl tab" and env: "env_ctl env = ctl" "env_write env = wr" and inv: "ms_inv tab base env s"
    and at: "ms_at s e = InHandlers p hs evs" and p: "ms_objects s p = Some (e, con)" "con_status con = CONNECTED" and held: "p \<in> set (ms_held s)"
    and fit: "http_fit http_callback rs (may_close s e hs) \<lparr>cs_evd = ms_loops s e, cs_con = con, cs_wire = ms_wire s p, cs_closed = []\<rparr>"
    and x: "con_context con = Some x" "parseRequest x (input_buf con) = Some (ok, x', b)"
  shows "\<exists>s' con'. server_onMessage ctl wr http_callback rs e p s = Some (Done s') \<and>
    ms_inv tab base env s' \<and> ms_at s' = ms_at s \<and> ms_held s' = ms_held s \<and> ms_objects s' p = Some (e, con') \<and> con_id con' = con_id con \<and>
    con_context con' = Some (if gotAll x' then new_HttpContext else x') \<and> input_buf con' = b \<and>
    ms_wire s' p @ content (output_buf con') = ms_wire s p @ content (output_buf con) @ reply http_callback ok x' \<and>
    (if reply_closes http_callback ok x' then ended e p con s con' s' else con_status con' = CONNECTED \<and> ms_connections s' = ms_connections s)"
proof -
  let ?con = "con\<lparr>input_buf := b, con_context := Some x'\<rparr>"
  let ?s1 = "s\<lparr>ms_objects := (ms_objects s)(p \<mapsto> (e, ?con))\<rparr>"
  let ?resp = "http_callback (request x') (new_HttpResponse (wants_close (request x')))"
  from fit x have bad: "\<not> ok \<Longrightarrow> may_close s e hs \<and> has_room (output_buf con) (length bad_request) \<and> sendable (fst rs)"
    and good: "gotAll x' \<Longrightarrow> fits_reply ?resp (snd rs) \<lparr>cs_evd = ms_loops s e, cs_con = con, cs_wire = ms_wire s p, cs_closed = []\<rparr> \<and>
      (resp_closeConnection ?resp \<longrightarrow> may_close s e hs)" by (auto simp: http_fit_def Let_def)
  have "buf_ok b" using parseRequest_buf_ok [OF x(2)] inv_obj [OF inv p(1)] by (simp add: obj_ok_def)
  then have u: "upd_object p (\<lambda>con. con\<lparr>input_buf := b, con_context := Some x'\<rparr>) s = Some (Done ?s1)" "ms_inv tab base env ?s1"
    using inv_upd [OF inv p(1) held, of "\<lambda>con. con\<lparr>input_buf := b, con_context := Some x'\<rparr>"] by simp_all
  have p1: "ms_at ?s1 e = InHandlers p hs evs" "ms_objects ?s1 p = Some (e, ?con)" "con_status ?con = CONNECTED" using at p by simp_all
  note live = live_hold [OF p(1) held]
  note msg = server_onMessage_def [of ctl wr http_callback rs e p s] live x u(1)
  note sr = send_reply [OF ctl env u(2) p1]
  consider (refused) "\<not> ok" | (part) "ok" "\<not> gotAll x'" | (whole) "ok" "gotAll x'" by blast
  then show ?thesis
  proof cases
    case refused
    then have "\<not> gotAll x'" using parseRequest_refuses x(2) by (cases ok) auto
    with sr [of bad_request "fst rs" True] bad [OF refused] refused show ?thesis
      by (auto simp: msg reply_def reply_closes_def ended_def)
  next
    case part
    then show ?thesis using u(2) p at
      by (intro exI [of _ ?s1] exI [of _ ?con]) (simp add: msg reply_def reply_closes_def)
  next
    case whole
    let ?cl = "resp_closeConnection ?resp"
    have f: "response_bytes ?resp = Some (response_text ?resp)" "has_room (output_buf ?con) (length (response_text ?resp))" "sendable (snd rs)" "?cl \<Longrightarrow> may_close ?s1 e hs"
      using good [OF whole(2)] response_bytes_ok [of ?resp] by (auto simp: fits_reply_def)
    from sr [where closes = ?cl, OF f(2,3) f(4)] obtain s2 con2 where
      s2: "and_then (on_object e p (conn_send ctl (snd rs) (response_text ?resp)) ?s1) (\<lambda>s. if ?cl then ms_ForceClose ctl wr e p s else Some (Done s)) = Some (Done s2)"
      "ms_inv tab base env s2" "ms_at s2 = ms_at s" "ms_held s2 = ms_held s" "ms_objects s2 p = Some (e, con2)"
      and c2: "con_id con2 = con_id con" "input_buf con2 = b"
      "ms_wire s2 p @ content (output_buf con2) = ms_wire s p @ content (output_buf con) @ response_text ?resp"
      "if ?cl then ended e p ?con ?s1 con2 s2 else con_status con2 = CONNECTED \<and> ms_connections s2 = ms_connections s" by auto
    let ?c2 = "con2\<lparr>con_context := Some (reset x')\<rparr>"
    let ?s2 = "s2\<lparr>ms_objects := (ms_objects s2)(p \<mapsto> (e, ?c2))\<rparr>"
    have u2: "upd_object p (\<lambda>con. con\<lparr>con_context := Some (reset x')\<rparr>) s2 = Some (Done ?s2)" "ms_inv tab base env ?s2"
      using inv_upd [OF s2(2,5), of "\<lambda>con. con\<lparr>con_context := Some (reset x')\<rparr>"] held s2(4) c2(2) \<open>buf_ok b\<close> by simp_all
    have "server_onRequest ctl wr http_callback (snd rs) (request x') e p ?s1 = Some (Done s2)"
      using s2(1) f(1) by (simp add: server_onRequest_def Let_def)
    then have "server_onMessage ctl wr http_callback rs e p s = Some (Done ?s2)" using whole u2(1) by (simp add: msg)
    then show ?thesis using u2(2) s2(3,4) c2 whole
      by (intro exI [of _ ?s2] exI [of _ ?c2]) (cases ?cl; simp add: reply_def reply_closes_def ended_def)
  qed
qed

interpretation http: message_callback ctl wr tab "server_onMessage ctl wr http_callback" "http_fit http_callback" for ctl wr tab http_callback
proof (unfold_locales, goal_cases)
  case (1 env base s e p hs evs con m)
  from 1(9) obtain x ok x' b where "con_context con = Some x" "parseRequest x (input_buf con) = Some (ok, x', b)" by (auto simp: http_fit_def)
  from server_message [OF 1 this] show ?case by blast
qed

section \<open>The context of a connection\<close>

text \<open>Operations of the TCP layer leave the context of a connection alone.\<close>

lemma tcp_context:
  "establish ctl c = Some (Done c') \<Longrightarrow> con_context (cs_con c') = con_context (cs_con c)"
  "conn_Remove ctl c = Some (Done c') \<Longrightarrow> con_context (cs_con c') = con_context (cs_con c)"
  "conn_HandleWrite ctl r c = Some (Done c') \<Longrightarrow> con_context (cs_con c') = con_context (cs_con c)"
  by (auto simp: establish_def conn_Remove_def conn_HandleWrite_def set_status_def to_wire_def Let_def and_then_Done
      dest!: on_channel_context split: option.splits or_abort.splits if_splits send_result.splits)

definition contexts :: "chan set \<Rightarrow> (chan \<rightharpoonup> nat \<times> 'x Connection) \<Rightarrow> bool" where
  "contexts X os \<longleftrightarrow> (\<forall>p e con. p \<notin> X \<longrightarrow> os p = Some (e, con) \<longrightarrow> con_context con \<noteq> None)"

definition keeps_context :: "('k, 'x) conn_op \<Rightarrow> bool" where
  "keeps_context f \<longleftrightarrow> (\<forall>c c'. f c = Some (Done c') \<longrightarrow> con_context (cs_con c) \<noteq> None \<longrightarrow> con_context (cs_con c') \<noteq> None)"

lemma tcp_keeps_context:
  "keeps_context (establish ctl)" "keeps_context (conn_Remove ctl)" "keeps_context (conn_HandleWrite ctl r)" "keeps_context (conn_send ctl r d)"
  using tcp_context conn_send_context unfolding keeps_context_def by metis+

lemma on_object_contexts:
  assumes "on_object e p f s = Some (Done s')" and "contexts X (ms_objects s)" and "keeps_context f"
  shows "contexts X (ms_objects s')"
proof -
  from assms(1) obtain o_evd con c' where p: "live_object s p = Some (o_evd, con)"
    and f: "f \<lparr>cs_evd = ms_loops s e, cs_con = con, cs_wire = ms_wire s p, cs_closed = []\<rparr> = Some (Done c')"
    and s': "ms_objects s' = (ms_objects s)(p \<mapsto> (o_evd, cs_con c'))"
    by (auto simp: on_object_def and_then_Done split: option.splits)
  have "ms_objects s p = Some (o_evd, con)" using p by (simp add: live_object_def split: if_splits)
  then show ?thesis using assms(2,3) f by (fastforce simp: contexts_def keeps_context_def s')
qed

lemma run_functor_contexts:
  assumes "run_functor ctl e f s = Some (Done s')" and "contexts X (ms_objects s)"
  shows "contexts X (ms_objects s')"
proof (cases f)
  case (FEstablish p)
  then have "on_object e p (establish ctl) s = Some (Done s')" using assms(1) by simp
  then show ?thesis by (rule on_object_contexts [OF _ assms(2) tcp_keeps_context(1)])
next
  case (FRemove p)
  then have "on_object e p (conn_Remove ctl) s = Some (Done s')" using assms(1) by simp
  then show ?thesis by (rule on_object_contexts [OF _ assms(2) tcp_keeps_context(2)])
next
  case (FErase p)
  then show ?thesis using assms by (auto split: option.splits)
next
  case (FSend p m r)
  then obtain d where "on_object e p (conn_send ctl r d) s = Some (Done s')" using assms(1) by (auto split: option.splits)
  then show ?thesis by (rule on_object_contexts [OF _ assms(2) tcp_keeps_context(4)])
qed (use assms in simp)

lemma run_in_contexts:
  assumes "run_in ctl wr cur evd f s = Some (Done s')" and "contexts X (ms_objects s)"
  shows "contexts X (ms_objects s')"
proof (cases "evd = cur")
  case True
  then show ?thesis using assms run_functor_contexts by (simp add: run_in_def)
next
  case False
  then have "ms_objects s' = ms_objects s" using assms(1) by (auto simp: run_in_def Let_def split: if_splits option.splits or_abort.splits)
  then show ?thesis using assms(2) by simp
qed

lemma Send_contexts:
  assumes "ms_Send ctl wr cur p m r s = Some (Done s')" and "contexts X (ms_objects s)"
  shows "contexts X (ms_objects s')"
  using assms run_in_contexts by (auto simp: ms_Send_def split: option.splits)

lemma closeConnect_contexts:
  assumes "ms_closeConnect ctl wr None e p s = Some (Done s')" and "contexts X (ms_objects s)"
  shows "contexts X (ms_objects s')"
proof -
  from assms(1) obtain evd s1 where r: "run_in ctl wr e evd (FRemove p) s = Some (Done s1)" "run_in ctl wr e 0 (FErase p) s1 = Some (Done s')"
    by (auto simp: ms_closeConnect_def ms_removeConnect_def and_then_Done split: option.splits)
  from run_in_contexts [OF r(2) run_in_contexts [OF r(1) assms(2)]] show ?thesis .
qed

lemma newConnect_contexts:
  assumes "ms_newConnect ctl wr (Some x) keep self fd s = Some (Done s')" and "contexts {} (ms_objects s)"
  shows "contexts {} (ms_objects s')"
proof -
  from assms(1) obtain i evd s1 s2 where n: "nextEvd (s\<lparr>ms_next_id := i\<rparr>) = Some (evd, s1)"
    and r: "run_in ctl wr 0 evd (FEstablish self) (s1\<lparr>ms_objects := (ms_objects s1)(self \<mapsto> (evd, new_Connection i self fd)), ms_held := self # ms_held s1\<rparr>) = Some (Done s2)"
    and s': "ms_objects s' = (ms_objects s2)(self := map_option (\<lambda>(e, con). (e, con\<lparr>con_context := Some x\<rparr>)) (ms_objects s2 self))"
    by (auto simp: ms_newConnect_def ms_nextId_def Let_def and_then_Done bind_eq_Some_conv)
  have "ms_objects s1 = ms_objects s" using n by (auto simp: nextEvd_def split: if_splits)
  then have "contexts {self} (ms_objects (s1\<lparr>ms_objects := (ms_objects s1)(self \<mapsto> (evd, new_Connection i self fd)), ms_held := self # ms_held s1\<rparr>))"
    using assms(2) by (simp add: contexts_def)
  from run_in_contexts [OF r this] show ?thesis by (auto simp: contexts_def s')
qed

lemma upd_object_contexts:
  assumes "upd_object p f s = Some (Done s')" and "contexts X (ms_objects s)" and "\<And>con. con_context con \<noteq> None \<Longrightarrow> con_context (f con) \<noteq> None"
  shows "contexts X (ms_objects s')"
  using assms by (auto simp: upd_object_def contexts_def live_object_def split: option.splits if_splits)

lemma force_close_contexts:
  assumes "force_close ctl wr e p s = Some (Done s')" and "contexts X (ms_objects s)"
  shows "contexts X (ms_objects s')"
proof -
  obtain evd con where l: "live_object s p = Some (evd, con)" using assms(1) by (auto simp: force_close_def split: option.splits)
  from assms(1) l obtain s1 s2 where f: "upd_object p (\<lambda>con. con\<lparr>con_status := CLOSING\<rparr>) s = Some (Done s1)"
    "ms_closeConnect ctl wr None e p s1 = Some (Done s2)"
    "upd_object p (\<lambda>con. con\<lparr>con_status := CLOSED\<rparr>) (s2\<lparr>ms_closed := ms_closed s2 @ [ch_fd (con_chan con)]\<rparr>) = Some (Done s')"
    by (auto simp: force_close_def and_then_Done)
  have "contexts X (ms_objects s1)" by (rule upd_object_contexts [OF f(1)]) (use assms(2) in auto)
  from closeConnect_contexts [OF f(2) this] show ?thesis by (intro upd_object_contexts [OF f(3)]) auto
qed

lemma ForceClose_contexts:
  assumes "ms_ForceClose ctl wr e p s = Some (Done s')" and "contexts X (ms_objects s)"
  shows "contexts X (ms_objects s')"
proof -
  obtain evd con where l: "live_object s p = Some (evd, con)" using assms(1) by (auto simp: ms_ForceClose_def split: option.splits)
  consider "s' = s" | s1 where "force_close ctl wr e p (hold p s) = Some (Done s1)" "s' = unhold p s1"
    | "run_in ctl wr e evd (FClose p) s = Some (Done s')"
    using assms(1) l by (cases "con_status con = CONNECTED"; cases "evd = e") (auto simp: ms_ForceClose_def and_then_Done)
  then show ?thesis
  proof cases
    case 2
    then show ?thesis using force_close_contexts [OF 2(1)] assms(2) by simp
  next
    case 3
    then show ?thesis by (rule run_in_contexts [OF _ assms(2)])
  qed (use assms(2) in simp)
qed

lemma run_pending_contexts:
  assumes "run_pending ctl wr e f s = Some (Done s')" and "contexts X (ms_objects s)"
  shows "contexts X (ms_objects s')"
proof (cases "is_FClose f")
  case True
  then obtain p where "f = FClose p" by (cases f) auto
  then show ?thesis using force_close_contexts assms by auto
next
  case False
  then show ?thesis using run_functor_contexts assms by auto
qed

lemma onRequest_contexts:
  assumes "server_onRequest ctl wr http_callback r req e p s = Some (Done s')" and "contexts X (ms_objects s)"
  shows "contexts X (ms_objects s')"
proof -
  from assms(1) obtain d s1 where s1: "on_object e p (conn_send ctl r d) s = Some (Done s1)" "s' = s1 \<or> ms_ForceClose ctl wr e p s1 = Some (Done s')"
    by (auto simp: server_onRequest_def Let_def and_then_Done split: option.splits if_splits)
  from on_object_contexts [OF s1(1) assms(2) tcp_keeps_context(4)] s1(2) ForceClose_contexts show ?thesis by blast
qed

lemma onMessage_contexts:
  assumes "server_onMessage ctl wr http_callback rs e p s = Some (Done s')" and "contexts X (ms_objects s)"
  shows "contexts X (ms_objects s')"
proof -
  from assms(1) obtain o_evd con x ok c b where l: "live_object s p = Some (o_evd, con)" "con_context con = Some x"
    "parseRequest x (input_buf con) = Some (ok, c, b)" by (auto simp: server_onMessage_def split: option.splits)
  obtain s1 s2 where s1: "upd_object p (\<lambda>con. con\<lparr>input_buf := b, con_context := Some c\<rparr>) s = Some (Done s1)"
    and s2: "(if \<not> ok then and_then (on_object e p (conn_send ctl (fst rs) bad_request) s1) (ms_ForceClose ctl wr e p) else Some (Done s1)) = Some (Done s2)"
    and s': "(if gotAll c then and_then (server_onRequest ctl wr http_callback (snd rs) (request c) e p s2)
      (upd_object p (\<lambda>con. con\<lparr>con_context := Some (reset c)\<rparr>)) else Some (Done s2)) = Some (Done s')"
    using assms(1) by (simp only: server_onMessage_def l option.case prod.case and_then_Done) blast
  have c1: "contexts X (ms_objects s1)" by (rule upd_object_contexts [OF s1 assms(2)]) simp
  have c2: "contexts X (ms_objects s2)"
  proof (cases ok)
    case False
    then obtain t where t: "on_object e p (conn_send ctl (fst rs) bad_request) s1 = Some (Done t)" "ms_ForceClose ctl wr e p t = Some (Done s2)"
      using s2 by (auto simp: and_then_Done)
    from ForceClose_contexts [OF t(2) on_object_contexts [OF t(1) c1 tcp_keeps_context(4)]] show ?thesis .
  qed (use s2 c1 in simp)
  show ?thesis
  proof (cases "gotAll c")
    case True
    then obtain t where t: "server_onRequest ctl wr http_callback (snd rs) (request c) e p s2 = Some (Done t)"
      "upd_object p (\<lambda>con. con\<lparr>con_context := Some (reset c)\<rparr>) t = Some (Done s')" using s' by (auto simp: and_then_Done)
    show ?thesis by (rule upd_object_contexts [OF t(2) onRequest_contexts [OF t(1) c2]]) simp
  qed (use s' c2 in simp)
qed

text \<open>Then so does every step of a server whose message callback keeps the contexts.\<close>

definition message_keeps :: "('m \<Rightarrow> nat \<Rightarrow> chan \<Rightarrow> ('k, 'x) MultiServer \<Rightarrow> ('k, 'x) MultiServer or_abort option) \<Rightarrow> bool" where
  "message_keeps msg \<longleftrightarrow> (\<forall>m e p s s'. msg m e p s = Some (Done s') \<longrightarrow> contexts {} (ms_objects s) \<longrightarrow> contexts {} (ms_objects s'))"

lemma HandleRead_contexts:
  assumes "ms_HandleRead env i e p hs evs s = Some (Done s')" and "contexts {} (ms_objects s)" and "message_keeps (env_message env)"
  shows "contexts {} (ms_objects s')"
proof -
  from assms(1) obtain o_evd con n b where p: "live_object s p = Some (o_evd, con)"
    and b: "Retrieve (input_buf con) (in_read i) = Some (Done (n, b))"
    by (auto simp: ms_HandleRead_def and_then_Done split: option.splits)
  let ?s1 = "hold p (s\<lparr>ms_objects := (ms_objects s)(p \<mapsto> (o_evd, con\<lparr>input_buf := b\<rparr>))\<rparr>)"
  let ?s2 = "hold p (s\<lparr>ms_objects := (ms_objects s)(p \<mapsto> (o_evd, con\<lparr>input_buf := b, con_status := CLOSING\<rparr>))\<rparr>)"
  have c: "contexts {} (ms_objects ?s1)" "contexts {} (ms_objects ?s2)"
    using assms(2) p by (auto simp: contexts_def live_object_def split: if_splits)
  show ?thesis
  proof (cases "0 < n")
    case True
    then obtain s1 where "env_message env (in_message i) e p ?s1 = Some (Done s1)" "ms_objects s' = ms_objects s1"
      using assms(1) p b by (auto simp: ms_HandleRead_def and_then_Done)
    then show ?thesis using assms(3) c(1) by (auto simp: message_keeps_def)
  next
    case False
    then obtain s1 where s1: "ms_closeConnect (env_ctl env) (env_write env) None e p ?s2 = Some (Done s1)" "ms_objects s' = ms_objects s1"
      using assms(1) p b by (auto simp: ms_HandleRead_def and_then_Done)
    from closeConnect_contexts [OF s1(1) c(2)] show ?thesis by (simp add: s1(2))
  qed
qed

lemma call_handler_contexts:
  assumes "call_handler env i e c h hs evs s = Some (Done s')" and "contexts {} (ms_objects s)"
    and "env_context env = Some x" and "message_keeps (env_message env)"
  shows "contexts {} (ms_objects s')"
proof (cases "c = env_acceptor env")
  case True
  show ?thesis
  proof (cases "h = HRead")
    case True
    then obtain s1 where s1: "acceptor_HandleRead (Some (ms_newConnect (env_ctl env) (env_write env) (Some x) (env_keep env) (in_self i)))
        (\<lambda>fd s. s) (in_accept i) s = Some (Done s1)" "ms_objects s' = ms_objects s1"
      using assms(1,3) \<open>c = env_acceptor env\<close> by (auto simp: call_handler_def and_then_Done)
    then obtain fd where "ms_newConnect (env_ctl env) (env_write env) (Some x) (env_keep env) (in_self i) fd s = Some (Done s1)"
      by (auto simp: acceptor_HandleRead_def split: or_abort.splits option.splits if_splits)
    from newConnect_contexts [OF this assms(2)] show ?thesis by (simp add: s1(2))
  qed (use assms True in \<open>auto simp: call_handler_def\<close>)
next
  case acc: False
  show ?thesis
  proof (cases "ms_objects s c")
    case None
    then show ?thesis using assms acc by (auto simp: call_handler_def)
  next
    case (Some o')
    show ?thesis
    proof (cases h)
      case HRead
      then have "ms_HandleRead env i e c hs evs s = Some (Done s')" using assms(1) acc Some by (simp add: call_handler_def)
      then show ?thesis by (rule HandleRead_contexts [OF _ assms(2,4)])
    next
      case HWrite
      then obtain s1 where s1: "on_object e c (conn_HandleWrite (env_ctl env) (in_send i)) s = Some (Done s1)" "ms_objects s' = ms_objects s1"
        using assms(1) acc Some by (auto simp: call_handler_def and_then_Done)
      from on_object_contexts [OF s1(1) assms(2) tcp_keeps_context(3)] show ?thesis by (simp add: s1(2))
    next
      case HError
      then show ?thesis using assms acc Some by (auto simp: call_handler_def split: if_splits)
    qed
  qed
qed

lemma loop_step_contexts:
  assumes "loop_step env e i s = Some (Done s')" and "contexts {} (ms_objects s)"
    and "env_context env = Some x" and "message_keeps (env_message env)"
  shows "contexts {} (ms_objects s')"
proof (cases "ms_at s e")
  case (InHandlers c hs evs)
  show ?thesis
  proof (cases hs)
    case Nil
    then show ?thesis using assms(1,2) InHandlers by (auto simp: loop_step_def)
  next
    case (Cons h hs')
    then have "call_handler env i e c h hs' evs (move_to e (InHandlers c hs' evs) s) = Some (Done s')" using assms(1) InHandlers by (simp add: loop_step_def)
    then show ?thesis by (rule call_handler_contexts [OF _ _ assms(3,4)]) (use assms(2) in simp)
  qed
next
  case (Calling fs)
  then show ?thesis using assms(1,2) run_pending_contexts
    by (cases fs) (auto simp: loop_step_def and_then_Done simp del: run_pending_simps)
next
  case (EofTail p hs evs)
  then show ?thesis using assms(1,2) by (auto simp: loop_step_def contexts_def live_object_def split: option.splits if_splits)
next
  case (InBatch evs)
  then show ?thesis using assms(1,2)
    by (cases evs) (auto simp: loop_step_def loop_event_def split: option.splits or_abort.splits)
qed (use assms(1,2) in \<open>auto simp: loop_step_def loop_select_def Let_def split_beta\<close>)

text \<open>Whatever the loops and the other threads do: steps of loops and calls from anywhere, without any condition on what the system calls
  return, as long as they are defined.\<close>

inductive ms_steps :: "('k, 'x, 'm) server_env \<Rightarrow> ('k, 'x) MultiServer \<Rightarrow> ('k, 'x) MultiServer \<Rightarrow> bool" for env s0 where
  steps_start: "ms_steps env s0 s0"
| steps_loop: "ms_steps env s0 s \<Longrightarrow> loop_step env e i s = Some (Done s') \<Longrightarrow> ms_steps env s0 s'"
| steps_send: "ms_steps env s0 s \<Longrightarrow> ms_Send (env_ctl env) (env_write env) cur p m r s = Some (Done s') \<Longrightarrow> ms_steps env s0 s'"
| steps_close: "ms_steps env s0 s \<Longrightarrow> ms_ForceClose (env_ctl env) (env_write env) cur p s = Some (Done s') \<Longrightarrow> ms_steps env s0 s'"

lemma reach_steps: "ms_reach tab base env fit s0 s \<Longrightarrow> ms_steps env s0 s"
  by (induction rule: ms_reach.induct) (blast intro: ms_steps.intros)+

lemma server_runs_steps:
  "server_runs tab base env fit s \<Longrightarrow>
    \<exists>lst loops a n s0 a'. ms_Start (env_ctl env) lst a (new_MultiServer loops n) = Done (s0, a') \<and> ms_steps env s0 s"
  unfolding server_runs_def using reach_steps by blast

lemma steps_contexts:
  assumes "env_context env = Some x" and "message_keeps (env_message env)"
  shows "ms_steps env s0 s \<Longrightarrow> contexts {} (ms_objects s0) \<Longrightarrow> contexts {} (ms_objects s)"
  by (induction rule: ms_steps.induct) (use loop_step_contexts [OF _ _ assms] Send_contexts ForceClose_contexts in blast)+

section \<open>The rest of a request\<close>

text \<open>What completes the request \<open>req\<close> for the parser \<open>x\<close>: all of it for a new parser, and for one that has read the request line
  and some of the headers, the others.\<close>

definition completes :: "HttpContext \<Rightarrow> HttpRequest \<Rightarrow> bytes \<Rightarrow> bytes \<Rightarrow> bool" where
  "completes x req rest bs \<longleftrightarrow>
     x = new_HttpContext \<and> request_bytes req rest bs \<or>
     state x = kExpectHeaders \<and> (\<exists>hs. bs = header_text hs @ rest \<and> (\<forall>h \<in> set hs. header_ok h) \<and>
       req = (request x)\<lparr>headers := add_headers (headers (request x)) hs\<rparr>)"

lemma completes_parses:
  assumes "buf_ok b" and "completes x req rest (content b)"
  shows "\<exists>b'. parseRequest x b = Some (True, \<lparr>state = kGotAll, request = req\<rparr>, b') \<and> content b' = rest"
proof (cases "x = new_HttpContext \<and> request_bytes req rest (content b)")
  case True
  then show ?thesis using request_parses [OF assms(1)] by blast
next
  case False
  then obtain hs where h: "state x = kExpectHeaders" "content b = header_text hs @ rest" "\<forall>h \<in> set hs. header_ok h"
    "req = (request x)\<lparr>headers := add_headers (headers (request x)) hs\<rparr>" using assms(2) by (auto simp: completes_def)
  from parse_loop_headers [OF assms(1) h(2,3,1), of True] show ?thesis by (auto simp: parseRequest_def h(4))
qed

section \<open>Properties\<close>

text \<open>The step of the running server that reads from a connection which is up.\<close>

lemma http_step:
  assumes run: "server_runs tab base (http_env ctl wr acc http_callback) (http_fit http_callback) s"
    and at: "ms_at s 0 = InHandlers p (HRead # hs) evs" and p: "ms_objects s p = Some (0, con)" and x: "con_context con = Some x"
    and d: "in_read i = Readv_data d" "d \<noteq> []" "int (length d) \<le> readv_capacity (input_buf con)" "has_room (input_buf con) (length d)"
    and parse: "\<forall>b. buf_ok b \<longrightarrow> content b = content (input_buf con) @ d \<longrightarrow> (\<exists>b'. parseRequest x b = Some (ok, x', b') \<and> rest_ok b')"
    and refused: "\<not> ok \<longrightarrow> hs = [] \<and> has_room (output_buf con) (length bad_request) \<and> sendable (fst (in_message i))"
    and whole: "gotAll x' \<longrightarrow> (let resp = http_callback (request x') (new_HttpResponse (wants_close (request x')))
      in length (response_text resp) \<le> 2147480000 \<and> length (resp_body resp) < 10 ^ 13 \<and> has_room (output_buf con) (length (response_text resp)) \<and>
        sendable (snd (in_message i)) \<and> (resp_closeConnection resp \<longrightarrow> hs = []))"
  shows "\<exists>s' con'. loop_step (http_env ctl wr acc http_callback) 0 i s = Some (Done s') \<and>
    server_runs tab base (http_env ctl wr acc http_callback) (http_fit http_callback) s' \<and> ms_objects s' p = Some (0, con') \<and> con_id con' = con_id con \<and>
    con_context con' = Some (if gotAll x' then new_HttpContext else x') \<and> rest_ok (input_buf con') \<and>
    ms_wire s' p @ content (output_buf con') = ms_wire s p @ content (output_buf con) @ reply http_callback ok x' \<and>
    (if reply_closes http_callback ok x' then ended 0 p con s con' s'
     else con_status con' = CONNECTED \<and> ms_connections s' = ms_connections s \<and> ms_connections s' (con_id con') = Some p)"
proof -
  let ?env = "http_env ctl wr acc http_callback"
  have env: "env_ctl ?env = ctl" "env_write ?env = wr" "env_acceptor ?env = acc" "env_message ?env = server_onMessage ctl wr http_callback" "\<not> env_keep ?env"
    by (simp_all add: http_env_def)
  have fit: "http_fit http_callback (in_message i) (may_close s 0 hs)
      \<lparr>cs_evd = ms_loops s 0, cs_con = con\<lparr>input_buf := b\<rparr>, cs_wire = ms_wire s p, cs_closed = []\<rparr>"
    if b: "buf_ok b" "content b = content (input_buf con) @ d" for b
  proof -
    obtain b' where "parseRequest x b = Some (ok, x', b')" using parse b by blast
    then show ?thesis using refused whole x by (auto simp: http_fit_def fits_reply_def may_close_def Let_def)
  qed
  have ctl: "ctl_ok ctl tab" using run env by (simp add: server_runs_def)
  note inv = server_runs_inv [OF run]
  have up: "con_status con = CONNECTED" using inv_at [OF inv, of 0] at p by (auto simp: at_ok_def)
  note o = inv_obj [OF inv p, unfolded obj_ok_def]
  have b0: "buf_ok (input_buf con)" using o by blast
  from Retrieve_ok [OF b0 d(4,3)] obtain b where b: "Retrieve (input_buf con) (Readv_data d) = Some (Done (length d, b))" "buf_ok b"
    "content b = content (input_buf con) @ d" by blast
  from parse b(2,3) obtain b' where b': "parseRequest x b = Some (ok, x', b')" "rest_ok b'" by blast
  let ?con = "con\<lparr>input_buf := b\<rparr>" and ?s0 = "move_to 0 (InHandlers p hs evs) s"
  let ?s1 = "hold p (?s0\<lparr>ms_objects := (ms_objects s)(p \<mapsto> (0, ?con))\<rparr>)"
  have p0: "ms_objects ?s0 p = Some (0, con)" using p by simp
  have inv1: "ms_inv tab base ?env ?s1" using inv_hold [OF inv_same_con [OF inv_next_handler [OF inv at] p0, of ?con]] b(2) by simp
  have fit1: "http_fit http_callback (in_message i) (may_close ?s1 0 hs) \<lparr>cs_evd = ms_loops ?s1 0, cs_con = ?con, cs_wire = ms_wire ?s1 p, cs_closed = []\<rparr>"
    using fit [OF b(2,3)] by simp
  have s1: "ms_at ?s1 0 = InHandlers p hs evs" "ms_objects ?s1 p = Some (0, ?con)" "con_status ?con = CONNECTED" "p \<in> set (ms_held ?s1)"
    "con_context ?con = Some x" "parseRequest x (input_buf ?con) = Some (ok, x', b')" using up x b'(1) by simp_all
  from server_message [OF ctl env(1,2) inv1 s1(1-4) fit1 s1(5,6)] obtain s2 con2 where
    s2: "server_onMessage ctl wr http_callback (in_message i) 0 p ?s1 = Some (Done s2)" "ms_objects s2 p = Some (0, con2)"
    and c2: "con_id con2 = con_id con" "con_context con2 = Some (if gotAll x' then new_HttpContext else x')" "input_buf con2 = b'"
    "ms_wire s2 p @ content (output_buf con2) = ms_wire s p @ content (output_buf con) @ reply http_callback ok x'"
    "if reply_closes http_callback ok x' then ended 0 p ?con ?s1 con2 s2 else con_status con2 = CONNECTED \<and> ms_connections s2 = ms_connections s" by auto
  have tab: "ms_connections s (con_id con) = Some p" and acc: "p \<noteq> acc" using o up env(3) by simp_all
  have "live_object ?s0 p = Some (0, con)" using p tab by (simp add: live_object_def alive_def)
  then have st: "loop_step ?env 0 i s = Some (Done (unhold p s2))"
    using at p d(1,2) b(1) acc env s2(1) by (simp add: loop_step_def call_handler_def ms_HandleRead_def)
  have "input_ok tab base ?env (http_fit http_callback) 0 i s" "\<not> hazard ?env 0 i s"
    using at p d fit acc env(3) by (auto simp: input_ok_def hazard_def)
  from server_runs_step [OF run this st] show ?thesis
    using st s2(2) c2 b'(2) tab by (intro exI [of _ "unhold p s2"] exI [of _ con2]) (simp add: ended_def split: if_splits)
qed

lemma demo_bufs: "input_buf (demo_con ctx) = new_IoBuffer kInitialSize" "output_buf (demo_con ctx) = new_IoBuffer kInitialSize" "con_context (demo_con ctx) = ctx"
  by (simp_all add: demo_con_def new_Connection_def)

lemma demo_http_runs:
  "server_runs (\<lambda>k. k) demo_base (http_env demo_ctl (\<lambda>_. 8) 0 http_callback) (http_fit http_callback)
     (demo_alone (Some new_HttpContext) False (InHandlers 5 [HRead] []))"
proof -
  have "demo_env_with (server_onMessage demo_ctl (\<lambda>_. 8) http_callback) (Some new_HttpContext) False = http_env demo_ctl (\<lambda>_. 8) 0 http_callback"
    by (simp add: demo_env_with_def http_env_def)
  from demo_to_alone [where ctx = "Some new_HttpContext", OF http.message_callback_axioms [where http_callback = http_callback], unfolded this] show ?thesis .
qed

text \<open>C8: the running HTTP server answers. In every state the started server can reach outside the hazards of \<^theory_text>\<open>Multi_Safety\<close>, when the loop
  reads the rest of a request, all of it or the headers that are still missing, and the response of the callback to it leaves the connection open,
  fits into the output buffer and meets no broken connection, the step runs without fault; behind all that was sent before, the bytes of the
  response to exactly that request are with the peer or queued for it; the bytes behind the request stay in the input, the parser is new, and
  the connection is up and in the table, in a state the server can reach.\<close>

theorem http_server_answers:
  assumes "server_runs tab base (http_env ctl wr acc http_callback) (http_fit http_callback) s"
    and "ms_at s 0 = InHandlers p (HRead # hs) evs" and "ms_objects s p = Some (0, con)" and "con_context con = Some x"
    and "in_read i = Readv_data d" and "d \<noteq> []" and "int (length d) \<le> readv_capacity (input_buf con)" and "has_room (input_buf con) (length d)"
    and "completes x req rest (content (input_buf con) @ d)" and "resp = http_callback req (new_HttpResponse (wants_close req))"
    and "\<not> resp_closeConnection resp" and "length (response_text resp) \<le> 2147480000" and "length (resp_body resp) < 10 ^ 13"
    and "has_room (output_buf con) (length (response_text resp))" and "sendable (snd (in_message i))"
  shows "\<exists>s' con'. loop_step (http_env ctl wr acc http_callback) 0 i s = Some (Done s') \<and> ms_objects s' p = Some (0, con') \<and>
    ms_wire s' p @ content (output_buf con') = ms_wire s p @ content (output_buf con) @ response_text resp \<and>
    content (input_buf con') = rest \<and> con_context con' = Some new_HttpContext \<and> con_status con' = CONNECTED \<and>
    ms_connections s' = ms_connections s \<and> ms_connections s' (con_id con') = Some p \<and>
    server_runs tab base (http_env ctl wr acc http_callback) (http_fit http_callback) s'"
proof -
  let ?x = "\<lparr>state = kGotAll, request = req\<rparr>"
  have parse: "\<forall>b. buf_ok b \<longrightarrow> content b = content (input_buf con) @ d \<longrightarrow>
      (\<exists>b'. parseRequest x b = Some (True, ?x, b') \<and> content b' = rest)"
    using completes_parses [of _ x req rest] assms(9) by metis
  have "reply http_callback True ?x = response_text resp" "\<not> reply_closes http_callback True ?x" "gotAll ?x"
    using assms(10,11) by (simp_all add: reply_def reply_closes_def gotAll_def)
  with http_step [where rest_ok = "\<lambda>b. content b = rest" and i = i and ok = True and x' = ?x, OF assms(1-8) parse] show ?thesis
    using assms(10-15) by (simp add: Let_def) blast
qed

theorem http_server_answers_witness:
  "\<exists>s' con'. loop_step (http_env demo_ctl (\<lambda>_. 8) 0 demo_callback) 0
       ((demo_input (Sent 0, Sent 10))\<lparr>in_read := Readv_data (request_line kGet ''/a'' [] kHttp11 @ kCRLF @ header_text [(''Host'', ''h'')] @ ''GET'')\<rparr>)
       (demo_alone (Some new_HttpContext) False (InHandlers 5 [HRead] [])) = Some (Done s') \<and>
     ms_objects s' 5 = Some (0, con') \<and>
     ms_wire s' 5 @ content (output_buf con') = response_text (demo_callback demo_request (new_HttpResponse False)) \<and> content (input_buf con') = ''GET''"
proof -
  let ?con = "demo_con (Some new_HttpContext)"
  let ?d = "request_line kGet ''/a'' [] kHttp11 @ kCRLF @ header_text [(''Host'', ''h'')] @ ''GET''"
  let ?i = "(demo_input (Sent 0, Sent 10))\<lparr>in_read := Readv_data ?d\<rparr>"
  let ?resp = "demo_callback demo_request (new_HttpResponse (wants_close demo_request))"
  have req: "completes new_HttpContext demo_request ''GET'' (content (input_buf ?con) @ ?d)"
    using demo_http_ok(2) by (simp add: completes_def request_waiting_def demo_http_def demo_bufs kInitialSize_def)
  have len: "length ?d = 31" by (simp add: request_line_def header_text_def header_line_def kCRLF_def versionString_def)
  have cap: "int (length ?d) \<le> readv_capacity (input_buf ?con)"
    unfolding len using WritableBytes_eq [of "input_buf ?con"] by (simp add: demo_bufs readv_capacity_def extrabuf_size_def kInitialSize_def)
  have c: "wants_close demo_request = False" by (simp add: wants_close_def demo_request_def getHeader_def add_headers_def)
  have l: "length (response_text (demo_callback demo_request (new_HttpResponse False))) < 100"
    "length (resp_body (demo_callback demo_request (new_HttpResponse False))) < 100"
    "\<not> resp_closeConnection (demo_callback demo_request (new_HttpResponse False))" by code_simp+
  from http_server_answers [OF demo_http_runs [where http_callback = demo_callback], of 5 "[]" "[]" ?con new_HttpContext ?i ?d demo_request "''GET''" ?resp]
  show ?thesis using req len cap l c by (auto simp: kInitialSize_def demo_input_def demo_bufs sendable_def)
qed

text \<open>What the server replies to and closes, when the parser is \<open>x\<close>.\<close>

definition closing_reply :: "(HttpRequest \<Rightarrow> HttpResponse \<Rightarrow> HttpResponse) \<Rightarrow> HttpContext \<Rightarrow> bytes \<Rightarrow> bytes \<Rightarrow> bool" where
  "closing_reply http_callback x bs t \<longleftrightarrow> x = new_HttpContext \<and> bad_bytes bs \<and> t = bad_request \<or>
     (\<exists>req rest resp. completes x req rest bs \<and> resp = http_callback req (new_HttpResponse (wants_close req)) \<and> resp_closeConnection resp \<and>
        t = response_text resp \<and> length t \<le> 2147480000 \<and> length (resp_body resp) < 10 ^ 13)"

text \<open>C9: the running HTTP server closes. In every state the started server can reach outside the hazards of \<^theory_text>\<open>Multi_Safety\<close>, when the last
  handler for the event reads what the server replies to and closes, a first line that is no request line or the rest of a request whose response
  closes, and the reply fits into the output buffer and meets no broken connection, the step runs without
  fault and the connection is over: its status is \<^verbatim>\<open>CLOSED\<close>, its descriptor closed, the table has no entry for it, neither the loop nor
  the kernel knows its descriptor, and the server goes on. What was sent and what is still in the output buffer are together all there was to send, the reply behind it;
  what is still in the output buffer is lost with the connection.\<close>

theorem http_server_closes:
  assumes "server_runs tab base (http_env ctl wr acc http_callback) (http_fit http_callback) s"
    and "ms_at s 0 = InHandlers p [HRead] evs" and "ms_objects s p = Some (0, con)" and "con_context con = Some x"
    and "in_read i = Readv_data d" and "d \<noteq> []" and "int (length d) \<le> readv_capacity (input_buf con)" and "has_room (input_buf con) (length d)"
    and "closing_reply http_callback x (content (input_buf con) @ d) t" and "has_room (output_buf con) (length t)"
    and "sendable (fst (in_message i))" and "sendable (snd (in_message i))"
  shows "\<exists>s' con'. loop_step (http_env ctl wr acc http_callback) 0 i s = Some (Done s') \<and> ms_objects s' p = Some (0, con') \<and> con_status con' = CLOSED \<and>
    ms_wire s' p @ content (output_buf con') = ms_wire s p @ content (output_buf con) @ t \<and>
    ms_closed s' = ms_closed s @ [ch_fd (con_chan con)] \<and> ms_connections s' (con_id con) = None \<and>
    channels (ms_loops s' 0) (ch_fd (con_chan con)) = None \<and> tab (kern (selector (ms_loops s' 0))) (ch_fd (con_chan con)) = None \<and>
    server_runs tab base (http_env ctl wr acc http_callback) (http_fit http_callback) s'"
proof -
  let ?bs = "content (input_buf con) @ d"
  have "\<exists>ok y. (\<forall>b. buf_ok b \<longrightarrow> content b = ?bs \<longrightarrow> (\<exists>b'. parseRequest x b = Some (ok, y, b'))) \<and>
    (\<not> ok \<longrightarrow> t = bad_request) \<and> reply_closes http_callback ok y \<and> reply http_callback ok y = t \<and>
    (gotAll y \<longrightarrow> (let resp = http_callback (request y) (new_HttpResponse (wants_close (request y)))
       in t = response_text resp \<and> length t \<le> 2147480000 \<and> length (resp_body resp) < 10 ^ 13))"
    using assms(9) unfolding closing_reply_def
  proof (elim disjE conjE exE)
    assume "x = new_HttpContext" "bad_bytes ?bs" "t = bad_request"
    with bad_bytes_parse [OF this(2)] show ?thesis by (auto simp: reply_def reply_closes_def intro!: exI [of _ False])
  next
    fix req rest resp
    assume "completes x req rest ?bs" "resp = http_callback req (new_HttpResponse (wants_close req))" "resp_closeConnection resp"
      "t = response_text resp" "length t \<le> 2147480000" "length (resp_body resp) < 10 ^ 13"
    moreover from completes_parses [of _ x req rest] this(1)
    have "\<exists>b'. parseRequest x b = Some (True, \<lparr>state = kGotAll, request = req\<rparr>, b')" if "buf_ok b" "content b = ?bs" for b
      using that by metis
    ultimately show ?thesis
      by (intro exI [of _ True] exI [of _ "\<lparr>state = kGotAll, request = req\<rparr>"]) (simp add: reply_def reply_closes_def gotAll_def Let_def)
  qed
  then obtain ok y where r: "\<forall>b. buf_ok b \<longrightarrow> content b = ?bs \<longrightarrow> (\<exists>b'. parseRequest x b = Some (ok, y, b') \<and> True)"
    "\<not> ok \<Longrightarrow> t = bad_request" "reply_closes http_callback ok y" "reply http_callback ok y = t"
    "gotAll y \<Longrightarrow> (let resp = http_callback (request y) (new_HttpResponse (wants_close (request y)))
       in t = response_text resp \<and> length t \<le> 2147480000 \<and> length (resp_body resp) < 10 ^ 13)" by blast
  have f: "\<not> ok \<longrightarrow> ([] :: handler list) = [] \<and> has_room (output_buf con) (length bad_request) \<and> sendable (fst (in_message i))"
    "gotAll y \<longrightarrow> (let resp = http_callback (request y) (new_HttpResponse (wants_close (request y)))
      in length (response_text resp) \<le> 2147480000 \<and> length (resp_body resp) < 10 ^ 13 \<and> has_room (output_buf con) (length (response_text resp)) \<and>
        sendable (snd (in_message i)) \<and> (resp_closeConnection resp \<longrightarrow> ([] :: handler list) = []))"
    using r(2,5) assms(10-12) by (auto simp: Let_def)
  from http_step [where rest_ok = "\<lambda>_. True" and i = i and ok = ok and x' = y, OF assms(1-8) r(1) f] r(3,4) obtain s' con' where
    s': "loop_step (http_env ctl wr acc http_callback) 0 i s = Some (Done s')" "ms_objects s' p = Some (0, con')"
    "server_runs tab base (http_env ctl wr acc http_callback) (http_fit http_callback) s'" "ended 0 p con s con' s'"
    "ms_wire s' p @ content (output_buf con') = ms_wire s p @ content (output_buf con) @ t" by auto
  have "in_sync tab (ms_loops s' 0) (conns_on base (ms_objects s') 0)" by (rule inv_sync [OF server_runs_inv [OF s'(3)]])
  moreover have "channels (ms_loops s' 0) (ch_fd (con_chan con)) = None" using s'(4) by (simp add: ended_def)
  ultimately have "tab (kern (selector (ms_loops s' 0))) (ch_fd (con_chan con)) = None" by (simp add: in_sync_def)
  then show ?thesis using s' by (auto simp: ended_def)
qed

theorem http_server_closes_witness:
  "\<exists>s' con'. loop_step (http_env demo_ctl (\<lambda>_. 8) 0 demo_callback) 0
       ((demo_input (Sent 28, Sent 0))\<lparr>in_read := Readv_data (''hello'' @ kCRLF)\<rparr>)
       (demo_alone (Some new_HttpContext) False (InHandlers 5 [HRead] [])) = Some (Done s') \<and>
     ms_objects s' 5 = Some (0, con') \<and> con_status con' = CLOSED \<and> ms_wire s' 5 @ content (output_buf con') = bad_request \<and> ms_closed s' = [9]"
proof -
  let ?con = "demo_con (Some new_HttpContext)"
  let ?d = "''hello'' @ kCRLF"
  let ?i = "(demo_input (Sent 28, Sent 0))\<lparr>in_read := Readv_data ?d\<rparr>"
  have "\<not> fst (processRequestLine new_HttpRequest ''hello'')" by (simp add: processRequestLine_def find_char_def)
  moreover have "CR \<notin> set ''hello''" by simp
  ultimately have "bad_bytes ?d" unfolding bad_bytes_def by (intro exI [of _ "''hello''"] exI [of _ "[]"]) simp
  then have bad: "closing_reply demo_callback new_HttpContext (content (input_buf ?con) @ ?d) bad_request"
    by (simp add: closing_reply_def demo_bufs kInitialSize_def)
  have len: "length ?d = 7" "length bad_request = 28" by (simp_all add: kCRLF_def bad_request_def)
  have cap: "int (length ?d) \<le> readv_capacity (input_buf ?con)"
    unfolding len using WritableBytes_eq [of "input_buf ?con"] by (simp add: demo_bufs readv_capacity_def extrabuf_size_def kInitialSize_def)
  have fd: "ch_fd (con_chan ?con) = 9" by (simp add: demo_con_def)
  from http_server_closes [OF demo_http_runs [where http_callback = demo_callback], of 5 "[]" ?con new_HttpContext ?i ?d bad_request]
  show ?thesis using bad len cap fd by (auto simp: kInitialSize_def demo_input_def demo_bufs sendable_def)
qed



end
