(* ===== verification/Io_Worker.thy ===== *)
theory Io_Worker
  imports Event_Dispatcher
begin

text \<open>
  The I/O workers of the TCP server (\<^verbatim>\<open>IoWorker\<close> in \<^verbatim>\<open>src/rpc/tcp/server_multi.cpp\<close>): a thread that creates a dispatcher,
  publishes it, runs its loop and deletes it, and the owner that asks for the dispatcher and, in the
  destructor, stops the loop and joins the thread. The steps of both interleave. The theory
  proves that the owner gets a dispatcher that is there, whatever the interleaving, and that the destructor does not get past
  \<^verbatim>\<open>Stop\<close>, which uses a descriptor that is not set. Were it set, the destructor would be safe exactly when the loop does not
  look at \<^verbatim>\<open>_stop\<close> between the two statements of \<^verbatim>\<open>EventDispatcher::Stop\<close>.
\<close>

section \<open>State\<close>

text \<open>The member \<^verbatim>\<open>_evd\<close>: not assigned, the dispatcher, or null.\<close>

datatype evd_ptr = Unassigned | Dispatcher | Null_evd

text \<open>Where the thread stands: the statements of \<^verbatim>\<open>threadFunc\<close>.\<close>

datatype worker_pc = W_New | W_Publish | W_Loop | W_Delete | W_Clear | W_Done

text \<open>Where the owner stands in the destructor: before it, between the two statements of \<^verbatim>\<open>Stop\<close>, in \<^verbatim>\<open>Join\<close>, behind it.\<close>

datatype owner_pc = O_Uses | O_Wakes | O_Joins | O_Gone

record 'k IoWorker =
  iw_evd :: evd_ptr
  iw_running :: bool
  iw_heap :: "'k EventDispatcher option"
  iw_worker :: worker_pc
  iw_owner :: owner_pc
  iw_got :: "evd_ptr list"

text \<open>\<open>iw_heap\<close> is the object \<^verbatim>\<open>threadFunc\<close> allocates, \<open>iw_got\<close> what the calls of \<^verbatim>\<open>GetEvd\<close> have returned.\<close>

definition new_IoWorker :: "'k IoWorker" where
  "new_IoWorker = \<lparr>iw_evd = Unassigned, iw_running = False, iw_heap = None, iw_worker = W_New, iw_owner = O_Uses, iw_got = []\<rparr>"

section \<open>Steps\<close>

text \<open>A step of the thread; \<open>d0\<close> is the dispatcher that \<^verbatim>\<open>new\<close> constructs. \<^verbatim>\<open>Start\<close> is taken round by round: it returns
  behind a round in which \<^verbatim>\<open>_stop\<close> is set. The destructor of the dispatcher calls \<^verbatim>\<open>Stop\<close>;
  that of its members, which own channels and descriptors only, is left out.\<close>

definition worker_step :: "(int \<Rightarrow> int) \<Rightarrow> 'k EventDispatcher \<Rightarrow> 'k IoWorker \<Rightarrow> 'k IoWorker or_abort option" where
  "worker_step wr d0 w =
     (case iw_worker w of
        W_New \<Rightarrow> Some (Done (w\<lparr>iw_heap := Some d0, iw_evd := Dispatcher, iw_worker := W_Publish\<rparr>))
      | W_Publish \<Rightarrow> Some (Done (w\<lparr>iw_running := True, iw_worker := W_Loop\<rparr>))
      | W_Loop \<Rightarrow>
          (case iw_heap w of
             None \<Rightarrow> None | Some d \<Rightarrow> Some (Done (if stop d then w\<lparr>iw_worker := W_Delete\<rparr> else w)))
      | W_Delete \<Rightarrow>
          (case iw_heap w of
             None \<Rightarrow> None
           | Some d \<Rightarrow>
               (case Stop wr d of
                  None \<Rightarrow> None | Some (_, Aborted) \<Rightarrow> Some Aborted
                | Some (_, Done _) \<Rightarrow> Some (Done (w\<lparr>iw_heap := None, iw_worker := W_Clear\<rparr>))))
      | W_Clear \<Rightarrow> Some (Done (w\<lparr>iw_evd := Null_evd, iw_worker := W_Done\<rparr>))
      | W_Done \<Rightarrow> Some (Done w))"

text \<open>One turn of the waiting loop of \<^verbatim>\<open>GetEvd\<close>.\<close>

definition GetEvd_step :: "'k IoWorker \<Rightarrow> 'k IoWorker" where
  "GetEvd_step w = (if iw_running w then w\<lparr>iw_got := iw_got w @ [iw_evd w]\<rparr> else w)"

text \<open>A step of the destructor: the first and the second statement of \<^verbatim>\<open>Stop\<close>, and \<^verbatim>\<open>Join\<close>, which waits for the thread.\<close>

definition destroy_step :: "(int \<Rightarrow> int) \<Rightarrow> 'k IoWorker \<Rightarrow> 'k IoWorker or_abort option" where
  "destroy_step wr w =
     (case iw_owner w of
        O_Uses \<Rightarrow>
          (if iw_evd w = Dispatcher
           then (case iw_heap w of
                   None \<Rightarrow> None | Some d \<Rightarrow> Some (Done (w\<lparr>iw_heap := Some (d\<lparr>stop := True\<rparr>), iw_owner := O_Wakes\<rparr>)))
           else None)
      | O_Wakes \<Rightarrow>
          (case iw_heap w of
             None \<Rightarrow> None
           | Some d \<Rightarrow> and_then (Wakeup wr d) (\<lambda>_. Some (Done (w\<lparr>iw_owner := O_Joins\<rparr>))))
      | O_Joins \<Rightarrow> Some (Done (if iw_worker w = W_Done then w\<lparr>iw_owner := O_Gone\<rparr> else w))
      | O_Gone \<Rightarrow> Some (Done w))"

datatype iw_event = IwThread | IwGet | IwDestroy

text \<open>\<^verbatim>\<open>GetEvd\<close> is not called any more once the destructor has begun.\<close>

definition iw_step :: "(int \<Rightarrow> int) \<Rightarrow> 'k EventDispatcher \<Rightarrow> iw_event \<Rightarrow> 'k IoWorker \<Rightarrow> 'k IoWorker or_abort option" where
  "iw_step wr d0 e w =
     (case e of
        IwThread \<Rightarrow> worker_step wr d0 w
      | IwGet \<Rightarrow> Some (Done (if iw_owner w = O_Uses then GetEvd_step w else w))
      | IwDestroy \<Rightarrow> destroy_step wr w)"

fun iw_run :: "(int \<Rightarrow> int) \<Rightarrow> 'k EventDispatcher \<Rightarrow> iw_event list \<Rightarrow> 'k IoWorker \<Rightarrow> 'k IoWorker or_abort option" where
  "iw_run wr d0 [] w = Some (Done w)"
| "iw_run wr d0 (e # es) w = and_then (iw_step wr d0 e w) (iw_run wr d0 es)"

section \<open>Lemmas\<close>

definition iw_inv :: "(nat \<rightharpoonup> int) \<Rightarrow> 'k IoWorker \<Rightarrow> bool" where
  "iw_inv fds w \<longleftrightarrow> set (iw_got w) \<subseteq> {Dispatcher} \<and> (iw_running w \<longleftrightarrow> iw_worker w \<notin> {W_New, W_Publish}) \<and>
     (iw_owner w = O_Gone \<longrightarrow> iw_worker w = W_Done) \<and> (iw_owner w = O_Wakes \<longrightarrow> iw_worker w \<in> {W_Publish, W_Loop}) \<and>
     (case iw_worker w of
        W_New \<Rightarrow> iw_evd w = Unassigned \<and> iw_heap w = None \<and> iw_owner w = O_Uses
      | W_Clear \<Rightarrow> iw_evd w = Dispatcher \<and> iw_heap w = None \<and> iw_owner w = O_Joins
      | W_Done \<Rightarrow> iw_evd w = Null_evd \<and> iw_heap w = None \<and> iw_owner w \<in> {O_Joins, O_Gone}
      | _ \<Rightarrow> iw_evd w = Dispatcher \<and> (\<exists>d. iw_heap w = Some d \<and> wakeup_fds d = fds \<and> (stop d \<longleftrightarrow> iw_owner w \<noteq> O_Uses) \<and>
               (iw_worker w = W_Delete \<longrightarrow> iw_owner w = O_Joins)))"

text \<open>A schedule that keeps the thread from running between the two statements of \<^verbatim>\<open>Stop\<close> and does not destroy the
  object before the thread has created its dispatcher.\<close>

fun orderly :: "(int \<Rightarrow> int) \<Rightarrow> 'k EventDispatcher \<Rightarrow> iw_event list \<Rightarrow> 'k IoWorker \<Rightarrow> bool" where
  "orderly wr d0 [] w \<longleftrightarrow> True"
| "orderly wr d0 (e # es) w \<longleftrightarrow>
     (e = IwThread \<longrightarrow> iw_owner w \<noteq> O_Wakes) \<and> (e = IwDestroy \<longrightarrow> iw_worker w \<noteq> W_New) \<and>
     (case iw_step wr d0 e w of Some (Done w) \<Rightarrow> orderly wr d0 es w | _ \<Rightarrow> True)"

text \<open>A dispatcher that can be woken up. One that is constructed cannot.\<close>

definition wakes :: "(int \<Rightarrow> int) \<Rightarrow> 'k EventDispatcher \<Rightarrow> bool" where
  "wakes wr d \<longleftrightarrow> (\<exists>fd. wakeup_fds d 0 = Some fd \<and> wr fd = 8)"

lemma worker_step_inv:
  assumes "iw_inv (wakeup_fds d0) w" and "wakes wr d0" and "\<not> stop d0" and "iw_owner w \<noteq> O_Wakes"
  shows "\<exists>w'. worker_step wr d0 w = Some (Done w') \<and> iw_inv (wakeup_fds d0) w' \<and> iw_owner w' = iw_owner w \<and> iw_got w' = iw_got w"
proof (cases "iw_worker w")
  case W_Delete
  then obtain d fd where "iw_heap w = Some d" "wakeup_fds d = wakeup_fds d0" "wakeup_fds d0 0 = Some fd" "wr fd = 8"
    using assms(1,2) by (auto simp: iw_inv_def wakes_def)
  then show ?thesis using assms(1) W_Delete by (auto simp: worker_step_def Stop_def Wakeup_def iw_inv_def)
next
  case W_Loop
  then show ?thesis using assms by (cases "iw_owner w") (auto simp: worker_step_def iw_inv_def)
qed (use assms in \<open>auto simp: worker_step_def iw_inv_def\<close>)

lemma destroy_step_inv:
  assumes "iw_inv fds w" and "\<exists>fd. fds 0 = Some fd \<and> wr fd = 8" and "iw_worker w \<noteq> W_New"
  shows "\<exists>w'. destroy_step wr w = Some (Done w') \<and> iw_inv fds w'"
proof (cases "iw_owner w")
  case O_Uses
  then show ?thesis using assms by (cases "iw_worker w") (auto simp: destroy_step_def iw_inv_def)
next
  case O_Wakes
  then show ?thesis using assms by (cases "iw_worker w") (auto simp: destroy_step_def iw_inv_def Wakeup_def)
next
  case O_Joins
  then show ?thesis using assms by (cases "iw_worker w") (auto simp: destroy_step_def iw_inv_def)
next
  case O_Gone
  then show ?thesis using assms by (auto simp: destroy_step_def)
qed

lemma get_step_inv: "iw_inv fds w \<Longrightarrow> iw_owner w = O_Uses \<Longrightarrow> iw_inv fds (GetEvd_step w)"
  by (cases "iw_worker w") (auto simp: iw_inv_def GetEvd_step_def)

lemma iw_run_inv:
  assumes "iw_inv (wakeup_fds d0) w" and "wakes wr d0" and "\<not> stop d0" and "orderly wr d0 es w"
  shows "\<exists>w'. iw_run wr d0 es w = Some (Done w') \<and> iw_inv (wakeup_fds d0) w'"
  using assms(1,4)
proof (induction es arbitrary: w)
  case (Cons e es)
  have "\<exists>w'. iw_step wr d0 e w = Some (Done w') \<and> iw_inv (wakeup_fds d0) w'"
  proof (cases e)
    case IwThread
    then show ?thesis using worker_step_inv [OF Cons.prems(1) assms(2,3)] Cons.prems(2) by (auto simp: iw_step_def)
  next
    case IwGet
    then show ?thesis using get_step_inv [OF Cons.prems(1)] Cons.prems(1) by (simp add: iw_step_def)
  next
    case IwDestroy
    then show ?thesis using destroy_step_inv [OF Cons.prems(1), of wr] assms(2) Cons.prems(2) by (auto simp: iw_step_def wakes_def)
  qed
  then show ?case using Cons.IH Cons.prems(2) by auto
qed simp

lemma new_IoWorker_inv: "iw_inv fds new_IoWorker"
  by (simp add: iw_inv_def new_IoWorker_def)

text \<open>The steps before the destructor, whatever the dispatcher.\<close>

definition iw_serving :: "'k EventDispatcher \<Rightarrow> 'k IoWorker \<Rightarrow> bool" where
  "iw_serving d0 w \<longleftrightarrow> iw_owner w = O_Uses \<and> set (iw_got w) \<subseteq> {Dispatcher} \<and>
     (case iw_worker w of
        W_New \<Rightarrow> \<not> iw_running w
      | W_Publish \<Rightarrow> \<not> iw_running w \<and> iw_evd w = Dispatcher \<and> iw_heap w = Some d0
      | W_Loop \<Rightarrow> iw_evd w = Dispatcher \<and> iw_heap w = Some d0
      | _ \<Rightarrow> False)"

lemma iw_serving_step:
  assumes "iw_serving d0 w" and "\<not> stop d0" and "e \<noteq> IwDestroy"
  shows "\<exists>w'. iw_step wr d0 e w = Some (Done w') \<and> iw_serving d0 w'"
  using assms by (cases e; cases "iw_worker w") (auto simp: iw_step_def worker_step_def GetEvd_step_def iw_serving_def)

lemma iw_serving_run:
  assumes "iw_serving d0 w" and "\<not> stop d0" and "IwDestroy \<notin> set es"
  shows "\<exists>w'. iw_run wr d0 es w = Some (Done w') \<and> iw_serving d0 w'"
  using assms(1,3)
proof (induction es arbitrary: w)
  case (Cons e es)
  then show ?case using iw_serving_step [OF Cons.prems(1) assms(2), of e wr] by auto
qed simp

text \<open>A dispatcher that cannot be woken up stays one, and keeps the owner in the destructor.\<close>

definition iw_deaf :: "'k IoWorker \<Rightarrow> bool" where
  "iw_deaf w \<longleftrightarrow> iw_owner w \<in> {O_Uses, O_Wakes} \<and> (\<forall>d. iw_heap w = Some d \<longrightarrow> wakeup_fds d 0 = None)"

lemma iw_deaf_step: "iw_deaf w \<Longrightarrow> wakeup_fds d0 0 = None \<Longrightarrow> iw_step wr d0 e w = Some (Done w') \<Longrightarrow> iw_deaf w'"
  by (cases e)
    (auto simp: iw_step_def worker_step_def GetEvd_step_def destroy_step_def iw_deaf_def Stop_def Wakeup_def Let_def
      split: worker_pc.splits owner_pc.splits option.splits or_abort.splits if_splits)

lemma iw_deaf_run: "iw_deaf w \<Longrightarrow> wakeup_fds d0 0 = None \<Longrightarrow> iw_run wr d0 es w = Some (Done w') \<Longrightarrow> iw_deaf w'"
  by (induction es arbitrary: w) (auto simp: and_then_def split: option.splits or_abort.splits dest: iw_deaf_step)

section \<open>Properties\<close>

text \<open>C15: a worker hands over a dispatcher that is there, and cannot be destroyed. With a dispatcher as its constructor leaves it, and under
  every interleaving of the thread with calls of \<^verbatim>\<open>GetEvd\<close>: nothing is undefined and nothing aborts before the destructor,
  \<^verbatim>\<open>GetEvd\<close> has returned only the dispatcher, and from the moment its loop can end it returns the dispatcher, which
  exists and has not been stopped. But under no interleaving with the destructor does that get behind the call of \<^verbatim>\<open>Stop\<close>: its second
  statement writes to \<^verbatim>\<open>_wakeup_fds[0]\<close>, which is not set.\<close>

theorem io_worker_safe:
  assumes "d0 = new_EventDispatcher sel wfd"
  shows "(IwDestroy \<notin> set es \<longrightarrow> (\<exists>w. iw_run wr d0 es new_IoWorker = Some (Done w) \<and> set (iw_got w) \<subseteq> {Dispatcher} \<and>
       (iw_running w \<longrightarrow> iw_got (GetEvd_step w) = iw_got w @ [Dispatcher] \<and> iw_heap w = Some d0 \<and> \<not> stop d0))) \<and>
    (\<forall>w. iw_run wr d0 es new_IoWorker = Some (Done w) \<longrightarrow> iw_owner w \<in> {O_Uses, O_Wakes})"
proof (intro conjI allI impI)
  have d0: "\<not> stop d0" "wakeup_fds d0 0 = None" by (simp_all add: assms new_EventDispatcher_def)
  have "iw_serving d0 new_IoWorker" "iw_deaf new_IoWorker" by (simp_all add: iw_serving_def iw_deaf_def new_IoWorker_def)
  note i = this
  show "\<exists>w. iw_run wr d0 es new_IoWorker = Some (Done w) \<and> set (iw_got w) \<subseteq> {Dispatcher} \<and>
      (iw_running w \<longrightarrow> iw_got (GetEvd_step w) = iw_got w @ [Dispatcher] \<and> iw_heap w = Some d0 \<and> \<not> stop d0)" if "IwDestroy \<notin> set es"
    using iw_serving_run [OF i(1) d0(1) that, of wr] d0(1)
    by (fastforce simp: iw_serving_def GetEvd_step_def split: worker_pc.splits)
  show "iw_owner w \<in> {O_Uses, O_Wakes}" if "iw_run wr d0 es new_IoWorker = Some (Done w)" for w
    using iw_deaf_run [OF i(2) d0(2) that] by (simp add: iw_deaf_def)
qed

theorem io_worker_safe_witness:
  "\<exists>w. iw_run (\<lambda>_. 8) demo_evd [IwGet, IwThread, IwThread, IwGet] new_IoWorker = Some (Done w) \<and> iw_got w = [Dispatcher] \<and>
     iw_got (GetEvd_step w) = [Dispatcher, Dispatcher] \<and>
     \<not> (\<exists>w'. iw_run (\<lambda>_. 8) demo_evd [IwThread, IwThread, IwDestroy, IwDestroy] new_IoWorker = Some (Done w') \<and> iw_owner w' = O_Joins)"
proof -
  let ?es = "[IwGet, IwThread, IwThread, IwGet]"
  note d = iw_step_def worker_step_def GetEvd_step_def new_IoWorker_def
  have r: "\<exists>w. iw_run (\<lambda>_. 8) demo_evd ?es new_IoWorker = Some (Done w) \<and> iw_got w = [Dispatcher] \<and> iw_running w"
    by (simp add: d demo_evd_def new_EventDispatcher_def)
  have s: "demo_evd = new_EventDispatcher \<lparr>kern = Map.empty, ev_cap = 10\<rparr> 4" by (simp add: demo_evd_def)
  show ?thesis
    using io_worker_safe [OF s, of ?es "\<lambda>_. 8"] io_worker_safe [OF s, of "[IwThread, IwThread, IwDestroy, IwDestroy]" "\<lambda>_. 8"] r by fastforce
qed

text \<open>Were the descriptor set, workers would be handed over and destroyed safely, in every schedule in which the thread does not run between the two
  statements of \<^verbatim>\<open>Stop\<close> and that begins the destruction once the dispatcher exists: nothing is undefined and nothing
  aborts; \<^verbatim>\<open>GetEvd\<close> returns only the dispatcher, and while the owner uses the worker that object exists from then on;
  and when the destructor is through, the thread has returned and has deleted the dispatcher.\<close>

theorem io_worker_stops_if_woken:
  assumes "wakes wr d0" and "\<not> stop d0" and "orderly wr d0 es new_IoWorker"
  shows "\<exists>w. iw_run wr d0 es new_IoWorker = Some (Done w) \<and> set (iw_got w) \<subseteq> {Dispatcher} \<and>
    (iw_running w \<and> iw_owner w = O_Uses \<longrightarrow> iw_evd w = Dispatcher \<and> (\<exists>d. iw_heap w = Some d \<and> \<not> stop d)) \<and>
    (iw_owner w = O_Gone \<longrightarrow> iw_worker w = W_Done \<and> iw_heap w = None)"
proof -
  from iw_run_inv [OF new_IoWorker_inv assms] obtain w where
    w: "iw_run wr d0 es new_IoWorker = Some (Done w)" "iw_inv (wakeup_fds d0) w" by blast
  then show ?thesis by (cases "iw_worker w") (auto simp: iw_inv_def)
qed

definition demo_iw_evd :: "(int \<rightharpoonup> int) EventDispatcher" where
  "demo_iw_evd = \<lparr>stop = False, selector = \<lparr>kern = Map.empty, ev_cap = 10\<rparr>, channels = Map.empty, wakeup_fds = [0 \<mapsto> 4]\<rparr>"

theorem io_worker_stops_if_woken_witness:
  "\<exists>w. iw_run (\<lambda>_. 8) demo_iw_evd [IwGet, IwThread, IwThread, IwGet, IwDestroy, IwDestroy, IwThread, IwThread, IwThread, IwDestroy] new_IoWorker = Some (Done w) \<and>
     iw_owner w = O_Gone \<and> iw_got w = [Dispatcher] \<and> iw_heap w = None"
proof -
  let ?es = "[IwGet, IwThread, IwThread, IwGet, IwDestroy, IwDestroy, IwThread, IwThread, IwThread, IwDestroy]"
  note d = iw_step_def worker_step_def GetEvd_step_def destroy_step_def new_IoWorker_def demo_iw_evd_def Wakeup_def Stop_def
  have "orderly (\<lambda>_. 8) demo_iw_evd ?es new_IoWorker" by (simp add: d)
  moreover have "wakes (\<lambda>_. 8) demo_iw_evd" "\<not> stop demo_iw_evd" by (simp_all add: wakes_def demo_iw_evd_def)
  ultimately have "\<exists>w. iw_run (\<lambda>_. 8) demo_iw_evd ?es new_IoWorker = Some (Done w) \<and> (iw_owner w = O_Gone \<longrightarrow> iw_worker w = W_Done \<and> iw_heap w = None)"
    using io_worker_stops_if_woken [of "\<lambda>_. 8" demo_iw_evd ?es] by blast
  moreover have "\<exists>w. iw_run (\<lambda>_. 8) demo_iw_evd ?es new_IoWorker = Some (Done w) \<and> iw_owner w = O_Gone \<and> iw_got w = [Dispatcher]" by (simp add: d)
  ultimately show ?thesis by auto
qed

text \<open>Even then destroying a worker can use its dispatcher after deletion. When the thread sees \<^verbatim>\<open>_stop\<close> before the owner has called
  \<^verbatim>\<open>Wakeup\<close>, it leaves its loop and deletes the dispatcher, on which the owner then calls \<^verbatim>\<open>Wakeup\<close>; and a worker
  destroyed before its thread has created the dispatcher is stopped through a pointer that was never assigned. The first
  happens even when wake-ups work, and whatever was called before the destructor.\<close>

theorem io_worker_destructor_races:
  assumes "wakes wr d0" and "\<not> stop d0" and "\<forall>e \<in> set es. e = IwGet"
  shows "iw_run wr d0 ([IwThread, IwThread] @ es @ [IwDestroy, IwThread, IwThread, IwDestroy]) new_IoWorker = None \<and>
    iw_run wr d0 (es @ [IwDestroy]) new_IoWorker = None"
proof -
  have gets: "iw_run wr d0 (es @ es') w = iw_run wr d0 es' (w\<lparr>iw_got := iw_got w @ (if iw_running w then replicate (length es) (iw_evd w) else [])\<rparr>)"
    if "iw_owner w = O_Uses" for es' w
    using that assms(3)
    by (induction es arbitrary: w) (auto simp: iw_step_def GetEvd_step_def replicate_append_same)
  from assms(1) obtain fd where fd: "wakeup_fds d0 0 = Some fd" "wr fd = 8" by (auto simp: wakes_def)
  note d = iw_step_def worker_step_def destroy_step_def new_IoWorker_def Stop_def Wakeup_def
  show ?thesis using fd by (simp add: gets d)
qed

theorem io_worker_destructor_races_witness:
  "iw_run (\<lambda>_. 8) demo_iw_evd [IwThread, IwThread, IwGet, IwDestroy, IwThread, IwThread, IwDestroy] new_IoWorker = None"
  using io_worker_destructor_races [of "\<lambda>_. 8" demo_iw_evd "[IwGet]"] by (simp add: wakes_def demo_iw_evd_def)

end
