(* ===== verification/Thread_Pool.thy ===== *)
theory Thread_Pool
  imports Main
begin

text \<open>
  The thread pool (\<^verbatim>\<open>src/base/thread_pool.h\<close>, \<^verbatim>\<open>src/base/thread_pool.cpp\<close>): a bounded queue of tasks, worker
  threads, callers of \<^verbatim>\<open>addTask\<close> and the destructor, as a step relation. Every step is one critical
  section under the mutex, with the two condition variables explicit: a thread whose predicate is
  false goes to sleep, \<^verbatim>\<open>notify_one\<close> wakes one sleeper if there is one, and a sleeper may wake
  up for no reason. The theory proves that tasks are started once each and in order, that the queue
  keeps its bound, that nothing accepted is dropped at shutdown, and that no wake-up is lost.
\<close>

section \<open>State\<close>

text \<open>A worker in \<^verbatim>\<open>threadFunc\<close>: about to test the predicate, asleep on \<^verbatim>\<open>_readyCondition\<close>, running a
  task, or returned.\<close>

datatype 't worker = WAwake | WAsleep | WRunning 't | WReturned

text \<open>A call of \<^verbatim>\<open>addTask\<close>: about to test the predicate, asleep on \<^verbatim>\<open>_fullCondition\<close>, or returned, with the task
  queued or not.\<close>

datatype 't adder = ACall 't | AAsleep 't | AReturned bool

text \<open>The destructor: before, after setting \<^verbatim>\<open>_stop\<close>, after \<^verbatim>\<open>notify_all\<close>.\<close>

datatype dtor = DNone | DStopped | DNotified

record 't ThreadPool =
  tp_tasks :: "'t list"
  tp_stop :: bool
  tp_maxTaskSize :: nat
  tp_workers :: "'t worker list"
  tp_adders :: "nat \<rightharpoonup> 't adder"
  tp_dtor :: dtor
  tp_accepted :: "'t list"
  tp_started :: "'t list"

definition new_ThreadPool :: "nat \<Rightarrow> nat \<Rightarrow> (nat \<rightharpoonup> 't) \<Rightarrow> 't ThreadPool" where
  "new_ThreadPool kThreadNum taskSize calls =
     \<lparr>tp_tasks = [], tp_stop = False, tp_maxTaskSize = taskSize, tp_workers = replicate kThreadNum WAwake,
      tp_adders = (\<lambda>a. map_option ACall (calls a)), tp_dtor = DNone, tp_accepted = [], tp_started = []\<rparr>"

section \<open>Steps\<close>

text \<open>\<^verbatim>\<open>notify_one\<close> on either condition variable.\<close>

inductive notify_worker :: "'t worker list \<Rightarrow> 't worker list \<Rightarrow> bool" where
  wake: "i < length ws \<Longrightarrow> ws ! i = WAsleep \<Longrightarrow> notify_worker ws (ws[i := WAwake])"
| none: "WAsleep \<notin> set ws \<Longrightarrow> notify_worker ws ws"

inductive notify_adder :: "(nat \<rightharpoonup> 't adder) \<Rightarrow> (nat \<rightharpoonup> 't adder) \<Rightarrow> bool" where
  wake: "as a = Some (AAsleep t) \<Longrightarrow> notify_adder as (as(a \<mapsto> ACall t))"
| none: "\<forall>a t. as a \<noteq> Some (AAsleep t) \<Longrightarrow> notify_adder as as"

definition queue_full :: "'t ThreadPool \<Rightarrow> bool" where
  "queue_full p \<longleftrightarrow> tp_maxTaskSize p > 0 \<and> length (tp_tasks p) \<ge> tp_maxTaskSize p"

inductive tp_step :: "'t ThreadPool \<Rightarrow> 't ThreadPool \<Rightarrow> bool" where
  w_sleep: "i < length (tp_workers p) \<Longrightarrow> tp_workers p ! i = WAwake \<Longrightarrow> \<not> tp_stop p \<Longrightarrow> tp_tasks p = [] \<Longrightarrow>
    tp_step p (p\<lparr>tp_workers := (tp_workers p)[i := WAsleep]\<rparr>)"
| w_spurious: "i < length (tp_workers p) \<Longrightarrow> tp_workers p ! i = WAsleep \<Longrightarrow>
    tp_step p (p\<lparr>tp_workers := (tp_workers p)[i := WAwake]\<rparr>)"
| w_return: "i < length (tp_workers p) \<Longrightarrow> tp_workers p ! i = WAwake \<Longrightarrow> tp_stop p \<Longrightarrow> tp_tasks p = [] \<Longrightarrow>
    tp_step p (p\<lparr>tp_workers := (tp_workers p)[i := WReturned]\<rparr>)"
| w_take: "i < length (tp_workers p) \<Longrightarrow> tp_workers p ! i = WAwake \<Longrightarrow> tp_tasks p = t # ts \<Longrightarrow>
    (if tp_maxTaskSize p > 0 then notify_adder (tp_adders p) as else as = tp_adders p) \<Longrightarrow>
    tp_step p (p\<lparr>tp_workers := (tp_workers p)[i := WRunning t], tp_tasks := ts, tp_adders := as, tp_started := tp_started p @ [t]\<rparr>)"
| w_finish: "i < length (tp_workers p) \<Longrightarrow> tp_workers p ! i = WRunning t \<Longrightarrow>
    tp_step p (p\<lparr>tp_workers := (tp_workers p)[i := WAwake]\<rparr>)"
| a_sleep: "tp_adders p a = Some (ACall t) \<Longrightarrow> queue_full p \<Longrightarrow> \<not> tp_stop p \<Longrightarrow>
    tp_step p (p\<lparr>tp_adders := (tp_adders p)(a \<mapsto> AAsleep t)\<rparr>)"
| a_spurious: "tp_adders p a = Some (AAsleep t) \<Longrightarrow> tp_step p (p\<lparr>tp_adders := (tp_adders p)(a \<mapsto> ACall t)\<rparr>)"
| a_refused: "tp_adders p a = Some (ACall t) \<Longrightarrow> tp_stop p \<Longrightarrow>
    tp_step p (p\<lparr>tp_adders := (tp_adders p)(a \<mapsto> AReturned False)\<rparr>)"
| a_push: "tp_adders p a = Some (ACall t) \<Longrightarrow> \<not> queue_full p \<Longrightarrow> \<not> tp_stop p \<Longrightarrow> notify_worker (tp_workers p) ws \<Longrightarrow>
    tp_step p (p\<lparr>tp_adders := (tp_adders p)(a \<mapsto> AReturned True), tp_tasks := tp_tasks p @ [t],
      tp_accepted := tp_accepted p @ [t], tp_workers := ws\<rparr>)"
| d_stop: "tp_dtor p = DNone \<Longrightarrow> tp_step p (p\<lparr>tp_stop := True, tp_dtor := DStopped\<rparr>)"
| d_notify: "tp_dtor p = DStopped \<Longrightarrow>
    tp_step p (p\<lparr>tp_dtor := DNotified, tp_workers := map (\<lambda>w. if w = WAsleep then WAwake else w) (tp_workers p)\<rparr>)"

inductive tp_reach :: "'t ThreadPool \<Rightarrow> 't ThreadPool \<Rightarrow> bool" for p0 where
  start: "tp_reach p0 p0"
| step: "tp_reach p0 p \<Longrightarrow> tp_step p p' \<Longrightarrow> tp_reach p0 p'"

definition getTaskSize :: "'t ThreadPool \<Rightarrow> nat" where
  "getTaskSize p = length (tp_tasks p)"

section \<open>Invariant\<close>

definition pool_inv :: "'t ThreadPool \<Rightarrow> bool" where
  "pool_inv p \<longleftrightarrow> tp_accepted p = tp_started p @ tp_tasks p \<and>
     (tp_maxTaskSize p > 0 \<longrightarrow> length (tp_tasks p) \<le> tp_maxTaskSize p) \<and>
     (tp_stop p \<longleftrightarrow> tp_dtor p \<noteq> DNone) \<and>
     (WReturned \<in> set (tp_workers p) \<longrightarrow> tp_stop p \<and> tp_tasks p = []) \<and>
     (set (tp_workers p) = {WAsleep} \<longrightarrow> tp_tasks p = []) \<and>
     (tp_dtor p = DNotified \<longrightarrow> WAsleep \<notin> set (tp_workers p))"

lemma set_update_at: "i < length ws \<Longrightarrow> x \<in> set (ws[i := x]) \<and> set (ws[i := x]) \<subseteq> insert x (set ws)"
  by (simp add: set_update_memI set_update_subset_insert)

lemma notify_worker_props:
  "notify_worker ws ws' \<Longrightarrow> length ws' = length ws \<and> (WReturned \<in> set ws' \<longrightarrow> WReturned \<in> set ws) \<and> set ws' \<noteq> {WAsleep}"
proof (induction rule: notify_worker.induct)
  case (wake i ws)
  then show ?case using set_update_at [of i ws WAwake] by auto
next
  case (none ws)
  then show ?case by auto
qed

lemma tp_step_inv: "tp_step p p' \<Longrightarrow> pool_inv p \<Longrightarrow> pool_inv p'"
proof (induction rule: tp_step.induct)
  case (w_take i p t ts as)
  then show ?case using set_update_at [of i "tp_workers p" "WRunning t"] by (auto simp: pool_inv_def)
next
  case (a_push p a t ws)
  then show ?case using notify_worker_props [OF a_push(4)] by (auto simp: pool_inv_def queue_full_def)
next
  case (w_sleep i p)
  then show ?case using set_update_at [of i "tp_workers p" WAsleep] by (auto simp: pool_inv_def)
next
  case (w_return i p)
  then show ?case using set_update_at [of i "tp_workers p" WReturned] by (auto simp: pool_inv_def)
next
  case (w_spurious i p)
  then show ?case using set_update_at [of i "tp_workers p" WAwake] by (auto simp: pool_inv_def)
next
  case (w_finish i p t)
  then show ?case using set_update_at [of i "tp_workers p" WAwake] by (auto simp: pool_inv_def)
next
  case (d_notify p)
  then show ?case by (auto simp: pool_inv_def split: if_splits)
qed (auto simp: pool_inv_def)

lemma tp_step_workers: "tp_step p p' \<Longrightarrow> length (tp_workers p') = length (tp_workers p) \<and> tp_maxTaskSize p' = tp_maxTaskSize p"
  by (induction rule: tp_step.induct) (auto dest: notify_worker_props)

lemma tp_reach_inv:
  assumes "tp_reach (new_ThreadPool k n calls) p"
  shows "pool_inv p \<and> length (tp_workers p) = k \<and> tp_maxTaskSize p = n"
  using assms
proof (induction rule: tp_reach.induct)
  case start
  show ?case by (auto simp: pool_inv_def new_ThreadPool_def)
next
  case (step p p')
  then show ?case using tp_step_inv tp_step_workers by metis
qed

section \<open>Properties\<close>

text \<open>C19: in every reachable state of the pool the tasks accepted are, in order, those started and those
  queued, so each is started at most once and none overtakes another; a bounded queue never exceeds its
  bound; and once a worker has returned every accepted task has been started.\<close>

theorem pool_tasks_in_order:
  assumes "tp_reach (new_ThreadPool k n calls) p"
  shows "tp_accepted p = tp_started p @ tp_tasks p \<and> (n > 0 \<longrightarrow> getTaskSize p \<le> n) \<and>
    (WReturned \<in> set (tp_workers p) \<longrightarrow> tp_started p = tp_accepted p)"
  using tp_reach_inv [OF assms] by (auto simp: pool_inv_def getTaskSize_def)

theorem pool_tasks_in_order_witness:
  "\<exists>p. tp_reach (new_ThreadPool 1 1 [0 \<mapsto> (5::nat)]) p \<and> tp_tasks p = [5] \<and> tp_accepted p = tp_started p @ tp_tasks p"
proof -
  define p where "p = new_ThreadPool 1 1 [0 \<mapsto> (5::nat)]"
  define p' where "p' = p\<lparr>tp_adders := (tp_adders p)(0 \<mapsto> AReturned True), tp_tasks := tp_tasks p @ [5],
      tp_accepted := tp_accepted p @ [5], tp_workers := tp_workers p\<rparr>"
  have n: "notify_worker (tp_workers p) (tp_workers p)" by (rule notify_worker.none) (simp add: p_def new_ThreadPool_def)
  have c: "tp_adders p 0 = Some (ACall 5)" "\<not> queue_full p" "\<not> tp_stop p"
    by (simp_all add: p_def new_ThreadPool_def queue_full_def)
  have "tp_step p p'" unfolding p'_def by (fact tp_step.a_push [OF c n])
  then have r: "tp_reach p p'" by (rule tp_reach.step [OF tp_reach.start])
  have "tp_tasks p' = [5]" by (simp add: p'_def p_def new_ThreadPool_def)
  then show ?thesis using r pool_tasks_in_order [OF r [unfolded p_def]] unfolding p_def by blast
qed

text \<open>C33: no wake-up is lost. In a pool with at least one worker, whenever a task is queued some worker is awake
  or running a task, so it will be taken; and after the destructor's \<^verbatim>\<open>notify_all\<close> no worker is or goes
  to sleep, so every one of them comes to return and \<^verbatim>\<open>Join\<close> with it.\<close>

theorem pool_no_lost_wakeup:
  assumes "tp_reach (new_ThreadPool k n calls) p" and "0 < k"
  shows "(tp_tasks p \<noteq> [] \<longrightarrow> (\<exists>i < k. tp_workers p ! i = WAwake \<or> (\<exists>t. tp_workers p ! i = WRunning t))) \<and>
    (tp_dtor p = DNotified \<longrightarrow> WAsleep \<notin> set (tp_workers p))"
proof -
  have len: "length (tp_workers p) = k" and inv: "pool_inv p" using tp_reach_inv [OF assms(1)] by simp_all
  have "\<exists>i < k. tp_workers p ! i = WAwake \<or> (\<exists>t. tp_workers p ! i = WRunning t)" if t: "tp_tasks p \<noteq> []"
  proof -
    have "WReturned \<notin> set (tp_workers p)" "set (tp_workers p) \<noteq> {WAsleep}" using inv t by (simp_all add: pool_inv_def)
    moreover have "tp_workers p \<noteq> []" using len assms(2) by auto
    ultimately obtain w where "w \<in> set (tp_workers p)" "w \<noteq> WAsleep" "w \<noteq> WReturned"
      by (metis is_singletonI' is_singleton_the_elem set_empty singletonD singletonI)
    then obtain i where "i < k" "tp_workers p ! i = w" using len by (auto simp: in_set_conv_nth)
    then show ?thesis using \<open>w \<noteq> WAsleep\<close> \<open>w \<noteq> WReturned\<close> by (metis worker.exhaust)
  qed
  then show ?thesis using inv by (simp add: pool_inv_def)
qed

theorem pool_no_lost_wakeup_witness:
  "\<exists>p. tp_reach (new_ThreadPool 2 1 [0 \<mapsto> (5::nat)]) p \<and> tp_tasks p = [5] \<and> WAsleep \<in> set (tp_workers p) \<and>
     (\<exists>i < 2. tp_workers p ! i = WAwake \<or> (\<exists>t. tp_workers p ! i = WRunning t))"
proof -
  define p where "p = new_ThreadPool 2 1 [0 \<mapsto> (5::nat)]"
  define p1 where "p1 = p\<lparr>tp_workers := (tp_workers p)[0 := WAsleep]\<rparr>"
  define p2 where "p2 = p1\<lparr>tp_workers := (tp_workers p1)[1 := WAsleep]\<rparr>"
  define ws where "ws = (tp_workers p2)[0 := WAwake]"
  define p3 where "p3 = p2\<lparr>tp_adders := (tp_adders p2)(0 \<mapsto> AReturned True), tp_tasks := tp_tasks p2 @ [5],
      tp_accepted := tp_accepted p2 @ [5], tp_workers := ws\<rparr>"
  have w: "tp_workers p = [WAwake, WAwake]" "tp_workers p1 = [WAsleep, WAwake]" "tp_workers p2 = [WAsleep, WAsleep]" "ws = [WAwake, WAsleep]"
    by (simp_all add: ws_def p2_def p1_def p_def new_ThreadPool_def numeral_2_eq_2)
  have e: "tp_tasks p = []" "\<not> tp_stop p" "tp_tasks p1 = []" "\<not> tp_stop p1" "tp_adders p2 0 = Some (ACall 5)" "\<not> queue_full p2" "\<not> tp_stop p2"
    by (simp_all add: p2_def p1_def p_def new_ThreadPool_def queue_full_def)
  have "tp_step p p1" unfolding p1_def by (rule tp_step.w_sleep) (simp_all add: w e)
  moreover have "tp_step p1 p2" unfolding p2_def by (rule tp_step.w_sleep) (simp_all add: w e)
  moreover have "notify_worker (tp_workers p2) ws" unfolding ws_def by (rule notify_worker.wake) (simp_all add: w)
  then have "tp_step p2 p3" unfolding p3_def by (rule tp_step.a_push [OF e(5-7)])
  ultimately have r: "tp_reach p p3" by (blast intro: tp_reach.intros)
  have t: "tp_tasks p3 = [5]" "WAsleep \<in> set (tp_workers p3)" by (simp_all add: p3_def w) (simp add: p2_def p1_def p_def new_ThreadPool_def)
  have "\<exists>i < 2. tp_workers p3 ! i = WAwake \<or> (\<exists>t. tp_workers p3 ! i = WRunning t)"
    using pool_no_lost_wakeup [OF r [unfolded p_def]] t(1) by simp
  with r t show ?thesis unfolding p_def by blast
qed

end
