(* ===== verification/Any.thy ===== *)
theory Any
  imports Main "HOL-Library.Monad_Syntax"
begin

text \<open>
  The dynamically typed value \<^verbatim>\<open>Any\<close> (\<^verbatim>\<open>src/base/std/any.h\<close>), which holds the context of a connection. An object
  is a pointer to a heap-allocated holder; constructors allocate or clone, \<^verbatim>\<open>operator=\<close> swaps with a
  temporary, destructors delete. The heap is explicit: following or deleting a pointer that is
  not allocated is undefined. The theory proves that every sequence of operations refines plain values,
  with every holder owned by exactly one object: none is leaked, shared or deleted twice.
\<close>

section \<open>State\<close>

text \<open>\<open>holders\<close> are the allocated \<^verbatim>\<open>Holder\<close> objects with their type and value, \<open>anys\<close> the \<^verbatim>\<open>_content\<close> pointers of
  the live objects, \<open>brk\<close> the next address.\<close>

record ('x, 't, 'v) any_heap =
  holders :: "nat \<rightharpoonup> 't \<times> 'v"
  anys :: "'x \<rightharpoonup> nat option"
  brk :: nat

definition empty_heap :: "('x, 't, 'v) any_heap" where
  "empty_heap = \<lparr>holders = Map.empty, anys = Map.empty, brk = 0\<rparr>"

section \<open>Operations\<close>

definition new_Holder :: "'t \<times> 'v \<Rightarrow> ('x, 't, 'v) any_heap \<Rightarrow> nat \<times> ('x, 't, 'v) any_heap" where
  "new_Holder tv h = (brk h, h\<lparr>holders := (holders h)(brk h \<mapsto> tv), brk := Suc (brk h)\<rparr>)"

definition delete_content :: "nat option \<Rightarrow> ('x, 't, 'v) any_heap \<Rightarrow> ('x, 't, 'v) any_heap option" where
  "delete_content c h =
     (case c of None \<Rightarrow> Some h
      | Some p \<Rightarrow> if holders h p = None then None else Some (h\<lparr>holders := (holders h)(p := None)\<rparr>))"

text \<open>\<^verbatim>\<open>_content->clone()\<close> where there is content.\<close>

definition clone_content :: "nat option \<Rightarrow> ('x, 't, 'v) any_heap \<Rightarrow> (nat option \<times> ('x, 't, 'v) any_heap) option" where
  "clone_content c h =
     (case c of None \<Rightarrow> Some (None, h)
      | Some p \<Rightarrow> do { tv \<leftarrow> holders h p; let (q, h) = new_Holder tv h; Some (Some q, h) })"

text \<open>A constructor runs on an object that is not alive, everything else on live ones.\<close>

definition construct :: "'x \<Rightarrow> nat option \<Rightarrow> ('x, 't, 'v) any_heap \<Rightarrow> ('x, 't, 'v) any_heap option" where
  "construct x c h = (if anys h x = None then Some (h\<lparr>anys := (anys h)(x \<mapsto> c)\<rparr>) else None)"

definition any_default :: "'x \<Rightarrow> ('x, 't, 'v) any_heap \<Rightarrow> ('x, 't, 'v) any_heap option" where
  "any_default x h = construct x None h"

definition any_value :: "'x \<Rightarrow> 't \<times> 'v \<Rightarrow> ('x, 't, 'v) any_heap \<Rightarrow> ('x, 't, 'v) any_heap option" where
  "any_value x tv h = (let (p, h) = new_Holder tv h in construct x (Some p) h)"

definition any_copy :: "'x \<Rightarrow> 'x \<Rightarrow> ('x, 't, 'v) any_heap \<Rightarrow> ('x, 't, 'v) any_heap option" where
  "any_copy x y h = do { c \<leftarrow> anys h y; (c, h) \<leftarrow> clone_content c h; construct x c h }"

definition any_move :: "'x \<Rightarrow> 'x \<Rightarrow> ('x, 't, 'v) any_heap \<Rightarrow> ('x, 't, 'v) any_heap option" where
  "any_move x y h = do { c \<leftarrow> anys h y; construct x c (h\<lparr>anys := (anys h)(y \<mapsto> None)\<rparr>) }"

definition any_destroy :: "'x \<Rightarrow> ('x, 't, 'v) any_heap \<Rightarrow> ('x, 't, 'v) any_heap option" where
  "any_destroy x h = do { c \<leftarrow> anys h x; h \<leftarrow> delete_content c h; Some (h\<lparr>anys := (anys h)(x := None)\<rparr>) }"

definition any_swap :: "'x \<Rightarrow> 'x \<Rightarrow> ('x, 't, 'v) any_heap \<Rightarrow> ('x, 't, 'v) any_heap option" where
  "any_swap x y h = do { c \<leftarrow> anys h x; d \<leftarrow> anys h y; Some (h\<lparr>anys := (anys h)(x \<mapsto> d, y \<mapsto> c)\<rparr>) }"

text \<open>\<^verbatim>\<open>operator=\<close>: the temporary's content \<open>c\<close> is swapped in and the old content deleted with the temporary.\<close>

definition swap_temporary :: "'x \<Rightarrow> nat option \<Rightarrow> ('x, 't, 'v) any_heap \<Rightarrow> ('x, 't, 'v) any_heap option" where
  "swap_temporary x c h = do { old \<leftarrow> anys h x; delete_content old (h\<lparr>anys := (anys h)(x \<mapsto> c)\<rparr>) }"

definition assign_value :: "'x \<Rightarrow> 't \<times> 'v \<Rightarrow> ('x, 't, 'v) any_heap \<Rightarrow> ('x, 't, 'v) any_heap option" where
  "assign_value x tv h = (let (p, h) = new_Holder tv h in swap_temporary x (Some p) h)"

definition assign_copy :: "'x \<Rightarrow> 'x \<Rightarrow> ('x, 't, 'v) any_heap \<Rightarrow> ('x, 't, 'v) any_heap option" where
  "assign_copy x y h = do { c \<leftarrow> anys h y; (c, h) \<leftarrow> clone_content c h; swap_temporary x c h }"

definition assign_move :: "'x \<Rightarrow> 'x \<Rightarrow> ('x, 't, 'v) any_heap \<Rightarrow> ('x, 't, 'v) any_heap option" where
  "assign_move x y h = do { c \<leftarrow> anys h y; swap_temporary x c (h\<lparr>anys := (anys h)(y \<mapsto> None)\<rparr>) }"

text \<open>\<^verbatim>\<open>GetType\<close>, with \<open>None\<close> for \<^verbatim>\<open>typeid(void)\<close>.\<close>

definition any_GetType :: "'x \<Rightarrow> ('x, 't, 'v) any_heap \<Rightarrow> 't option option" where
  "any_GetType x h =
     do { c \<leftarrow> anys h x; (case c of None \<Rightarrow> Some None | Some p \<Rightarrow> do { (t, v) \<leftarrow> holders h p; Some (Some t) }) }"

definition any_IsEmpty :: "'x \<Rightarrow> ('x, 't, 'v) any_heap \<Rightarrow> bool option" where
  "any_IsEmpty x h = do { c \<leftarrow> anys h x; Some (c = None) }"

text \<open>\<^verbatim>\<open>any_cast<T>(Any*)\<close> gives a pointer to the held value or null; \<^verbatim>\<open>any_cast<T>(Any&)\<close> follows it.\<close>

definition any_cast_ptr :: "'t \<Rightarrow> 'x \<Rightarrow> ('x, 't, 'v) any_heap \<Rightarrow> nat option option" where
  "any_cast_ptr t x h = do { ty \<leftarrow> any_GetType x h; if ty = Some t then anys h x else Some None }"

definition any_cast :: "'t \<Rightarrow> 'x \<Rightarrow> ('x, 't, 'v) any_heap \<Rightarrow> 'v option" where
  "any_cast t x h = do { r \<leftarrow> any_cast_ptr t x h; p \<leftarrow> r; (t, v) \<leftarrow> holders h p; Some v }"

datatype ('x, 't, 'v) any_op =
    Default 'x
  | Value 'x "'t \<times> 'v"
  | Copy 'x 'x
  | Move 'x 'x
  | Destroy 'x
  | Swap 'x 'x
  | AssignValue 'x "'t \<times> 'v"
  | AssignCopy 'x 'x
  | AssignMove 'x 'x

fun any_step :: "('x, 't, 'v) any_op \<Rightarrow> ('x, 't, 'v) any_heap \<Rightarrow> ('x, 't, 'v) any_heap option" where
  "any_step (Default x) = any_default x"
| "any_step (Value x tv) = any_value x tv"
| "any_step (Copy x y) = any_copy x y"
| "any_step (Move x y) = any_move x y"
| "any_step (Destroy x) = any_destroy x"
| "any_step (Swap x y) = any_swap x y"
| "any_step (AssignValue x tv) = assign_value x tv"
| "any_step (AssignCopy x y) = assign_copy x y"
| "any_step (AssignMove x y) = assign_move x y"

fun any_run :: "('x, 't, 'v) any_op list \<Rightarrow> ('x, 't, 'v) any_heap \<Rightarrow> ('x, 't, 'v) any_heap option" where
  "any_run [] h = Some h"
| "any_run (x # xs) h = do { h \<leftarrow> any_step x h; any_run xs h }"

section \<open>Plain values\<close>

text \<open>The specification: live objects are variables that hold nothing or a typed value.\<close>

type_synonym ('x, 't, 'v) any_spec = "'x \<rightharpoonup> ('t \<times> 'v) option"

fun spec_step :: "('x, 't, 'v) any_op \<Rightarrow> ('x, 't, 'v) any_spec \<Rightarrow> ('x, 't, 'v) any_spec option" where
  "spec_step (Default x) m = (if m x = None then Some (m(x \<mapsto> None)) else None)"
| "spec_step (Value x tv) m = (if m x = None then Some (m(x \<mapsto> Some tv)) else None)"
| "spec_step (Copy x y) m = do { c \<leftarrow> m y; if m x = None then Some (m(x \<mapsto> c)) else None }"
| "spec_step (Move x y) m = do { c \<leftarrow> m y; if m x = None then Some (m(y \<mapsto> None, x \<mapsto> c)) else None }"
| "spec_step (Destroy x) m = (if m x = None then None else Some (m(x := None)))"
| "spec_step (Swap x y) m = do { c \<leftarrow> m x; d \<leftarrow> m y; Some (m(x \<mapsto> d, y \<mapsto> c)) }"
| "spec_step (AssignValue x tv) m = (if m x = None then None else Some (m(x \<mapsto> Some tv)))"
| "spec_step (AssignCopy x y) m = do { c \<leftarrow> m y; if m x = None then None else Some (m(x \<mapsto> c)) }"
| "spec_step (AssignMove x y) m = do { c \<leftarrow> m y; if m x = None then None else Some (m(y \<mapsto> None, x \<mapsto> c)) }"

fun spec_run :: "('x, 't, 'v) any_op list \<Rightarrow> ('x, 't, 'v) any_spec \<Rightarrow> ('x, 't, 'v) any_spec option" where
  "spec_run [] m = Some m"
| "spec_run (x # xs) m = do { m \<leftarrow> spec_step x m; spec_run xs m }"

text \<open>Every holder has exactly one owner: pointers are valid, no holder is leaked and none is shared.\<close>

definition good :: "('x \<rightharpoonup> nat option) \<Rightarrow> (nat \<rightharpoonup> 'h) \<Rightarrow> nat \<Rightarrow> bool" where
  "good own hs b \<longleftrightarrow> (\<forall>x p. own x = Some (Some p) \<longrightarrow> p \<in> dom hs) \<and> (\<forall>p \<in> dom hs. p < b \<and> (\<exists>x. own x = Some (Some p))) \<and>
     (\<forall>x y p. own x = Some (Some p) \<longrightarrow> own y = Some (Some p) \<longrightarrow> x = y)"

definition owned :: "('x, 't, 'v) any_heap \<Rightarrow> bool" where
  "owned h \<longleftrightarrow> good (anys h) (holders h) (brk h)"

definition content_value :: "(nat \<rightharpoonup> 't \<times> 'v) \<Rightarrow> nat option \<Rightarrow> ('t \<times> 'v) option" where
  "content_value hs c = (case c of None \<Rightarrow> None | Some p \<Rightarrow> hs p)"

definition any_abs :: "('x, 't, 'v) any_heap \<Rightarrow> ('x, 't, 'v) any_spec" where
  "any_abs h = (\<lambda>x. map_option (content_value (holders h)) (anys h x))"

section \<open>Lemmas\<close>

lemma goodI:
  assumes "\<And>x p. own x = Some (Some p) \<Longrightarrow> hs p \<noteq> None"
    and "\<And>p. hs p \<noteq> None \<Longrightarrow> p < b" and "\<And>p. hs p \<noteq> None \<Longrightarrow> \<exists>x. own x = Some (Some p)"
    and "\<And>x y p. own x = Some (Some p) \<Longrightarrow> own y = Some (Some p) \<Longrightarrow> x = y"
  shows "good own hs b"
  using assms by (auto simp: good_def)

lemma good_valid: "good own hs b \<Longrightarrow> own x = Some (Some p) \<Longrightarrow> hs p \<noteq> None \<and> p < b"
  by (auto simp: good_def)

lemma good_owner: "good own hs b \<Longrightarrow> hs p \<noteq> None \<Longrightarrow> p < b \<and> (\<exists>x. own x = Some (Some p))"
  by (auto simp: good_def)

lemma good_unique: "good own hs b \<Longrightarrow> own x = Some (Some p) \<Longrightarrow> own y = Some (Some p) \<Longrightarrow> x = y"
  by (simp add: good_def)

lemma good_empty:
  assumes "good own hs b" "own x = None \<or> own x = Some None" "c = None \<or> c = Some None"
  shows "good (own(x := c)) hs b"
proof (rule goodI)
  fix p assume "hs p \<noteq> None"
  from good_owner [OF assms(1) this] obtain y where y: "p < b" "own y = Some (Some p)" by auto
  then have "y \<noteq> x" using assms(2) by auto
  with y show "p < b" "\<exists>y. (own(x := c)) y = Some (Some p)" by (auto intro!: exI [of _ y])
next
  fix y z p assume "(own(x := c)) y = Some (Some p)" "(own(x := c)) z = Some (Some p)"
  then show "y = z" using assms(3) good_unique [OF assms(1)] by (auto split: if_splits)
next
  fix y p assume "(own(x := c)) y = Some (Some p)"
  then show "hs p \<noteq> None" using assms(3) good_valid [OF assms(1)] by (auto split: if_splits)
qed

lemma good_alloc:
  assumes "good own hs b" "own x = None \<or> own x = Some None"
  shows "good (own(x \<mapsto> Some b)) (hs(b \<mapsto> tv)) (Suc b)"
proof (rule goodI)
  fix p assume p: "(hs(b \<mapsto> tv)) p \<noteq> None"
  show "p < Suc b" using p good_owner [OF assms(1), of p] by (auto simp: less_Suc_eq split: if_splits)
  show "\<exists>y. (own(x \<mapsto> Some b)) y = Some (Some p)"
  proof (cases "p = b")
    case False
    then obtain y where y: "own y = Some (Some p)" using p good_owner [OF assms(1), of p] by auto
    then have "y \<noteq> x" using assms(2) by auto
    with y show ?thesis by (auto intro!: exI [of _ y])
  qed auto
next
  fix y z p assume a: "(own(x \<mapsto> Some b)) y = Some (Some p)" "(own(x \<mapsto> Some b)) z = Some (Some p)"
  have "own w \<noteq> Some (Some b)" for w using good_valid [OF assms(1), of w b] by auto
  then show "y = z" using a good_unique [OF assms(1), of y p z] by (auto split: if_splits)
next
  fix y p assume "(own(x \<mapsto> Some b)) y = Some (Some p)"
  then show "(hs(b \<mapsto> tv)) p \<noteq> None" using good_valid [OF assms(1), of y p] by (auto split: if_splits)
qed

lemma good_delete:
  assumes "good own hs b" "own x = Some (Some p)"
  shows "good (own(x \<mapsto> None)) (hs(p := None)) b"
proof (rule goodI)
  fix q assume q: "(hs(p := None)) q \<noteq> None"
  then obtain y where "q < b" "q \<noteq> p" "own y = Some (Some q)" using good_owner [OF assms(1), of q] by (auto split: if_splits)
  then show "q < b" "\<exists>y. (own(x \<mapsto> None)) y = Some (Some q)" using assms(2) by (auto intro!: exI [of _ y])
next
  fix y z q assume "(own(x \<mapsto> None)) y = Some (Some q)" "(own(x \<mapsto> None)) z = Some (Some q)"
  then show "y = z" using good_unique [OF assms(1), of y q z] by (auto split: if_splits)
next
  fix y q assume "(own(x \<mapsto> None)) y = Some (Some q)"
  then have y: "y \<noteq> x" "own y = Some (Some q)" by (auto split: if_splits)
  then have "q \<noteq> p" using good_unique [OF assms(1), of y q x] assms(2) by auto
  then show "(hs(p := None)) q \<noteq> None" using good_valid [OF assms(1) y(2)] by simp
qed

text \<open>Renaming the owners.\<close>

lemma good_rename:
  assumes "good own hs b" "\<And>z. f (f z) = z" "\<And>x p. own' x = Some (Some p) \<longleftrightarrow> own (f x) = Some (Some p)"
  shows "good own' hs b"
proof (rule goodI)
  fix p assume p: "hs p \<noteq> None"
  obtain y where y: "p < b" "own y = Some (Some p)" using good_owner [OF assms(1) p] by auto
  then have "own' (f y) = Some (Some p)" using assms(2,3) by simp
  with y show "p < b" "\<exists>x. own' x = Some (Some p)" by auto
next
  fix x y p assume "own' x = Some (Some p)" "own' y = Some (Some p)"
  then have "f x = f y" using good_unique [OF assms(1), of "f x" p "f y"] assms(3) by simp
  then show "x = y" using assms(2) by metis
next
  fix x p assume "own' x = Some (Some p)"
  then show "hs p \<noteq> None" using good_valid [OF assms(1), of "f x" p] assms(3) by simp
qed

lemma good_swap:
  assumes "good own hs b" "own x = Some c" "own y = Some d"
  shows "good (own(x \<mapsto> d, y \<mapsto> c)) hs b"
  by (rule good_rename [OF assms(1), of "\<lambda>z. if z = x then y else if z = y then x else z"]) (use assms(2,3) in \<open>auto split: if_splits\<close>)

text \<open>Replacing the content of a live object by one the heap has just given out.\<close>

lemma good_replace:
  assumes "good own hs b" "own x = Some old"
  shows "good (own(x \<mapsto> Some b)) (case old of None \<Rightarrow> hs(b \<mapsto> tv) | Some p \<Rightarrow> hs(b \<mapsto> tv, p := None)) (Suc b)"
proof (cases old)
  case None
  then show ?thesis using good_alloc [of own hs b x tv] assms by simp
next
  case (Some p)
  then have "p \<noteq> b" using good_valid [OF assms(1), of x p] assms(2) by auto
  then show ?thesis using good_alloc [OF good_delete [of own hs b x p], of x tv] assms Some by (simp add: fun_upd_twist)
qed

text \<open>Moving the content of a live object into another one.\<close>

lemma good_take:
  assumes "good own hs b" "own y = Some c" "own x = None \<or> own x = Some None" "x \<noteq> y"
  shows "good (own(y \<mapsto> None, x \<mapsto> c)) hs b"
proof -
  have "good (own(x \<mapsto> None)) hs b" using good_empty [OF assms(1,3)] by simp
  from good_swap [OF this, of x None y c] show ?thesis using assms(2,4) by (simp add: fun_upd_twist)
qed

definition refines :: "('x, 't, 'v) any_spec option \<Rightarrow> ('x, 't, 'v) any_heap option \<Rightarrow> bool" where
  "refines m h \<longleftrightarrow> rel_option (\<lambda>m h. owned h \<and> any_abs h = m) m h"

lemma refines_simps:
  "refines None h \<longleftrightarrow> h = None" "refines (Some m) h \<longleftrightarrow> (\<exists>h'. h = Some h' \<and> owned h' \<and> any_abs h' = m)"
  by (cases h; simp add: refines_def)+

lemma content_value_simps [simp]: "content_value hs None = None" "content_value hs (Some p) = hs p"
  by (simp_all add: content_value_def)

lemma any_abs_at [simp]: "any_abs h x = map_option (content_value (holders h)) (anys h x)"
  by (simp add: any_abs_def)

lemma owned_make [simp]: "owned \<lparr>holders = hs, anys = own, brk = b\<rparr> \<longleftrightarrow> good own hs b"
  by (simp add: owned_def)

text \<open>The content of an object depends on its own holder only.\<close>

lemma delete_null [simp]: "delete_content None h = Some h"
  by (simp add: delete_content_def)

lemma any_abs_make:
  assumes "\<And>z p. z \<noteq> x \<Longrightarrow> own z = Some (Some p) \<Longrightarrow> hs' p = hs p"
  shows "any_abs \<lparr>holders = hs', anys = own(x := c), brk = b'\<rparr> =
    (any_abs \<lparr>holders = hs, anys = own, brk = b\<rparr>)(x := map_option (content_value hs') c)"
proof
  fix z
  show "any_abs \<lparr>holders = hs', anys = own(x := c), brk = b'\<rparr> z =
      ((any_abs \<lparr>holders = hs, anys = own, brk = b\<rparr>)(x := map_option (content_value hs') c)) z"
    using assms [of z] by (cases "own z") (auto simp: content_value_def split: option.splits)
qed

text \<open>The effect of each step on an owned heap.\<close>

lemma alloc_effect:
  assumes "good own hs b" "own x = None \<or> own x = Some None"
  shows "good (own(x \<mapsto> Some b)) (hs(b \<mapsto> tv)) (Suc b)"
    "any_abs \<lparr>holders = hs(b \<mapsto> tv), anys = own(x \<mapsto> Some b), brk = Suc b\<rparr> =
      (any_abs \<lparr>holders = hs, anys = own, brk = b\<rparr>)(x \<mapsto> Some tv)"
proof -
  have "p \<noteq> b" if "own z = Some (Some p)" for z p using good_valid [OF assms(1) that] by simp
  then show "any_abs \<lparr>holders = hs(b \<mapsto> tv), anys = own(x \<mapsto> Some b), brk = Suc b\<rparr> =
      (any_abs \<lparr>holders = hs, anys = own, brk = b\<rparr>)(x \<mapsto> Some tv)"
    by (subst any_abs_make [where hs = hs and b = b]) auto
qed (rule good_alloc [OF assms])

lemma delete_effect:
  assumes "good own hs b" "own x = Some (Some p)"
  shows "good (own(x \<mapsto> None)) (hs(p := None)) b"
    "any_abs \<lparr>holders = hs(p := None), anys = own(x \<mapsto> None), brk = b\<rparr> = (any_abs \<lparr>holders = hs, anys = own, brk = b\<rparr>)(x \<mapsto> None)"
proof -
  have "q \<noteq> p" if "z \<noteq> x" "own z = Some (Some q)" for z q using good_unique [OF assms(1), of z q x] that assms(2) by auto
  then show "any_abs \<lparr>holders = hs(p := None), anys = own(x \<mapsto> None), brk = b\<rparr> =
      (any_abs \<lparr>holders = hs, anys = own, brk = b\<rparr>)(x \<mapsto> None)"
    by (subst any_abs_make [where hs = hs and b = b]) auto
qed (rule good_delete [OF assms])

text \<open>A temporary's new holder swapped in and the old content deleted.\<close>

lemma replace_effect:
  assumes "good own hs b" "own x = Some old"
  shows "refines (Some ((any_abs \<lparr>holders = hs, anys = own, brk = b\<rparr>)(x \<mapsto> Some tv)))
    (swap_temporary x (Some b) \<lparr>holders = hs(b \<mapsto> tv), anys = own, brk = Suc b\<rparr>)"
proof (cases old)
  case None
  then show ?thesis using alloc_effect [OF assms(1), of x tv] assms(2)
    by (simp add: swap_temporary_def delete_content_def refines_simps)
next
  case (Some p)
  have p: "hs p \<noteq> None" "p \<noteq> b" using good_valid [OF assms(1)] assms(2) Some by auto
  have d: "good (own(x \<mapsto> None)) (hs(p := None)) b"
    "any_abs \<lparr>holders = hs(p := None), anys = own(x \<mapsto> None), brk = b\<rparr> = (any_abs \<lparr>holders = hs, anys = own, brk = b\<rparr>)(x \<mapsto> None)"
    using delete_effect [OF assms(1)] assms(2) Some by auto
  have "swap_temporary x (Some b) \<lparr>holders = hs(b \<mapsto> tv), anys = own, brk = Suc b\<rparr> =
      Some \<lparr>holders = (hs(p := None))(b \<mapsto> tv), anys = (own(x \<mapsto> None))(x \<mapsto> Some b), brk = Suc b\<rparr>"
    using assms(2) Some p by (simp add: swap_temporary_def delete_content_def fun_upd_twist)
  then show ?thesis using alloc_effect [OF d(1), of x tv] d(2) by (simp add: refines_simps)
qed

lemma clear_effect:
  assumes "good own hs b" "own x = Some old"
  shows "refines (Some ((any_abs \<lparr>holders = hs, anys = own, brk = b\<rparr>)(x \<mapsto> None)))
    (swap_temporary x None \<lparr>holders = hs, anys = own, brk = b\<rparr>)"
proof (cases old)
  case None
  then have "own(x \<mapsto> None) = own" using assms(2) by auto
  then show ?thesis using None assms any_abs_make [of x own hs hs "Some None" b b] by (simp add: swap_temporary_def refines_simps)
next
  case (Some p)
  then show ?thesis using delete_effect [OF assms(1)] good_valid [OF assms(1)] assms(2)
    by (auto simp: swap_temporary_def delete_content_def refines_simps)
qed

lemma take_effect:
  assumes "good own hs b" "own y = Some c" "own x = None \<or> own x = Some None" "x \<noteq> y"
  shows "good (own(y \<mapsto> None, x \<mapsto> c)) hs b"
    "any_abs \<lparr>holders = hs, anys = own(y \<mapsto> None, x \<mapsto> c), brk = b\<rparr> =
      (any_abs \<lparr>holders = hs, anys = own, brk = b\<rparr>)(y \<mapsto> None, x \<mapsto> content_value hs c)"
  using good_take [OF assms] by (auto simp: fun_eq_iff)


text \<open>Moving into a live object, perhaps from itself.\<close>

lemma move_effect:
  assumes "good own hs b" "own x = Some old" "own y = Some c"
  shows "refines (Some ((any_abs \<lparr>holders = hs, anys = own, brk = b\<rparr>)(y \<mapsto> None, x \<mapsto> content_value hs c)))
    (swap_temporary x c \<lparr>holders = hs, anys = own(y \<mapsto> None), brk = b\<rparr>)"
proof (cases "x = y")
  case True
  then have "own(x \<mapsto> c) = own" using assms by auto
  moreover have "any_abs \<lparr>holders = hs, anys = own, brk = b\<rparr> = (any_abs \<lparr>holders = hs, anys = own, brk = b\<rparr>)(x \<mapsto> content_value hs c)"
    using True assms by (intro ext) simp
  ultimately show ?thesis using True assms by (simp add: swap_temporary_def refines_simps)
next
  case False
  show ?thesis
  proof (cases old)
    case None
    then show ?thesis using take_effect [OF assms(1,3), of x] assms(2) False by (simp add: swap_temporary_def refines_simps)
  next
    case (Some p)
    have p: "hs p \<noteq> None" "c \<noteq> Some p" using good_valid [OF assms(1), of x p] good_unique [OF assms(1), of x p y] assms(2,3) Some False by auto
    have d: "good (own(x \<mapsto> None)) (hs(p := None)) b"
      "any_abs \<lparr>holders = hs(p := None), anys = own(x \<mapsto> None), brk = b\<rparr> = (any_abs \<lparr>holders = hs, anys = own, brk = b\<rparr>)(x \<mapsto> None)"
      using delete_effect [OF assms(1)] assms(2) Some by auto
    have "content_value (hs(p := None)) c = content_value hs c" using p(2) by (cases c) auto
    moreover have "own(x \<mapsto> None, y \<mapsto> None, x \<mapsto> c) = own(y \<mapsto> None, x \<mapsto> c)" using False by auto
    ultimately show ?thesis using take_effect [OF d(1), of y c x] d(2) assms(2,3) False Some p(1)
      by (simp add: swap_temporary_def delete_content_def refines_simps fun_upd_twist)
  qed
qed

lemmas op_defs = any_default_def any_value_def any_copy_def any_move_def any_destroy_def any_swap_def assign_value_def
  assign_copy_def assign_move_def construct_def new_Holder_def clone_content_def

lemma step_refines:
  assumes "owned h"
  shows "refines (spec_step a (any_abs h)) (any_step a h)"
proof -
  obtain hs own b where h: "h = \<lparr>holders = hs, anys = own, brk = b\<rparr>" by (cases h)
  have g: "good own hs b" using assms by (simp add: h)
  have v: "\<exists>tv. hs p = Some tv" if "own x = Some (Some p)" for x p using good_valid [OF g that] by auto
  show ?thesis
  proof (cases a)
    case (Default x)
    then show ?thesis using good_empty [OF g, of x "Some None"] any_abs_make [of x own hs hs "Some None" b b]
      by (auto simp: h refines_simps op_defs)
  next
    case (Value x tv)
    then show ?thesis using alloc_effect [OF g, of x tv] by (auto simp: h refines_simps op_defs)
  next
    case (Copy x y)
    show ?thesis
    proof (cases "own y")
      case (Some c)
      show ?thesis
      proof (cases c)
        case None
        then show ?thesis using Some Copy good_empty [OF g, of x "Some None"] any_abs_make [of x own hs hs "Some None" b b]
          by (auto simp: h refines_simps op_defs)
      next
        case (Some p)
        with v [of y p] \<open>own y = Some c\<close> obtain tv where "hs p = Some tv" by auto
        then show ?thesis using Some \<open>own y = Some c\<close> Copy alloc_effect [OF g, of x tv] by (auto simp: h refines_simps op_defs)
      qed
    qed (simp add: h Copy refines_simps op_defs)
  next
    case (Move x y)
    show ?thesis
    proof (cases "own y")
      case (Some c)
      then show ?thesis using Move take_effect [OF g Some, of x] by (auto simp: h refines_simps op_defs)
    qed (simp add: h Move refines_simps op_defs)
  next
    case (Destroy x)
    show ?thesis
    proof (cases "own x")
      case (Some c)
      show ?thesis
      proof (cases c)
        case None
        then show ?thesis using Some Destroy good_empty [OF g, of x None] any_abs_make [of x own hs hs None b b]
          by (simp add: h refines_simps op_defs)
      next
        case (Some p)
        then have d: "good (own(x \<mapsto> None)) (hs(p := None)) b"
          "any_abs \<lparr>holders = hs(p := None), anys = own(x \<mapsto> None), brk = b\<rparr> = (any_abs \<lparr>holders = hs, anys = own, brk = b\<rparr>)(x \<mapsto> None)"
          using delete_effect [OF g] \<open>own x = Some c\<close> by auto
        have "good (own(x := None)) (hs(p := None)) b" using good_empty [OF d(1), of x None] by simp
        then show ?thesis using Some \<open>own x = Some c\<close> Destroy v [of x p] d(2)
            any_abs_make [of x "own(x \<mapsto> None)" "hs(p := None)" "hs(p := None)" None b b]
          by (auto simp: h refines_simps op_defs delete_content_def)
      qed
    qed (simp add: h Destroy refines_simps op_defs)
  next
    case (Swap x y)
    then show ?thesis using good_swap [OF g, of x _ y]
      by (cases "own x"; cases "own y") (auto simp: h refines_simps op_defs fun_eq_iff)
  next
    case (AssignValue x tv)
    show ?thesis
    proof (cases "own x")
      case (Some old)
      then show ?thesis using AssignValue replace_effect [OF g Some, of tv] by (simp add: h op_defs)
    qed (simp add: h AssignValue refines_simps op_defs swap_temporary_def)
  next
    case (AssignCopy x y)
    show ?thesis
    proof (cases "own y")
      case (Some c)
      show ?thesis
      proof (cases "own x")
        case None
        then show ?thesis using AssignCopy Some v [of y] by (cases c) (auto simp: h refines_simps op_defs swap_temporary_def)
      next
        case (Some old)
        show ?thesis
        proof (cases c)
          case None
          then show ?thesis using AssignCopy Some \<open>own y = Some c\<close> clear_effect [OF g Some] by (simp add: h op_defs)
        next
          case (Some p)
          with v [of y p] \<open>own y = Some c\<close> obtain tv where "hs p = Some tv" by auto
          then show ?thesis using Some AssignCopy \<open>own y = Some c\<close> \<open>own x = Some old\<close> replace_effect [OF g \<open>own x = Some old\<close>, of tv]
            by (simp add: h op_defs)
        qed
      qed
    qed (simp add: h AssignCopy refines_simps op_defs)
  next
    case (AssignMove x y)
    show ?thesis
    proof (cases "own y")
      case (Some c)
      show ?thesis
      proof (cases "own x")
        case None
        then show ?thesis using AssignMove Some by (auto simp: h refines_simps op_defs swap_temporary_def)
      next
        case (Some old)
        then show ?thesis using AssignMove \<open>own y = Some c\<close> move_effect [OF g Some \<open>own y = Some c\<close>] by (simp add: h op_defs)
      qed
    qed (simp add: h AssignMove refines_simps op_defs)
  qed
qed

lemma run_refines: "owned h \<Longrightarrow> refines (spec_run as (any_abs h)) (any_run as h)"
proof (induction as arbitrary: h)
  case (Cons a as)
  show ?case
  proof (cases "spec_step a (any_abs h)")
    case None
    then show ?thesis using step_refines [OF Cons.prems, of a] by (simp add: refines_simps del: any_abs_at)
  next
    case (Some m)
    then obtain h' where "any_step a h = Some h'" "owned h'" "any_abs h' = m"
      using step_refines [OF Cons.prems, of a] by (auto simp: refines_simps)
    then show ?thesis using Some Cons.IH [of h'] by (simp del: any_abs_at)
  qed
qed (simp add: refines_simps)

lemma empty_heap_owned [simp]: "owned empty_heap" "any_abs empty_heap = Map.empty"
  by (simp_all add: empty_heap_def good_def fun_eq_iff)

section \<open>Properties\<close>

text \<open>C23: every sequence of constructions, copies, moves, swaps, assignments and destructions refines the same sequence
  on plain values: it is defined exactly when every object it uses is alive, then each object holds its
  value, every holder has one owner, \<^verbatim>\<open>any_cast\<close> gives a value back at exactly the type it was stored with, and once all
  objects are destroyed no holder is left.\<close>

theorem any_refines_values:
  assumes "spec_run as Map.empty = Some m"
  shows "\<exists>h. any_run as empty_heap = Some h \<and> owned h \<and> any_abs h = m \<and>
    (\<forall>x t v. any_cast t x h = Some v \<longleftrightarrow> m x = Some (Some (t, v))) \<and> (m = Map.empty \<longrightarrow> holders h = Map.empty)"
proof -
  obtain h where h: "any_run as empty_heap = Some h" "owned h" "any_abs h = m"
    using run_refines [of empty_heap as] assms by (auto simp: refines_simps)
  have "any_cast t x h = Some v \<longleftrightarrow> m x = Some (Some (t, v))" for x t v
    unfolding h(3) [symmetric]
    by (cases "anys h x") (auto simp: any_cast_def any_cast_ptr_def any_GetType_def content_value_def split: option.splits bind_splits if_splits)
  moreover have "holders h = Map.empty" if "m = Map.empty"
  proof (rule ext)
    fix p
    have "anys h x = None" for x using that h(3) by (metis any_abs_at map_option_is_None)
    then show "holders h p = None" using good_owner [OF h(2) [unfolded owned_def], of p] by fastforce
  qed
  ultimately show ?thesis using h by blast
qed

theorem any_refines_values_witness:
  "\<exists>h. any_run [Value ''a'' (''int'', 7 :: nat), Default ''b'', AssignCopy ''b'' ''a'', Copy ''c'' ''b'', AssignMove ''a'' ''c'', Destroy ''c''] empty_heap = Some h \<and>
     any_cast ''int'' ''b'' h = Some 7 \<and> any_cast ''char'' ''b'' h = None"
proof -
  let ?as = "[Value ''a'' (''int'', 7 :: nat), Default ''b'', AssignCopy ''b'' ''a'', Copy ''c'' ''b'', AssignMove ''a'' ''c'', Destroy ''c'']"
  have "\<exists>m. spec_run ?as Map.empty = Some m \<and> m ''b'' = Some (Some (''int'', 7))" by simp
  then obtain m where m: "spec_run ?as Map.empty = Some m" "m ''b'' = Some (Some (''int'', 7))" by blast
  from any_refines_values [OF m(1)] obtain h where
    h: "any_run ?as empty_heap = Some h" "\<forall>x t v. any_cast t x h = Some v \<longleftrightarrow> m x = Some (Some (t, v))" by blast
  have "any_cast ''int'' ''b'' h = Some 7" using h(2) m(2) by simp
  moreover have "any_cast ''char'' ''b'' h = None"
  proof (cases "any_cast ''char'' ''b'' h")
    case (Some v)
    then have "m ''b'' = Some (Some (''char'', v))" using h(2) by blast
    then show ?thesis using m(2) by simp
  qed
  ultimately show ?thesis using h(1) by blast
qed

end
