(* ===== verification/Shared_Queue.thy ===== *)
theory Shared_Queue
  imports Main
begin

text \<open>
  The shared queue (\<^verbatim>\<open>src/base/shared_queue.h\<close>): producers push under the mutex and notify after releasing it,
  consumers in \<^verbatim>\<open>wait_and_pop\<close> sleep while the queue is empty, \<^verbatim>\<open>try_and_pop\<close> never waits. A step is one critical
  section, one notification or one (perhaps spurious) wake-up. The theory proves that every item is taken
  once and in order and that no item waits while all who could take it sleep.
\<close>

section \<open>State\<close>

text \<open>A call of \<^verbatim>\<open>wait_and_pop\<close>: about to test the queue, asleep on \<^verbatim>\<open>data_cond_\<close>, or returned with an item.\<close>

datatype 'a consumer = CAwake | CAsleep | CGot 'a

text \<open>\<open>sq_notifies\<close> counts the producers between their critical section and \<^verbatim>\<open>notify_one\<close>;
  \<open>sq_pushed\<close> and \<open>sq_popped\<close> record the history.\<close>

record 'a shared_queue =
  sq_items :: "'a list"
  sq_consumers :: "'a consumer list"
  sq_notifies :: nat
  sq_pushed :: "'a list"
  sq_popped :: "'a list"

definition new_shared_queue :: "'a shared_queue" where
  "new_shared_queue = \<lparr>sq_items = [], sq_consumers = [], sq_notifies = 0, sq_pushed = [], sq_popped = []\<rparr>"

section \<open>Operations\<close>

definition sq_push :: "'a \<Rightarrow> 'a shared_queue \<Rightarrow> 'a shared_queue" where
  "sq_push x q = q\<lparr>sq_items := sq_items q @ [x], sq_notifies := Suc (sq_notifies q), sq_pushed := sq_pushed q @ [x]\<rparr>"

definition try_and_pop :: "'a shared_queue \<Rightarrow> 'a option \<times> 'a shared_queue" where
  "try_and_pop q =
     (case sq_items q of
        [] \<Rightarrow> (None, q)
      | x # xs \<Rightarrow> (Some x, q\<lparr>sq_items := xs, sq_popped := sq_popped q @ [x]\<rparr>))"

text \<open>One pass of the loop of \<^verbatim>\<open>wait_and_pop\<close> by consumer \<open>i\<close>.\<close>

definition wait_and_pop_pass :: "nat \<Rightarrow> 'a shared_queue \<Rightarrow> 'a shared_queue" where
  "wait_and_pop_pass i q =
     (case try_and_pop q of
        (None, q) \<Rightarrow> q\<lparr>sq_consumers := (sq_consumers q)[i := CAsleep]\<rparr>
      | (Some x, q) \<Rightarrow> q\<lparr>sq_consumers := (sq_consumers q)[i := CGot x]\<rparr>)"

definition sq_empty :: "'a shared_queue \<Rightarrow> bool" where
  "sq_empty q \<longleftrightarrow> sq_items q = []"

text \<open>The size is returned as a 32-bit \<^verbatim>\<open>unsigned\<close>.\<close>

definition sq_size :: "'a shared_queue \<Rightarrow> nat" where
  "sq_size q = length (sq_items q) mod 2 ^ 32"

inductive sq_step :: "'a shared_queue \<Rightarrow> 'a shared_queue \<Rightarrow> bool" where
  push: "sq_step q (sq_push x q)"
| notify_wakes: "sq_notifies q = Suc n \<Longrightarrow> i < length (sq_consumers q) \<Longrightarrow> sq_consumers q ! i = CAsleep \<Longrightarrow>
    sq_step q (q\<lparr>sq_notifies := n, sq_consumers := (sq_consumers q)[i := CAwake]\<rparr>)"
| notify_none: "sq_notifies q = Suc n \<Longrightarrow> CAsleep \<notin> set (sq_consumers q) \<Longrightarrow> sq_step q (q\<lparr>sq_notifies := n\<rparr>)"
| try_pop: "sq_step q (snd (try_and_pop q))"
| wait_call: "sq_step q (q\<lparr>sq_consumers := sq_consumers q @ [CAwake]\<rparr>)"
| wait_pass: "i < length (sq_consumers q) \<Longrightarrow> sq_consumers q ! i = CAwake \<Longrightarrow> sq_step q (wait_and_pop_pass i q)"
| spurious: "i < length (sq_consumers q) \<Longrightarrow> sq_consumers q ! i = CAsleep \<Longrightarrow>
    sq_step q (q\<lparr>sq_consumers := (sq_consumers q)[i := CAwake]\<rparr>)"

inductive sq_reach :: "'a shared_queue \<Rightarrow> bool" where
  start: "sq_reach new_shared_queue"
| step: "sq_reach q \<Longrightarrow> sq_step q q' \<Longrightarrow> sq_reach q'"

section \<open>Invariant\<close>

abbreviation awake :: "'a consumer list \<Rightarrow> nat" where
  "awake cs \<equiv> count_list cs CAwake"

text \<open>While somebody sleeps, there are no more items than consumers awake and notifications on their way.\<close>

definition sq_inv :: "'a shared_queue \<Rightarrow> bool" where
  "sq_inv q \<longleftrightarrow> sq_pushed q = sq_popped q @ sq_items q \<and>
     (CAsleep \<in> set (sq_consumers q) \<longrightarrow> length (sq_items q) \<le> awake (sq_consumers q) + sq_notifies q)"

lemma count_update:
  "i < length xs \<Longrightarrow> count_list (xs[i := y]) x + (if xs ! i = x then 1 else 0) = count_list xs x + (if y = x then 1 else 0)"
proof (induction xs arbitrary: i)
  case (Cons a xs)
  show ?case
  proof (cases i)
    case (Suc j)
    then show ?thesis using Cons.IH [of j] Cons.prems by (auto split: if_splits)
  qed simp
qed simp

lemma wake_awake: "i < length cs \<Longrightarrow> cs ! i = CAsleep \<Longrightarrow> awake (cs[i := CAwake]) = Suc (awake cs)"
  using count_update [of i cs CAwake CAwake] by simp

lemma asleep_update: "CAsleep \<in> set (cs[i := c]) \<Longrightarrow> c \<noteq> CAsleep \<Longrightarrow> CAsleep \<in> set cs"
  using set_update_subset_insert [of cs i c] by auto

lemma sq_step_inv: "sq_step q q' \<Longrightarrow> sq_inv q \<Longrightarrow> sq_inv q'"
proof (induction rule: sq_step.induct)
  case (notify_wakes q n i)
  then show ?case using wake_awake [of i "sq_consumers q"] nth_mem [of i "sq_consumers q"] by (simp add: sq_inv_def)
next
  case (spurious i q)
  then show ?case using wake_awake [of i "sq_consumers q"] nth_mem [of i "sq_consumers q"] by (simp add: sq_inv_def)
next
  case (wait_pass i q)
  have a: "awake (sq_consumers q) = Suc (awake ((sq_consumers q)[i := CGot x]))" for x
    using count_update [OF wait_pass(1), of "CGot x" CAwake] wait_pass(2) by simp
  show ?case
  proof (cases "sq_items q")
    case Nil
    then show ?thesis using wait_pass(3) by (simp add: sq_inv_def wait_and_pop_pass_def try_and_pop_def)
  next
    case (Cons x xs)
    then show ?thesis using wait_pass(3) a [of x] asleep_update [of "sq_consumers q" i "CGot x"]
      by (auto simp: sq_inv_def wait_and_pop_pass_def try_and_pop_def)
  qed
qed (auto simp: sq_inv_def sq_push_def try_and_pop_def split: list.splits)

lemma sq_reach_inv: "sq_reach q \<Longrightarrow> sq_inv q"
  by (induction rule: sq_reach.induct) (simp add: sq_inv_def new_shared_queue_def, blast intro: sq_step_inv)

section \<open>Properties\<close>

text \<open>C28: in every reachable state of the shared queue the items pushed are, in order, those popped and those queued, and
  as long as an item is queued, some consumer in \<^verbatim>\<open>wait_and_pop\<close> is awake or a notification is on its way,
  unless nobody sleeps: no consumer sleeps next to an item nobody will hand it.\<close>

theorem shared_queue_fifo_no_lost_wakeup:
  assumes "sq_reach q"
  shows "sq_pushed q = sq_popped q @ sq_items q \<and>
    (sq_items q \<noteq> [] \<and> CAsleep \<in> set (sq_consumers q) \<longrightarrow> CAwake \<in> set (sq_consumers q) \<or> 0 < sq_notifies q)"
proof -
  have inv: "sq_inv q" by (rule sq_reach_inv [OF assms])
  have "awake (sq_consumers q) = 0" if "CAwake \<notin> set (sq_consumers q)" using that by (simp add: count_list_0_iff)
  then have "length (sq_items q) \<le> sq_notifies q" if "CAwake \<notin> set (sq_consumers q)" "CAsleep \<in> set (sq_consumers q)"
    using that inv by (simp add: sq_inv_def)
  moreover have "0 < length (sq_items q)" if "sq_items q \<noteq> []" using that by simp
  ultimately show ?thesis using inv by (fastforce simp: sq_inv_def)
qed

theorem shared_queue_fifo_no_lost_wakeup_witness:
  "\<exists>q. sq_reach q \<and> sq_items q = [5 :: nat] \<and> CAsleep \<in> set (sq_consumers q) \<and> (CAwake \<in> set (sq_consumers q) \<or> 0 < sq_notifies q)"
proof -
  define q1 where "q1 = (new_shared_queue :: nat shared_queue)\<lparr>sq_consumers := sq_consumers new_shared_queue @ [CAwake]\<rparr>"
  define q2 where "q2 = wait_and_pop_pass 0 q1"
  define q3 where "q3 = sq_push 5 q2"
  have r1: "sq_reach q1" unfolding q1_def by (fact sq_reach.step [OF sq_reach.start sq_step.wait_call])
  have "sq_step q1 q2" unfolding q2_def by (rule sq_step.wait_pass) (simp_all add: q1_def new_shared_queue_def)
  from sq_reach.step [OF r1 this] have r2: "sq_reach q2" .
  have r3: "sq_reach q3" unfolding q3_def by (fact sq_reach.step [OF r2 sq_step.push [of q2 5]])
  have i: "sq_items q3 = [5]" "CAsleep \<in> set (sq_consumers q3)"
    by (simp_all add: q3_def q2_def q1_def wait_and_pop_pass_def try_and_pop_def new_shared_queue_def sq_push_def)
  have "sq_items q3 \<noteq> []" by (simp add: i)
  then have "CAwake \<in> set (sq_consumers q3) \<or> 0 < sq_notifies q3" using shared_queue_fifo_no_lost_wakeup [OF r3] i(2) by simp
  then show ?thesis by (intro exI [of _ q3] conjI r3 i)
qed

end
