(* ===== verification/Posix_Thread.thy ===== *)
theory Posix_Thread
  imports Main
begin

text \<open>
  Thread objects (\<^verbatim>\<open>src/base/std/thread.cpp\<close>) over POSIX threads: the object, which is joined, detached and destroyed
  by its owner, and the thread it started, which stores its id through a pointer into the object. The
  events of both interleave; joining or detaching a thread that has been released and storing into a
  destroyed object are undefined. The theory proves which use is safe and what \<^verbatim>\<open>Detach\<close> breaks.
\<close>

section \<open>State\<close>

text \<open>What the system keeps of a thread: joinable, or released by a join or a detach.\<close>

datatype os_thread = Joinable_thread | Released_thread

text \<open>Where the started thread stands: before \<^verbatim>\<open>*_tid = GetTid()\<close>, in the function, or returned.\<close>

datatype thread_pc = Starting | InFunc | Returned

record Thread =
  th_joined :: bool
  th_tid :: int
  th_alive :: bool
  th_os :: os_thread
  th_pc :: thread_pc
  th_calls :: nat

text \<open>The constructor, when \<^verbatim>\<open>pthread_create\<close> succeeds.\<close>

definition new_Thread :: Thread where
  "new_Thread = \<lparr>th_joined = False, th_tid = 0, th_alive = True, th_os = Joinable_thread, th_pc = Starting, th_calls = 0\<rparr>"

section \<open>Operations\<close>

definition release :: "Thread \<Rightarrow> Thread option" where
  "release t = (case th_os t of Joinable_thread \<Rightarrow> Some (t\<lparr>th_os := Released_thread\<rparr>) | Released_thread \<Rightarrow> None)"

text \<open>\<^verbatim>\<open>Join\<close>, once the thread has returned.\<close>

definition Join :: "Thread \<Rightarrow> Thread option" where
  "Join t = (if \<not> th_joined t then map_option (\<lambda>t. t\<lparr>th_joined := True\<rparr>) (release t) else Some t)"

definition Detach :: "Thread \<Rightarrow> Thread option" where
  "Detach t = (if th_joined t then Some t else release t)"

definition destroy_Thread :: "Thread \<Rightarrow> Thread option" where
  "destroy_Thread t = map_option (\<lambda>t. t\<lparr>th_alive := False\<rparr>) (if \<not> th_joined t then Detach t else Some t)"

definition Joinable :: "Thread \<Rightarrow> bool" where
  "Joinable t \<longleftrightarrow> \<not> th_joined t"

text \<open>The started thread: \<^verbatim>\<open>runInThread\<close> up to the call of the function, and its return.\<close>

definition run_begin :: "int \<Rightarrow> Thread \<Rightarrow> Thread option" where
  "run_begin tid t = (if th_alive t then Some (t\<lparr>th_tid := tid, th_pc := InFunc, th_calls := Suc (th_calls t)\<rparr>) else None)"

datatype thread_event = EJoin | EDetach | EDestroy | EBegin int | EEnd

text \<open>Which events can happen: the owner uses the object while it is alive, and \<^verbatim>\<open>Join\<close> waits for the thread.\<close>

fun enabled :: "thread_event \<Rightarrow> Thread \<Rightarrow> bool" where
  "enabled EJoin t \<longleftrightarrow> th_alive t \<and> (th_joined t \<or> th_pc t = Returned)"
| "enabled EDetach t \<longleftrightarrow> th_alive t"
| "enabled EDestroy t \<longleftrightarrow> th_alive t"
| "enabled (EBegin tid) t \<longleftrightarrow> th_pc t = Starting"
| "enabled EEnd t \<longleftrightarrow> th_pc t = InFunc"

fun event_step :: "thread_event \<Rightarrow> Thread \<Rightarrow> Thread option" where
  "event_step EJoin t = Join t"
| "event_step EDetach t = Detach t"
| "event_step EDestroy t = destroy_Thread t"
| "event_step (EBegin tid) t = run_begin tid t"
| "event_step EEnd t = Some (t\<lparr>th_pc := Returned\<rparr>)"

text \<open>The outcome of a schedule: not possible, undefined, or a state.\<close>

datatype 'a outcome = Impossible | Undefined | State 'a

fun run_events :: "thread_event list \<Rightarrow> Thread \<Rightarrow> Thread outcome" where
  "run_events [] t = State t"
| "run_events (e # es) t =
     (if \<not> enabled e t then Impossible
      else case event_step e t of None \<Rightarrow> Undefined | Some t \<Rightarrow> run_events es t)"

section \<open>Lemmas\<close>

text \<open>An owner that joins before it destroys and never detaches.\<close>

definition joins_first :: "thread_event list \<Rightarrow> bool" where
  "joins_first es \<longleftrightarrow> EDetach \<notin> set es \<and> (\<forall>pre post. es = pre @ EDestroy # post \<longrightarrow> EJoin \<in> set pre)"

definition thread_ok :: "Thread \<Rightarrow> bool" where
  "thread_ok t \<longleftrightarrow> (th_joined t \<longleftrightarrow> th_os t = Released_thread) \<and> (th_joined t \<longrightarrow> th_pc t = Returned) \<and> (\<not> th_alive t \<longrightarrow> th_joined t) \<and>
     th_calls t = (if th_pc t = Starting then 0 else 1)"

lemma event_step_ok:
  assumes "thread_ok t" "enabled e t" "e \<noteq> EDetach" "e = EDestroy \<longrightarrow> th_joined t"
  shows "\<exists>t'. event_step e t = Some t' \<and> thread_ok t' \<and> (th_joined t' \<longleftrightarrow> th_joined t \<or> e = EJoin)"
proof (cases e)
  case EJoin
  then show ?thesis using assms by (cases "th_os t") (auto simp: thread_ok_def Join_def release_def)
next
  case EDestroy
  then show ?thesis using assms by (auto simp: thread_ok_def destroy_Thread_def)
next
  case (EBegin tid)
  then show ?thesis using assms by (cases "th_alive t") (auto simp: thread_ok_def run_begin_def)
next
  case EEnd
  then show ?thesis using assms by (auto simp: thread_ok_def)
qed (use assms in simp)

lemma run_events_ok:
  assumes "thread_ok t" "EDetach \<notin> set es" "th_joined t \<or> (\<forall>pre post. es = pre @ EDestroy # post \<longrightarrow> EJoin \<in> set pre)"
  shows "run_events es t \<noteq> Undefined \<and> (\<forall>t'. run_events es t = State t' \<longrightarrow> thread_ok t')"
  using assms
proof (induction es arbitrary: t)
  case (Cons e es)
  show ?case
  proof (cases "enabled e t")
    case True
    have "e = EDestroy \<longrightarrow> th_joined t" using Cons.prems(3) by (metis append_Nil empty_iff empty_set)
    with event_step_ok [OF Cons.prems(1) True] Cons.prems(2) obtain t' where
      t': "event_step e t = Some t'" "thread_ok t'" "th_joined t' \<longleftrightarrow> th_joined t \<or> e = EJoin" by auto
    have "EJoin \<in> set pre" if "\<not> th_joined t'" "es = pre @ EDestroy # post" for pre post
    proof -
      have "EJoin \<in> set (e # pre)" using Cons.prems(3) t'(3) that by (metis append_Cons)
      then show ?thesis using t'(3) that(1) by auto
    qed
    then have "th_joined t' \<or> (\<forall>pre post. es = pre @ EDestroy # post \<longrightarrow> EJoin \<in> set pre)" by blast
    then show ?thesis using Cons.IH [OF t'(2)] Cons.prems(2) t'(1) by simp
  qed simp
qed simp

section \<open>Properties\<close>

text \<open>C29: an owner that joins before it destroys the object and never detaches is safe in every interleaving: nothing is
  undefined, the thread is released exactly once, its function runs exactly once and has returned when \<^verbatim>\<open>Join\<close> has.\<close>

theorem join_before_destroy_is_safe:
  assumes "joins_first es"
  shows "run_events es new_Thread \<noteq> Undefined \<and>
    (\<forall>t. run_events es new_Thread = State t \<longrightarrow> (th_joined t \<longleftrightarrow> th_os t = Released_thread) \<and> (th_joined t \<longrightarrow> th_pc t = Returned \<and> th_calls t = 1))"
  using run_events_ok [of new_Thread es] assms by (simp add: joins_first_def thread_ok_def new_Thread_def)

theorem join_before_destroy_is_safe_witness:
  "run_events [EBegin 7, EEnd, EJoin, EDestroy] new_Thread = State \<lparr>th_joined = True, th_tid = 7, th_alive = False,
     th_os = Released_thread, th_pc = Returned, th_calls = 1\<rparr> \<and> run_events [EBegin 7, EEnd, EJoin, EDestroy] new_Thread \<noteq> Undefined"
proof -
  have "joins_first [EBegin 7, EEnd, EJoin, EDestroy]"
    by (auto simp: joins_first_def Cons_eq_append_conv)
  from join_before_destroy_is_safe [OF this] show ?thesis
    by (simp add: new_Thread_def run_begin_def Join_def release_def destroy_Thread_def)
qed

text \<open>After an explicit \<^verbatim>\<open>Detach\<close> the destructor detaches the thread a second time, and a join is undefined too, since
  \<^verbatim>\<open>_joined\<close> does not record it; and an object destroyed before its thread has begun is written to by the thread.\<close>

theorem detach_breaks_thread:
  "run_events [EDetach, EDestroy] new_Thread = Undefined \<and>
   run_events [EDetach, EBegin tid, EEnd, EJoin] new_Thread = Undefined \<and>
   run_events [EDestroy, EBegin tid] new_Thread = Undefined"
  by (simp_all add: new_Thread_def Detach_def destroy_Thread_def release_def run_begin_def Join_def)

end
