(* ===== verification/Thread_Id.thy ===== *)
theory Thread_Id
  imports C_Strings
begin

text \<open>
  The id of the calling thread (\<^verbatim>\<open>namespace this_thread\<close> in \<^verbatim>\<open>src/base/std/thread.cpp\<close>), cached in thread-local variables
  together with its text, and the exception handlers around the function of a thread. The kernel's
  answer to \<^verbatim>\<open>gettid\<close> is an argument. The theory proves that the cache agrees with the kernel over any
  number of calls and forks, and that a function that throws always ends the process.
\<close>

section \<open>The cached id\<close>

record thread_local =
  tls_tid :: int
  tls_str :: bytes
  tls_len :: int

text \<open>Thread-local variables without an initialiser are zero.\<close>

definition new_thread_local :: thread_local where
  "new_thread_local = \<lparr>tls_tid = 0, tls_str = replicate 32 (CHR 0x00), tls_len = 0\<rparr>"

text \<open>The conversion \<^verbatim>\<open>%5d\<close> and the space behind it.\<close>

definition tid_text :: "int \<Rightarrow> string" where
  "tid_text n = (let s = show_int n in replicate (5 - length s) (CHR '' '') @ s @ '' '')"

definition cacheTid :: "int \<Rightarrow> thread_local \<Rightarrow> thread_local option" where
  "cacheTid gettid t =
     (if tls_tid t = 0
      then (case snprintf_at (tls_str t) 0 32 (tid_text gettid) of
              None \<Rightarrow> None | Some (n, arr) \<Rightarrow> Some (t\<lparr>tls_tid := gettid, tls_str := arr, tls_len := n\<rparr>))
      else Some t)"

definition GetTid :: "int \<Rightarrow> thread_local \<Rightarrow> (int \<times> thread_local) option" where
  "GetTid gettid t = (if tls_tid t = 0 then map_option (\<lambda>t. (tls_tid t, t)) (cacheTid gettid t) else Some (tls_tid t, t))"

definition GetTid_str :: "thread_local \<Rightarrow> bytes" where
  "GetTid_str t = tls_str t"

definition GetTid_strlen :: "thread_local \<Rightarrow> int" where
  "GetTid_strlen t = tls_len t"

text \<open>The handler in the child after a fork.\<close>

definition afterFork :: "int \<Rightarrow> thread_local \<Rightarrow> thread_local option" where
  "afterFork gettid t = map_option snd (GetTid gettid (t\<lparr>tls_tid := 0\<rparr>))"

text \<open>The static object of the main thread; \<open>True\<close> tells that the handler is registered.\<close>

definition ThreadLocalInitializer :: "int \<Rightarrow> thread_local \<Rightarrow> (bool \<times> thread_local) option" where
  "ThreadLocalInitializer gettid t = map_option (\<lambda>(_, t). (True, t)) (GetTid gettid (t\<lparr>tls_tid := 0\<rparr>))"

text \<open>What happens to a thread: it asks for its id, or it forks and goes on as the child, whose kernel id is given.\<close>

datatype id_event = IGet | IFork int

fun id_run :: "id_event list \<Rightarrow> int \<Rightarrow> thread_local \<Rightarrow> (int list \<times> thread_local) option" where
  "id_run [] pid t = Some ([], t)"
| "id_run (IGet # es) pid t =
     (case GetTid pid t of None \<Rightarrow> None
      | Some (n, t) \<Rightarrow> map_option (\<lambda>(ns, t). (n # ns, t)) (id_run es pid t))"
| "id_run (IFork child # es) pid t =
     (case afterFork child t of None \<Rightarrow> None | Some t \<Rightarrow> id_run es child t)"

section \<open>Running the function of a thread\<close>

datatype func_result = Func_returns | Func_throws string | Func_throws_other

datatype run_result = Run_returned | Run_aborted | Run_rethrown

text \<open>\<^verbatim>\<open>runInThread\<close>: the id stored for the owner, what is printed to the standard error stream, and how it ends. An exception that is thrown again
  leaves the start routine of the thread, which ends the process too.\<close>

definition runInThread :: "int \<Rightarrow> func_result \<Rightarrow> thread_local \<Rightarrow> (int \<times> string list \<times> run_result \<times> thread_local) option" where
  "runInThread gettid f t =
     (case GetTid gettid t of
        None \<Rightarrow> None
      | Some (n, t) \<Rightarrow>
          (case f of
             Func_returns \<Rightarrow> Some (n, [], Run_returned, t)
           | Func_throws what \<Rightarrow>
               map_option (\<lambda>(m, t). (n, [''exception caught in Thread '' @ show_int m @ [CHR 0x0A], ''reason: '' @ what @ [CHR 0x0A]], Run_aborted, t)) (GetTid gettid t)
           | Func_throws_other \<Rightarrow>
               map_option (\<lambda>(m, t). (n, [''unknown exception caught in Thread '' @ show_int m @ [CHR 0x0A]], Run_rethrown, t)) (GetTid gettid t)))"

definition process_ends :: "run_result \<Rightarrow> bool" where
  "process_ends r \<longleftrightarrow> r = Run_aborted \<or> r = Run_rethrown"

section \<open>Lemmas\<close>

definition pid_ok :: "int \<Rightarrow> bool" where
  "pid_ok n \<longleftrightarrow> 0 < n \<and> n < 2 ^ 31"

text \<open>The cache is empty or holds the id with its text, terminated.\<close>

definition tls_ok :: "int \<Rightarrow> thread_local \<Rightarrow> bool" where
  "tls_ok pid t \<longleftrightarrow> length (tls_str t) = 32 \<and>
     (tls_tid t \<noteq> 0 \<longrightarrow> tls_tid t = pid \<and> tls_len t = int (length (tid_text pid)) \<and>
        (\<exists>rest. tls_str t = tid_text pid @ CHR 0x00 # rest))"

lemma length_tid_text: "pid_ok n \<Longrightarrow> length (tid_text n) \<le> 12"
  using length_show_int [of n 10] by (simp add: pid_ok_def tid_text_def Let_def)

lemma cacheTid_ok:
  assumes "pid_ok pid" and "length (tls_str t) = 32" and "tls_tid t = 0"
  shows "\<exists>t'. cacheTid pid t = Some t' \<and> tls_ok pid t' \<and> tls_tid t' = pid"
proof -
  have "take 31 (tid_text pid) = tid_text pid" "length (tid_text pid) \<le> 12" using length_tid_text [OF assms(1)] by simp_all
  then show ?thesis using assms by (simp add: cacheTid_def snprintf_at_Some tls_ok_def)
qed

lemma GetTid_ok:
  assumes "pid_ok pid" and "tls_ok pid t"
  shows "\<exists>t'. GetTid pid t = Some (pid, t') \<and> tls_ok pid t' \<and> tls_tid t' = pid"
proof (cases "tls_tid t = 0")
  case True
  then show ?thesis using cacheTid_ok [OF assms(1), of t] assms(2) by (auto simp: GetTid_def tls_ok_def)
qed (use assms(2) in \<open>auto simp: GetTid_def tls_ok_def\<close>)

lemma afterFork_ok:
  assumes "pid_ok child" and "tls_ok pid t"
  shows "\<exists>t'. afterFork child t = Some t' \<and> tls_ok child t' \<and> tls_tid t' = child"
proof -
  have "tls_ok child (t\<lparr>tls_tid := 0\<rparr>)" using assms(2) by (simp add: tls_ok_def)
  from GetTid_ok [OF assms(1) this] show ?thesis by (auto simp: afterFork_def)
qed

text \<open>The answers of the kernel at the calls, and its last one.\<close>

fun kernel_ids :: "id_event list \<Rightarrow> int \<Rightarrow> int list" where
  "kernel_ids [] pid = []"
| "kernel_ids (IGet # es) pid = pid # kernel_ids es pid"
| "kernel_ids (IFork child # es) pid = kernel_ids es child"

fun kernel_last :: "id_event list \<Rightarrow> int \<Rightarrow> int" where
  "kernel_last [] pid = pid"
| "kernel_last (IGet # es) pid = kernel_last es pid"
| "kernel_last (IFork child # es) pid = kernel_last es child"

lemma id_run_ok:
  assumes "pid_ok pid" and "tls_ok pid t" and "\<forall>p. IFork p \<in> set es \<longrightarrow> pid_ok p"
  shows "\<exists>t'. id_run es pid t = Some (kernel_ids es pid, t') \<and> tls_ok (kernel_last es pid) t'"
  using assms
proof (induction es arbitrary: pid t)
  case (Cons e es)
  show ?case
  proof (cases e)
    case IGet
    from GetTid_ok [OF Cons.prems(1,2)] obtain t1 where t1: "GetTid pid t = Some (pid, t1)" "tls_ok pid t1" by blast
    with Cons.IH [OF Cons.prems(1) t1(2)] Cons.prems(3) IGet show ?thesis by auto
  next
    case (IFork child)
    then have c: "pid_ok child" using Cons.prems(3) by simp
    from afterFork_ok [OF this Cons.prems(2)] obtain t1 where t1: "afterFork child t = Some t1" "tls_ok child t1" by blast
    with Cons.IH [OF c t1(2)] Cons.prems(3) IFork show ?thesis by auto
  qed
qed simp

section \<open>Properties\<close>

text \<open>C17: the cached thread id is the kernel's. Whatever a thread does, over any sequence of calls and of forks it goes on
  from as the child, \<^verbatim>\<open>GetTid\<close> is defined and returns at each call the id the kernel has for the caller at that time,
  and once an id is cached, the text and its length next to it are those of the current id, null-terminated within the array.\<close>

theorem cached_tid_is_kernel_tid:
  assumes "pid_ok pid" and "\<forall>p. IFork p \<in> set es \<longrightarrow> pid_ok p"
  shows "\<exists>t. id_run es pid new_thread_local = Some (kernel_ids es pid, t) \<and>
    (tls_tid t \<noteq> 0 \<longrightarrow> tls_tid t = kernel_last es pid \<and> GetTid_strlen t = int (length (tid_text (kernel_last es pid))) \<and>
       length (GetTid_str t) = 32 \<and> (\<exists>rest. GetTid_str t = tid_text (kernel_last es pid) @ CHR 0x00 # rest))"
proof -
  have "tls_ok pid new_thread_local" by (simp add: tls_ok_def new_thread_local_def)
  from id_run_ok [OF assms(1) this assms(2)] show ?thesis by (auto simp: tls_ok_def GetTid_str_def GetTid_strlen_def)
qed

theorem cached_tid_is_kernel_tid_witness:
  "\<exists>t. id_run [IGet, IFork 4711, IGet, IGet] 42 new_thread_local = Some ([42, 4711, 4711], t) \<and> pid_ok 42 \<and> pid_ok 4711"
  using cached_tid_is_kernel_tid [of 42 "[IGet, IFork 4711, IGet, IGet]"] by (auto simp: pid_ok_def)

text \<open>An exception never leaves a thread silently. A function that returns prints nothing; one that throws anything at all ends the
  process, after a line with the id of the thread, and for a standard exception a second one with its text.\<close>

theorem escaping_exception_ends_process:
  assumes "pid_ok pid"
  shows "\<exists>out r t. runInThread pid f new_thread_local = Some (pid, out, r, t) \<and>
    (process_ends r \<longleftrightarrow> f \<noteq> Func_returns) \<and> (out = [] \<longleftrightarrow> f = Func_returns) \<and>
    (f \<noteq> Func_returns \<longrightarrow> (\<exists>pre. hd out = pre @ show_int pid @ [CHR 0x0A])) \<and> (\<forall>what. f = Func_throws what \<longrightarrow> last out = ''reason: '' @ what @ [CHR 0x0A])"
proof -
  have "tls_ok pid new_thread_local" by (simp add: tls_ok_def new_thread_local_def)
  from GetTid_ok [OF assms this] obtain t where t: "GetTid pid new_thread_local = Some (pid, t)" "tls_ok pid t" by blast
  from GetTid_ok [OF assms t(2)] obtain t' where t': "GetTid pid t = Some (pid, t')" by blast
  have "\<exists>pre. ''exception caught in Thread '' @ show_int pid @ [CHR 0x0A] = pre @ show_int pid @ [CHR 0x0A]"
    "\<exists>pre. ''unknown exception caught in Thread '' @ show_int pid @ [CHR 0x0A] = pre @ show_int pid @ [CHR 0x0A]" by blast+
  then show ?thesis by (cases f) (use t t' in \<open>simp_all add: runInThread_def process_ends_def del: append.simps\<close>)
qed

theorem escaping_exception_ends_process_witness:
  "\<exists>out r t. runInThread 7 (Func_throws ''bad'') new_thread_local = Some (7, out, r, t) \<and> process_ends r \<and> last out = ''reason: bad'' @ [CHR 0x0A]"
  using escaping_exception_ends_process [of 7 "Func_throws ''bad''"] by (auto simp: pid_ok_def)

end
