(* ===== verification/Spec2Isabelle.thy ===== *)
theory Spec2Isabelle
  imports Timer_Loop Rbtree_Dump Example_Main Http_Loop Io_Worker Thread_Pool Any Shared_Queue Posix_Thread Thread_Id
begin

text \<open>
  A verification library for yamq, a small C++ network and logging library. The program is a reactor:
  an event dispatcher polls descriptors, calls the channels registered for them and runs functors other
  threads have queued; connections, acceptors and the timer queue are channels; servers create
  connections, and an HTTP server parses requests from their input buffers and writes responses to
  their output buffers. Beside it stand the asynchronous log, which every part calls, a thread pool
  and a few utilities.

  \<^bold>\<open>Conventions.\<close> A definition carries the name of the function it translates, and its theory names the
  source file. Objects are records with the source's members, enumerations are datatypes. An operation
  whose C++ text may have no defined result (an access outside an array, a null or dangling pointer, a
  signed overflow, an uninitialised pointer) returns an option and is \<open>None\<close> there; so is a loop
  that never returns (\<open>partial_function (option)\<close>). A call that ends in \<^verbatim>\<open>abort()\<close>, as every
  \<^verbatim>\<open>LOG(FATAL)\<close> does, is \<open>Aborted\<close>. The libraries are built with \<^verbatim>\<open>NDEBUG\<close>, so an \<^verbatim>\<open>assert\<close>
  guards nothing. Integers are mathematical, with \<open>cint\<close>, \<open>clong\<close>, \<open>culong\<close> and \<open>cshort\<close> at the
  conversions where the width matters, and 32-bit words where bytes are swapped. System calls, the
  clock, user callbacks, the demangler and what uninitialised storage holds are arguments; what is assumed
  of them is a named hypothesis of the theorem, met by a concrete instance in its witness. Concurrent code
  is a step relation whose steps are the critical sections (or the unlocked accesses between them), with
  condition variables and spurious wake-ups explicit, and properties of it are invariants of all
  reachable states.

  \<^bold>\<open>Input and output\<close> (\<^verbatim>\<open>src/rpc/\<close>). \<^theory_text>\<open>Io_Buffer\<close> is \<^verbatim>\<open>io_buffer.cpp\<close>: the array with its reader
  and writer index, growth and compaction, integers in network byte order, the search for a line end.
  It is a queue of bytes in the sense of the locale \<open>byte_queue\<close>, whose facts the first property
  rests on. \<^theory_text>\<open>Selectors\<close> has the poll and epoll selectors as implementations of a table of interests
  (locale \<open>interest_table\<close>), the poll one with its swap with the last entry on removal. \<^theory_text>\<open>Event_Dispatcher\<close>
  has channels, registration, \<^verbatim>\<open>Wakeup\<close> and the pending functors, both in sequence and
  interleaved with the callers of \<^verbatim>\<open>SyncRunInEvd\<close>, whose wake-up of a loop that calls its functors is a step of its own; \<open>in_sync\<close> says that selector, channel table and
  channels agree. \<^theory_text>\<open>Event_Loop\<close> is \<^verbatim>\<open>EventDispatcher::Start\<close>: construction, the batch of events, a round and the
  loop, over any state the handlers work on, with a connection that writes out its queue as an instance.

  \<^bold>\<open>Timers\<close> (\<^verbatim>\<open>src/base/rbtree/\<close>, \<^verbatim>\<open>src/rpc/timer/\<close>). \<^theory_text>\<open>Rbtree_Heap\<close> translates the pointer-based
  red-black tree statement by statement over an explicit heap, the sentinel included. \<^theory_text>\<open>Rbtree_Rep\<close>
  relates a heap to a tree with a zipper for the position of the loops; \<^theory_text>\<open>Rbtree_Insert\<close>,
  \<^theory_text>\<open>Rbtree_Query\<close>, \<^theory_text>\<open>Rbtree_Del_Fixup\<close> and \<^theory_text>\<open>Rbtree_Delete\<close> prove termination, order, contents and the
  colour invariants of the operations as far as they hold; \<^theory_text>\<open>Rbtree_Dump\<close> is the
  drawing of a tree by a traversal with a bounded backlog. \<^theory_text>\<open>Timer_Queue\<close> is the queue on top,
  which sees the tree through the locale \<open>min_store\<close>: adding, cancelling, expiry with repetition,
  and the timer descriptor, armed for the least expiry. \<^theory_text>\<open>Evd_Timers\<close> is the interface of the dispatcher to it, in
  milliseconds, and the clock as text. \<^theory_text>\<open>Timer_Loop\<close> runs a dispatcher with its queue: \<^verbatim>\<open>AddTimer\<close> calls and rounds of the loop in any
  order (\<open>timer_run\<close>), in which the descriptor can be read once its alarm is due, refine a sorted list of alarms (\<open>spec_step\<close>), and no
  timer is forgotten.

  \<^bold>\<open>TCP and HTTP\<close> (\<^verbatim>\<open>src/rpc/tcp/\<close>, \<^verbatim>\<open>src/rpc/http/\<close>). \<^theory_text>\<open>Connection\<close> has reading, writing, queueing
  and closing; \<open>conn_ok\<close> ties write interest to queued bytes. \<^theory_text>\<open>Tcp_Server\<close> has the acceptor and the
  single-loop server. \<^theory_text>\<open>Multi_Server\<close> is the server with worker loops, running: every loop is a thread whose
  step is one handler, one functor or one of the loop's own actions (\<open>loop_step\<close>), the steps of all loops
  interleave, at any time other threads send on connections (\<open>ms_Send\<close>) or close them (\<open>ms_ForceClose\<close>), and connections are shared objects that die with their last reference. \<^theory_text>\<open>Multi_Invariant\<close> has
  its invariant, \<open>ms_inv\<close>; \<^theory_text>\<open>Multi_Safety\<close> lists what the code does not survive (\<open>hazard\<close>) and proves that outside of it no reachable step fails, over any message callback that
  meets the locale \<open>message_callback\<close>, with the echo server of the tests as the first instance (by \<open>conn_callback\<close>, for those that leave the connection open); \<^theory_text>\<open>Multi_Progress\<close>
  shows that queued functors get done, messages of other threads in the order of the calls, and what happens when the application keeps no reference to a
  connection, a connection is closed twice or a loop cannot be woken up. \<^theory_text>\<open>Io_Worker\<close> is the life of a worker: its thread, \<^verbatim>\<open>GetEvd\<close> and the
  destructor, which with a dispatcher as constructed does not get past \<^verbatim>\<open>Stop\<close>. \<^theory_text>\<open>Http_Request\<close>,
  \<^theory_text>\<open>Http_Context\<close> and \<^theory_text>\<open>Http_Response\<close> are the request object, the incremental parser on the buffer
  and the serialiser; \<^theory_text>\<open>Http_Server\<close> composes them with the connection into one exchange, and \<^theory_text>\<open>Http_Loop\<close> puts
  the exchange into the running TCP server, where a reply that closes goes through the table and the loop: the second
  instance of \<open>message_callback\<close>.

  \<^bold>\<open>Logging\<close> (\<^verbatim>\<open>src/log/\<close>). \<^theory_text>\<open>C_Strings\<close> has what is used of formatted output. \<^theory_text>\<open>Log_Stream\<close> is the
  bounded buffer with the number conversions; \<^theory_text>\<open>Log_File\<close> the append-only file and its rolling over a
  model of the file system with the buffers of \<^verbatim>\<open>stdio\<close>, providing the contracts \<open>log_sink\<close> and \<open>durable_sink\<close>;
  \<^theory_text>\<open>Async_Logging\<close> the worker with its producers, its backend thread and its destructor, proved over them; \<^theory_text>\<open>Stack_Trace\<close> the parser of symbols and
  the formatting of frames; \<^theory_text>\<open>Logging\<close> composes all of them into what one log statement does, with either of the two ways to save a line; \<^theory_text>\<open>Example_Main\<close> is
  the example program, from \<^verbatim>\<open>initLogging\<close> to what a reader of its log finds.

  \<^bold>\<open>Base\<close> (\<^verbatim>\<open>src/base/\<close>). \<^theory_text>\<open>Thread_Pool\<close>, \<^theory_text>\<open>Shared_Queue\<close> and \<^theory_text>\<open>Posix_Thread\<close> are step relations or
  schedules of events; \<^theory_text>\<open>Thread_Id\<close> has the cached thread id over forks and the exception handlers of a thread; \<^theory_text>\<open>Any\<close> is the typed value with its ownership of heap objects. \<^theory_text>\<open>Yamq_Prelude\<close> has
  the conversions, the bounded accesses to arrays and the lemma collection \<open>cpp_arith\<close>.

  \<^bold>\<open>What the lemmas show.\<close> Invariants: buffer indices, red-black trees, selector tables, dispatcher and
  channels in step, timers armed, servers, pools of buffers, ownership. Functional results on every
  branch, errors included. Refinements: buffers to byte queues, selectors to tables, the tree to sorted
  entries, \<^verbatim>\<open>Any\<close> to values. Round trips: printing and parsing requests, integers in buffers and in log
  lines. Several theorems state defects of the code as it is: a header section without its line end hangs
  the parser, deletions can break the tree, a log worker stopped while idle never returns, closing a
  connection cuts its response, an accept error ends the server, a loop cannot be woken up, the end of a stream
  is written into an object that is already destroyed, a worker cannot be destroyed, a negative delay stops all timers.

  \<^bold>\<open>Bounds and fuel.\<close> The loops over the tree and of the parser are \<open>partial_function (option)\<close>; the
  theorems state that they return. So is the wait for the log backend in the destructor of its worker, which the shutdown theorem
  shows to end. There is no fuel. Sizes are bounded where
  C++ types bound them: buffers below 2^31 bytes (\<open>has_room\<close>), files by \<open>log_cap\<close>, ids below 2^31 or 2^63.
  A loop (\<open>event_loop\<close>, \<open>run_schedule\<close>) runs over a list of rounds or steps of any length; the liveness
  theorems give lengths that are enough: one round per queued byte, one step per queued functor and one more.

  \<^bold>\<open>What the safety of the servers covers.\<close> The loops start as \<^verbatim>\<open>EventDispatcher\<close> constructs them, with \<^verbatim>\<open>_wakeup_fds[0]\<close> not set
  (\<open>server_ready\<close>). \<open>input_ok\<close> has the documented results of \<^verbatim>\<open>epoll_wait\<close>, \<^verbatim>\<open>accept4\<close> and \<^verbatim>\<open>readv\<close>, failures and the end of a
  stream included, fresh handles and ids, sizes below the bounds, and bytes the message callback is made for. \<open>hazard\<close> lists the
  situations in which the next step of the code fails or may do harm: a failed \<^verbatim>\<open>accept4\<close> or \<^verbatim>\<open>readv\<close>, which ends the process; a
  functor for another loop that is just calling its own (a new connection for a worker, the end of a connection for the accepting loop), whose
  wake-up uses the descriptor that is not set; the end of a stream when the same
  event has further handlers; \<^verbatim>\<open>HandleRead\<close> behind the close callback on a connection nobody refers to; and
  the lambda of a \<^verbatim>\<open>ForceClose\<close> that comes to a connection already closed. \<open>server_runs\<close> is what the started server reaches without taking a step in a
  hazard, other threads sending and closing at any time at which the loop they call is not calling its functors; in all these states every
  step is in a hazard or defined. Theorems of \<^theory_text>\<open>Multi_Progress\<close>, \<^theory_text>\<open>Event_Loop\<close> and \<^theory_text>\<open>Tcp_Server\<close> show what happens in the
  hazards. \<open>ms_steps\<close> in \<^theory_text>\<open>Http_Loop\<close> is every sequence of defined steps, hazards included.

  \<^bold>\<open>Not modelled.\<close> Inside the running server of \<^theory_text>\<open>Multi_Server\<close>, the timer and wake-up channels beyond their presence;
  data races of unlocked members are not separate steps. \<^verbatim>\<open>rpc/tcp/connector.h\<close>, \<^verbatim>\<open>rpc/tcp/codec.h\<close>,
  \<^verbatim>\<open>rpc/filter_chain.h\<close> and \<^verbatim>\<open>rpc/protobuf/\<close> only declare functions that have no definition,
  \<^verbatim>\<open>rpc/timer.h\<close> is commented out, and the tests only call the library.
\<close>

end
